(* ===== verification/Prelude.thy ===== *)
theory Prelude
  imports Main "HOL-Library.Word" "HOL-Library.Monad_Syntax"
begin

text \<open>
  Shared vocabulary of the development: the machine types of the C sources, memory reads that
  make an out-of-bounds access visible, and the generic lemmas on bytes, options and lists that
  the component theories use.

  A C pointer into a byte array is modelled by the list of the bytes that may be read from it.
  \<open>peek s i\<close> is the read \<open>s[i]\<close>: it is \<open>None\<close> when the read would leave that memory, so a
  function whose result is \<open>Some\<close> has been shown not to read out of bounds.
\<close>

unbundle bit_operations_syntax

type_synonym byte = "8 word"
type_synonym pg_wchar = "32 word"

named_theorems mem_simps "reads and writes of modelled memory"

section \<open>Memory reads and writes\<close>

definition peek :: "'a list \<Rightarrow> nat \<Rightarrow> 'a option" where
  "peek s i = (if i < length s then Some (s ! i) else None)"

definition poke :: "'a list \<Rightarrow> nat \<Rightarrow> 'a \<Rightarrow> 'a list option" where
  "poke s i b = (if i < length s then Some (s[i := b]) else None)"

definition blit :: "'a list \<Rightarrow> nat \<Rightarrow> 'a list \<Rightarrow> 'a list option" where
  "blit s i bs = (if i + length bs \<le> length s
     then Some (take i s @ bs @ drop (i + length bs) s) else None)"

lemma peek_Some_iff [mem_simps]: "peek s i = Some b \<longleftrightarrow> i < length s \<and> s ! i = b"
  by (auto simp: peek_def)

lemma peek_None_iff [mem_simps]: "peek s i = None \<longleftrightarrow> length s \<le> i"
  by (auto simp: peek_def)

lemma peek_Cons_0 [simp]: "peek (b # s) 0 = Some b"
  by (simp add: peek_def)

lemma peek_Cons_Suc [simp]: "peek (b # s) (Suc i) = peek s i"
  by (simp add: peek_def)

lemma peek_Nil [simp]: "peek [] i = None"
  by (simp add: peek_def)

lemma peek_Cons_numeral [simp]: "peek (b # s) (numeral k) = peek s (pred_numeral k)"
  by (simp add: peek_def numeral_eq_Suc)

lemma peek_Cons_1 [simp]: "peek (b # s) 1 = peek s 0"
  by (simp add: peek_def)

lemma peek_append1: "i < length s \<Longrightarrow> peek (s @ t) i = peek s i"
  by (simp add: peek_def nth_append)

lemma peek_in_bounds: "i < length s \<Longrightarrow> peek s i = Some (s ! i)"
  by (simp add: peek_def)

lemma length_poke: "poke s i b = Some t \<Longrightarrow> length t = length s"
  by (auto simp: poke_def split: if_splits)

lemma length_blit: "blit s i bs = Some t \<Longrightarrow> length t = length s"
  by (auto simp: blit_def split: if_splits)

section \<open>Bytes\<close>

text \<open>The macro \<open>IS_HIGHBIT_SET\<close> of \<open>c.h\<close>.\<close>

definition IS_HIGHBIT_SET :: "byte \<Rightarrow> bool" where
  "IS_HIGHBIT_SET c \<longleftrightarrow> c AND 0x80 \<noteq> 0"

text \<open>A property of one byte is decided by looking at all 256 of them.\<close>

definition bytes256 :: "byte list" where
  "bytes256 =
    [0, 1, 2, 3, 4, 5, 6, 7, 8, 9, 10, 11, 12, 13, 14, 15, 16, 17, 18, 19,
     20, 21, 22, 23, 24, 25, 26, 27, 28, 29, 30, 31, 32, 33, 34, 35, 36, 37, 38, 39,
     40, 41, 42, 43, 44, 45, 46, 47, 48, 49, 50, 51, 52, 53, 54, 55, 56, 57, 58, 59,
     60, 61, 62, 63, 64, 65, 66, 67, 68, 69, 70, 71, 72, 73, 74, 75, 76, 77, 78, 79,
     80, 81, 82, 83, 84, 85, 86, 87, 88, 89, 90, 91, 92, 93, 94, 95, 96, 97, 98, 99,
     100, 101, 102, 103, 104, 105, 106, 107, 108, 109, 110, 111, 112, 113, 114, 115, 116, 117, 118, 119,
     120, 121, 122, 123, 124, 125, 126, 127, 128, 129, 130, 131, 132, 133, 134, 135, 136, 137, 138, 139,
     140, 141, 142, 143, 144, 145, 146, 147, 148, 149, 150, 151, 152, 153, 154, 155, 156, 157, 158, 159,
     160, 161, 162, 163, 164, 165, 166, 167, 168, 169, 170, 171, 172, 173, 174, 175, 176, 177, 178, 179,
     180, 181, 182, 183, 184, 185, 186, 187, 188, 189, 190, 191, 192, 193, 194, 195, 196, 197, 198, 199,
     200, 201, 202, 203, 204, 205, 206, 207, 208, 209, 210, 211, 212, 213, 214, 215, 216, 217, 218, 219,
     220, 221, 222, 223, 224, 225, 226, 227, 228, 229, 230, 231, 232, 233, 234, 235, 236, 237, 238, 239,
     240, 241, 242, 243, 244, 245, 246, 247, 248, 249, 250, 251, 252, 253, 254, 255]"

lemma bytes256_upt: "bytes256 = map word_of_nat [0..<256]"
  by (simp add: bytes256_def upt_rec_numeral upt_rec [of 0] upt_rec [of "Suc 0"]
      numeral_2_eq_2 [symmetric])

lemma all_bytesI: assumes "list_all P bytes256" shows "P b"
proof -
  have "unat b \<in> set [0..<256]" using unsigned_less [of b] by simp
  then have "word_of_nat (unat b) \<in> set bytes256"
    by (simp only: bytes256_upt set_map) (rule imageI)
  then show ?thesis using assms by (simp add: list_all_iff)
qed

text \<open>
  The masks the sources apply to bytes, read as ranges of the byte's value. They put every
  question about one byte into linear arithmetic on \<open>unat b\<close>.
\<close>

named_theorems byte_masks "masks of bytes as arithmetic on unat"

lemma unat_byte_less [simp]: "unat (b :: byte) < 256"
  using unsigned_less [of b] by simp

lemma byte_le_iff: "(a :: byte) \<le> b \<longleftrightarrow> unat a \<le> unat b"
  by (rule word_le_nat_alt)

lemma byte_less_iff: "(a :: byte) < b \<longleftrightarrow> unat a < unat b"
  by (rule word_less_nat_alt)

lemma IS_HIGHBIT_SET_unat [byte_masks]: "IS_HIGHBIT_SET b \<longleftrightarrow> 128 \<le> unat b"
  by (rule all_bytesI [where b = b]) (simp add: bytes256_def IS_HIGHBIT_SET_def)

lemma and_80_0 [byte_masks]: "(b :: byte) AND 0x80 = 0 \<longleftrightarrow> unat b < 128"
  using IS_HIGHBIT_SET_unat [of b] by (metis IS_HIGHBIT_SET_def not_le)

lemma and_e0_c0 [byte_masks]:
  "(b :: byte) AND 0xe0 = 0xc0 \<longleftrightarrow> 192 \<le> unat b \<and> unat b < 224"
  by (rule all_bytesI [where b = b]) (simp add: bytes256_def)

lemma and_f0_e0 [byte_masks]:
  "(b :: byte) AND 0xf0 = 0xe0 \<longleftrightarrow> 224 \<le> unat b \<and> unat b < 240"
  by (rule all_bytesI [where b = b]) (simp add: bytes256_def)

lemma and_f8_f0 [byte_masks]:
  "(b :: byte) AND 0xf8 = 0xf0 \<longleftrightarrow> 240 \<le> unat b \<and> unat b < 248"
  by (rule all_bytesI [where b = b]) (simp add: bytes256_def)

lemma IS_HIGHBIT_SET_iff: "IS_HIGHBIT_SET b \<longleftrightarrow> 0x80 \<le> b"
  by (simp add: IS_HIGHBIT_SET_unat byte_le_iff)

lemma not_HIGHBIT_0 [simp]: "\<not> IS_HIGHBIT_SET 0"
  by (simp add: IS_HIGHBIT_SET_def)

section \<open>Lists of a known minimal length\<close>

lemma list_ge2: "2 \<le> length s \<Longrightarrow> \<exists>a b r. s = a # b # r"
  by (auto simp: numeral_eq_Suc Suc_le_length_iff)

lemma list_ge3: "3 \<le> length s \<Longrightarrow> \<exists>a b c r. s = a # b # c # r"
  by (auto simp: numeral_eq_Suc Suc_le_length_iff)

lemma list_ge4: "4 \<le> length s \<Longrightarrow> \<exists>a b c d r. s = a # b # c # d # r"
  by (auto simp: numeral_eq_Suc Suc_le_length_iff)

section \<open>Calls that return\<close>

text \<open>A call returns, that is, neither leaves its memory nor runs for ever, and its result satisfies \<open>P\<close>.\<close>

definition returns :: "'a option \<Rightarrow> ('a \<Rightarrow> bool) \<Rightarrow> bool" where
  "returns m P \<longleftrightarrow> (\<exists>x. m = Some x \<and> P x)"

lemma returns_Some [simp]: "returns (Some x) P \<longleftrightarrow> P x"
  by (simp add: returns_def)

lemma returns_None [simp]: "\<not> returns None P"
  by (simp add: returns_def)

lemma returns_bind: "returns (Option.bind m f) P \<longleftrightarrow> returns m (\<lambda>x. returns (f x) P)"
  by (cases m) simp_all

lemma returns_map: "returns (map_option f m) P \<longleftrightarrow> returns m (\<lambda>x. P (f x))"
  by (cases m) simp_all

lemma returns_mono: "returns m Q \<Longrightarrow> (\<And>x. Q x \<Longrightarrow> P x) \<Longrightarrow> returns m P"
  by (auto simp: returns_def)

lemma returns_conj: "returns m P \<Longrightarrow> returns m Q \<Longrightarrow> returns m (\<lambda>x. P x \<and> Q x)"
  by (auto simp: returns_def)

text \<open>The rule for a sequence: what the first call establishes is what the rest may assume.\<close>

lemma returns_seq: "returns m Q \<Longrightarrow> (\<And>x. Q x \<Longrightarrow> returns (f x) P) \<Longrightarrow> returns (Option.bind m f) P"
  unfolding returns_bind by (rule returns_mono)

lemma returns_seq2:
  "returns m (\<lambda>(a, b). Q a b) \<Longrightarrow> (\<And>a b. Q a b \<Longrightarrow> returns (f a b) P) \<Longrightarrow> returns (Option.bind m (\<lambda>(a, b). f a b)) P"
  by (auto simp: returns_def)

lemma returns_seq3:
  "returns m (\<lambda>(a, b, c). Q a b c) \<Longrightarrow> (\<And>a b c. Q a b c \<Longrightarrow> returns (f a b c) P)
    \<Longrightarrow> returns (Option.bind m (\<lambda>(a, b, c). f a b c)) P"
  by (auto simp: returns_def)

lemma returns_mapI: "returns m Q \<Longrightarrow> (\<And>x. Q x \<Longrightarrow> P (f x)) \<Longrightarrow> returns (map_option f m) P"
  unfolding returns_map by (rule returns_mono)

end
