(* ===== verification/Mb_Length.thy ===== *)
theory Mb_Length
  imports Prelude
begin

text \<open>
  The functions of \<open>wchar.c\<close> that give the byte length (\<open>mblen\<close>) and the display width
  (\<open>dsplen\<close>) of the character at the start of a string, one pair per family of encodings.
  The argument is the memory readable from the pointer; the result is \<open>None\<close> when the function
  would read past it. All of them look at the first byte only, except \<open>pg_gb18030_mblen\<close>, which
  also looks at the second. The UTF-8 pair is in the theory \<open>Utf8\<close>.
\<close>

section \<open>Byte classes\<close>

text \<open>The single-shift bytes of EUC.\<close>

definition SS2 :: byte where "SS2 = 0x8e"
definition SS3 :: byte where "SS3 = 0x8f"

text \<open>The lead-byte classes of the MULE internal code.\<close>

definition IS_LC1 :: "byte \<Rightarrow> bool" where
  "IS_LC1 c \<longleftrightarrow> 0x81 \<le> c \<and> c \<le> 0x8d"

definition IS_LC2 :: "byte \<Rightarrow> bool" where
  "IS_LC2 c \<longleftrightarrow> 0x90 \<le> c \<and> c \<le> 0x99"

definition LCPRV1_A :: byte where "LCPRV1_A = 0x9a"
definition LCPRV1_B :: byte where "LCPRV1_B = 0x9b"

definition IS_LCPRV1 :: "byte \<Rightarrow> bool" where
  "IS_LCPRV1 c \<longleftrightarrow> c = LCPRV1_A \<or> c = LCPRV1_B"

definition IS_LCPRV1_A_RANGE :: "byte \<Rightarrow> bool" where
  "IS_LCPRV1_A_RANGE c \<longleftrightarrow> 0xa0 \<le> c \<and> c \<le> 0xdf"

definition IS_LCPRV1_B_RANGE :: "byte \<Rightarrow> bool" where
  "IS_LCPRV1_B_RANGE c \<longleftrightarrow> 0xe0 \<le> c \<and> c \<le> 0xef"

definition LCPRV2_A :: byte where "LCPRV2_A = 0x9c"
definition LCPRV2_B :: byte where "LCPRV2_B = 0x9d"

definition IS_LCPRV2 :: "byte \<Rightarrow> bool" where
  "IS_LCPRV2 c \<longleftrightarrow> c = LCPRV2_A \<or> c = LCPRV2_B"

definition IS_LCPRV2_A_RANGE :: "byte \<Rightarrow> bool" where
  "IS_LCPRV2_A_RANGE c \<longleftrightarrow> 0xf0 \<le> c \<and> c \<le> 0xf4"

definition IS_LCPRV2_B_RANGE :: "byte \<Rightarrow> bool" where
  "IS_LCPRV2_B_RANGE c \<longleftrightarrow> 0xf5 \<le> c \<and> c \<le> 0xfe"

lemmas mule_classes = IS_LC1_def IS_LC2_def IS_LCPRV1_def IS_LCPRV2_def LCPRV1_A_def LCPRV1_B_def
  LCPRV2_A_def LCPRV2_B_def IS_LCPRV1_A_RANGE_def IS_LCPRV1_B_RANGE_def IS_LCPRV2_A_RANGE_def
  IS_LCPRV2_B_RANGE_def

section \<open>Byte lengths\<close>

definition pg_ascii_mblen :: "byte list \<Rightarrow> nat option" where
  "pg_ascii_mblen s = Some 1"

definition pg_euc_mblen :: "byte list \<Rightarrow> nat option" where
  "pg_euc_mblen s = do {
     c \<leftarrow> peek s 0;
     Some (if c = SS2 then 2 else if c = SS3 then 3 else if IS_HIGHBIT_SET c then 2 else 1) }"

definition pg_eucjp_mblen :: "byte list \<Rightarrow> nat option" where
  "pg_eucjp_mblen s = pg_euc_mblen s"

definition pg_euckr_mblen :: "byte list \<Rightarrow> nat option" where
  "pg_euckr_mblen s = pg_euc_mblen s"

definition pg_euccn_mblen :: "byte list \<Rightarrow> nat option" where
  "pg_euccn_mblen s = do {
     c \<leftarrow> peek s 0;
     Some (if IS_HIGHBIT_SET c then 2 else 1) }"

definition pg_euctw_mblen :: "byte list \<Rightarrow> nat option" where
  "pg_euctw_mblen s = do {
     c \<leftarrow> peek s 0;
     Some (if c = SS2 then 4 else if c = SS3 then 3 else if IS_HIGHBIT_SET c then 2 else 1) }"

definition pg_johab_mblen :: "byte list \<Rightarrow> nat option" where
  "pg_johab_mblen s = pg_euc_mblen s"

definition pg_mule_mblen :: "byte list \<Rightarrow> nat option" where
  "pg_mule_mblen s = do {
     c \<leftarrow> peek s 0;
     Some (if IS_LC1 c then 2
           else if IS_LCPRV1 c then 3
           else if IS_LC2 c then 3
           else if IS_LCPRV2 c then 4
           else 1) }"

definition pg_latin1_mblen :: "byte list \<Rightarrow> nat option" where
  "pg_latin1_mblen s = Some 1"

definition pg_sjis_mblen :: "byte list \<Rightarrow> nat option" where
  "pg_sjis_mblen s = do {
     c \<leftarrow> peek s 0;
     Some (if 0xa1 \<le> c \<and> c \<le> 0xdf then 1 else if IS_HIGHBIT_SET c then 2 else 1) }"

definition pg_big5_mblen :: "byte list \<Rightarrow> nat option" where
  "pg_big5_mblen s = do {
     c \<leftarrow> peek s 0;
     Some (if IS_HIGHBIT_SET c then 2 else 1) }"

definition pg_gbk_mblen :: "byte list \<Rightarrow> nat option" where
  "pg_gbk_mblen s = do {
     c \<leftarrow> peek s 0;
     Some (if IS_HIGHBIT_SET c then 2 else 1) }"

definition pg_uhc_mblen :: "byte list \<Rightarrow> nat option" where
  "pg_uhc_mblen s = do {
     c \<leftarrow> peek s 0;
     Some (if IS_HIGHBIT_SET c then 2 else 1) }"

definition pg_gb18030_mblen :: "byte list \<Rightarrow> nat option" where
  "pg_gb18030_mblen s = do {
     c \<leftarrow> peek s 0;
     if \<not> IS_HIGHBIT_SET c then Some 1
     else do {
       d \<leftarrow> peek s 1;
       Some (if 0x30 \<le> d \<and> d \<le> 0x39 then 4 else 2) } }"

section \<open>Display widths\<close>

definition pg_ascii_dsplen :: "byte list \<Rightarrow> int option" where
  "pg_ascii_dsplen s = do {
     c \<leftarrow> peek s 0;
     Some (if c = 0 then 0 else if c < 0x20 \<or> c = 0x7f then -1 else 1) }"

definition pg_euc_dsplen :: "byte list \<Rightarrow> int option" where
  "pg_euc_dsplen s = do {
     c \<leftarrow> peek s 0;
     if c = SS2 then Some 2
     else if c = SS3 then Some 2
     else if IS_HIGHBIT_SET c then Some 2
     else pg_ascii_dsplen s }"

definition pg_eucjp_dsplen :: "byte list \<Rightarrow> int option" where
  "pg_eucjp_dsplen s = do {
     c \<leftarrow> peek s 0;
     if c = SS2 then Some 1
     else if c = SS3 then Some 2
     else if IS_HIGHBIT_SET c then Some 2
     else pg_ascii_dsplen s }"

definition pg_euckr_dsplen :: "byte list \<Rightarrow> int option" where
  "pg_euckr_dsplen s = pg_euc_dsplen s"

definition pg_euccn_dsplen :: "byte list \<Rightarrow> int option" where
  "pg_euccn_dsplen s = do {
     c \<leftarrow> peek s 0;
     if IS_HIGHBIT_SET c then Some 2 else pg_ascii_dsplen s }"

definition pg_euctw_dsplen :: "byte list \<Rightarrow> int option" where
  "pg_euctw_dsplen s = do {
     c \<leftarrow> peek s 0;
     if c = SS2 then Some 2
     else if c = SS3 then Some 2
     else if IS_HIGHBIT_SET c then Some 2
     else pg_ascii_dsplen s }"

definition pg_johab_dsplen :: "byte list \<Rightarrow> int option" where
  "pg_johab_dsplen s = pg_euc_dsplen s"

definition pg_mule_dsplen :: "byte list \<Rightarrow> int option" where
  "pg_mule_dsplen s = do {
     c \<leftarrow> peek s 0;
     Some (if IS_LC1 c then 1
           else if IS_LCPRV1 c then 1
           else if IS_LC2 c then 2
           else if IS_LCPRV2 c then 2
           else 1) }"

definition pg_latin1_dsplen :: "byte list \<Rightarrow> int option" where
  "pg_latin1_dsplen s = pg_ascii_dsplen s"

definition pg_sjis_dsplen :: "byte list \<Rightarrow> int option" where
  "pg_sjis_dsplen s = do {
     c \<leftarrow> peek s 0;
     if 0xa1 \<le> c \<and> c \<le> 0xdf then Some 1
     else if IS_HIGHBIT_SET c then Some 2
     else pg_ascii_dsplen s }"

definition pg_big5_dsplen :: "byte list \<Rightarrow> int option" where
  "pg_big5_dsplen s = do {
     c \<leftarrow> peek s 0;
     if IS_HIGHBIT_SET c then Some 2 else pg_ascii_dsplen s }"

definition pg_gbk_dsplen :: "byte list \<Rightarrow> int option" where
  "pg_gbk_dsplen s = do {
     c \<leftarrow> peek s 0;
     if IS_HIGHBIT_SET c then Some 2 else pg_ascii_dsplen s }"

definition pg_uhc_dsplen :: "byte list \<Rightarrow> int option" where
  "pg_uhc_dsplen s = do {
     c \<leftarrow> peek s 0;
     if IS_HIGHBIT_SET c then Some 2 else pg_ascii_dsplen s }"

definition pg_gb18030_dsplen :: "byte list \<Rightarrow> int option" where
  "pg_gb18030_dsplen s = do {
     c \<leftarrow> peek s 0;
     if IS_HIGHBIT_SET c then Some 2 else pg_ascii_dsplen s }"

lemmas mblen_defs = pg_ascii_mblen_def pg_euc_mblen_def pg_eucjp_mblen_def pg_euckr_mblen_def
  pg_euccn_mblen_def pg_euctw_mblen_def pg_johab_mblen_def pg_mule_mblen_def pg_latin1_mblen_def
  pg_sjis_mblen_def pg_big5_mblen_def pg_gbk_mblen_def pg_uhc_mblen_def pg_gb18030_mblen_def

lemmas dsplen_defs = pg_ascii_dsplen_def pg_euc_dsplen_def pg_eucjp_dsplen_def pg_euckr_dsplen_def
  pg_euccn_dsplen_def pg_euctw_dsplen_def pg_johab_dsplen_def pg_mule_dsplen_def
  pg_latin1_dsplen_def pg_sjis_dsplen_def pg_big5_dsplen_def pg_gbk_dsplen_def pg_uhc_dsplen_def
  pg_gb18030_dsplen_def

lemma SS_nonzero [simp]: "SS2 \<noteq> 0" "SS3 \<noteq> 0" "IS_HIGHBIT_SET SS2" "IS_HIGHBIT_SET SS3" "SS2 \<noteq> SS3"
    "SS3 \<noteq> SS2"
  by (simp_all add: SS2_def SS3_def IS_HIGHBIT_SET_def)

lemma low_not_SS: "\<not> IS_HIGHBIT_SET c \<Longrightarrow> c \<noteq> SS2 \<and> c \<noteq> SS3"
  by (auto simp: SS2_def SS3_def IS_HIGHBIT_SET_def)

end
