(* ===== verification/Utf8.thy ===== *)
theory Utf8
  imports Mb_Length
begin

text \<open>
  The UTF-8 part of \<open>wchar.c\<close>: character length, conversion of one character to and from a code
  point, legality and verification of one character.

  The theorems relate the decoder, the encoder and the legality test to one another: the encoder
  is a right inverse of the decoder on every code point it can represent, and the verifier
  accepts exactly the encodings of Unicode scalar values.
\<close>

section \<open>Masks and shifts on code points as arithmetic\<close>

lemma wchar_or_shift:
  fixes x y :: pg_wchar
  assumes "unat y < 2 ^ n" "unat x * 2 ^ n + unat y < 2 ^ 32"
  shows "unat (push_bit n x OR y) = unat x * 2 ^ n + unat y"
proof -
  have y: "take_bit n y = y"
    using assms(1) by (simp add: word_unat_eq_iff unsigned_take_bit_eq take_bit_nat_eq_self_iff)
  have "push_bit n x OR y = push_bit n x + y"
    by (rule disjunctive_add [symmetric]) (metis y bit_take_bit_iff bit_push_bit_iff not_le)
  also have "unat \<dots> = (unat (push_bit n x) + unat y) mod 2 ^ 32"
    by (simp add: unat_word_ariths)
  also have "unat (push_bit n x) = (unat x * 2 ^ n) mod 2 ^ 32"
    by (subst unsigned_push_bit_eq) (simp add: take_bit_eq_mod push_bit_eq_mult)
  finally show ?thesis using assms(2) by simp
qed

lemma unat_wchar_of_byte [simp]: "unat (ucast (b :: byte) :: pg_wchar) = unat b"
proof -
  have "unat b < 2 ^ 32" by (rule order_less_trans [OF unat_byte_less]) simp
  then show ?thesis by (simp only: unsigned_ucast_eq take_bit_eq_mod) simp
qed

lemma unat_byte_of_wchar: "unat (ucast (z :: pg_wchar) :: byte) = unat z mod 256"
  by (simp add: unsigned_ucast_eq take_bit_eq_mod)

lemma unat_wchar_drop: "unat (drop_bit n (z :: pg_wchar)) = unat z div 2 ^ n"
proof -
  have "take_bit 32 (unat z) = unat z"
    using unsigned_less [of z, where 'a = nat] by (simp add: take_bit_nat_eq_self_iff)
  then show ?thesis by (subst unsigned_drop_bit_eq) (simp add: drop_bit_eq_div)
qed

lemma byte_prefix_masks [byte_masks]:
  fixes b :: byte
  shows "unat (0xC0 OR (b AND 0x1F)) = 192 + unat b mod 32"
    and "unat (0xE0 OR (b AND 0x0F)) = 224 + unat b mod 16"
    and "unat (0xF0 OR (b AND 0x07)) = 240 + unat b mod 8"
    and "unat (0x80 OR (b AND 0x3F)) = 128 + unat b mod 64"
  by (rule all_bytesI [where b = b], simp add: bytes256_def)+

lemma byte_low_masks [byte_masks]:
  fixes b :: byte
  shows "unat (b AND 0x1F) = unat b mod 32"
    and "unat (b AND 0x0F) = unat b mod 16"
    and "unat (b AND 0x07) = unat b mod 8"
    and "unat (b AND 0x3F) = unat b mod 64"
  by (rule all_bytesI [where b = b], simp add: bytes256_def)+

lemma ucast_prefix_masks:
  fixes z :: pg_wchar
  shows "(ucast (0xC0 OR (z AND 0x1F)) :: byte) = 0xC0 OR (ucast z AND 0x1F)"
    and "(ucast (0xE0 OR (z AND 0x0F)) :: byte) = 0xE0 OR (ucast z AND 0x0F)"
    and "(ucast (0xF0 OR (z AND 0x07)) :: byte) = 0xF0 OR (ucast z AND 0x07)"
    and "(ucast (0x80 OR (z AND 0x3F)) :: byte) = 0x80 OR (ucast z AND 0x3F)"
  by (simp_all add: unsigned_or_eq unsigned_and_eq)

lemma ucast_low_masks:
  fixes b :: byte
  shows "(ucast b :: pg_wchar) AND 0x1F = ucast (b AND 0x1F)"
    and "(ucast b :: pg_wchar) AND 0x0F = ucast (b AND 0x0F)"
    and "(ucast b :: pg_wchar) AND 0x07 = ucast (b AND 0x07)"
    and "(ucast b :: pg_wchar) AND 0x3F = ucast (b AND 0x3F)"
  by (simp_all add: unsigned_and_eq)

section \<open>Character length\<close>

definition pg_utf_mblen :: "byte list \<Rightarrow> nat option" where
  "pg_utf_mblen s = do {
     c \<leftarrow> peek s 0;
     Some (if c AND 0x80 = 0 then 1
           else if c AND 0xe0 = 0xc0 then 2
           else if c AND 0xf0 = 0xe0 then 3
           else if c AND 0xf8 = 0xf0 then 4
           else 1) }"

section \<open>Conversion of one character\<close>

text \<open>\<open>unicode_to_utf8\<close> gives the bytes the C function stores at \<open>utf8string\<close>.\<close>

definition unicode_to_utf8 :: "pg_wchar \<Rightarrow> byte list" where
  "unicode_to_utf8 c =
    (if c \<le> 0x7F then [ucast c]
     else if c \<le> 0x7FF then
       [ucast (0xC0 OR (drop_bit 6 c AND 0x1F)),
        ucast (0x80 OR (c AND 0x3F))]
     else if c \<le> 0xFFFF then
       [ucast (0xE0 OR (drop_bit 12 c AND 0x0F)),
        ucast (0x80 OR (drop_bit 6 c AND 0x3F)),
        ucast (0x80 OR (c AND 0x3F))]
     else
       [ucast (0xF0 OR (drop_bit 18 c AND 0x07)),
        ucast (0x80 OR (drop_bit 12 c AND 0x3F)),
        ucast (0x80 OR (drop_bit 6 c AND 0x3F)),
        ucast (0x80 OR (c AND 0x3F))])"

definition utf8_to_unicode :: "byte list \<Rightarrow> pg_wchar option" where
  "utf8_to_unicode c = do {
     c0 \<leftarrow> peek c 0;
     if c0 AND 0x80 = 0 then Some (ucast c0)
     else if c0 AND 0xe0 = 0xc0 then do {
       c1 \<leftarrow> peek c 1;
       Some (push_bit 6 (ucast c0 AND 0x1f) OR (ucast c1 AND 0x3f)) }
     else if c0 AND 0xf0 = 0xe0 then do {
       c1 \<leftarrow> peek c 1; c2 \<leftarrow> peek c 2;
       Some (push_bit 12 (ucast c0 AND 0x0f) OR push_bit 6 (ucast c1 AND 0x3f)
             OR (ucast c2 AND 0x3f)) }
     else if c0 AND 0xf8 = 0xf0 then do {
       c1 \<leftarrow> peek c 1; c2 \<leftarrow> peek c 2; c3 \<leftarrow> peek c 3;
       Some (push_bit 18 (ucast c0 AND 0x07) OR push_bit 12 (ucast c1 AND 0x3f)
             OR push_bit 6 (ucast c2 AND 0x3f) OR (ucast c3 AND 0x3f)) }
     else Some 0xffffffff }"

section \<open>Legality of one character\<close>

text \<open>
  The \<open>switch\<close> on the length falls through from 4 to 3, to 2, to 1; each level returns false or
  goes on to the next.
\<close>

definition pg_utf8_islegal :: "byte list \<Rightarrow> nat \<Rightarrow> bool option" where
  "pg_utf8_islegal source n =
    (if n \<notin> {1, 2, 3, 4} then Some False
     else do {
       bad4 \<leftarrow> (if n = 4 then do { a \<leftarrow> peek source 3; Some (a < 0x80 \<or> a > 0xBF) }
                else Some False);
       if bad4 then Some False else do {
       bad3 \<leftarrow> (if n \<ge> 3 then do { a \<leftarrow> peek source 2; Some (a < 0x80 \<or> a > 0xBF) }
                else Some False);
       if bad3 then Some False else do {
       bad2 \<leftarrow> (if n \<ge> 2 then do {
                  a \<leftarrow> peek source 1; c \<leftarrow> peek source 0;
                  Some (if c = 0xE0 then a < 0xA0 \<or> a > 0xBF
                        else if c = 0xED then a < 0x80 \<or> a > 0x9F
                        else if c = 0xF0 then a < 0x90 \<or> a > 0xBF
                        else if c = 0xF4 then a < 0x80 \<or> a > 0x8F
                        else a < 0x80 \<or> a > 0xBF) }
                else Some False);
       if bad2 then Some False else do {
       a \<leftarrow> peek source 0;
       Some (if a \<ge> 0x80 \<and> a < 0xC2 then False else if a > 0xF4 then False else True) }}}})"

definition pg_utf8_verifier :: "byte list \<Rightarrow> int \<Rightarrow> int option" where
  "pg_utf8_verifier s n = do {
     l \<leftarrow> pg_utf_mblen s;
     if n < int l then Some (-1)
     else do {
       ok \<leftarrow> pg_utf8_islegal s l;
       Some (if \<not> ok then -1 else int l) } }"

section \<open>Code points and their bytes, as arithmetic\<close>

text \<open>The bytes of a code point as numbers; the layout of RFC 3629.\<close>

definition utf8_bytes :: "nat \<Rightarrow> nat list" where
  "utf8_bytes u =
    (if u \<le> 0x7F then [u]
     else if u \<le> 0x7FF then [192 + u div 64 mod 32, 128 + u mod 64]
     else if u \<le> 0xFFFF then [224 + u div 4096 mod 16, 128 + u div 64 mod 64, 128 + u mod 64]
     else [240 + u div 262144 mod 8, 128 + u div 4096 mod 64, 128 + u div 64 mod 64,
           128 + u mod 64])"

lemma map_unat_unicode_to_utf8: "map unat (unicode_to_utf8 c) = utf8_bytes (unat c)"
proof -
  have m: "m dvd 256 \<Longrightarrow> x mod 256 mod m = x mod m" for x m :: nat
    by (rule mod_mod_cancel)
  show ?thesis
    by (simp add: unicode_to_utf8_def utf8_bytes_def ucast_prefix_masks byte_masks
        unat_byte_of_wchar unat_wchar_drop word_le_nat_alt m)
qed

lemma length_unicode_to_utf8: "length (unicode_to_utf8 c) = length (utf8_bytes (unat c))"
  by (metis length_map map_unat_unicode_to_utf8)

text \<open>
  The well-formed byte sequences of RFC 3629 (its table of legal ranges for each position), the
  value such a sequence stands for, and the scalar values. \<open>utf8_legal\<close> and \<open>utf8_value\<close> are the
  reference the code is compared with.
\<close>

fun utf8_legal :: "nat list \<Rightarrow> bool" where
  "utf8_legal [a] \<longleftrightarrow> a < 128"
| "utf8_legal [a, b] \<longleftrightarrow> 194 \<le> a \<and> a < 224 \<and> 128 \<le> b \<and> b < 192"
| "utf8_legal [a, b, c] \<longleftrightarrow> 224 \<le> a \<and> a < 240 \<and> (if a = 224 then 160 else 128) \<le> b
     \<and> b < (if a = 237 then 160 else 192) \<and> 128 \<le> c \<and> c < 192"
| "utf8_legal [a, b, c, d] \<longleftrightarrow> 240 \<le> a \<and> a < 245 \<and> (if a = 240 then 144 else 128) \<le> b
     \<and> b < (if a = 244 then 144 else 192) \<and> 128 \<le> c \<and> c < 192 \<and> 128 \<le> d \<and> d < 192"
| "utf8_legal _ \<longleftrightarrow> False"

definition unicode_scalar :: "nat \<Rightarrow> bool" where
  "unicode_scalar u \<longleftrightarrow> u < 0xD800 \<or> 0xDFFF < u \<and> u \<le> 0x10FFFF"
fun utf8_value :: "nat list \<Rightarrow> nat" where
  "utf8_value [a] = a"
| "utf8_value [a, b] = a mod 32 * 64 + b mod 64"
| "utf8_value [a, b, c] = a mod 16 * 4096 + (b mod 64 * 64 + c mod 64)"
| "utf8_value [a, b, c, d] = a mod 8 * 262144 + (b mod 64 * 4096 + (c mod 64 * 64 + d mod 64))"
| "utf8_value _ = 0"

lemma digits64:
  fixes u :: nat
  assumes "u = d * 262144 + (c * 4096 + (b * 64 + a))" "a < 64" "b < 64" "c < 64"
  shows "u mod 64 = a" "u div 64 = d * 4096 + (c * 64 + b)" "u div 64 mod 64 = b"
    "u div 4096 = d * 64 + c" "u div 4096 mod 64 = c" "u div 262144 = d"
proof -
  have step: "(64 * q + r) mod 64 = r \<and> (64 * q + r) div 64 = q" if "r < 64" for q r :: nat
    using that by (simp add: add.commute [of "64 * q"])
  have e: "u = 64 * (64 * (64 * d + c) + b) + a" using assms(1) by simp
  have u1: "u div 64 = 64 * (64 * d + c) + b" and m1: "u mod 64 = a"
    using step [OF assms(2)] e by blast+
  have u2: "u div 64 div 64 = 64 * d + c" and m2: "u div 64 mod 64 = b"
    using step [OF assms(3)] u1 by metis+
  have u3: "u div 64 div 64 div 64 = d" and m3: "u div 64 div 64 mod 64 = c"
    using step [OF assms(4)] u2 by metis+
  show "u mod 64 = a" "u div 64 mod 64 = b" by (rule m1, rule m2)
  show "u div 64 = d * 4096 + (c * 64 + b)" using u1 by simp
  show "u div 4096 = d * 64 + c" using u2 by (simp add: div_mult2_eq [symmetric])
  show "u div 4096 mod 64 = c" using m3 by (simp add: div_mult2_eq [symmetric])
  show "u div 262144 = d" using u3 by (simp add: div_mult2_eq [symmetric])
qed

lemma digits64_ex:
  fixes u :: nat
  shows "\<exists>a b c d. a < 64 \<and> b < 64 \<and> c < 64 \<and> u = d * 262144 + (c * 4096 + (b * 64 + a))"
proof -
  have "u = u div 64 * 64 + u mod 64" by simp
  moreover have "u div 64 = u div 64 div 64 * 64 + u div 64 mod 64" by (rule div_mult_mod_eq [symmetric])
  moreover have "u div 64 div 64 = u div 64 div 64 div 64 * 64 + u div 64 div 64 mod 64"
    by (rule div_mult_mod_eq [symmetric])
  ultimately have "u = u div 64 div 64 div 64 * 262144 + (u div 64 div 64 mod 64 * 4096 + (u div 64 mod 64 * 64 + u mod 64))"
    by linarith
  moreover have "u mod 64 < 64" "u div 64 mod 64 < 64" "u div 64 div 64 mod 64 < 64" by simp_all
  ultimately show ?thesis by blast
qed
lemma utf8_bytes_cases [consumes 1, case_names one two three four]:
  assumes "u < 2 ^ 21"
  obtains
    "u < 128" "utf8_bytes u = [u]"
  | a b where "a < 64" "b < 32" "u = b * 64 + a" "128 \<le> u" "utf8_bytes u = [192 + b, 128 + a]"
  | a b c where "a < 64" "b < 64" "c < 16" "u = c * 4096 + (b * 64 + a)" "2048 \<le> u"
      "utf8_bytes u = [224 + c, 128 + b, 128 + a]"
  | a b c d where "a < 64" "b < 64" "c < 64" "d < 8" "u = d * 262144 + (c * 4096 + (b * 64 + a))"
      "65536 \<le> u" "utf8_bytes u = [240 + d, 128 + c, 128 + b, 128 + a]"
proof -
  obtain a b c d where ab: "a < 64" "b < 64" "c < 64" "u = d * 262144 + (c * 4096 + (b * 64 + a))"
    using digits64_ex by blast
  note dig = digits64(1,3,4,5,6) [OF ab(4,1,2,3)] ab(1,2,3)
  consider "u \<le> 0x7F" | "0x7F < u" "u \<le> 0x7FF" | "0x7FF < u" "u \<le> 0xFFFF" | "0xFFFF < u"
    by linarith
  then show thesis
  proof cases
    case 1
    then show ?thesis by (intro that(1)) (simp_all add: utf8_bytes_def)
  next
    case 2
    then have z: "d = 0" "c = 0" "b < 32" using ab by linarith+
    then have "u = b * 64 + a" using ab by simp
    moreover have "utf8_bytes u = [192 + b, 128 + a]" using 2 z digits64(2) [OF ab(4,1,2,3)] by (simp add: utf8_bytes_def dig)
    ultimately show ?thesis using that(2) ab z 2 by simp
  next
    case 3
    then have z: "d = 0" "c < 16" using ab by linarith+
    then have "u = c * 4096 + (b * 64 + a)" using ab by simp
    moreover have "utf8_bytes u = [224 + c, 128 + b, 128 + a]"
      using 3 z by (simp add: utf8_bytes_def dig)
    ultimately show ?thesis using that(3) ab z 3 by simp
  next
    case 4
    then have z: "d < 8" using ab assms by simp
    then have "utf8_bytes u = [240 + d, 128 + c, 128 + b, 128 + a]"
      using 4 by (simp add: utf8_bytes_def dig)
    then show ?thesis using that(4) ab z 4 by simp
  qed
qed

lemma prefix_mod:
  fixes x :: nat
  shows "x < 32 \<Longrightarrow> (192 + x) mod 32 = x" "x < 16 \<Longrightarrow> (224 + x) mod 16 = x"
    "x < 8 \<Longrightarrow> (240 + x) mod 8 = x" "x < 64 \<Longrightarrow> (128 + x) mod 64 = x"
  using mod_mult_self4 [of 32 6 x] mod_mult_self4 [of 16 14 x] mod_mult_self4 [of 8 30 x]
    mod_mult_self4 [of 64 2 x] by simp_all

lemma utf8_value_prefix:
  "b < 32 \<Longrightarrow> a < 64 \<Longrightarrow> utf8_value [192 + b, 128 + a] = b * 64 + a"
  "c < 16 \<Longrightarrow> b < 64 \<Longrightarrow> a < 64 \<Longrightarrow>
    utf8_value [224 + c, 128 + b, 128 + a] = c * 4096 + (b * 64 + a)"
  "d < 8 \<Longrightarrow> c < 64 \<Longrightarrow> b < 64 \<Longrightarrow> a < 64 \<Longrightarrow>
    utf8_value [240 + d, 128 + c, 128 + b, 128 + a] = d * 262144 + (c * 4096 + (b * 64 + a))"
  by (simp_all only: utf8_value.simps prefix_mod)

declare utf8_value.simps(2-4) [simp del]

lemma utf8_value_bytes: assumes "u < 2 ^ 21" shows "utf8_value (utf8_bytes u) = u"
  using assms by (cases rule: utf8_bytes_cases) (simp_all add: utf8_value_prefix)

lemma utf8_legal_bytes: assumes "unicode_scalar u" shows "utf8_legal (utf8_bytes u)"
proof -
  have u: "u < 0xD800 \<or> 0xDFFF < u \<and> u \<le> 0x10FFFF" using assms by (simp add: unicode_scalar_def)
  then have "u < 2 ^ 21" by auto
  then show ?thesis
  proof (cases rule: utf8_bytes_cases)
    case one then show ?thesis by simp
  next
    case (two a b)
    then have "2 \<le> b" by linarith
    with two show ?thesis by simp
  next
    case (three a b c)
    then have "c = 0 \<Longrightarrow> 32 \<le> b" by linarith
    moreover have "c = 13 \<Longrightarrow> b < 32" using u three by (elim disjE) linarith+
    ultimately show ?thesis using three by simp
  next
    case (four a b c d)
    then have "d = 0 \<Longrightarrow> 16 \<le> c" by linarith
    moreover have "d \<le> 4" using u four by (elim disjE) linarith+
    moreover have "d = 4 \<Longrightarrow> c < 16" using u four by (elim disjE) linarith+
    ultimately show ?thesis using four by simp
  qed
qed

lemma utf8_legal_cases [consumes 1, case_names one two three four]:
  assumes "utf8_legal xs"
  obtains a where "xs = [a]" "a < 128"
  | b a where "xs = [192 + b, 128 + a]" "2 \<le> b" "b < 32" "a < 64"
  | c b a where "xs = [224 + c, 128 + b, 128 + a]" "c < 16" "b < 64" "a < 64"
      "c = 0 \<Longrightarrow> 32 \<le> b" "c = 13 \<Longrightarrow> b < 32"
  | d c b a where "xs = [240 + d, 128 + c, 128 + b, 128 + a]" "d < 5" "c < 64" "b < 64"
      "a < 64" "d = 0 \<Longrightarrow> 16 \<le> c" "d = 4 \<Longrightarrow> c < 16"
proof (cases xs rule: utf8_legal.cases)
  case (1 x)
  then show thesis using assms that(1) by simp
next
  case (2 x y)
  then show thesis using assms by (intro that(2) [of "x - 192" "y - 128"]) auto
next
  case (3 x y z)
  then show thesis using assms
    by (intro that(3) [of "x - 224" "y - 128" "z - 128"]) (auto split: if_splits)
next
  case (4 x y z w)
  then show thesis using assms
    by (intro that(4) [of "x - 240" "y - 128" "z - 128" "w - 128"]) (auto split: if_splits)
qed (use assms in simp_all)

lemma utf8_legal_value:
  assumes "utf8_legal xs"
  shows "unicode_scalar (utf8_value xs) \<and> utf8_bytes (utf8_value xs) = xs"
  using assms
proof (cases rule: utf8_legal_cases)
  case one then show ?thesis by (simp add: utf8_bytes_def unicode_scalar_def)
next
  case (two b a)
  then have dig: "(b * 64 + a) div 64 = b" "(b * 64 + a) mod 64 = a"
    using digits64 [of "b * 64 + a" 0 0 b a] by simp_all
  then show ?thesis using two
    by (simp add: utf8_value_prefix utf8_bytes_def unicode_scalar_def)
next
  case (three c b a)
  then have r: "2048 \<le> c * 4096 + (b * 64 + a)" by (cases "c = 0") simp_all
  have sc: "c * 4096 + (b * 64 + a) < 0xD800 \<or> 0xDFFF < c * 4096 + (b * 64 + a)"
    using three by (cases "c < 13"; cases "c = 13") simp_all
  note dig = digits64(1,3,4) [of "c * 4096 + (b * 64 + a)" 0 c b a]
  show ?thesis using three r sc dig
    by (simp add: utf8_value_prefix utf8_bytes_def unicode_scalar_def)
next
  case (four d c b a)
  then have r: "65536 \<le> d * 262144 + (c * 4096 + (b * 64 + a))" by (cases "d = 0") simp_all
  have sc: "d * 262144 + (c * 4096 + (b * 64 + a)) \<le> 0x10FFFF"
    using four by (cases "d < 4") simp_all
  note dig = digits64(1,3,5,6) [of "d * 262144 + (c * 4096 + (b * 64 + a))" d c b a]
  show ?thesis using four r sc dig
    by (simp add: utf8_value_prefix utf8_bytes_def unicode_scalar_def)
qed

section \<open>The code against the reference\<close>

lemma pg_utf_mblen_Cons:
  "pg_utf_mblen (a # s) = Some (if unat a < 192 then 1 else if unat a < 224 then 2
     else if unat a < 240 then 3 else if unat a < 248 then 4 else 1)"
  by (simp add: pg_utf_mblen_def byte_masks)

lemma pg_utf_mblen_bounds: "pg_utf_mblen s = Some l \<Longrightarrow> 1 \<le> l \<and> l \<le> 4"
  by (cases s) (auto simp: pg_utf_mblen_Cons pg_utf_mblen_def split: if_splits)

lemma unat_low_masks:
  fixes b :: byte
  shows "unat ((ucast b :: pg_wchar) AND 0x1F) = unat b mod 32"
    and "unat ((ucast b :: pg_wchar) AND 0x0F) = unat b mod 16"
    and "unat ((ucast b :: pg_wchar) AND 0x07) = unat b mod 8"
    and "unat ((ucast b :: pg_wchar) AND 0x3F) = unat b mod 64"
  by (simp_all only: ucast_low_masks unat_wchar_of_byte byte_low_masks)

lemma wchar_or_shift_le:
  fixes x y :: pg_wchar
  assumes "unat y < 2 ^ n" "unat x < 2 ^ k" "n + k \<le> 32"
  shows "unat (push_bit n x OR y) = unat x * 2 ^ n + unat y \<and> unat (push_bit n x OR y) < 2 ^ (n + k)"
proof -
  have "(unat x + 1) * 2 ^ n \<le> 2 ^ k * 2 ^ n" using assms(2) by (intro mult_le_mono1) simp
  then have b: "unat x * 2 ^ n + unat y < 2 ^ (n + k)"
    using assms(1) by (simp add: power_add mult.commute)
  moreover have "(2::nat) ^ (n + k) \<le> 2 ^ 32" using assms(3) by (intro power_increasing) simp_all
  ultimately show ?thesis using wchar_or_shift [OF assms(1), of x] by simp
qed

lemma utf8_to_unicode_two:
  assumes "192 \<le> unat a" "unat a < 224"
  shows "\<exists>w. utf8_to_unicode (a # b # s) = Some w \<and> unat w = utf8_value [unat a, unat b]"
  using assms wchar_or_shift_le [of "ucast b AND 0x3f" 6 "ucast a AND 0x1f" 5]
  by (simp add: utf8_to_unicode_def byte_masks unat_low_masks utf8_value.simps(2))

lemma utf8_to_unicode_three:
  assumes "224 \<le> unat a" "unat a < 240"
  shows "\<exists>w. utf8_to_unicode (a # b # c # s) = Some w \<and>
    unat w = utf8_value [unat a, unat b, unat c]"
  using assms wchar_or_shift_le [of "ucast c AND 0x3f" 6 "ucast b AND 0x3f" 6]
    wchar_or_shift_le [of "push_bit 6 (ucast b AND 0x3f) OR (ucast c AND 0x3f)" 12
      "ucast a AND 0x0f" 4]
  by (simp add: utf8_to_unicode_def byte_masks unat_low_masks utf8_value.simps(3))

lemma utf8_to_unicode_four:
  assumes "240 \<le> unat a" "unat a < 248"
  shows "\<exists>w. utf8_to_unicode (a # b # c # d # s) = Some w \<and>
    unat w = utf8_value [unat a, unat b, unat c, unat d]"
  using assms wchar_or_shift_le [of "ucast d AND 0x3f" 6 "ucast c AND 0x3f" 6]
    wchar_or_shift_le [of "push_bit 6 (ucast c AND 0x3f) OR (ucast d AND 0x3f)" 12
      "ucast b AND 0x3f" 6]
    wchar_or_shift_le [of "push_bit 12 (ucast b AND 0x3f) OR push_bit 6 (ucast c AND 0x3f)
      OR (ucast d AND 0x3f)" 18 "ucast a AND 0x07" 3]
  by (simp add: utf8_to_unicode_def byte_masks unat_low_masks utf8_value.simps(4))

lemma byte_eq_nums:
  fixes c :: byte
  shows "c = 0xE0 \<longleftrightarrow> unat c = 224" "c = 0xED \<longleftrightarrow> unat c = 237" "c = 0xF0 \<longleftrightarrow> unat c = 240"
    "c = 0xF4 \<longleftrightarrow> unat c = 244"
  by (simp_all add: word_unat_eq_iff)

lemmas byte_cmp = byte_le_iff byte_less_iff byte_eq_nums

lemma islegal_one: "unat a < 128 \<Longrightarrow> pg_utf8_islegal (a # s) 1 = Some True"
    "\<not> unat a < 192 \<Longrightarrow> \<not> unat a < 248 \<Longrightarrow> pg_utf8_islegal (a # s) 1 = Some False"
    "\<not> unat a < 128 \<Longrightarrow> unat a < 192 \<Longrightarrow> pg_utf8_islegal (a # s) 1 = Some False"
  by (simp_all add: pg_utf8_islegal_def byte_cmp)

lemma islegal_two:
  assumes "192 \<le> unat a" "unat a < 224"
  shows "pg_utf8_islegal (a # b # s) 2 = Some (utf8_legal [unat a, unat b])"
  using assms by (simp add: pg_utf8_islegal_def byte_cmp)

lemma islegal_three:
  assumes "224 \<le> unat a" "unat a < 240"
  shows "pg_utf8_islegal (a # b # c # s) 3 = Some (utf8_legal [unat a, unat b, unat c])"
  using assms
  by (cases "unat a = 224"; cases "unat a = 237") (simp_all add: pg_utf8_islegal_def byte_cmp)

lemma islegal_four:
  assumes "240 \<le> unat a" "unat a < 248"
  shows "pg_utf8_islegal (a # b # c # d # s) 4 = Some (utf8_legal [unat a, unat b, unat c, unat d])"
  using assms
  by (cases "unat a = 240"; cases "unat a = 244") (simp_all add: pg_utf8_islegal_def byte_cmp)

lemma pg_utf8_verifier_eq:
  assumes "pg_utf_mblen s = Some l" "int l \<le> n" "n \<le> int (length s)"
  shows "pg_utf8_verifier s n = Some (if utf8_legal (map unat (take l s)) then int l else -1)"
proof -
  have l: "l \<le> length s" "1 \<le> l" using assms pg_utf_mblen_bounds by auto
  then obtain a r where s: "s = a # r" by (cases s) auto
  have ml: "l = (if unat a < 192 then 1 else if unat a < 224 then 2
     else if unat a < 240 then 3 else if unat a < 248 then 4 else 1)"
    using assms(1) by (simp add: s pg_utf_mblen_Cons)
  have "pg_utf8_islegal s l = Some (utf8_legal (map unat (take l s)))"
  proof (cases "192 \<le> unat a \<and> unat a < 248")
    case False
    then have l1: "l = 1" using ml by (auto split: if_splits)
    show ?thesis
    proof (cases "unat a < 128")
      case True then show ?thesis unfolding s l1 islegal_one(1) [OF True] by simp
    next
      case f: False
      then have "pg_utf8_islegal (a # r) 1 = Some False"
        using False islegal_one(2,3) [of a r] by linarith
      then show ?thesis unfolding s l1 using f by simp
    qed
  next
    case True
    consider "l = 2" "unat a < 224" | "l = 3" "224 \<le> unat a" "unat a < 240"
      | "l = 4" "240 \<le> unat a" using True ml by (auto split: if_splits)
    then show ?thesis
    proof cases
      case 1
      then obtain b r' where "r = b # r'" using l s by (cases r) auto
      then show ?thesis using 1 True islegal_two [of a b r'] by (simp add: s numeral_eq_Suc)
    next
      case 2
      then obtain b c r' where "r = b # c # r'"
        using l s by (auto simp: numeral_eq_Suc Suc_le_length_iff)
      then show ?thesis using 2 islegal_three [of a b c r'] by (simp add: s numeral_eq_Suc)
    next
      case 3
      then obtain b c d r' where "r = b # c # d # r'"
        using l s by (auto simp: numeral_eq_Suc Suc_le_length_iff)
      then show ?thesis using 3 True islegal_four [of a b c d r'] by (simp add: s numeral_eq_Suc)
    qed
  qed
  then show ?thesis using assms by (simp add: pg_utf8_verifier_def)
qed

text \<open>The verifier gives up without reading further when the character would not fit.\<close>

lemma pg_utf8_verifier_short:
  "pg_utf_mblen s = Some l \<Longrightarrow> n < int l \<Longrightarrow> pg_utf8_verifier s n = Some (-1)"
  by (simp add: pg_utf8_verifier_def)

section \<open>Round trip and conformance\<close>

lemma pg_utf_mblen_legal:
  assumes "utf8_legal (map unat bs)"
  shows "pg_utf_mblen (bs @ rest) = Some (length bs)"
  using assms
  by (cases rule: utf8_legal_cases) (auto simp: map_eq_Cons_conv pg_utf_mblen_Cons)

lemma unicode_to_utf8_value:
  assumes "utf8_legal (map unat bs)"
  shows "\<exists>c. unat c = utf8_value (map unat bs) \<and> unicode_scalar (unat c) \<and> unicode_to_utf8 c = bs"
proof -
  let ?u = "utf8_value (map unat bs)"
  have sc: "unicode_scalar ?u" and eq: "utf8_bytes ?u = map unat bs"
    using utf8_legal_value [OF assms] by simp_all
  have "?u < 2 ^ 32" using sc by (auto simp: unicode_scalar_def)
  then have u: "unat (word_of_nat ?u :: pg_wchar) = ?u"
    by (simp add: unsigned_of_nat take_bit_nat_eq_self)
  then have "map unat (unicode_to_utf8 (word_of_nat ?u)) = map unat bs"
    by (simp add: map_unat_unicode_to_utf8 eq)
  moreover have "inj (unat :: byte \<Rightarrow> nat)" by (rule injI) (simp add: word_unat_eq_iff)
  ultimately have "unicode_to_utf8 (word_of_nat ?u) = bs" by (simp add: inj_map_eq_map)
  with u sc show ?thesis by metis
qed

lemma utf8_decode_encode:
  assumes "unat c < 2 ^ 21"
  shows "utf8_to_unicode (unicode_to_utf8 c @ rest) = Some c"
  using assms
proof (cases rule: utf8_bytes_cases)
  case one
  then obtain x where x: "unicode_to_utf8 c = [x]" "unat x = unat c"
    using map_unat_unicode_to_utf8 [of c] by (auto simp: map_eq_Cons_conv)
  then have "utf8_to_unicode (unicode_to_utf8 c @ rest) = Some (ucast x)"
    using one by (simp add: utf8_to_unicode_def and_80_0)
  moreover have "ucast x = c" using x by (simp add: word_unat_eq_iff)
  ultimately show ?thesis by simp
next
  case (two a b)
  then obtain x y where xy: "unicode_to_utf8 c = [x, y]" "unat x = 192 + b" "unat y = 128 + a"
    using map_unat_unicode_to_utf8 [of c] by (auto simp: map_eq_Cons_conv)
  then show ?thesis using two utf8_to_unicode_two [of x y rest]
    by (auto simp: utf8_value_prefix word_unat_eq_iff)
next
  case (three a b d)
  then obtain x y z where xy: "unicode_to_utf8 c = [x, y, z]" "unat x = 224 + d" "unat y = 128 + b"
    "unat z = 128 + a"
    using map_unat_unicode_to_utf8 [of c] by (auto simp: map_eq_Cons_conv)
  then show ?thesis using three utf8_to_unicode_three [of x y z rest]
    by (auto simp: utf8_value_prefix word_unat_eq_iff)
next
  case (four a b d e)
  then obtain x y z w where xy: "unicode_to_utf8 c = [x, y, z, w]" "unat x = 240 + e"
    "unat y = 128 + d" "unat z = 128 + b" "unat w = 128 + a"
    using map_unat_unicode_to_utf8 [of c] by (auto simp: map_eq_Cons_conv)
  then show ?thesis using four utf8_to_unicode_four [of x y z w rest]
    by (auto simp: utf8_value_prefix word_unat_eq_iff)
qed

text \<open>
  C18: the code point encoder and the decoder are inverse: for every code point that fits in 21
  bits, decoding the bytes \<open>unicode_to_utf8\<close> stores (whatever follows them in memory) gives the
  code point back.
\<close>

theorem utf8_to_unicode_of_unicode_to_utf8:
  assumes "unat c < 2 ^ 21"
  shows "utf8_to_unicode (unicode_to_utf8 c @ rest) = Some c"
  using assms by (rule utf8_decode_encode)

theorem utf8_to_unicode_of_unicode_to_utf8_witness:
  "utf8_to_unicode (unicode_to_utf8 0x20AC @ [0x41]) = Some 0x20AC
     \<and> unicode_to_utf8 0x20AC = [0xE2, 0x82, 0xAC]"
  using utf8_to_unicode_of_unicode_to_utf8 [of "0x20AC" "[0x41]"]
  by (simp add: unicode_to_utf8_def)

text \<open>
  C13: \<open>pg_utf8_verifier\<close> implements RFC 3629. On \<open>n\<close> readable bytes it reports a character
  exactly when the string starts with the (shortest) encoding of a Unicode scalar value that
  fits in \<open>n\<close> bytes, and it reports that character's length: overlong forms, surrogates, values
  above U+10FFFF and truncated characters are all rejected.
\<close>

theorem pg_utf8_verifier_accepts:
  assumes "0 < n" "n \<le> int (length s)"
  shows "pg_utf8_verifier s n = Some l \<and> 0 < l \<longleftrightarrow>
    (\<exists>c rest. unicode_scalar (unat c) \<and> s = unicode_to_utf8 c @ rest
       \<and> l = int (length (unicode_to_utf8 c)) \<and> l \<le> n)"
proof -
  obtain m where m: "pg_utf_mblen s = Some m" using assms by (cases s) (auto simp: pg_utf_mblen_Cons)
  show ?thesis
  proof
    assume L: "pg_utf8_verifier s n = Some l \<and> 0 < l"
    then have mn: "int m \<le> n" using pg_utf8_verifier_short [OF m, of n] by fastforce
    then have l: "l = int m" "utf8_legal (map unat (take m s))"
      using L pg_utf8_verifier_eq [OF m mn assms(2)] by (auto split: if_splits)
    then obtain c where "unicode_scalar (unat c)" "unicode_to_utf8 c = take m s"
      using unicode_to_utf8_value by blast
    moreover have "s = take m s @ drop m s" "length (take m s) = m" using mn assms by simp_all
    ultimately show "\<exists>c rest. unicode_scalar (unat c) \<and> s = unicode_to_utf8 c @ rest
       \<and> l = int (length (unicode_to_utf8 c)) \<and> l \<le> n" using l mn by metis
  next
    assume "\<exists>c rest. unicode_scalar (unat c) \<and> s = unicode_to_utf8 c @ rest
       \<and> l = int (length (unicode_to_utf8 c)) \<and> l \<le> n"
    then obtain c rest where c: "unicode_scalar (unat c)" "s = unicode_to_utf8 c @ rest"
      "l = int (length (unicode_to_utf8 c))" "l \<le> n" by blast
    have leg: "utf8_legal (map unat (unicode_to_utf8 c))"
      using utf8_legal_bytes [OF c(1)] by (simp add: map_unat_unicode_to_utf8)
    then have "m = length (unicode_to_utf8 c)" using m pg_utf_mblen_legal [OF leg] c(2) by simp
    moreover from this have "0 < l" using c(3) pg_utf_mblen_bounds [OF m] by linarith
    ultimately show "pg_utf8_verifier s n = Some l \<and> 0 < l"
      using pg_utf8_verifier_eq [OF m _ assms(2)] c leg by simp
  qed
qed

theorem pg_utf8_verifier_accepts_witness:
  "pg_utf8_verifier [0xE2, 0x82, 0xAC, 0x41] 4 = Some 3 \<and>
    pg_utf8_verifier [0xED, 0xA0, 0x80] 3 = Some (-1)"
proof -
  have "unicode_to_utf8 0x20AC = [0xE2, 0x82, 0xAC]" by (simp add: unicode_to_utf8_def)
  then have "\<exists>c rest. unicode_scalar (unat c) \<and> [0xE2, 0x82, 0xAC, 0x41] = unicode_to_utf8 c @ rest
       \<and> 3 = int (length (unicode_to_utf8 c)) \<and> 3 \<le> (4::int)"
    by (intro exI [of _ "0x20AC"] exI [of _ "[0x41]"]) (simp add: unicode_scalar_def)
  then have "pg_utf8_verifier [0xE2, 0x82, 0xAC, 0x41] 4 = Some 3"
    using pg_utf8_verifier_accepts [of 4 "[0xE2, 0x82, 0xAC, 0x41]" 3] by simp
  then show ?thesis by (simp add: pg_utf8_verifier_def pg_utf_mblen_def pg_utf8_islegal_def)
qed

end
