(* ===== verification/Mb_Verify.thy ===== *)
theory Mb_Verify
  imports Mb_Length Utf8
begin

text \<open>
  The multibyte verifiers of \<open>wchar.c\<close>, one per family of encodings: given the memory from a
  pointer on and the number \<open>n\<close> of bytes that belong to the string, the length of the valid
  character at the start, or -1. As in the C code the first byte is read without a test: the
  functions assume \<open>n > 0\<close> and a first byte that is not NUL. The verifier of UTF-8 is in \<open>Utf8\<close>.
\<close>

definition IS_EUC_RANGE_VALID :: "byte \<Rightarrow> bool" where
  "IS_EUC_RANGE_VALID c \<longleftrightarrow> c \<ge> 0xa1 \<and> c \<le> 0xfe"

definition ISSJISHEAD :: "byte \<Rightarrow> bool" where
  "ISSJISHEAD c \<longleftrightarrow> (c \<ge> 0x81 \<and> c \<le> 0x9f) \<or> (c \<ge> 0xe0 \<and> c \<le> 0xfc)"

definition ISSJISTAIL :: "byte \<Rightarrow> bool" where
  "ISSJISTAIL c \<longleftrightarrow> (c \<ge> 0x40 \<and> c \<le> 0x7e) \<or> (c \<ge> 0x80 \<and> c \<le> 0xfc)"

definition pg_ascii_verifier :: "byte list \<Rightarrow> int \<Rightarrow> int option" where
  "pg_ascii_verifier s n = Some 1"

definition pg_eucjp_verifier :: "byte list \<Rightarrow> int \<Rightarrow> int option" where
  "pg_eucjp_verifier s n = do {
     c1 \<leftarrow> peek s 0;
     if c1 = SS2 then
       (if 2 > n then Some (-1)
        else do {
          c2 \<leftarrow> peek s 1;
          if c2 < 0xa1 \<or> c2 > 0xdf then Some (-1) else Some 2 })
     else if c1 = SS3 then
       (if 3 > n then Some (-1)
        else do {
          c2 \<leftarrow> peek s 1;
          if \<not> IS_EUC_RANGE_VALID c2 then Some (-1)
          else do {
            c2 \<leftarrow> peek s 2;
            if \<not> IS_EUC_RANGE_VALID c2 then Some (-1) else Some 3 } })
     else if IS_HIGHBIT_SET c1 then
       (if 2 > n then Some (-1)
        else if \<not> IS_EUC_RANGE_VALID c1 then Some (-1)
        else do {
          c2 \<leftarrow> peek s 1;
          if \<not> IS_EUC_RANGE_VALID c2 then Some (-1) else Some 2 })
     else Some 1 }"

definition pg_euckr_verifier :: "byte list \<Rightarrow> int \<Rightarrow> int option" where
  "pg_euckr_verifier s n = do {
     c1 \<leftarrow> peek s 0;
     if IS_HIGHBIT_SET c1 then
       (if 2 > n then Some (-1)
        else if \<not> IS_EUC_RANGE_VALID c1 then Some (-1)
        else do {
          c2 \<leftarrow> peek s 1;
          if \<not> IS_EUC_RANGE_VALID c2 then Some (-1) else Some 2 })
     else Some 1 }"

text \<open>The source defines \<open>pg_euccn_verifier\<close> as a macro for \<open>pg_euckr_verifier\<close>.\<close>

definition pg_euccn_verifier :: "byte list \<Rightarrow> int \<Rightarrow> int option" where
  "pg_euccn_verifier = pg_euckr_verifier"

definition pg_euctw_verifier :: "byte list \<Rightarrow> int \<Rightarrow> int option" where
  "pg_euctw_verifier s n = do {
     c1 \<leftarrow> peek s 0;
     if c1 = SS2 then
       (if 4 > n then Some (-1)
        else do {
          c2 \<leftarrow> peek s 1;
          if c2 < 0xa1 \<or> c2 > 0xa7 then Some (-1)
          else do {
            c2 \<leftarrow> peek s 2;
            if \<not> IS_EUC_RANGE_VALID c2 then Some (-1)
            else do {
              c2 \<leftarrow> peek s 3;
              if \<not> IS_EUC_RANGE_VALID c2 then Some (-1) else Some 4 } } })
     else if c1 = SS3 then Some (-1)
     else if IS_HIGHBIT_SET c1 then
       (if 2 > n then Some (-1)
        else do {
          c2 \<leftarrow> peek s 1;
          if \<not> IS_EUC_RANGE_VALID c2 then Some (-1) else Some 2 })
     else Some 1 }"

text \<open>
  The loop \<open>while (--l > 0)\<close> over the bytes after the first, shared by several verifiers: \<open>i\<close> is
  the offset of the next byte, \<open>k\<close> how many are left, \<open>bad\<close> the test that rejects a byte.
\<close>

fun tail_loop :: "(byte \<Rightarrow> bool) \<Rightarrow> byte list \<Rightarrow> nat \<Rightarrow> nat \<Rightarrow> int \<Rightarrow> int option" where
  "tail_loop bad s i 0 mbl = Some mbl"
| "tail_loop bad s i (Suc k) mbl = do {
     c \<leftarrow> peek s i;
     if bad c then Some (-1) else tail_loop bad s (Suc i) k mbl }"

definition pg_johab_verifier :: "byte list \<Rightarrow> int \<Rightarrow> int option" where
  "pg_johab_verifier s n = do {
     l \<leftarrow> pg_johab_mblen s;
     if n < int l then Some (-1)
     else do {
       c0 \<leftarrow> peek s 0;
       if \<not> IS_HIGHBIT_SET c0 then Some (int l)
       else tail_loop (\<lambda>c. \<not> IS_EUC_RANGE_VALID c) s 1 (l - 1) (int l) } }"

definition pg_mule_verifier :: "byte list \<Rightarrow> int \<Rightarrow> int option" where
  "pg_mule_verifier s n = do {
     l \<leftarrow> pg_mule_mblen s;
     if n < int l then Some (-1)
     else tail_loop (\<lambda>c. \<not> IS_HIGHBIT_SET c) s 1 (l - 1) (int l) }"

definition pg_latin1_verifier :: "byte list \<Rightarrow> int \<Rightarrow> int option" where
  "pg_latin1_verifier s n = Some 1"

definition pg_sjis_verifier :: "byte list \<Rightarrow> int \<Rightarrow> int option" where
  "pg_sjis_verifier s n = do {
     l \<leftarrow> pg_sjis_mblen s;
     if n < int l then Some (-1)
     else if l = 1 then Some (int l)
     else do {
       c1 \<leftarrow> peek s 0;
       c2 \<leftarrow> peek s 1;
       if \<not> ISSJISHEAD c1 \<or> \<not> ISSJISTAIL c2 then Some (-1) else Some (int l) } }"

definition pg_big5_verifier :: "byte list \<Rightarrow> int \<Rightarrow> int option" where
  "pg_big5_verifier s n = do {
     l \<leftarrow> pg_big5_mblen s;
     if n < int l then Some (-1)
     else tail_loop (\<lambda>c. c = 0) s 1 (l - 1) (int l) }"

definition pg_gbk_verifier :: "byte list \<Rightarrow> int \<Rightarrow> int option" where
  "pg_gbk_verifier s n = do {
     l \<leftarrow> pg_gbk_mblen s;
     if n < int l then Some (-1)
     else tail_loop (\<lambda>c. c = 0) s 1 (l - 1) (int l) }"

definition pg_uhc_verifier :: "byte list \<Rightarrow> int \<Rightarrow> int option" where
  "pg_uhc_verifier s n = do {
     l \<leftarrow> pg_uhc_mblen s;
     if n < int l then Some (-1)
     else tail_loop (\<lambda>c. c = 0) s 1 (l - 1) (int l) }"

text \<open>
  The tests of \<open>pg_gb18030_verifier\<close> are in C's order: the second byte is only read when the
  string is long enough for the branch under test.
\<close>

definition pg_gb18030_verifier :: "byte list \<Rightarrow> int \<Rightarrow> int option" where
  "pg_gb18030_verifier s n = do {
     c0 \<leftarrow> peek s 0;
     if \<not> IS_HIGHBIT_SET c0 then Some 1
     else do {
       four \<leftarrow> (if n \<ge> 4 then do { c1 \<leftarrow> peek s 1; Some (c1 \<ge> 0x30 \<and> c1 \<le> 0x39) }
                 else Some False);
       if four then
         (if c0 \<ge> 0x81 \<and> c0 \<le> 0xfe then do {
            c2 \<leftarrow> peek s 2;
            if c2 \<ge> 0x81 \<and> c2 \<le> 0xfe then do {
              c3 \<leftarrow> peek s 3;
              if c3 \<ge> 0x30 \<and> c3 \<le> 0x39 then Some 4 else Some (-1) }
            else Some (-1) }
          else Some (-1))
       else if n \<ge> 2 \<and> c0 \<ge> 0x81 \<and> c0 \<le> 0xfe then do {
         c1 \<leftarrow> peek s 1;
         if (c1 \<ge> 0x40 \<and> c1 \<le> 0x7e) \<or> (c1 \<ge> 0x80 \<and> c1 \<le> 0xfe) then Some 2 else Some (-1) }
       else Some (-1) } }"

lemmas verifier_defs = pg_ascii_verifier_def pg_eucjp_verifier_def pg_euckr_verifier_def
  pg_euccn_verifier_def pg_euctw_verifier_def pg_johab_verifier_def pg_mule_verifier_def
  pg_latin1_verifier_def pg_sjis_verifier_def pg_big5_verifier_def pg_gbk_verifier_def
  pg_uhc_verifier_def pg_gb18030_verifier_def

end
