(* ===== verification/Wchar_Conv.thy ===== *)
theory Wchar_Conv
  imports Mb_Verify
begin

text \<open>
  The conversions of \<open>wchar.c\<close> between multibyte strings and arrays of \<open>pg_wchar\<close>. Each C function
  runs \<open>while (len > 0 && *from)\<close> over its input, stores one element (or one byte sequence) per
  round and ends with a zero terminator; it returns how many elements it stored. Here the result
  is the list of the stored elements without the terminator, so the return value is its length;
  \<open>None\<close> means that the input was read beyond its end. The source reads the byte at \<open>from\<close> only
  when \<open>len > 0\<close>, and so do the definitions.
\<close>

section \<open>From multibyte strings to wide characters\<close>

function pg_ascii2wchar_with_len :: "byte list \<Rightarrow> int \<Rightarrow> pg_wchar list option" where
  "pg_ascii2wchar_with_len from len =
    (if len > 0 then do {
       c \<leftarrow> peek from 0;
       if c = 0 then Some []
       else do {
         rest \<leftarrow> pg_ascii2wchar_with_len (drop 1 from) (len - 1);
         Some (ucast c # rest) } }
     else Some [])"
  by pat_completeness auto

termination pg_ascii2wchar_with_len
  by (relation "measure (\<lambda>(s, len). nat len)") auto

function pg_euc2wchar_with_len :: "byte list \<Rightarrow> int \<Rightarrow> pg_wchar list option" where
  "pg_euc2wchar_with_len from len =
    (if len > 0 then do {
       c \<leftarrow> peek from 0;
       if c = 0 then Some []
       else if c = SS2 \<and> len \<ge> 2 then do {
         c1 \<leftarrow> peek from 1;
         rest \<leftarrow> pg_euc2wchar_with_len (drop 2 from) (len - 2);
         Some ((push_bit 8 (ucast SS2) OR ucast c1) # rest) }
       else if c = SS3 \<and> len \<ge> 3 then do {
         c1 \<leftarrow> peek from 1; c2 \<leftarrow> peek from 2;
         rest \<leftarrow> pg_euc2wchar_with_len (drop 3 from) (len - 3);
         Some ((push_bit 16 (ucast SS3) OR push_bit 8 (ucast c1) OR ucast c2) # rest) }
       else if IS_HIGHBIT_SET c \<and> len \<ge> 2 then do {
         c1 \<leftarrow> peek from 1;
         rest \<leftarrow> pg_euc2wchar_with_len (drop 2 from) (len - 2);
         Some ((push_bit 8 (ucast c) OR ucast c1) # rest) }
       else do {
         rest \<leftarrow> pg_euc2wchar_with_len (drop 1 from) (len - 1);
         Some (ucast c # rest) } }
     else Some [])"
  by pat_completeness auto

termination pg_euc2wchar_with_len
  by (relation "measure (\<lambda>(s, len). nat len)") auto

definition pg_eucjp2wchar_with_len :: "byte list \<Rightarrow> int \<Rightarrow> pg_wchar list option" where
  "pg_eucjp2wchar_with_len from len = pg_euc2wchar_with_len from len"

definition pg_euckr2wchar_with_len :: "byte list \<Rightarrow> int \<Rightarrow> pg_wchar list option" where
  "pg_euckr2wchar_with_len from len = pg_euc2wchar_with_len from len"

function pg_euccn2wchar_with_len :: "byte list \<Rightarrow> int \<Rightarrow> pg_wchar list option" where
  "pg_euccn2wchar_with_len from len =
    (if len > 0 then do {
       c \<leftarrow> peek from 0;
       if c = 0 then Some []
       else if c = SS2 \<and> len \<ge> 3 then do {
         c1 \<leftarrow> peek from 1; c2 \<leftarrow> peek from 2;
         rest \<leftarrow> pg_euccn2wchar_with_len (drop 3 from) (len - 3);
         Some ((push_bit 16 (ucast SS2) OR push_bit 8 (ucast c1) OR ucast c2) # rest) }
       else if c = SS3 \<and> len \<ge> 3 then do {
         c1 \<leftarrow> peek from 1; c2 \<leftarrow> peek from 2;
         rest \<leftarrow> pg_euccn2wchar_with_len (drop 3 from) (len - 3);
         Some ((push_bit 16 (ucast SS3) OR push_bit 8 (ucast c1) OR ucast c2) # rest) }
       else if IS_HIGHBIT_SET c \<and> len \<ge> 2 then do {
         c1 \<leftarrow> peek from 1;
         rest \<leftarrow> pg_euccn2wchar_with_len (drop 2 from) (len - 2);
         Some ((push_bit 8 (ucast c) OR ucast c1) # rest) }
       else do {
         rest \<leftarrow> pg_euccn2wchar_with_len (drop 1 from) (len - 1);
         Some (ucast c # rest) } }
     else Some [])"
  by pat_completeness auto

termination pg_euccn2wchar_with_len
  by (relation "measure (\<lambda>(s, len). nat len)") auto

function pg_euctw2wchar_with_len :: "byte list \<Rightarrow> int \<Rightarrow> pg_wchar list option" where
  "pg_euctw2wchar_with_len from len =
    (if len > 0 then do {
       c \<leftarrow> peek from 0;
       if c = 0 then Some []
       else if c = SS2 \<and> len \<ge> 4 then do {
         c1 \<leftarrow> peek from 1; c2 \<leftarrow> peek from 2; c3 \<leftarrow> peek from 3;
         rest \<leftarrow> pg_euctw2wchar_with_len (drop 4 from) (len - 4);
         Some ((push_bit 24 (ucast SS2) OR push_bit 16 (ucast c1) OR push_bit 8 (ucast c2) OR ucast c3) # rest) }
       else if c = SS3 \<and> len \<ge> 3 then do {
         c1 \<leftarrow> peek from 1; c2 \<leftarrow> peek from 2;
         rest \<leftarrow> pg_euctw2wchar_with_len (drop 3 from) (len - 3);
         Some ((push_bit 16 (ucast SS3) OR push_bit 8 (ucast c1) OR ucast c2) # rest) }
       else if IS_HIGHBIT_SET c \<and> len \<ge> 2 then do {
         c1 \<leftarrow> peek from 1;
         rest \<leftarrow> pg_euctw2wchar_with_len (drop 2 from) (len - 2);
         Some ((push_bit 8 (ucast c) OR ucast c1) # rest) }
       else do {
         rest \<leftarrow> pg_euctw2wchar_with_len (drop 1 from) (len - 1);
         Some (ucast c # rest) } }
     else Some [])"
  by pat_completeness auto

termination pg_euctw2wchar_with_len
  by (relation "measure (\<lambda>(s, len). nat len)") auto

text \<open>An incomplete character at the end is dropped: the C code leaves the loop by \<open>break\<close>.\<close>

function pg_utf2wchar_with_len :: "byte list \<Rightarrow> int \<Rightarrow> pg_wchar list option" where
  "pg_utf2wchar_with_len from len =
    (if len > 0 then do {
       c \<leftarrow> peek from 0;
       if c = 0 then Some []
       else if c AND 0x80 = 0 then do {
         rest \<leftarrow> pg_utf2wchar_with_len (drop 1 from) (len - 1);
         Some (ucast c # rest) }
       else if c AND 0xe0 = 0xc0 then
         (if len < 2 then Some []
          else do {
            b2 \<leftarrow> peek from 1;
            let c1 = ucast c AND 0x1f; let c2 = ucast b2 AND 0x3f;
            rest \<leftarrow> pg_utf2wchar_with_len (drop 2 from) (len - 2);
            Some ((push_bit 6 c1 OR c2) # rest) })
       else if c AND 0xf0 = 0xe0 then
         (if len < 3 then Some []
          else do {
            b2 \<leftarrow> peek from 1; b3 \<leftarrow> peek from 2;
            let c1 = ucast c AND 0x0f; let c2 = ucast b2 AND 0x3f; let c3 = ucast b3 AND 0x3f;
            rest \<leftarrow> pg_utf2wchar_with_len (drop 3 from) (len - 3);
            Some ((push_bit 12 c1 OR push_bit 6 c2 OR c3) # rest) })
       else if c AND 0xf8 = 0xf0 then
         (if len < 4 then Some []
          else do {
            b2 \<leftarrow> peek from 1; b3 \<leftarrow> peek from 2; b4 \<leftarrow> peek from 3;
            let c1 = ucast c AND 0x07; let c2 = ucast b2 AND 0x3f; let c3 = ucast b3 AND 0x3f;
            let c4 = ucast b4 AND 0x3f;
            rest \<leftarrow> pg_utf2wchar_with_len (drop 4 from) (len - 4);
            Some ((push_bit 18 c1 OR push_bit 12 c2 OR push_bit 6 c3 OR c4) # rest) })
       else do {
         rest \<leftarrow> pg_utf2wchar_with_len (drop 1 from) (len - 1);
         Some (ucast c # rest) } }
     else Some [])"
  by pat_completeness auto

termination pg_utf2wchar_with_len
  by (relation "measure (\<lambda>(s, len). nat len)") auto

function pg_mule2wchar_with_len :: "byte list \<Rightarrow> int \<Rightarrow> pg_wchar list option" where
  "pg_mule2wchar_with_len from len =
    (if len > 0 then do {
       c \<leftarrow> peek from 0;
       if c = 0 then Some []
       else if IS_LC1 c \<and> len \<ge> 2 then do {
         c1 \<leftarrow> peek from 1;
         rest \<leftarrow> pg_mule2wchar_with_len (drop 2 from) (len - 2);
         Some ((push_bit 16 (ucast c) OR ucast c1) # rest) }
       else if IS_LCPRV1 c \<and> len \<ge> 3 then do {
         c1 \<leftarrow> peek from 1; c2 \<leftarrow> peek from 2;
         rest \<leftarrow> pg_mule2wchar_with_len (drop 3 from) (len - 3);
         Some ((push_bit 16 (ucast c1) OR ucast c2) # rest) }
       else if IS_LC2 c \<and> len \<ge> 3 then do {
         c1 \<leftarrow> peek from 1; c2 \<leftarrow> peek from 2;
         rest \<leftarrow> pg_mule2wchar_with_len (drop 3 from) (len - 3);
         Some ((push_bit 16 (ucast c) OR push_bit 8 (ucast c1) OR ucast c2) # rest) }
       else if IS_LCPRV2 c \<and> len \<ge> 4 then do {
         c1 \<leftarrow> peek from 1; c2 \<leftarrow> peek from 2; c3 \<leftarrow> peek from 3;
         rest \<leftarrow> pg_mule2wchar_with_len (drop 4 from) (len - 4);
         Some ((push_bit 16 (ucast c1) OR push_bit 8 (ucast c2) OR ucast c3) # rest) }
       else do {
         rest \<leftarrow> pg_mule2wchar_with_len (drop 1 from) (len - 1);
         Some (ucast c # rest) } }
     else Some [])"
  by pat_completeness auto

termination pg_mule2wchar_with_len
  by (relation "measure (\<lambda>(s, len). nat len)") auto

function pg_latin12wchar_with_len :: "byte list \<Rightarrow> int \<Rightarrow> pg_wchar list option" where
  "pg_latin12wchar_with_len from len =
    (if len > 0 then do {
       c \<leftarrow> peek from 0;
       if c = 0 then Some []
       else do {
         rest \<leftarrow> pg_latin12wchar_with_len (drop 1 from) (len - 1);
         Some (ucast c # rest) } }
     else Some [])"
  by pat_completeness auto

termination pg_latin12wchar_with_len
  by (relation "measure (\<lambda>(s, len). nat len)") auto

section \<open>From wide characters to multibyte strings\<close>

text \<open>The byte sequence that one round of the EUC encoder stores for \<open>*from = w\<close>.\<close>

definition wchar2euc_char :: "pg_wchar \<Rightarrow> byte list" where
  "wchar2euc_char w =
    (let c = ucast (drop_bit 24 w) in
     if c \<noteq> 0 then
       [c, ucast (drop_bit 16 w AND 0xff), ucast (drop_bit 8 w AND 0xff), ucast (w AND 0xff)]
     else let c = ucast (drop_bit 16 w) in
     if c \<noteq> 0 then [c, ucast (drop_bit 8 w AND 0xff), ucast (w AND 0xff)]
     else let c = ucast (drop_bit 8 w) in
     if c \<noteq> 0 then [c, ucast (w AND 0xff)]
     else [ucast w])"

function pg_wchar2euc_with_len :: "pg_wchar list \<Rightarrow> int \<Rightarrow> byte list option" where
  "pg_wchar2euc_with_len from len =
    (if len > 0 then do {
       w \<leftarrow> peek from 0;
       if w = 0 then Some []
       else do {
         let bs = wchar2euc_char w;
         rest \<leftarrow> pg_wchar2euc_with_len (drop 1 from) (len - 1);
         Some (bs @ rest) } }
     else Some [])"
  by pat_completeness auto

termination pg_wchar2euc_with_len
  by (relation "measure (\<lambda>(s, len). nat len)") auto

text \<open>
  The bytes are stored at \<open>to\<close> first and their number is then read off the first of them with
  \<open>pg_utf_mblen\<close>.
\<close>

function pg_wchar2utf_with_len :: "pg_wchar list \<Rightarrow> int \<Rightarrow> byte list option" where
  "pg_wchar2utf_with_len from len =
    (if len > 0 then do {
       w \<leftarrow> peek from 0;
       if w = 0 then Some []
       else do {
         let stored = unicode_to_utf8 w;
         char_len \<leftarrow> pg_utf_mblen stored;
         let bs = take char_len stored;
         rest \<leftarrow> pg_wchar2utf_with_len (drop 1 from) (len - 1);
         Some (bs @ rest) } }
     else Some [])"
  by pat_completeness auto

termination pg_wchar2utf_with_len
  by (relation "measure (\<lambda>(s, len). nat len)") auto

text \<open>The byte sequence that one round of the MULE encoder stores.\<close>

definition wchar2mule_char :: "pg_wchar \<Rightarrow> byte list" where
  "wchar2mule_char w =
    (let lb = ucast (drop_bit 16 w AND 0xff) in
     if IS_LC1 lb then [lb, ucast (w AND 0xff)]
     else if IS_LC2 lb then [lb, ucast (drop_bit 8 w AND 0xff), ucast (w AND 0xff)]
     else if IS_LCPRV1_A_RANGE lb then [LCPRV1_A, lb, ucast (w AND 0xff)]
     else if IS_LCPRV1_B_RANGE lb then [LCPRV1_B, lb, ucast (w AND 0xff)]
     else if IS_LCPRV2_A_RANGE lb then
       [LCPRV2_A, lb, ucast (drop_bit 8 w AND 0xff), ucast (w AND 0xff)]
     else if IS_LCPRV2_B_RANGE lb then
       [LCPRV2_B, lb, ucast (drop_bit 8 w AND 0xff), ucast (w AND 0xff)]
     else [ucast (w AND 0xff)])"

function pg_wchar2mule_with_len :: "pg_wchar list \<Rightarrow> int \<Rightarrow> byte list option" where
  "pg_wchar2mule_with_len from len =
    (if len > 0 then do {
       w \<leftarrow> peek from 0;
       if w = 0 then Some []
       else do {
         let bs = wchar2mule_char w;
         rest \<leftarrow> pg_wchar2mule_with_len (drop 1 from) (len - 1);
         Some (bs @ rest) } }
     else Some [])"
  by pat_completeness auto

termination pg_wchar2mule_with_len
  by (relation "measure (\<lambda>(s, len). nat len)") auto

function pg_wchar2single_with_len :: "pg_wchar list \<Rightarrow> int \<Rightarrow> byte list option" where
  "pg_wchar2single_with_len from len =
    (if len > 0 then do {
       w \<leftarrow> peek from 0;
       if w = 0 then Some []
       else do {
         let bs = [ucast w];
         rest \<leftarrow> pg_wchar2single_with_len (drop 1 from) (len - 1);
         Some (bs @ rest) } }
     else Some [])"
  by pat_completeness auto

termination pg_wchar2single_with_len
  by (relation "measure (\<lambda>(s, len). nat len)") auto

declare pg_ascii2wchar_with_len.simps [simp del]
  and pg_euc2wchar_with_len.simps [simp del]
  and pg_euccn2wchar_with_len.simps [simp del]
  and pg_euctw2wchar_with_len.simps [simp del]
  and pg_utf2wchar_with_len.simps [simp del]
  and pg_mule2wchar_with_len.simps [simp del]
  and pg_latin12wchar_with_len.simps [simp del]
  and pg_wchar2euc_with_len.simps [simp del]
  and pg_wchar2utf_with_len.simps [simp del]
  and pg_wchar2mule_with_len.simps [simp del]
  and pg_wchar2single_with_len.simps [simp del]

section \<open>Bytes packed into a wide character\<close>

lemma wide_bytes:
  fixes a b c d :: byte
  defines "w \<equiv> (push_bit 24 (ucast a) OR push_bit 16 (ucast b) OR push_bit 8 (ucast c) OR ucast d) :: pg_wchar"
  shows "ucast (drop_bit 24 w) = a" "ucast (drop_bit 16 w) = b" "ucast (drop_bit 8 w) = c"
    "ucast w = d"
  unfolding w_def by (rule bit_word_eqI; auto simp: bit_simps dest: bit_imp_le_length)+

lemma byte_of_masked: "(ucast (w AND 0xff :: pg_wchar) :: byte) = ucast w"
proof -
  have "(0xff :: pg_wchar) = mask 8" by (simp add: mask_eq_exp_minus_1)
  then have "w AND 0xff = take_bit 8 w" by (simp only: take_bit_eq_mask)
  then show ?thesis by (simp add: bit_word_eqI bit_simps)
qed

lemma wide_bytes_low [simp]:
  fixes b c d :: byte
  shows "(ucast (drop_bit 8 (push_bit 16 (ucast b) OR push_bit 8 (ucast c) OR ucast d :: pg_wchar)) :: byte) = c"
    "(ucast (push_bit 16 (ucast b) OR push_bit 8 (ucast c) OR ucast d :: pg_wchar) :: byte) = d"
    "(ucast (drop_bit 16 (push_bit 16 (ucast b) OR push_bit 8 (ucast c) OR ucast d :: pg_wchar)) :: byte) = b"
    "(ucast (drop_bit 24 (push_bit 16 (ucast b) OR push_bit 8 (ucast c) OR ucast d :: pg_wchar)) :: byte) = 0"
    "(ucast (drop_bit 8 (push_bit 8 (ucast c) OR ucast d :: pg_wchar)) :: byte) = c"
    "(ucast (push_bit 8 (ucast c) OR ucast d :: pg_wchar) :: byte) = d"
    "(ucast (drop_bit 16 (push_bit 8 (ucast c) OR ucast d :: pg_wchar)) :: byte) = 0"
    "(ucast (drop_bit 24 (push_bit 8 (ucast c) OR ucast d :: pg_wchar)) :: byte) = 0"
    "(ucast (drop_bit 16 (push_bit 16 (ucast c) OR ucast d :: pg_wchar)) :: byte) = c"
    "(ucast (push_bit 16 (ucast c) OR ucast d :: pg_wchar) :: byte) = d"
    "(ucast (drop_bit 8 (ucast d :: pg_wchar)) :: byte) = 0"
    "(ucast (drop_bit 16 (ucast d :: pg_wchar)) :: byte) = 0"
    "(ucast (drop_bit 24 (ucast d :: pg_wchar)) :: byte) = 0"
    "(ucast (ucast d :: pg_wchar) :: byte) = d"
  using wide_bytes [of 0 b c d] wide_bytes [of 0 0 c d] wide_bytes [of 0 c 0 d]
    wide_bytes [of 0 0 0 d] by (simp_all del: drop_bit_or)

lemmas wide_bytes4 [simp] = wide_bytes byte_of_masked

lemma wchar2euc_char_of_bytes:
  "a \<noteq> 0 \<Longrightarrow> wchar2euc_char (push_bit 24 (ucast a) OR push_bit 16 (ucast b) OR push_bit 8 (ucast c)
      OR ucast d) = [a, b, c, d]"
  "b \<noteq> 0 \<Longrightarrow> wchar2euc_char (push_bit 16 (ucast b) OR push_bit 8 (ucast c) OR ucast d) = [b, c, d]"
  "c \<noteq> 0 \<Longrightarrow> wchar2euc_char (push_bit 8 (ucast c) OR ucast d) = [c, d]"
  "wchar2euc_char (ucast d) = [d]"
  by (simp_all add: wchar2euc_char_def del: drop_bit_or)

text \<open>A packed character whose lead byte is not zero is not the terminator.\<close>

lemma wchar2euc_char_0: "wchar2euc_char 0 = [0]"
  by (simp add: wchar2euc_char_def)

section \<open>One round of the loops\<close>

lemma euc_encode_step:
  assumes "wchar2euc_char w = bs" "bs \<noteq> [0]" "0 \<le> n"
  shows "pg_wchar2euc_with_len (w # ws) (n + 1)
    = map_option ((@) bs) (pg_wchar2euc_with_len ws n)"
proof -
  have "w \<noteq> 0" using assms wchar2euc_char_0 by auto
  then show ?thesis using assms
    by (subst pg_wchar2euc_with_len.simps) (simp add: map_conv_bind_option comp_def)
qed

lemma single_encode_step:
  assumes "d \<noteq> 0" "0 \<le> n"
  shows "pg_wchar2single_with_len (ucast d # ws) (n + 1)
    = map_option ((@) [d]) (pg_wchar2single_with_len ws n)"
proof -
  have "(ucast d :: pg_wchar) \<noteq> 0" using assms(1) by (metis wide_bytes_low(14) unsigned_0)
  then show ?thesis using assms
    by (subst pg_wchar2single_with_len.simps) (simp add: map_conv_bind_option comp_def)
qed

text \<open>
  A round of a decoder consumes \<open>k\<close> bytes and stores one element. For the EUC family the element
  always determines the bytes, whatever they are: also a sequence no verifier would accept is
  packed without loss.
\<close>

definition euc_round :: "(byte list \<Rightarrow> int \<Rightarrow> pg_wchar list option) \<Rightarrow> byte list \<Rightarrow> int \<Rightarrow> bool" where
  "euc_round dec s len \<longleftrightarrow> (\<exists>w k. 1 \<le> k \<and> int k \<le> len \<and> wchar2euc_char w = take k s \<and>
     dec s len = map_option ((#) w) (dec (drop k s) (len - int k)))"

lemma euc_rounds:
  "1 \<le> len \<Longrightarrow> dec (c # r) len = map_option ((#) (ucast c)) (dec r (len - 1))
     \<Longrightarrow> euc_round dec (c # r) len"
  "2 \<le> len \<Longrightarrow> c \<noteq> 0 \<Longrightarrow>
     dec (c # d # r) len = map_option ((#) (push_bit 8 (ucast c) OR ucast d)) (dec r (len - 2))
     \<Longrightarrow> euc_round dec (c # d # r) len"
  "3 \<le> len \<Longrightarrow> c \<noteq> 0 \<Longrightarrow>
     dec (c # d # e # r) len
       = map_option ((#) (push_bit 16 (ucast c) OR push_bit 8 (ucast d) OR ucast e)) (dec r (len - 3))
     \<Longrightarrow> euc_round dec (c # d # e # r) len"
  "4 \<le> len \<Longrightarrow> c \<noteq> 0 \<Longrightarrow>
     dec (c # d # e # f # r) len
       = map_option ((#) (push_bit 24 (ucast c) OR push_bit 16 (ucast d) OR push_bit 8 (ucast e)
           OR ucast f)) (dec r (len - 4))
     \<Longrightarrow> euc_round dec (c # d # e # f # r) len"
  unfolding euc_round_def
  subgoal by (rule exI [where x = "ucast c"], rule exI [where x = 1])
    (simp add: wchar2euc_char_of_bytes)
  subgoal by (rule exI [where x = "push_bit 8 (ucast c) OR ucast d"], rule exI [where x = 2])
    (simp add: wchar2euc_char_of_bytes)
  subgoal by (rule exI [where x = "push_bit 16 (ucast c) OR push_bit 8 (ucast d) OR ucast e"],
      rule exI [where x = 3])
    (simp add: wchar2euc_char_of_bytes)
  subgoal by (rule exI [where x = "push_bit 24 (ucast c) OR push_bit 16 (ucast d)
      OR push_bit 8 (ucast e) OR ucast f"], rule exI [where x = 4])
    (simp add: wchar2euc_char_of_bytes)
  done

lemmas bind_map = map_conv_bind_option comp_def

lemma pg_euc2wchar_round:
  assumes "0 < len" "len \<le> int (length s)" "hd s \<noteq> 0"
  shows "euc_round pg_euc2wchar_with_len s len"
proof -
  obtain c r where s: "s = c # r" using assms by (cases s) auto
  consider "c = SS3" "3 \<le> len" | "2 \<le> len" "c = SS2 \<or> (c \<noteq> SS3 \<or> len < 3) \<and> IS_HIGHBIT_SET c"
    | "IS_HIGHBIT_SET c \<longrightarrow> len < 2" by fastforce
  then show ?thesis
  proof cases
    case 1
    then obtain d e r' where r: "r = d # e # r'" using assms s list_ge3 [of s] by auto
    show ?thesis unfolding s r
      by (rule euc_rounds(3)) (use 1 in \<open>simp_all add: bind_map pg_euc2wchar_with_len.simps [of "SS3 # _"]\<close>)
  next
    case 2
    then obtain d r' where r: "r = d # r'" using assms s list_ge2 [of s] by auto
    show ?thesis unfolding s r
      by (rule euc_rounds(2)) (use 2 assms s in \<open>auto simp add: bind_map pg_euc2wchar_with_len.simps [of "_ # _"]\<close>)
  next
    case 3
    show ?thesis unfolding s
      by (rule euc_rounds(1)) (use 3 assms s in \<open>auto simp add: bind_map pg_euc2wchar_with_len.simps [of "c # _"]\<close>)
  qed
qed

lemma pg_euccn2wchar_round:
  assumes "0 < len" "len \<le> int (length s)" "hd s \<noteq> 0"
  shows "euc_round pg_euccn2wchar_with_len s len"
proof -
  obtain c r where s: "s = c # r" using assms by (cases s) auto
  consider "c = SS2 \<or> c = SS3" "3 \<le> len" | "2 \<le> len" "(c \<noteq> SS2 \<and> c \<noteq> SS3 \<or> len < 3)" "IS_HIGHBIT_SET c"
    | "IS_HIGHBIT_SET c \<longrightarrow> len < 2" by fastforce
  then show ?thesis
  proof cases
    case 1
    then obtain d e r' where r: "r = d # e # r'" using assms s list_ge3 [of s] by auto
    show ?thesis unfolding s r
      by (rule euc_rounds(3)) (use 1 in \<open>auto simp: bind_map pg_euccn2wchar_with_len.simps [of "_ # _"]\<close>)
  next
    case 2
    then obtain d r' where r: "r = d # r'" using assms s list_ge2 [of s] by auto
    show ?thesis unfolding s r
      by (rule euc_rounds(2)) (use 2 assms s in \<open>auto simp add: bind_map pg_euccn2wchar_with_len.simps [of "_ # _"]\<close>)
  next
    case 3
    show ?thesis unfolding s
      by (rule euc_rounds(1)) (use 3 assms s in \<open>auto simp add: bind_map pg_euccn2wchar_with_len.simps [of "c # _"]\<close>)
  qed
qed

lemma pg_euctw2wchar_round:
  assumes "0 < len" "len \<le> int (length s)" "hd s \<noteq> 0"
  shows "euc_round pg_euctw2wchar_with_len s len"
proof -
  obtain c r where s: "s = c # r" using assms by (cases s) auto
  consider "c = SS2" "4 \<le> len" | "c = SS3" "3 \<le> len"
    | "2 \<le> len" "c \<noteq> SS2 \<or> len < 4" "c \<noteq> SS3 \<or> len < 3" "IS_HIGHBIT_SET c"
    | "IS_HIGHBIT_SET c \<longrightarrow> len < 2" by fastforce
  then show ?thesis
  proof cases
    case 1
    then obtain d e f r' where r: "r = d # e # f # r'" using assms s list_ge4 [of s] by auto
    show ?thesis unfolding s r
      by (rule euc_rounds(4)) (use 1 in \<open>simp_all add: bind_map pg_euctw2wchar_with_len.simps [of "_ # _"]\<close>)
  next
    case 2
    then obtain d e r' where r: "r = d # e # r'" using assms s list_ge3 [of s] by auto
    show ?thesis unfolding s r
      by (rule euc_rounds(3)) (use 2 in \<open>simp_all add: bind_map pg_euctw2wchar_with_len.simps [of "_ # _"]\<close>)
  next
    case 3
    then obtain d r' where r: "r = d # r'" using assms s list_ge2 [of s] by auto
    show ?thesis unfolding s r
      by (rule euc_rounds(2)) (use 3 assms s in \<open>auto simp add: bind_map pg_euctw2wchar_with_len.simps [of "_ # _"]\<close>)
  next
    case 4
    show ?thesis unfolding s
      by (rule euc_rounds(1)) (use 4 assms s in \<open>auto simp add: bind_map pg_euctw2wchar_with_len.simps [of "c # _"]\<close>)
  qed
qed


end
