(* ===== verification/Wchar_Codec.thy ===== *)
theory Wchar_Codec
  imports Wchar_Conv
begin

text \<open>
  What the pairs of converters of \<open>Wchar_Conv\<close> promise: no read beyond the given length, output
  arrays no longer than the callers allocate, and a round trip without loss. The promise is a
  locale, proved once from what a single round does and interpreted for every pair that occurs
  in \<open>pg_wchar_table\<close>.
\<close>

section \<open>The contract of a pair of converters\<close>

text \<open>
  \<open>wide_codec dec enc good\<close>: on an input that is \<open>good\<close>, the decoder stops at the end or at a NUL and
  otherwise turns \<open>k\<close> bytes into one element from which the encoder makes the same \<open>k\<close> bytes. The
  lemmas are what the callers of the tables rely on: the arrays they allocate are large enough,
  nothing is read beyond \<open>len\<close>, and converting there and back gives the string up to its first
  character NUL.
\<close>

locale wide_codec =
  fixes dec :: "byte list \<Rightarrow> int \<Rightarrow> pg_wchar list option"
    and enc :: "pg_wchar list \<Rightarrow> int \<Rightarrow> byte list option"
    and good :: "byte list \<Rightarrow> int \<Rightarrow> bool"
  assumes dec_stop: "len \<le> 0 \<or> s \<noteq> [] \<and> hd s = 0 \<Longrightarrow> dec s len = Some []"
    and dec_step: "0 < len \<Longrightarrow> len \<le> int (length s) \<Longrightarrow> hd s \<noteq> 0 \<Longrightarrow> good s len \<Longrightarrow>
      \<exists>w k. 1 \<le> k \<and> int k \<le> len \<and> good (drop k s) (len - int k)
        \<and> dec s len = map_option ((#) w) (dec (drop k s) (len - int k))
        \<and> (\<forall>ws n. 0 \<le> n \<longrightarrow> enc (w # ws) (n + 1) = map_option ((@) (take k s)) (enc ws n))"
    and enc_stop: "enc ws 0 = Some []"
begin

lemma there_and_back:
  assumes "len \<le> int (length s)" "good s len"
  shows "\<exists>ws k. dec s len = Some ws \<and> int (length ws) \<le> max 0 len \<and> k \<le> nat len \<and>
    (k = nat len \<or> s ! k = 0) \<and> enc ws (int (length ws)) = Some (take k s)"
  using assms
proof (induction "nat len" arbitrary: s len rule: less_induct)
  case less
  show ?case
  proof (cases "len \<le> 0 \<or> s \<noteq> [] \<and> hd s = 0")
    case True
    then show ?thesis using dec_stop [of len s] enc_stop
      by (intro exI [of _ "[]"] exI [of _ 0]) (auto simp: hd_conv_nth)
  next
    case False
    then have "0 < len" "hd s \<noteq> 0" using less.prems by auto
    with less.prems obtain w k where wk: "1 \<le> k" "int k \<le> len" "good (drop k s) (len - int k)"
      "dec s len = map_option ((#) w) (dec (drop k s) (len - int k))"
      "\<And>ws n. 0 \<le> n \<Longrightarrow> enc (w # ws) (n + 1) = map_option ((@) (take k s)) (enc ws n)"
      using dec_step [of len s] by metis
    obtain ws j where ih: "dec (drop k s) (len - int k) = Some ws"
      "int (length ws) \<le> max 0 (len - int k)" "j \<le> nat (len - int k)"
      "j = nat (len - int k) \<or> drop k s ! j = 0"
      "enc ws (int (length ws)) = Some (take j (drop k s))"
      using less.hyps [of "len - int k" "drop k s"] less.prems wk \<open>0 < len\<close> by auto
    have "enc (w # ws) (int (length (w # ws))) = Some (take (k + j) s)"
    proof -
      have e: "int (length (w # ws)) = int (length ws) + 1" by simp
      show ?thesis using wk(5) [of "int (length ws)" ws] ih(5) by (simp only: e) (simp add: take_add)
    qed
    moreover have "k + j = nat len \<or> s ! (k + j) = 0"
      using ih(3,4) wk(2) less.prems(1) by (auto simp: nat_diff_distrib)
    ultimately show ?thesis using wk ih
      by (intro exI [of _ "w # ws"] exI [of _ "k + j"]) auto
  qed
qed

lemma lossless:
  assumes "len \<le> int (length s)" "good s len" "0 \<notin> set (take (nat len) s)" "0 \<le> len"
  shows "\<exists>ws. dec s len = Some ws \<and> int (length ws) \<le> len
    \<and> enc ws (int (length ws)) = Some (take (nat len) s)"
proof -
  obtain ws k where wk: "dec s len = Some ws" "int (length ws) \<le> max 0 len" "k \<le> nat len"
    "k = nat len \<or> s ! k = 0" "enc ws (int (length ws)) = Some (take k s)"
    using there_and_back [OF assms(1,2)] by blast
  have "k = nat len"
  proof (rule ccontr)
    assume k: "k \<noteq> nat len"
    then have "take (nat len) s ! k = 0" "k < length (take (nat len) s)" using wk(3,4) assms by auto
    then show False using assms(3) nth_mem by metis
  qed
  then show ?thesis using wk assms(4) by auto
qed

end

text \<open>A family of decoders whose rounds pack the bytes forms such a pair with the EUC encoder.\<close>

lemma euc_encode_stop: "pg_wchar2euc_with_len ws 0 = Some []"
  by (subst pg_wchar2euc_with_len.simps) simp

lemma euc_wide_codec:
  assumes stop: "\<And>s len. len \<le> 0 \<or> s \<noteq> [] \<and> hd s = 0 \<Longrightarrow> dec s len = Some []"
    and round: "\<And>s len. 0 < len \<Longrightarrow> len \<le> int (length s) \<Longrightarrow> hd s \<noteq> 0 \<Longrightarrow> euc_round dec s len"
  shows "wide_codec dec pg_wchar2euc_with_len (\<lambda>s len. True)"
proof (unfold_locales, goal_cases)
  case (1 len s) then show ?case by (rule stop)
next
  case (2 len s)
  then obtain w k where wk: "1 \<le> k" "int k \<le> len" "wchar2euc_char w = take k s"
    "dec s len = map_option ((#) w) (dec (drop k s) (len - int k))"
    using round [of len s] by (auto simp: euc_round_def)
  have "hd (take k s) \<noteq> 0" "take k s \<noteq> []" using 2 wk by (cases s; cases k; simp)+
  then have "take k s \<noteq> [0]" by (metis list.sel(1))
  then show ?case using wk euc_encode_step [of w "take k s"] by blast
next
  case (3 ws) then show ?case by (rule euc_encode_stop)
qed

interpretation euc_jp_kr: wide_codec pg_euc2wchar_with_len pg_wchar2euc_with_len "\<lambda>s len. True"
  by (rule euc_wide_codec [OF _ pg_euc2wchar_round])
    (auto simp: pg_euc2wchar_with_len.simps hd_conv_nth peek_in_bounds)

interpretation euc_cn: wide_codec pg_euccn2wchar_with_len pg_wchar2euc_with_len "\<lambda>s len. True"
  by (rule euc_wide_codec [OF _ pg_euccn2wchar_round])
    (auto simp: pg_euccn2wchar_with_len.simps hd_conv_nth peek_in_bounds)

interpretation euc_tw: wide_codec pg_euctw2wchar_with_len pg_wchar2euc_with_len "\<lambda>s len. True"
  by (rule euc_wide_codec [OF _ pg_euctw2wchar_round])
    (auto simp: pg_euctw2wchar_with_len.simps hd_conv_nth peek_in_bounds)

lemma single_encode_stop: "pg_wchar2single_with_len ws 0 = Some []"
  by (subst pg_wchar2single_with_len.simps) simp

interpretation ascii: wide_codec pg_ascii2wchar_with_len pg_wchar2single_with_len "\<lambda>s len. True"
proof (unfold_locales, goal_cases)
  case (1 len s) then show ?case by (auto simp: pg_ascii2wchar_with_len.simps hd_conv_nth peek_in_bounds)
next
  case (2 len s)
  then obtain c r where s: "s = c # r" by (cases s) auto
  show ?case using 2 s single_encode_step [of c]
    by (intro exI [of _ "ucast c"] exI [of _ 1])
      (auto simp: bind_map pg_ascii2wchar_with_len.simps [of "_ # _"])
qed (rule single_encode_stop)

interpretation latin1: wide_codec pg_latin12wchar_with_len pg_wchar2single_with_len "\<lambda>s len. True"
proof (unfold_locales, goal_cases)
  case (1 len s) then show ?case by (auto simp: pg_latin12wchar_with_len.simps hd_conv_nth peek_in_bounds)
next
  case (2 len s)
  then obtain c r where s: "s = c # r" by (cases s) auto
  show ?case using 2 s single_encode_step [of c]
    by (intro exI [of _ "ucast c"] exI [of _ 1])
      (auto simp: bind_map pg_latin12wchar_with_len.simps [of "_ # _"])
qed (rule single_encode_stop)

section \<open>Encodings whose converters are inverse on well-formed text only\<close>

text \<open>
  UTF-8 and the MULE code lose information on malformed input, so their contract is stated for
  strings made of well-formed characters; such a string is \<open>good\<close> in the sense of \<open>wide_codec\<close>.
\<close>

definition chars_text :: "(byte list \<Rightarrow> bool) \<Rightarrow> byte list \<Rightarrow> int \<Rightarrow> bool" where
  "chars_text P s len \<longleftrightarrow>
     (\<exists>cs. (\<forall>c \<in> set cs. c \<noteq> [] \<and> P c) \<and> take (nat len) s = concat cs)"

locale char_codec =
  fixes dec :: "byte list \<Rightarrow> int \<Rightarrow> pg_wchar list option"
    and enc :: "pg_wchar list \<Rightarrow> int \<Rightarrow> byte list option"
    and P :: "byte list \<Rightarrow> bool"
  assumes c_stop: "len \<le> 0 \<or> s \<noteq> [] \<and> hd s = 0 \<Longrightarrow> dec s len = Some []"
    and char_step: "P c \<Longrightarrow> c \<noteq> [] \<Longrightarrow> hd c \<noteq> 0 \<Longrightarrow> int (length c) \<le> len \<Longrightarrow>
      \<exists>w. dec (c @ r) len = map_option ((#) w) (dec r (len - int (length c)))
        \<and> (\<forall>ws n. 0 \<le> n \<longrightarrow> enc (w # ws) (n + 1) = map_option ((@) c) (enc ws n))"
    and c_enc_stop: "enc ws 0 = Some []"
begin

text \<open>One element per character, and back to the same bytes.\<close>

lemma convert_chars:
  assumes "\<forall>c \<in> set cs. c \<noteq> [] \<and> hd c \<noteq> 0 \<and> P c"
  shows "\<exists>ws. dec (concat cs @ r) (int (length (concat cs))) = Some ws \<and> length ws = length cs
    \<and> enc ws (int (length cs)) = Some (concat cs)"
  using assms
proof (induction cs)
  case Nil
  show ?case using c_stop [of 0 r] c_enc_stop by simp
next
  case (Cons c cs)
  then obtain ws where ws: "dec (concat cs @ r) (int (length (concat cs))) = Some ws"
    "length ws = length cs" "enc ws (int (length cs)) = Some (concat cs)" by auto
  obtain w where w:
    "dec (c @ concat cs @ r) (int (length (concat (c # cs))))
      = map_option ((#) w) (dec (concat cs @ r) (int (length (concat (c # cs))) - int (length c)))"
    "\<And>ws n. 0 \<le> n \<Longrightarrow> enc (w # ws) (n + 1) = map_option ((@) c) (enc ws n)"
    using char_step [of c "int (length (concat (c # cs)))" "concat cs @ r"] Cons.prems by auto
  have "int (length (concat (c # cs))) - int (length c) = int (length (concat cs))" by simp
  then have "dec (concat (c # cs) @ r) (int (length (concat (c # cs)))) = Some (w # ws)"
    using w(1) ws(1) by (simp only: concat.simps append_assoc) simp
  moreover have "int (length (c # cs)) = int (length cs) + 1" by simp
  then have "enc (w # ws) (int (length (c # cs))) = Some (concat (c # cs))"
    using w(2) [of "int (length cs)" ws] ws(3) by (simp only: concat.simps) simp
  ultimately show ?case using ws(2) by (intro exI [of _ "w # ws"]) simp
qed

end

sublocale char_codec \<subseteq> wide_codec dec enc "chars_text P"
proof (unfold_locales, goal_cases)
  case (1 len s) then show ?case by (rule c_stop)
next
  case (2 len s)
  then obtain cs where cs: "\<forall>c \<in> set cs. c \<noteq> [] \<and> P c" "take (nat len) s = concat cs"
    by (auto simp: chars_text_def)
  then obtain c cs' where c: "cs = c # cs'" using 2 by (cases cs) auto
  then have c0: "c \<noteq> []" "P c" and t: "take (nat len) s = c @ concat cs'" using cs by auto
  then have lc: "length c \<le> nat len" "take (length c) s = c"
    by (metis append_eq_conv_conj length_append length_take le_add1 min.bounded_iff,
        metis append_eq_conv_conj length_append length_take le_add1 min.bounded_iff min.absorb1 take_take)
  then have s: "s = c @ drop (length c) s" by (metis append_take_drop_id)
  have "hd c \<noteq> 0" using s c0 2(3) by (metis hd_append2)
  moreover have "int (length c) \<le> len" using lc 2 by linarith
  moreover have "take (nat (len - int (length c))) (drop (length c) s) = concat cs'"
  proof -
    have "nat (len - int (length c)) = nat len - length c" by simp
    then show ?thesis using t by (simp add: drop_take [symmetric])
  qed
  then have "chars_text P (drop (length c) s) (len - int (length c))"
    using cs(1) c by (auto simp: chars_text_def)
  moreover have "1 \<le> length c" using c0 by (cases c) auto
  moreover note char_step [OF c0(2,1), of len "drop (length c) s"]
  ultimately show ?case using s lc(2) by metis
next
  case (3 ws) then show ?case by (rule c_enc_stop)
qed

text \<open>UTF-8: the character is the encoding of a Unicode scalar value.\<close>

definition utf8_char :: "byte list \<Rightarrow> bool" where
  "utf8_char c \<longleftrightarrow> utf8_legal (map unat c)"

lemma pg_utf2wchar_round:
  assumes "utf8_to_unicode s = Some w" "w \<noteq> 0xffffffff" "pg_utf_mblen s = Some k" "int k \<le> len"
    "hd s \<noteq> 0"
  shows "pg_utf2wchar_with_len s len = map_option ((#) w) (pg_utf2wchar_with_len (drop k s) (len - int k))"
proof -
  obtain c r where s: "s = c # r" using assms(1) by (cases s) (auto simp: utf8_to_unicode_def)
  have "0 < len" using assms(3,4) pg_utf_mblen_bounds [of s k] by linarith
  then show ?thesis using assms
    by (subst pg_utf2wchar_with_len.simps)
      (auto simp: s utf8_to_unicode_def pg_utf_mblen_def bind_map Let_def
        split: if_splits bind_splits)
qed

lemma pg_wchar2utf_round:
  assumes "w \<noteq> 0" "unat w < 2 ^ 21" "0 \<le> n" "pg_utf_mblen (unicode_to_utf8 w) = Some (length (unicode_to_utf8 w))"
  shows "pg_wchar2utf_with_len (w # ws) (n + 1)
    = map_option ((@) (unicode_to_utf8 w)) (pg_wchar2utf_with_len ws n)"
  using assms by (subst pg_wchar2utf_with_len.simps) (simp add: bind_map)

interpretation utf8: char_codec pg_utf2wchar_with_len pg_wchar2utf_with_len utf8_char
proof (unfold_locales, goal_cases)
  case (1 len s) then show ?case by (auto simp: pg_utf2wchar_with_len.simps hd_conv_nth peek_in_bounds)
next
  case (2 c len r)
  obtain w where w: "unicode_scalar (unat w)" "unicode_to_utf8 w = c"
    using 2(1) unicode_to_utf8_value [of c] by (auto simp: utf8_char_def)
  then have lt: "unat w < 2 ^ 21" "w \<noteq> 0xffffffff" by (auto simp: unicode_scalar_def)
  have "pg_utf_mblen (c @ r) = Some (length c)" "pg_utf_mblen c = Some (length c)"
    using 2(1) pg_utf_mblen_legal [of c r] pg_utf_mblen_legal [of c "[]"] by (simp_all add: utf8_char_def)
  moreover have "utf8_to_unicode (c @ r) = Some w" using utf8_decode_encode [OF lt(1), of r] w by simp
  moreover have "w \<noteq> 0"
  proof
    assume "w = 0"
    then have "c = [0]" using w by (simp add: unicode_to_utf8_def)
    then show False using 2(3) by simp
  qed
  moreover have "hd (c @ r) \<noteq> 0" using 2 by simp
  ultimately show ?case using pg_utf2wchar_round [of "c @ r" w "length c" len] pg_wchar2utf_round [of w] lt w 2
    by auto
next
  case (3 ws) then show ?case by (subst pg_wchar2utf_with_len.simps) simp
qed

text \<open>
  The MULE code: a character of an official charset, or a private lead byte followed by a
  charset number of its range. Outside those ranges the encoder picks the other private lead byte.
\<close>

fun mule_char :: "byte list \<Rightarrow> bool" where
  "mule_char [a] \<longleftrightarrow> \<not> IS_LC1 a \<and> \<not> IS_LC2 a \<and> \<not> IS_LCPRV1 a \<and> \<not> IS_LCPRV2 a"
| "mule_char [a, b] \<longleftrightarrow> IS_LC1 a"
| "mule_char [a, b, c] \<longleftrightarrow> IS_LC2 a \<or> a = LCPRV1_A \<and> IS_LCPRV1_A_RANGE b
     \<or> a = LCPRV1_B \<and> IS_LCPRV1_B_RANGE b"
| "mule_char [a, b, c, d] \<longleftrightarrow> a = LCPRV2_A \<and> IS_LCPRV2_A_RANGE b
     \<or> a = LCPRV2_B \<and> IS_LCPRV2_B_RANGE b"
| "mule_char _ \<longleftrightarrow> False"

lemma mule_ranges_disjoint:
  "IS_LC2 b \<Longrightarrow> \<not> IS_LC1 b"
  "IS_LCPRV1_A_RANGE b \<Longrightarrow> \<not> IS_LC1 b \<and> \<not> IS_LC2 b"
  "IS_LCPRV1_B_RANGE b \<Longrightarrow> \<not> IS_LC1 b \<and> \<not> IS_LC2 b \<and> \<not> IS_LCPRV1_A_RANGE b"
  "IS_LCPRV2_A_RANGE b \<Longrightarrow> \<not> IS_LC1 b \<and> \<not> IS_LC2 b \<and> \<not> IS_LCPRV1_A_RANGE b \<and> \<not> IS_LCPRV1_B_RANGE b"
  "IS_LCPRV2_B_RANGE b \<Longrightarrow> \<not> IS_LC1 b \<and> \<not> IS_LC2 b \<and> \<not> IS_LCPRV1_A_RANGE b \<and> \<not> IS_LCPRV1_B_RANGE b
     \<and> \<not> IS_LCPRV2_A_RANGE b"
  "\<not> IS_LC1 0" "\<not> IS_LC2 0" "\<not> IS_LCPRV1_A_RANGE 0" "\<not> IS_LCPRV1_B_RANGE 0" "\<not> IS_LCPRV2_A_RANGE 0"
  "\<not> IS_LCPRV2_B_RANGE 0"
  by (auto simp: mule_classes byte_le_iff)

lemma mule_leads_disjoint:
  "IS_LC2 b \<Longrightarrow> \<not> IS_LCPRV1 b"
  "\<not> IS_LC1 LCPRV1_A" "\<not> IS_LC1 LCPRV1_B" "IS_LCPRV1 LCPRV1_A" "IS_LCPRV1 LCPRV1_B"
  "\<not> IS_LC1 LCPRV2_A" "\<not> IS_LC1 LCPRV2_B" "\<not> IS_LC2 LCPRV2_A" "\<not> IS_LC2 LCPRV2_B"
  "\<not> IS_LCPRV1 LCPRV2_A" "\<not> IS_LCPRV1 LCPRV2_B" "IS_LCPRV2 LCPRV2_A" "IS_LCPRV2 LCPRV2_B"
  by (auto simp: mule_classes byte_le_iff)

lemma mule_encode_step:
  assumes "wchar2mule_char w = bs" "bs \<noteq> [0]" "0 \<le> n"
  shows "pg_wchar2mule_with_len (w # ws) (n + 1)
    = map_option ((@) bs) (pg_wchar2mule_with_len ws n)"
proof -
  have "wchar2mule_char 0 = [0]" by (simp add: wchar2mule_char_def mule_ranges_disjoint)
  then have "w \<noteq> 0" using assms by auto
  then show ?thesis using assms
    by (subst pg_wchar2mule_with_len.simps) (simp add: bind_map)
qed

lemma wchar2mule_char_of_bytes:
  "IS_LC1 a \<Longrightarrow> wchar2mule_char (push_bit 16 (ucast a) OR ucast b) = [a, b]"
  "IS_LC2 a \<Longrightarrow> wchar2mule_char (push_bit 16 (ucast a) OR push_bit 8 (ucast b) OR ucast c) = [a, b, c]"
  "IS_LCPRV1_A_RANGE b \<Longrightarrow> wchar2mule_char (push_bit 16 (ucast b) OR ucast c) = [LCPRV1_A, b, c]"
  "IS_LCPRV1_B_RANGE b \<Longrightarrow> wchar2mule_char (push_bit 16 (ucast b) OR ucast c) = [LCPRV1_B, b, c]"
  "IS_LCPRV2_A_RANGE b \<Longrightarrow>
    wchar2mule_char (push_bit 16 (ucast b) OR push_bit 8 (ucast c) OR ucast d) = [LCPRV2_A, b, c, d]"
  "IS_LCPRV2_B_RANGE b \<Longrightarrow>
    wchar2mule_char (push_bit 16 (ucast b) OR push_bit 8 (ucast c) OR ucast d) = [LCPRV2_B, b, c, d]"
  "wchar2mule_char (ucast a) = [a]"
  by (simp_all add: wchar2mule_char_def Let_def mule_ranges_disjoint del: drop_bit_or)

lemma mule_decode_round1:
  assumes "mule_char [a]" "a \<noteq> 0" "1 \<le> len"
  shows "pg_mule2wchar_with_len (a # r) len = map_option ((#) (ucast a)) (pg_mule2wchar_with_len r (len - 1))"
  using assms by (simp add: bind_map pg_mule2wchar_with_len.simps [of "_ # _"])

lemma mule_decode_round2:
  assumes "mule_char [a, b]" "a \<noteq> 0" "2 \<le> len"
  shows "pg_mule2wchar_with_len (a # b # r) len
    = map_option ((#) (push_bit 16 (ucast a) OR ucast b)) (pg_mule2wchar_with_len r (len - 2))"
  using assms by (simp add: bind_map pg_mule2wchar_with_len.simps [of "_ # _"])

lemma mule_decode_round3:
  assumes "a \<noteq> 0" "3 \<le> len"
  shows "IS_LC2 a \<Longrightarrow> pg_mule2wchar_with_len (a # b # c # r) len
      = map_option ((#) (push_bit 16 (ucast a) OR push_bit 8 (ucast b) OR ucast c))
          (pg_mule2wchar_with_len r (len - 3))"
    and "IS_LCPRV1 a \<Longrightarrow> pg_mule2wchar_with_len (a # b # c # r) len
      = map_option ((#) (push_bit 16 (ucast b) OR ucast c)) (pg_mule2wchar_with_len r (len - 3))"
  using assms
  by (simp_all add: bind_map pg_mule2wchar_with_len.simps [of "_ # _"] mule_leads_disjoint
      mule_ranges_disjoint) (auto simp: IS_LCPRV1_def mule_leads_disjoint)

lemma mule_decode_round4:
  assumes "a \<noteq> 0" "4 \<le> len" "IS_LCPRV2 a"
  shows "pg_mule2wchar_with_len (a # b # c # d # r) len
    = map_option ((#) (push_bit 16 (ucast b) OR push_bit 8 (ucast c) OR ucast d))
        (pg_mule2wchar_with_len r (len - 4))"
proof -
  have "\<not> IS_LC1 a" "\<not> IS_LC2 a" "\<not> IS_LCPRV1 a"
    using assms(3) by (auto simp: IS_LCPRV2_def mule_leads_disjoint)
  then show ?thesis using assms by (simp add: bind_map pg_mule2wchar_with_len.simps [of "_ # _"])
qed

lemma mule_round:
  assumes "mule_char c" "c \<noteq> []" "hd c \<noteq> 0" "int (length c) \<le> len"
  shows "\<exists>w. wchar2mule_char w = c \<and> pg_mule2wchar_with_len (c @ r) len
      = map_option ((#) w) (pg_mule2wchar_with_len r (len - int (length c)))"
  using assms
proof (cases c rule: mule_char.cases)
  case (1 a)
  then show ?thesis using assms mule_decode_round1 [of a len r]
    by (intro exI [of _ "ucast a"]) (simp add: wchar2mule_char_of_bytes)
next
  case (2 a b)
  then show ?thesis using assms mule_decode_round2 [of a b len r]
    by (intro exI [of _ "push_bit 16 (ucast a) OR ucast b"]) (simp add: wchar2mule_char_of_bytes)
next
  case (3 a b d)
  have P: "IS_LCPRV1 a \<Longrightarrow> pg_mule2wchar_with_len (c @ r) len
      = map_option ((#) (push_bit 16 (ucast b) OR ucast d)) (pg_mule2wchar_with_len r (len - int (length c)))"
    using 3 assms mule_decode_round3(2) [of a len b d r] by simp
  consider "IS_LC2 a" | "a = LCPRV1_A" "IS_LCPRV1_A_RANGE b" | "a = LCPRV1_B" "IS_LCPRV1_B_RANGE b"
    using 3 assms by auto
  then show ?thesis
  proof cases
    case 1
    then show ?thesis using 3 assms mule_decode_round3(1) [of a len b d r]
      by (intro exI [of _ "push_bit 16 (ucast a) OR push_bit 8 (ucast b) OR ucast d"])
        (simp add: wchar2mule_char_of_bytes)
  next
    case 2
    then show ?thesis using P 3 mule_leads_disjoint(4) wchar2mule_char_of_bytes(3) [of b d] by metis
  next
    case 3: 3
    then show ?thesis using P \<open>c = [a, b, d]\<close> mule_leads_disjoint(5) wchar2mule_char_of_bytes(4) [of b d]
      by metis
  qed
next
  case (4 a b d e)
  have P: "IS_LCPRV2 a \<Longrightarrow> pg_mule2wchar_with_len (c @ r) len
      = map_option ((#) (push_bit 16 (ucast b) OR push_bit 8 (ucast d) OR ucast e))
          (pg_mule2wchar_with_len r (len - int (length c)))"
    using 4 assms mule_decode_round4 [of a len b d e r] by simp
  show ?thesis
  proof (cases "a = LCPRV2_A \<and> IS_LCPRV2_A_RANGE b")
    case True
    then show ?thesis using P 4 mule_leads_disjoint(12) wchar2mule_char_of_bytes(5) [of b d e] by metis
  next
    case False
    then have "a = LCPRV2_B" "IS_LCPRV2_B_RANGE b" using 4 assms by auto
    then show ?thesis using P 4 mule_leads_disjoint(13) wchar2mule_char_of_bytes(6) [of b d e] by metis
  qed
qed simp_all

interpretation mule: char_codec pg_mule2wchar_with_len pg_wchar2mule_with_len mule_char
proof (unfold_locales, goal_cases)
  case (1 len s) then show ?case by (auto simp: pg_mule2wchar_with_len.simps hd_conv_nth peek_in_bounds)
next
  case (2 c len r)
  obtain w where "wchar2mule_char w = c" "pg_mule2wchar_with_len (c @ r) len
    = map_option ((#) w) (pg_mule2wchar_with_len r (len - int (length c)))"
    using mule_round [OF 2, of r] by blast
  moreover have "c \<noteq> [0]" using 2 by auto
  ultimately show ?case using mule_encode_step [of w c] by blast
next
  case (3 ws) then show ?case by (subst pg_wchar2mule_with_len.simps) simp
qed

section \<open>Properties\<close>

text \<open>
  C17: the four EUC decoders never lose information. For any bytes without a NUL, well-formed or
  not, they read only the \<open>len\<close> bytes, store at most \<open>len\<close> elements (so an array of \<open>len + 1\<close>
  suffices with the terminator), and \<open>pg_wchar2euc_with_len\<close> gives back exactly the same bytes.
\<close>

theorem euc_conversion_lossless:
  assumes "dec \<in> {pg_eucjp2wchar_with_len, pg_euckr2wchar_with_len, pg_euccn2wchar_with_len,
      pg_euctw2wchar_with_len}"
    and "0 \<le> len" "len \<le> int (length s)" "0 \<notin> set (take (nat len) s)"
  shows "\<exists>ws. dec s len = Some ws \<and> int (length ws) \<le> len \<and>
    pg_wchar2euc_with_len ws (int (length ws)) = Some (take (nat len) s)"
proof -
  have "pg_eucjp2wchar_with_len = pg_euc2wchar_with_len" "pg_euckr2wchar_with_len = pg_euc2wchar_with_len"
    by (intro ext; simp add: pg_eucjp2wchar_with_len_def pg_euckr2wchar_with_len_def)+
  then show ?thesis
    using assms euc_jp_kr.lossless [of len s] euc_cn.lossless [of len s] euc_tw.lossless [of len s]
    by auto
qed

theorem euc_conversion_lossless_witness:
  "\<exists>ws. pg_euctw2wchar_with_len [0x8e, 0xa2, 0xa1, 0xb0, 0x41, 0xff] 6 = Some ws \<and>
    int (length ws) \<le> 6 \<and>
    pg_wchar2euc_with_len ws (int (length ws)) = Some [0x8e, 0xa2, 0xa1, 0xb0, 0x41, 0xff]"
  using euc_conversion_lossless [of pg_euctw2wchar_with_len 6 "[0x8e, 0xa2, 0xa1, 0xb0, 0x41, 0xff]"]
  by simp

end
