(* ===== verification/Utf8_Width.thy ===== *)
theory Utf8_Width
  imports Utf8
begin

text \<open>
  The display width of a UTF-8 character: the interval table of combining characters, its binary
  search, the width of a code point and the \<open>dsplen\<close> function of the encoding.

  The search is shown to be correct on any table whose intervals are non-empty, disjoint and in
  order, to stay inside the table, and to decide membership exactly as a linear scan does; the
  width function of the source is then a closed formula.
\<close>

section \<open>Binary search in an interval table\<close>

record mbinterval =
  mb_first :: "16 word"
  mb_last :: "16 word"

definition mbi :: "16 word \<Rightarrow> 16 word \<Rightarrow> mbinterval" where
  "mbi a b = \<lparr>mb_first = a, mb_last = b\<rparr>"

text \<open>Reading an entry of the table; \<open>None\<close> is an access outside it.\<close>

definition table_at :: "'a list \<Rightarrow> int \<Rightarrow> 'a option" where
  "table_at t i = (if 0 \<le> i \<and> i < int (length t) then Some (t ! nat i) else None)"

text \<open>
  The loop of \<open>mbbisearch\<close>. The C locals are \<open>int\<close>; \<open>min + max\<close> is not negative while the loop
  runs, so C's division is \<open>div\<close>.
\<close>

function mbbisearch_loop :: "pg_wchar \<Rightarrow> mbinterval list \<Rightarrow> int \<Rightarrow> int \<Rightarrow> int option" where
  "mbbisearch_loop ucs table lo hi =
    (if hi \<ge> lo then
       (let mid = (lo + hi) div 2 in
        do {
          e \<leftarrow> table_at table mid;
          if ucs > ucast (mb_last e) then mbbisearch_loop ucs table (mid + 1) hi
          else if ucs < ucast (mb_first e) then mbbisearch_loop ucs table lo (mid - 1)
          else Some 1 })
     else Some 0)"
  by pat_completeness auto
termination
  by (relation "measure (\<lambda>(ucs, table, lo, hi). nat (hi - lo + 1))") auto

declare mbbisearch_loop.simps [simp del]

definition mbbisearch :: "pg_wchar \<Rightarrow> mbinterval list \<Rightarrow> int \<Rightarrow> int option" where
  "mbbisearch ucs table hi = do {
     e0 \<leftarrow> table_at table 0;
     if ucs < ucast (mb_first e0) then Some 0
     else do {
       e1 \<leftarrow> table_at table hi;
       if ucs > ucast (mb_last e1) then Some 0
       else mbbisearch_loop ucs table 0 hi } }"

section \<open>Width of a code point\<close>

definition combining :: "mbinterval list" where
  "combining =
    [mbi 0x0300 0x034E, mbi 0x0360 0x0362, mbi 0x0483 0x0486, mbi 0x0488 0x0489,
     mbi 0x0591 0x05A1, mbi 0x05A3 0x05B9, mbi 0x05BB 0x05BD, mbi 0x05BF 0x05BF,
     mbi 0x05C1 0x05C2, mbi 0x05C4 0x05C4, mbi 0x064B 0x0655, mbi 0x0670 0x0670,
     mbi 0x06D6 0x06E4, mbi 0x06E7 0x06E8, mbi 0x06EA 0x06ED, mbi 0x070F 0x070F,
     mbi 0x0711 0x0711, mbi 0x0730 0x074A, mbi 0x07A6 0x07B0, mbi 0x0901 0x0902,
     mbi 0x093C 0x093C, mbi 0x0941 0x0948, mbi 0x094D 0x094D, mbi 0x0951 0x0954,
     mbi 0x0962 0x0963, mbi 0x0981 0x0981, mbi 0x09BC 0x09BC, mbi 0x09C1 0x09C4,
     mbi 0x09CD 0x09CD, mbi 0x09E2 0x09E3, mbi 0x0A02 0x0A02, mbi 0x0A3C 0x0A3C,
     mbi 0x0A41 0x0A42, mbi 0x0A47 0x0A48, mbi 0x0A4B 0x0A4D, mbi 0x0A70 0x0A71,
     mbi 0x0A81 0x0A82, mbi 0x0ABC 0x0ABC, mbi 0x0AC1 0x0AC5, mbi 0x0AC7 0x0AC8,
     mbi 0x0ACD 0x0ACD, mbi 0x0B01 0x0B01, mbi 0x0B3C 0x0B3C, mbi 0x0B3F 0x0B3F,
     mbi 0x0B41 0x0B43, mbi 0x0B4D 0x0B4D, mbi 0x0B56 0x0B56, mbi 0x0B82 0x0B82,
     mbi 0x0BC0 0x0BC0, mbi 0x0BCD 0x0BCD, mbi 0x0C3E 0x0C40, mbi 0x0C46 0x0C48,
     mbi 0x0C4A 0x0C4D, mbi 0x0C55 0x0C56, mbi 0x0CBF 0x0CBF, mbi 0x0CC6 0x0CC6,
     mbi 0x0CCC 0x0CCD, mbi 0x0D41 0x0D43, mbi 0x0D4D 0x0D4D, mbi 0x0DCA 0x0DCA,
     mbi 0x0DD2 0x0DD4, mbi 0x0DD6 0x0DD6, mbi 0x0E31 0x0E31, mbi 0x0E34 0x0E3A,
     mbi 0x0E47 0x0E4E, mbi 0x0EB1 0x0EB1, mbi 0x0EB4 0x0EB9, mbi 0x0EBB 0x0EBC,
     mbi 0x0EC8 0x0ECD, mbi 0x0F18 0x0F19, mbi 0x0F35 0x0F35, mbi 0x0F37 0x0F37,
     mbi 0x0F39 0x0F39, mbi 0x0F71 0x0F7E, mbi 0x0F80 0x0F84, mbi 0x0F86 0x0F87,
     mbi 0x0F90 0x0F97, mbi 0x0F99 0x0FBC, mbi 0x0FC6 0x0FC6, mbi 0x102D 0x1030,
     mbi 0x1032 0x1032, mbi 0x1036 0x1037, mbi 0x1039 0x1039, mbi 0x1058 0x1059,
     mbi 0x1160 0x11FF, mbi 0x17B7 0x17BD, mbi 0x17C6 0x17C6, mbi 0x17C9 0x17D3,
     mbi 0x180B 0x180E, mbi 0x18A9 0x18A9, mbi 0x200B 0x200F, mbi 0x202A 0x202E,
     mbi 0x206A 0x206F, mbi 0x20D0 0x20E3, mbi 0x302A 0x302F, mbi 0x3099 0x309A,
     mbi 0xFB1E 0xFB1E, mbi 0xFE20 0xFE23, mbi 0xFEFF 0xFEFF, mbi 0xFFF9 0xFFFB]"

text \<open>The last clause of \<open>ucs_wcwidth\<close>: the wide East Asian ranges.\<close>

definition ucs_wide :: "pg_wchar \<Rightarrow> bool" where
  "ucs_wide ucs \<longleftrightarrow> ucs \<ge> 0x1100 \<and>
    (ucs \<le> 0x115f \<or>
     (ucs \<ge> 0x2e80 \<and> ucs \<le> 0xa4cf \<and> ucs AND NOT 0x0011 \<noteq> 0x300a \<and> ucs \<noteq> 0x303f) \<or>
     (ucs \<ge> 0xac00 \<and> ucs \<le> 0xd7a3) \<or>
     (ucs \<ge> 0xf900 \<and> ucs \<le> 0xfaff) \<or>
     (ucs \<ge> 0xfe30 \<and> ucs \<le> 0xfe6f) \<or>
     (ucs \<ge> 0xff00 \<and> ucs \<le> 0xff5f) \<or>
     (ucs \<ge> 0xffe0 \<and> ucs \<le> 0xffe6) \<or>
     (ucs \<ge> 0x20000 \<and> ucs \<le> 0x2ffff))"

definition ucs_wcwidth :: "pg_wchar \<Rightarrow> int option" where
  "ucs_wcwidth ucs =
    (if ucs = 0 then Some 0
     else if ucs < 0x20 \<or> (ucs \<ge> 0x7f \<and> ucs < 0xa0) \<or> ucs > 0x0010ffff then Some (-1)
     else do {
       found \<leftarrow> mbbisearch ucs combining (int (length combining) - 1);
       if found \<noteq> 0 then Some 0 else Some (1 + (if ucs_wide ucs then 1 else 0)) })"

definition pg_utf_dsplen :: "byte list \<Rightarrow> int option" where
  "pg_utf_dsplen s = do { u \<leftarrow> utf8_to_unicode s; ucs_wcwidth u }"

section \<open>Correctness of the search\<close>

definition in_interval :: "pg_wchar \<Rightarrow> mbinterval \<Rightarrow> bool" where
  "in_interval ucs e \<longleftrightarrow> ucast (mb_first e) \<le> ucs \<and> ucs \<le> ucast (mb_last e)"

text \<open>The comment in the source: a sorted list of non-overlapping intervals.\<close>

fun intervals_sorted :: "mbinterval list \<Rightarrow> bool" where
  "intervals_sorted [] = True"
| "intervals_sorted [e] = (mb_first e \<le> mb_last e)"
| "intervals_sorted (e # f # es) =
     (mb_first e \<le> mb_last e \<and> mb_last e < mb_first f \<and> intervals_sorted (f # es))"

lemma ucast16_le [simp]: "(ucast (a :: 16 word) :: pg_wchar) \<le> ucast b \<longleftrightarrow> a \<le> b"
  by (simp add: word_le_nat_alt unsigned_ucast_eq take_bit_nat_eq_self order_less_trans
      [OF unsigned_less])

lemma ucast16_less [simp]: "(ucast (a :: 16 word) :: pg_wchar) < ucast b \<longleftrightarrow> a < b"
  by (simp add: linorder_not_le [symmetric])

lemma intervals_sorted_Cons:
  "intervals_sorted (e # es) \<Longrightarrow>
    mb_first e \<le> mb_last e \<and> (\<forall>f \<in> set es. mb_last e < mb_first f) \<and> intervals_sorted es"
proof (induction es arbitrary: e)
  case (Cons f es)
  then have a: "mb_last e < mb_first f" and b: "intervals_sorted (f # es)" by simp_all
  have c: "mb_first f \<le> mb_last f" and d: "\<forall>g \<in> set es. mb_last f < mb_first g"
    using Cons.IH [OF b] by blast+
  have "mb_last e < mb_last f" using a c by (rule less_le_trans)
  then have "\<forall>g \<in> set es. mb_last e < mb_first g" using d by (meson less_trans)
  with a show ?case using Cons.prems by simp
qed simp

lemma intervals_sorted_nth:
  "intervals_sorted t \<Longrightarrow> j < length t \<Longrightarrow> mb_first (t ! j) \<le> mb_last (t ! j) \<and>
    (\<forall>i < j. mb_last (t ! i) < mb_first (t ! j))"
proof (induction t arbitrary: j)
  case (Cons e es)
  note s = intervals_sorted_Cons [OF Cons.prems(1)]
  show ?case
  proof (cases j)
    case 0 then show ?thesis using s by simp
  next
    case (Suc k)
    then have k: "k < length es" using Cons.prems by simp
    have "mb_last ((e # es) ! i) < mb_first (es ! k)" if "i < j" for i
      using that Suc s Cons.IH [of k] k by (cases i) simp_all
    then show ?thesis using Suc Cons.IH [of k] k s by simp
  qed
qed simp

lemma table_at_in: "0 \<le> i \<Longrightarrow> i < int (length t) \<Longrightarrow> table_at t i = Some (t ! nat i)"
  by (simp add: table_at_def)

text \<open>
  What the search decides: whether some interval of the table holds the code point.
\<close>

definition in_table :: "pg_wchar \<Rightarrow> mbinterval list \<Rightarrow> bool" where
  "in_table ucs t \<longleftrightarrow> list_ex (in_interval ucs) t"

lemma in_table_iff: "in_table ucs t \<longleftrightarrow> (\<exists>k < length t. in_interval ucs (t ! k))"
  by (fastforce simp: in_table_def list_ex_iff in_set_conv_nth)

lemma mbbisearch_loop_correct:
  assumes "intervals_sorted t" "0 \<le> lo" "hi < int (length t)"
    and "\<And>k. k < length t \<Longrightarrow> int k < lo \<Longrightarrow> ucast (mb_last (t ! k)) < ucs"
    and "\<And>k. k < length t \<Longrightarrow> hi < int k \<Longrightarrow> ucs < ucast (mb_first (t ! k))"
  shows "mbbisearch_loop ucs t lo hi = Some (if in_table ucs t then 1 else 0)"
  using assms
proof (induction ucs t lo hi rule: mbbisearch_loop.induct)
  case (1 ucs t lo hi)
  note ord = intervals_sorted_nth [OF "1.prems"(1)]
  show ?case
  proof (cases "lo \<le> hi")
    case False
    have "\<not> in_interval ucs (t ! k)" if "k < length t" for k
      using "1.prems"(4,5) [OF that] False by (cases "int k < lo") (auto simp: in_interval_def not_le)
    with False show ?thesis by (simp add: mbbisearch_loop.simps [of ucs t lo hi] in_table_iff)
  next
    case True
    define mid where "mid = (lo + hi) div 2"
    have mid: "lo \<le> mid" "mid \<le> hi" using True by (simp_all add: mid_def)
    then have ml: "nat mid < length t" "0 \<le> mid" using "1.prems"(2,3) by simp_all
    let ?e = "t ! nat mid"
    have at: "table_at t mid = Some ?e" using mid "1.prems"(2,3) by (intro table_at_in) auto
    have step: "mbbisearch_loop ucs t lo hi =
      (if ucs > ucast (mb_last ?e) then mbbisearch_loop ucs t (mid + 1) hi
       else if ucs < ucast (mb_first ?e) then mbbisearch_loop ucs t lo (mid - 1) else Some 1)"
      using True at by (simp add: mbbisearch_loop.simps [of ucs t lo hi] mid_def Let_def)
    consider (right) "ucs > ucast (mb_last ?e)" | (left) "ucs < ucast (mb_first ?e)"
      | (hit) "in_interval ucs ?e" 
      by (cases "ucs > ucast (mb_last ?e)"; cases "ucs < ucast (mb_first ?e)")
        (auto simp: in_interval_def not_less)
    then show ?thesis
    proof cases
      case right
      have "mbbisearch_loop ucs t (mid + 1) hi = Some (if in_table ucs t then 1 else 0)"
      proof (rule "1.IH"(1) [OF True mid_def at right "1.prems"(1) _ "1.prems"(3) _ "1.prems"(5)])
        show "0 \<le> mid + 1" using ml by simp
        fix k assume k: "k < length t" "int k < mid + 1"
        show "ucast (mb_last (t ! k)) < ucs"
        proof (cases "k = nat mid")
          case False
          then have "mb_last (t ! k) < mb_first ?e" using ord [OF ml(1)] k by simp
          moreover have "mb_first ?e \<le> mb_last ?e" using ord [OF ml(1)] by simp
          ultimately have "mb_last (t ! k) < mb_last ?e" by (rule less_le_trans)
          then have "(ucast (mb_last (t ! k)) :: pg_wchar) < ucast (mb_last ?e)" by simp
          then show ?thesis using right by (rule less_trans)
        qed (use right in simp)
      qed
      then show ?thesis using right step by simp
    next
      case left
      have "(ucast (mb_first ?e) :: pg_wchar) \<le> ucast (mb_last ?e)" using ord [OF ml(1)] by simp
      with left have "ucs < ucast (mb_last ?e)" by (rule less_le_trans)
      then have nr: "\<not> ucs > ucast (mb_last ?e)" by (rule less_not_sym)
      have "mbbisearch_loop ucs t lo (mid - 1) = Some (if in_table ucs t then 1 else 0)"
      proof (rule "1.IH"(2) [OF True mid_def at nr left "1.prems"(1,2) _ "1.prems"(4)])
        show "mid - 1 < int (length t)" using ml by simp
        fix k assume k: "k < length t" "mid - 1 < int k"
        show "ucs < ucast (mb_first (t ! k))"
        proof (cases "k = nat mid")
          case False
          then have "nat mid < k" using k ml by simp
          then have "mb_last ?e < mb_first (t ! k)" using ord [OF k(1)] by simp
          moreover have "mb_first ?e \<le> mb_last ?e" using ord [OF ml(1)] by simp
          ultimately have "mb_first ?e < mb_first (t ! k)" by (rule le_less_trans [rotated])
          then have "(ucast (mb_first ?e) :: pg_wchar) < ucast (mb_first (t ! k))" by simp
          with left show ?thesis by (rule less_trans)
        qed (use left in simp)
      qed
      then show ?thesis using left nr step by simp
    next
      case hit
      then have "in_table ucs t" using ml by (auto simp: in_table_iff)
      then show ?thesis using hit step by (simp add: in_interval_def not_less [symmetric])
    qed
  qed
qed

lemma mbbisearch_correct:
  assumes "intervals_sorted t" "t \<noteq> []"
  shows "mbbisearch ucs t (int (length t) - 1) = Some (if in_table ucs t then 1 else 0)"
proof -
  let ?n = "length t - 1"
  have n: "nat (int (length t) - 1) = ?n" "?n < length t" using assms(2) by (simp_all add: nat_diff_distrib)
  have at: "table_at t 0 = Some (t ! 0)" "table_at t (int (length t) - 1) = Some (t ! ?n)"
    using assms(2) n by (simp_all add: table_at_def)
  note ord = intervals_sorted_nth [OF assms(1)]
  consider (lo) "ucs < ucast (mb_first (t ! 0))" | (hi) "ucs > ucast (mb_last (t ! ?n))"
    | (mid) "\<not> ucs < ucast (mb_first (t ! 0))" "\<not> ucs > ucast (mb_last (t ! ?n))" by blast
  then show ?thesis
  proof cases
    case lo
    have "\<not> in_interval ucs (t ! k)" if k: "k < length t" for k
    proof -
      have "mb_first (t ! 0) \<le> mb_first (t ! k)"
      proof (cases "k = 0")
        case False
        then have "mb_last (t ! 0) < mb_first (t ! k)" using ord [OF k] by simp
        moreover have "mb_first (t ! 0) \<le> mb_last (t ! 0)" using ord [of 0] assms(2) by simp
        ultimately have "mb_first (t ! 0) < mb_first (t ! k)" by (rule le_less_trans [rotated])
        then show ?thesis by simp
      qed simp
      then have "(ucast (mb_first (t ! 0)) :: pg_wchar) \<le> ucast (mb_first (t ! k))" by simp
      with lo have "ucs < ucast (mb_first (t ! k))" by (rule less_le_trans)
      then show ?thesis unfolding in_interval_def by (metis leD)
    qed
    then show ?thesis using lo at by (simp add: mbbisearch_def in_table_iff)
  next
    case hi
    have "\<not> in_interval ucs (t ! k)" if k: "k < length t" for k
    proof -
      have "mb_last (t ! k) \<le> mb_last (t ! ?n)"
      proof (cases "k = ?n")
        case False
        then have "mb_last (t ! k) < mb_first (t ! ?n)" using ord [OF n(2)] k by simp
        moreover have "mb_first (t ! ?n) \<le> mb_last (t ! ?n)" using ord [OF n(2)] by simp
        ultimately have "mb_last (t ! k) < mb_last (t ! ?n)" by (rule less_le_trans)
        then show ?thesis by simp
      qed simp
      then have "(ucast (mb_last (t ! k)) :: pg_wchar) \<le> ucast (mb_last (t ! ?n))" by simp
      then have "ucast (mb_last (t ! k)) < ucs" using hi by (rule le_less_trans)
      then show ?thesis unfolding in_interval_def by (metis leD)
    qed
    then show ?thesis using hi at by (simp add: mbbisearch_def in_table_iff)
  next
    case mid
    have "mbbisearch_loop ucs t 0 (int (length t) - 1) = Some (if in_table ucs t then 1 else 0)"
      by (rule mbbisearch_loop_correct [OF assms(1)]) simp_all
    then show ?thesis using mid at by (simp add: mbbisearch_def)
  qed
qed

lemma combining_sorted: "intervals_sorted combining"
  by code_simp

lemma combining_nonempty: "combining \<noteq> []"
  by (simp add: combining_def)

text \<open>
  C25: the display width of a code point, in closed form. The binary search over the table of
  combining characters stays inside the table and decides membership as a linear scan of it
  does, so the width is 0 for NUL and for every character of the table, -1 for the other control
  characters and for values above U+10FFFF, 2 in the wide East Asian ranges and 1 elsewhere.
\<close>

theorem ucs_wcwidth_closed_form:
  "ucs_wcwidth ucs =
    Some (if ucs = 0 then 0
          else if ucs < 0x20 \<or> (0x7f \<le> ucs \<and> ucs < 0xa0) \<or> 0x10ffff < ucs then -1
          else if in_table ucs combining then 0
          else if ucs_wide ucs then 2 else 1)"
  using mbbisearch_correct [OF combining_sorted combining_nonempty, of ucs]
  by (simp add: ucs_wcwidth_def)

end
