(* ===== verification/Enc_Ids.thy ===== *)
theory Enc_Ids
  imports Prelude
begin

text \<open>
  The encoding identifiers of \<open>mb/pg_wchar.h\<close>: the enum \<open>pg_enc\<close>, its numbering, and the
  range macros that guard every table access. The C functions take the identifier as an \<open>int\<close>;
  \<open>pg_enc_id\<close> is the numbering of the enum and \<open>pg_enc_of\<close> its inverse on the valid range.
\<close>

section \<open>The enum pg_enc\<close>

datatype (plugins only: code size) pg_enc =
    PG_SQL_ASCII | PG_EUC_JP | PG_EUC_CN | PG_EUC_KR | PG_EUC_TW | PG_EUC_JIS_2004 | PG_UTF8 |
    PG_MULE_INTERNAL | PG_LATIN1 | PG_LATIN2 | PG_LATIN3 | PG_LATIN4 | PG_LATIN5 | PG_LATIN6 |
    PG_LATIN7 | PG_LATIN8 | PG_LATIN9 | PG_LATIN10 | PG_WIN1256 | PG_WIN1258 | PG_WIN866 |
    PG_WIN874 | PG_KOI8R | PG_WIN1251 | PG_WIN1252 | PG_ISO_8859_5 | PG_ISO_8859_6 |
    PG_ISO_8859_7 | PG_ISO_8859_8 | PG_WIN1250 | PG_WIN1253 | PG_WIN1254 | PG_WIN1255 |
    PG_WIN1257 | PG_KOI8U | PG_SJIS | PG_BIG5 | PG_GBK | PG_UHC | PG_GB18030 | PG_JOHAB |
    PG_SHIFT_JIS_2004

text \<open>The constants of the enum in the order of their declaration, without the end mark.\<close>

definition pg_enc_order :: "pg_enc list" where
  "pg_enc_order =
    [PG_SQL_ASCII, PG_EUC_JP, PG_EUC_CN, PG_EUC_KR, PG_EUC_TW, PG_EUC_JIS_2004, PG_UTF8,
     PG_MULE_INTERNAL, PG_LATIN1, PG_LATIN2, PG_LATIN3, PG_LATIN4, PG_LATIN5, PG_LATIN6, PG_LATIN7,
     PG_LATIN8, PG_LATIN9, PG_LATIN10, PG_WIN1256, PG_WIN1258, PG_WIN866, PG_WIN874, PG_KOI8R,
     PG_WIN1251, PG_WIN1252, PG_ISO_8859_5, PG_ISO_8859_6, PG_ISO_8859_7, PG_ISO_8859_8,
     PG_WIN1250, PG_WIN1253, PG_WIN1254, PG_WIN1255, PG_WIN1257, PG_KOI8U, PG_SJIS, PG_BIG5,
     PG_GBK, PG_UHC, PG_GB18030, PG_JOHAB, PG_SHIFT_JIS_2004]"

fun index_from :: "nat \<Rightarrow> 'a list \<Rightarrow> 'a \<Rightarrow> nat" where
  "index_from i [] x = i"
| "index_from i (y # ys) x = (if x = y then i else index_from (Suc i) ys x)"

definition pg_enc_id :: "pg_enc \<Rightarrow> int" where
  "pg_enc_id e = int (index_from 0 pg_enc_order e)"

text \<open>The mark \<open>_PG_LAST_ENCODING_\<close> is one past the last encoding.\<close>

definition PG_LAST_ENCODING :: int where
  "PG_LAST_ENCODING = int (length pg_enc_order)"

definition PG_ENCODING_BE_LAST :: int where
  "PG_ENCODING_BE_LAST = pg_enc_id PG_KOI8U"

definition PG_VALID_BE_ENCODING :: "int \<Rightarrow> bool" where
  "PG_VALID_BE_ENCODING e \<longleftrightarrow> 0 \<le> e \<and> e \<le> PG_ENCODING_BE_LAST"

definition PG_ENCODING_IS_CLIENT_ONLY :: "int \<Rightarrow> bool" where
  "PG_ENCODING_IS_CLIENT_ONLY e \<longleftrightarrow> PG_ENCODING_BE_LAST < e \<and> e < PG_LAST_ENCODING"

definition PG_VALID_ENCODING :: "int \<Rightarrow> bool" where
  "PG_VALID_ENCODING e \<longleftrightarrow> 0 \<le> e \<and> e < PG_LAST_ENCODING"

text \<open>Reading an identifier back as a constant of the enum.\<close>

definition pg_enc_of :: "int \<Rightarrow> pg_enc option" where
  "pg_enc_of i = (if PG_VALID_ENCODING i then Some (pg_enc_order ! nat i) else None)"

section \<open>Facts about the numbering\<close>

lemma index_from_bounds: "i \<le> index_from i ys x \<and> index_from i ys x \<le> i + length ys"
  by (induction i ys x rule: index_from.induct) auto

lemma index_from_mem: "x \<in> set ys \<Longrightarrow> index_from i ys x < i + length ys"
  by (induction i ys x rule: index_from.induct) auto

lemma nth_index_from: "x \<in> set ys \<Longrightarrow> ys ! (index_from i ys x - i) = x"
proof (induction i ys x rule: index_from.induct)
  case (2 i y ys x)
  show ?case
  proof (cases "x = y")
    case False
    have "Suc i \<le> index_from (Suc i) ys x" using index_from_bounds [of "Suc i" ys x] by blast
    then have "index_from (Suc i) ys x - i = Suc (index_from (Suc i) ys x - Suc i)" by simp
    then show ?thesis using 2 False by simp
  qed simp
qed simp

lemma pg_enc_order_complete: "e \<in> set pg_enc_order"
  by (cases e) (simp_all add: pg_enc_order_def)

lemma length_pg_enc_order: "length pg_enc_order = 42"
  by (simp add: pg_enc_order_def)

lemma distinct_pg_enc_order: "distinct pg_enc_order"
  by (simp add: pg_enc_order_def)

lemma PG_LAST_ENCODING_eq: "PG_LAST_ENCODING = 42"
  by (simp add: PG_LAST_ENCODING_def length_pg_enc_order)

lemma pg_enc_id_valid: "PG_VALID_ENCODING (pg_enc_id e)"
  using index_from_mem [OF pg_enc_order_complete [of e], of 0]
  by (simp add: PG_VALID_ENCODING_def pg_enc_id_def PG_LAST_ENCODING_def)

lemma pg_enc_of_id: "pg_enc_of (pg_enc_id e) = Some e"
  using nth_index_from [OF pg_enc_order_complete [of e], of 0]
  by (simp add: pg_enc_of_def pg_enc_id_valid) (simp add: pg_enc_id_def)

lemma pg_enc_id_inject: "pg_enc_id a = pg_enc_id b \<longleftrightarrow> a = b"
  by (metis option.inject pg_enc_of_id)

lemma index_from_nth:
  "distinct ys \<Longrightarrow> k < length ys \<Longrightarrow> index_from i ys (ys ! k) = i + k"
proof (induction ys arbitrary: i k)
  case (Cons y ys)
  then show ?case by (cases k) auto
qed simp

lemma pg_enc_id_nth: "k < 42 \<Longrightarrow> pg_enc_id (pg_enc_order ! k) = int k"
  using index_from_nth [OF distinct_pg_enc_order, of k 0]
  by (simp add: pg_enc_id_def length_pg_enc_order)

lemma PG_ENCODING_BE_LAST_eq: "PG_ENCODING_BE_LAST = 34"
  by (simp add: PG_ENCODING_BE_LAST_def pg_enc_id_def pg_enc_order_def)

lemma PG_VALID_ENCODING_cases:
  "PG_VALID_ENCODING e \<longleftrightarrow> PG_VALID_BE_ENCODING e \<or> PG_ENCODING_IS_CLIENT_ONLY e"
  by (auto simp: PG_VALID_ENCODING_def PG_VALID_BE_ENCODING_def PG_ENCODING_IS_CLIENT_ONLY_def
      PG_LAST_ENCODING_eq PG_ENCODING_BE_LAST_eq)

text \<open>The enum is compared by its numbering, as C compares enum values.\<close>

instantiation pg_enc :: linorder
begin

definition less_eq_pg_enc :: "pg_enc \<Rightarrow> pg_enc \<Rightarrow> bool" where
  "less_eq_pg_enc a b \<longleftrightarrow> pg_enc_id a \<le> pg_enc_id b"

definition less_pg_enc :: "pg_enc \<Rightarrow> pg_enc \<Rightarrow> bool" where
  "less_pg_enc a b \<longleftrightarrow> pg_enc_id a < pg_enc_id b"

instance
  by standard (auto simp: less_eq_pg_enc_def less_pg_enc_def pg_enc_id_inject)

end

lemma PG_VALID_BE_ENCODING_iff: "PG_VALID_BE_ENCODING (pg_enc_id e) \<longleftrightarrow> e \<le> PG_KOI8U"
  using pg_enc_id_valid [of e]
  by (simp add: PG_VALID_BE_ENCODING_def PG_VALID_ENCODING_def PG_ENCODING_BE_LAST_def
      less_eq_pg_enc_def)

end
