(* ===== verification/Enc_Names.thy ===== *)
theory Enc_Names
  imports Enc_Ids "HOL-Library.Char_ord" "HOL-Library.List_Lexorder"
begin

text \<open>
  \<open>encnames.c\<close>: the names of the encodings and the search for an encoding by name. C strings are
  lists of characters without the terminating NUL; \<open>char_at s i\<close> reads the terminator when \<open>i\<close> is
  the length. The type \<open>char\<close> is signed, as in the builds of the project. \<open>isalnum\<close> depends on
  the locale of the process, so it is the parameter \<open>isalnum\<close> of the definitions.
\<close>

section \<open>C strings\<close>

definition char_at :: "string \<Rightarrow> nat \<Rightarrow> char" where
  "char_at s i = (if i < length s then s ! i else CHR 0x00)"

text \<open>The value of a (signed) \<open>char\<close> promoted to \<open>int\<close>.\<close>

definition schar :: "char \<Rightarrow> int" where
  "schar c = (let u = of_char c in if u < 128 then u else u - 256)"

text \<open>\<open>strcmp\<close> compares as \<open>unsigned char\<close>; only the sign of its result is specified.\<close>

fun strcmp :: "string \<Rightarrow> string \<Rightarrow> int" where
  "strcmp [] [] = 0"
| "strcmp [] (_ # _) = -1"
| "strcmp (_ # _) [] = 1"
| "strcmp (c # cs) (d # ds) = (if c = d then strcmp cs ds else of_char c - of_char d)"

definition ascii_alnum :: "char \<Rightarrow> bool" where
  "ascii_alnum c \<longleftrightarrow> (let u = (of_char c :: int) in
     48 \<le> u \<and> u \<le> 57 \<or> 65 \<le> u \<and> u \<le> 90 \<or> 97 \<le> u \<and> u \<le> 122)"

section \<open>The tables\<close>

text \<open>The alias table, sorted by name; every name is in lower case and alphanumeric.\<close>

record pg_encname =
  encname_name :: string
  encname_encoding :: pg_enc

definition encname :: "string \<Rightarrow> pg_enc \<Rightarrow> pg_encname" where
  "encname n e = \<lparr>encname_name = n, encname_encoding = e\<rparr>"

definition pg_encname_tbl :: "pg_encname list" where
  "pg_encname_tbl =
    [encname ''abc'' PG_WIN1258,
     encname ''alt'' PG_WIN866,
     encname ''big5'' PG_BIG5,
     encname ''euccn'' PG_EUC_CN,
     encname ''eucjis2004'' PG_EUC_JIS_2004,
     encname ''eucjp'' PG_EUC_JP,
     encname ''euckr'' PG_EUC_KR,
     encname ''euctw'' PG_EUC_TW,
     encname ''gb18030'' PG_GB18030,
     encname ''gbk'' PG_GBK,
     encname ''iso88591'' PG_LATIN1,
     encname ''iso885910'' PG_LATIN6,
     encname ''iso885913'' PG_LATIN7,
     encname ''iso885914'' PG_LATIN8,
     encname ''iso885915'' PG_LATIN9,
     encname ''iso885916'' PG_LATIN10,
     encname ''iso88592'' PG_LATIN2,
     encname ''iso88593'' PG_LATIN3,
     encname ''iso88594'' PG_LATIN4,
     encname ''iso88595'' PG_ISO_8859_5,
     encname ''iso88596'' PG_ISO_8859_6,
     encname ''iso88597'' PG_ISO_8859_7,
     encname ''iso88598'' PG_ISO_8859_8,
     encname ''iso88599'' PG_LATIN5,
     encname ''johab'' PG_JOHAB,
     encname ''koi8'' PG_KOI8R,
     encname ''koi8r'' PG_KOI8R,
     encname ''koi8u'' PG_KOI8U,
     encname ''latin1'' PG_LATIN1,
     encname ''latin10'' PG_LATIN10,
     encname ''latin2'' PG_LATIN2,
     encname ''latin3'' PG_LATIN3,
     encname ''latin4'' PG_LATIN4,
     encname ''latin5'' PG_LATIN5,
     encname ''latin6'' PG_LATIN6,
     encname ''latin7'' PG_LATIN7,
     encname ''latin8'' PG_LATIN8,
     encname ''latin9'' PG_LATIN9,
     encname ''mskanji'' PG_SJIS,
     encname ''muleinternal'' PG_MULE_INTERNAL,
     encname ''shiftjis'' PG_SJIS,
     encname ''shiftjis2004'' PG_SHIFT_JIS_2004,
     encname ''sjis'' PG_SJIS,
     encname ''sqlascii'' PG_SQL_ASCII,
     encname ''tcvn'' PG_WIN1258,
     encname ''tcvn5712'' PG_WIN1258,
     encname ''uhc'' PG_UHC,
     encname ''unicode'' PG_UTF8,
     encname ''utf8'' PG_UTF8,
     encname ''vscii'' PG_WIN1258,
     encname ''win'' PG_WIN1251,
     encname ''win1250'' PG_WIN1250,
     encname ''win1251'' PG_WIN1251,
     encname ''win1252'' PG_WIN1252,
     encname ''win1253'' PG_WIN1253,
     encname ''win1254'' PG_WIN1254,
     encname ''win1255'' PG_WIN1255,
     encname ''win1256'' PG_WIN1256,
     encname ''win1257'' PG_WIN1257,
     encname ''win1258'' PG_WIN1258,
     encname ''win866'' PG_WIN866,
     encname ''win874'' PG_WIN874,
     encname ''win932'' PG_SJIS,
     encname ''win936'' PG_GBK,
     encname ''win949'' PG_UHC,
     encname ''win950'' PG_BIG5,
     encname ''windows1250'' PG_WIN1250,
     encname ''windows1251'' PG_WIN1251,
     encname ''windows1252'' PG_WIN1252,
     encname ''windows1253'' PG_WIN1253,
     encname ''windows1254'' PG_WIN1254,
     encname ''windows1255'' PG_WIN1255,
     encname ''windows1256'' PG_WIN1256,
     encname ''windows1257'' PG_WIN1257,
     encname ''windows1258'' PG_WIN1258,
     encname ''windows866'' PG_WIN866,
     encname ''windows874'' PG_WIN874,
     encname ''windows932'' PG_SJIS,
     encname ''windows936'' PG_GBK,
     encname ''windows949'' PG_UHC,
     encname ''windows950'' PG_BIG5]"

text \<open>The official names, in the order of the enum, with the Windows code pages.\<close>

record pg_enc2name =
  enc2name_name :: string
  enc2name_encoding :: pg_enc
  enc2name_codepage :: int

definition DEF_ENC2NAME :: "string \<Rightarrow> pg_enc \<Rightarrow> int \<Rightarrow> pg_enc2name" where
  "DEF_ENC2NAME n e cp = \<lparr>enc2name_name = n, enc2name_encoding = e, enc2name_codepage = cp\<rparr>"

definition pg_enc2name_tbl :: "pg_enc2name list" where
  "pg_enc2name_tbl =
    [DEF_ENC2NAME ''SQL_ASCII'' PG_SQL_ASCII 0,
     DEF_ENC2NAME ''EUC_JP'' PG_EUC_JP 20932,
     DEF_ENC2NAME ''EUC_CN'' PG_EUC_CN 20936,
     DEF_ENC2NAME ''EUC_KR'' PG_EUC_KR 51949,
     DEF_ENC2NAME ''EUC_TW'' PG_EUC_TW 0,
     DEF_ENC2NAME ''EUC_JIS_2004'' PG_EUC_JIS_2004 20932,
     DEF_ENC2NAME ''UTF8'' PG_UTF8 65001,
     DEF_ENC2NAME ''MULE_INTERNAL'' PG_MULE_INTERNAL 0,
     DEF_ENC2NAME ''LATIN1'' PG_LATIN1 28591,
     DEF_ENC2NAME ''LATIN2'' PG_LATIN2 28592,
     DEF_ENC2NAME ''LATIN3'' PG_LATIN3 28593,
     DEF_ENC2NAME ''LATIN4'' PG_LATIN4 28594,
     DEF_ENC2NAME ''LATIN5'' PG_LATIN5 28599,
     DEF_ENC2NAME ''LATIN6'' PG_LATIN6 0,
     DEF_ENC2NAME ''LATIN7'' PG_LATIN7 0,
     DEF_ENC2NAME ''LATIN8'' PG_LATIN8 0,
     DEF_ENC2NAME ''LATIN9'' PG_LATIN9 28605,
     DEF_ENC2NAME ''LATIN10'' PG_LATIN10 0,
     DEF_ENC2NAME ''WIN1256'' PG_WIN1256 1256,
     DEF_ENC2NAME ''WIN1258'' PG_WIN1258 1258,
     DEF_ENC2NAME ''WIN866'' PG_WIN866 866,
     DEF_ENC2NAME ''WIN874'' PG_WIN874 874,
     DEF_ENC2NAME ''KOI8R'' PG_KOI8R 20866,
     DEF_ENC2NAME ''WIN1251'' PG_WIN1251 1251,
     DEF_ENC2NAME ''WIN1252'' PG_WIN1252 1252,
     DEF_ENC2NAME ''ISO_8859_5'' PG_ISO_8859_5 28595,
     DEF_ENC2NAME ''ISO_8859_6'' PG_ISO_8859_6 28596,
     DEF_ENC2NAME ''ISO_8859_7'' PG_ISO_8859_7 28597,
     DEF_ENC2NAME ''ISO_8859_8'' PG_ISO_8859_8 28598,
     DEF_ENC2NAME ''WIN1250'' PG_WIN1250 1250,
     DEF_ENC2NAME ''WIN1253'' PG_WIN1253 1253,
     DEF_ENC2NAME ''WIN1254'' PG_WIN1254 1254,
     DEF_ENC2NAME ''WIN1255'' PG_WIN1255 1255,
     DEF_ENC2NAME ''WIN1257'' PG_WIN1257 1257,
     DEF_ENC2NAME ''KOI8U'' PG_KOI8U 21866,
     DEF_ENC2NAME ''SJIS'' PG_SJIS 932,
     DEF_ENC2NAME ''BIG5'' PG_BIG5 950,
     DEF_ENC2NAME ''GBK'' PG_GBK 936,
     DEF_ENC2NAME ''UHC'' PG_UHC 949,
     DEF_ENC2NAME ''GB18030'' PG_GB18030 54936,
     DEF_ENC2NAME ''JOHAB'' PG_JOHAB 0,
     DEF_ENC2NAME ''SHIFT_JIS_2004'' PG_SHIFT_JIS_2004 932]"

text \<open>The names for gettext; the C array ends with a sentinel whose name is null.\<close>

definition pg_enc2gettext_tbl :: "(pg_enc \<times> string) list" where
  "pg_enc2gettext_tbl =
    [(PG_SQL_ASCII, ''US-ASCII''),
     (PG_UTF8, ''UTF-8''),
     (PG_LATIN1, ''LATIN1''),
     (PG_LATIN2, ''LATIN2''),
     (PG_LATIN3, ''LATIN3''),
     (PG_LATIN4, ''LATIN4''),
     (PG_ISO_8859_5, ''ISO-8859-5''),
     (PG_ISO_8859_6, ''ISO_8859-6''),
     (PG_ISO_8859_7, ''ISO-8859-7''),
     (PG_ISO_8859_8, ''ISO-8859-8''),
     (PG_LATIN5, ''LATIN5''),
     (PG_LATIN6, ''LATIN6''),
     (PG_LATIN7, ''LATIN7''),
     (PG_LATIN8, ''LATIN8''),
     (PG_LATIN9, ''LATIN-9''),
     (PG_LATIN10, ''LATIN10''),
     (PG_KOI8R, ''KOI8-R''),
     (PG_KOI8U, ''KOI8-U''),
     (PG_WIN1250, ''CP1250''),
     (PG_WIN1251, ''CP1251''),
     (PG_WIN1252, ''CP1252''),
     (PG_WIN1253, ''CP1253''),
     (PG_WIN1254, ''CP1254''),
     (PG_WIN1255, ''CP1255''),
     (PG_WIN1256, ''CP1256''),
     (PG_WIN1257, ''CP1257''),
     (PG_WIN1258, ''CP1258''),
     (PG_WIN866, ''CP866''),
     (PG_WIN874, ''CP874''),
     (PG_EUC_CN, ''EUC-CN''),
     (PG_EUC_JP, ''EUC-JP''),
     (PG_EUC_KR, ''EUC-KR''),
     (PG_EUC_TW, ''EUC-TW''),
     (PG_EUC_JIS_2004, ''EUC-JP''),
     (PG_SJIS, ''SHIFT-JIS''),
     (PG_BIG5, ''BIG5''),
     (PG_GBK, ''GBK''),
     (PG_UHC, ''UHC''),
     (PG_GB18030, ''GB18030''),
     (PG_JOHAB, ''JOHAB''),
     (PG_SHIFT_JIS_2004, ''SHIFT_JISX0213'')]"

section \<open>Operations\<close>

definition NAMEDATALEN :: nat where "NAMEDATALEN = 64"

definition PG_VALID_FE_ENCODING :: "int \<Rightarrow> bool" where
  "PG_VALID_FE_ENCODING e = PG_VALID_ENCODING e"

definition is_upper_AZ :: "char \<Rightarrow> bool" where
  "is_upper_AZ c \<longleftrightarrow> schar CHR ''A'' \<le> schar c \<and> schar c \<le> schar CHR ''Z''"

fun clean_encoding_name :: "(char \<Rightarrow> bool) \<Rightarrow> string \<Rightarrow> string" where
  "clean_encoding_name isalnum [] = []"
| "clean_encoding_name isalnum (c # p) =
    (if isalnum c then
       (if is_upper_AZ c then char_of (schar c + schar CHR ''a'' - schar CHR ''A'') else c)
         # clean_encoding_name isalnum p
     else clean_encoding_name isalnum p)"

text \<open>
  The binary search; \<open>base\<close> and \<open>lst\<close> are the indices of the C pointers \<open>base\<close> and \<open>last\<close> into the table. A first character that differs
  decides without a call of \<open>strcmp\<close>.
\<close>

function encname_search :: "string \<Rightarrow> int \<Rightarrow> int \<Rightarrow> int" where
  "encname_search key base lst =
    (if lst \<ge> base then
       (let position = base + (lst - base) div 2;
            entry = pg_encname_tbl ! nat position;
            result = schar (char_at key 0) - schar (char_at (encname_name entry) 0) in
        if result = 0 then
          (let result = strcmp key (encname_name entry) in
           if result = 0 then pg_enc_id (encname_encoding entry)
           else if result < 0 then encname_search key base (position - 1)
           else encname_search key (position + 1) lst)
        else if result < 0 then encname_search key base (position - 1)
        else encname_search key (position + 1) lst)
     else -1)"
  by pat_completeness auto

termination encname_search
  by (relation "measure (\<lambda>(key, base, lst). nat (lst - base + 1))") auto

text \<open>\<open>None\<close> is the null pointer. A name that is too long is reported on \<open>stderr\<close> in a frontend.\<close>

definition pg_char_to_encoding :: "(char \<Rightarrow> bool) \<Rightarrow> string option \<Rightarrow> int" where
  "pg_char_to_encoding isalnum name =
    (case name of
       None \<Rightarrow> -1
     | Some n \<Rightarrow>
         if n = [] then -1
         else if length n \<ge> NAMEDATALEN then -1
         else encname_search (clean_encoding_name isalnum n) 0 (int (length pg_encname_tbl) - 1))"

definition pg_valid_client_encoding :: "(char \<Rightarrow> bool) \<Rightarrow> string option \<Rightarrow> int" where
  "pg_valid_client_encoding isalnum name =
    (let enc = pg_char_to_encoding isalnum name in
     if enc < 0 then -1 else if \<not> PG_VALID_FE_ENCODING enc then -1 else enc)"

definition pg_valid_server_encoding :: "(char \<Rightarrow> bool) \<Rightarrow> string option \<Rightarrow> int" where
  "pg_valid_server_encoding isalnum name =
    (let enc = pg_char_to_encoding isalnum name in
     if enc < 0 then -1 else if \<not> PG_VALID_BE_ENCODING enc then -1 else enc)"

definition pg_valid_server_encoding_id :: "int \<Rightarrow> bool" where
  "pg_valid_server_encoding_id encoding = PG_VALID_BE_ENCODING encoding"

definition pg_encoding_to_char :: "int \<Rightarrow> string" where
  "pg_encoding_to_char encoding =
    (if PG_VALID_ENCODING encoding then enc2name_name (pg_enc2name_tbl ! nat encoding) else [])"

declare encname_search.simps [simp del]

section \<open>The table is sorted for the search\<close>

fun ascending :: "string list \<Rightarrow> bool" where
  "ascending (a # b # r) \<longleftrightarrow> strcmp a b < 0 \<and> ascending (b # r)"
| "ascending _ \<longleftrightarrow> True"

lemma of_char_int_less_iff: "(of_char c :: int) < of_char d \<longleftrightarrow> c < d"
  by (metis less_char_def of_nat_less_iff of_nat_of_char)

lemma strcmp_less_iff: "strcmp a b < 0 \<longleftrightarrow> a < b"
  by (induction a b rule: strcmp.induct) (auto simp: of_char_int_less_iff)

lemma strcmp_eq_iff: "strcmp a b = 0 \<longleftrightarrow> a = b"
  by (induction a b rule: strcmp.induct) auto

lemma ascending_nth_less:
  assumes "ascending xs" "i < j" "j < length xs"
  shows "xs ! i < xs ! j"
  using assms
proof (induction xs arbitrary: i j rule: ascending.induct)
  case (1 a b r)
  show ?case
  proof (cases i)
    case 0
    have ab: "a < b" using 1 by (simp add: strcmp_less_iff)
    show ?thesis
    proof (cases "j = 1")
      case False
      then have "(b # r) ! 0 < (b # r) ! (j - 1)" using 1 0 by (intro "1.IH") auto
      then show ?thesis using ab 0 1 by (auto simp: nth_Cons' intro: less_trans)
    qed (use 0 ab in simp)
  next
    case (Suc i')
    then have "(b # r) ! i' < (b # r) ! (j - 1)" using 1 by (intro "1.IH") auto
    then show ?thesis using Suc 1 by (simp add: nth_Cons')
  qed
qed auto

lemma pg_encname_tbl_ascending: "ascending (map encname_name pg_encname_tbl)"
  by code_simp

lemma pg_encname_tbl_ascii:
  "list_all (\<lambda>e. encname_name e \<noteq> [] \<and> list_all (\<lambda>c. 0 < schar c) (encname_name e)) pg_encname_tbl"
  by code_simp

lemma length_pg_encname_tbl: "length pg_encname_tbl = 81"
  by (simp add: pg_encname_tbl_def)

abbreviation "nth_name k \<equiv> encname_name (pg_encname_tbl ! k)"

lemma nth_name_less: "i < j \<Longrightarrow> j < 81 \<Longrightarrow> nth_name i < nth_name j"
  using ascending_nth_less [OF pg_encname_tbl_ascending, of i j] by (simp add: length_pg_encname_tbl)

lemma nth_name_mono: "i \<le> j \<Longrightarrow> j < 81 \<Longrightarrow> nth_name i \<le> nth_name j"
  using nth_name_less [of i j] by (cases "i = j") auto

lemma nth_name_ascii:
  "k < 81 \<Longrightarrow> nth_name k \<noteq> [] \<and> 0 < schar (char_at (nth_name k) 0)"
  using pg_encname_tbl_ascii
  by (auto simp: list_all_length length_pg_encname_tbl char_at_def)

lemma of_char_int_bounds: "0 \<le> (of_char c :: int)" "(of_char c :: int) < 256"
proof -
  have e: "(of_char c :: int) = int (of_char c)" by (rule of_nat_of_char [symmetric])
  show "0 \<le> (of_char c :: int)" unfolding e by (rule of_nat_0_le_iff)
  have "(of_char c :: nat) < 256" by simp
  then show "(of_char c :: int) < 256" unfolding e by linarith
qed

lemma schar_pos_mono: "0 < schar c \<Longrightarrow> 0 < schar d \<Longrightarrow> c \<le> d \<Longrightarrow> schar c \<le> schar d"
  using of_char_int_bounds [of c] of_char_int_bounds [of d]
  by (simp add: schar_def Let_def of_char_int_less_iff [symmetric] not_less [symmetric]
      split: if_splits)

lemma hd_le: "(a :: string) \<le> b \<Longrightarrow> a \<noteq> [] \<Longrightarrow> b \<noteq> [] \<Longrightarrow> char_at a 0 \<le> char_at b 0"
  by (cases a; cases b) (auto simp: char_at_def)

text \<open>A comparison of first characters tells on which side of \<open>p\<close> the key cannot be.\<close>

lemma nth_name_first: "j \<le> k \<Longrightarrow> k < 81 \<Longrightarrow> schar (char_at (nth_name j) 0) \<le> schar (char_at (nth_name k) 0)"
  by (intro schar_pos_mono hd_le nth_name_mono) (simp_all add: nth_name_ascii)

definition found :: "string \<Rightarrow> int \<Rightarrow> int \<Rightarrow> bool" where
  "found key lo hi \<longleftrightarrow> (\<exists>k. lo \<le> int k \<and> int k \<le> hi \<and> nth_name k = key)"

lemma foundI: "lo \<le> int k \<Longrightarrow> int k \<le> hi \<Longrightarrow> nth_name k = key \<Longrightarrow> found key lo hi"
  by (auto simp: found_def)

lemma foundE:
  assumes "found key lo hi"
  obtains k where "lo \<le> int k" "int k \<le> hi" "nth_name k = key"
  using assms by (auto simp: found_def)

lemma found_left:
  assumes "\<And>k. nat p \<le> k \<Longrightarrow> k < 81 \<Longrightarrow> nth_name k \<noteq> key" "hi < 81" "p \<le> hi"
  shows "found key lo hi = found key lo (p - 1)"
proof
  assume "found key lo hi"
  then obtain k where k: "lo \<le> int k" "int k \<le> hi" "nth_name k = key" by (rule foundE)
  then have "\<not> nat p \<le> k" using assms(1) [of k] assms(2) by linarith
  then show "found key lo (p - 1)" using k by (intro foundI [of _ k]) linarith+
next
  assume "found key lo (p - 1)"
  then obtain k where k: "lo \<le> int k" "int k \<le> p - 1" "nth_name k = key" by (rule foundE)
  then show "found key lo hi" using assms(3) by (intro foundI [of _ k]) linarith+
qed

lemma found_right:
  assumes "\<And>k. k \<le> nat p \<Longrightarrow> nth_name k \<noteq> key" "lo \<le> p"
  shows "found key lo hi = found key (p + 1) hi"
proof
  assume "found key lo hi"
  then obtain k where k: "lo \<le> int k" "int k \<le> hi" "nth_name k = key" by (rule foundE)
  then have "\<not> k \<le> nat p" using assms(1) [of k] by blast
  then show "found key (p + 1) hi" using k by (intro foundI [of _ k]) linarith+
next
  assume "found key (p + 1) hi"
  then obtain k where k: "p + 1 \<le> int k" "int k \<le> hi" "nth_name k = key" by (rule foundE)
  then show "found key lo hi" using assms(2) by (intro foundI [of _ k]) linarith+
qed

definition encname_of :: "string \<Rightarrow> pg_enc option" where
  "encname_of key = map_of (map (\<lambda>e. (encname_name e, encname_encoding e)) pg_encname_tbl) key"

lemma distinct_names: "distinct (map encname_name pg_encname_tbl)"
proof -
  have "nth_name i \<noteq> nth_name j" if "i < 81" "j < 81" "i \<noteq> j" for i j
    using nth_name_less [of i j] nth_name_less [of j i] that by (metis less_irrefl nat_neq_iff)
  then show ?thesis by (simp add: distinct_conv_nth length_pg_encname_tbl)
qed

lemma encname_of_nth: "k < 81 \<Longrightarrow> encname_of (nth_name k) = Some (encname_encoding (pg_encname_tbl ! k))"
  unfolding encname_of_def
  by (rule map_of_is_SomeI)
    (auto simp: comp_def distinct_names length_pg_encname_tbl intro!: rev_image_eqI)

lemma encname_search_correct:
  assumes "0 \<le> base" "lst < 81"
  shows "encname_search key base lst =
    (if found key base lst then pg_enc_id (the (encname_of key)) else -1)"
  using assms
proof (induction "nat (lst - base + 1)" arbitrary: base lst rule: less_induct)
  case less
  define p where "p = base + (lst - base) div 2"
  define r where "r = schar (char_at key 0) - schar (char_at (nth_name (nat p)) 0)"
  note unfold = encname_search.simps [of key base lst, unfolded Let_def, folded p_def, folded r_def]
  show ?case
  proof (cases "base \<le> lst")
    case False
    then have "\<not> found key base lst" by (auto elim: foundE)
    then show ?thesis using False by (subst encname_search.simps) simp
  next
    case True
    have p: "base \<le> p" "p \<le> lst" "nat p < 81" "0 \<le> p"
      using True less.prems unfolding p_def by linarith+
    define goleft where "goleft \<longleftrightarrow> r < 0 \<or> r = 0 \<and> strcmp key (nth_name (nat p)) < 0"
    consider (eq) "key = nth_name (nat p)" | (left) "key \<noteq> nth_name (nat p)" "goleft"
      | (right) "key \<noteq> nth_name (nat p)" "\<not> goleft" by blast
    then show ?thesis
    proof cases
      case eq
      have "r = 0" "strcmp key (nth_name (nat p)) = 0" using eq by (simp_all add: r_def strcmp_eq_iff)
      then have "encname_search key base lst = pg_enc_id (encname_encoding (pg_encname_tbl ! nat p))"
        using True by (simp add: unfold)
      moreover have "found key base lst" using eq p by (intro foundI [of _ "nat p"]) auto
      ultimately show ?thesis using eq encname_of_nth [OF p(3)] by simp
    next
      case left
      have no: "nth_name k \<noteq> key" if k: "nat p \<le> k" "k < 81" for k
        using left nth_name_first [OF k] nth_name_mono [OF k]
        by (auto simp: strcmp_less_iff r_def goleft_def)
      have "strcmp key (nth_name (nat p)) \<noteq> 0" using left by (simp add: strcmp_eq_iff)
      then have "encname_search key base lst = encname_search key base (p - 1)"
        using True left by (auto simp add: unfold goleft_def)
      also have "\<dots> = (if found key base (p - 1) then pg_enc_id (the (encname_of key)) else -1)"
        using p less.prems by (intro less.hyps) linarith+
      finally show ?thesis by (simp only: found_left [OF no less.prems(2) p(2)])
    next
      case right
      have no: "nth_name k \<noteq> key" if k: "k \<le> nat p" for k
        using right nth_name_first [OF k p(3)] nth_name_mono [OF k p(3)]
        by (auto simp: strcmp_less_iff r_def goleft_def)
      have "strcmp key (nth_name (nat p)) \<noteq> 0" using right by (simp add: strcmp_eq_iff)
      then have "encname_search key base lst = encname_search key (p + 1) lst"
        using True right by (auto simp add: unfold goleft_def)
      also have "\<dots> = (if found key (p + 1) lst then pg_enc_id (the (encname_of key)) else -1)"
        using p less.prems by (intro less.hyps) linarith+
      finally show ?thesis by (simp only: found_right [OF no p(1)])
    qed
  qed
qed

lemma encname_of_found: "found key 0 80 \<longleftrightarrow> encname_of key \<noteq> None"
proof
  assume "found key 0 80"
  then obtain k where "int k \<le> 80" "nth_name k = key" by (rule foundE)
  then show "encname_of key \<noteq> None" using encname_of_nth [of k] by auto
next
  assume "encname_of key \<noteq> None"
  then have "key \<in> set (map encname_name pg_encname_tbl)"
    by (auto simp: encname_of_def map_of_eq_None_iff)
  then obtain k where "k < 81" "nth_name k = key"
    by (auto simp only: in_set_conv_nth length_map length_pg_encname_tbl nth_map)
  then show "found key 0 80" by (intro foundI [of _ k]) auto
qed

section \<open>Search by name\<close>

lemma search_eq_lookup:
  "encname_search key 0 80 = (case encname_of key of None \<Rightarrow> -1 | Some e \<Rightarrow> pg_enc_id e)"
  using encname_search_correct [of 0 80 key] by (auto simp: encname_of_found split: option.splits)

lemma length_clean_encoding_name: "length (clean_encoding_name al s) \<le> length s"
  by (induction al s rule: clean_encoding_name.induct) auto

text \<open>
  C19: \<open>pg_char_to_encoding\<close> finds a name exactly when its cleaned form is in the table of aliases: the
  binary search over the sorted table equals the linear lookup, the null pointer, the empty name
  and a name of 64 bytes or more give -1, and the cleaned name is never longer than the name, so
  with its terminator it fits into the buffer of \<open>NAMEDATALEN\<close> bytes whenever the search runs.
\<close>

theorem pg_char_to_encoding_lookup:
  "pg_char_to_encoding isalnum name =
    (case name of
       None \<Rightarrow> -1
     | Some n \<Rightarrow>
         (if n = [] \<or> 64 \<le> length n then -1
          else case encname_of (clean_encoding_name isalnum n) of None \<Rightarrow> -1 | Some e \<Rightarrow> pg_enc_id e))
   \<and> (\<forall>n. length (clean_encoding_name isalnum n) \<le> length n)"
  using length_clean_encoding_name [of isalnum]
  by (auto simp: pg_char_to_encoding_def NAMEDATALEN_def length_pg_encname_tbl search_eq_lookup
      split: option.splits)

text \<open>The locale's classification agrees with ASCII on the ASCII characters.\<close>

definition ascii_locale :: "(char \<Rightarrow> bool) \<Rightarrow> bool" where
  "ascii_locale al \<longleftrightarrow> (\<forall>c. schar c \<ge> 0 \<longrightarrow> al c = ascii_alnum c)"

lemma clean_ascii:
  assumes "ascii_locale al" "list_all (\<lambda>c. 0 \<le> schar c) s"
  shows "clean_encoding_name al s = clean_encoding_name ascii_alnum s"
  using assms by (induction s) (auto simp: ascii_locale_def)

lemma official_names_ascii:
  "list_all (\<lambda>e. list_all (\<lambda>c. 0 \<le> schar c) (enc2name_name e) \<and> enc2name_name e \<noteq> []
      \<and> length (enc2name_name e) < 64) pg_enc2name_tbl"
  by code_simp

text \<open>The cleaned official names and their places in the table of aliases.\<close>

definition official_places :: "nat list" where
  "official_places =
    [43, 5, 3, 6, 7, 4, 48, 39, 28, 30, 31, 32, 33, 34, 35, 36, 37, 29, 57, 59, 60, 61, 26, 52,
     53, 19, 20, 21, 22, 51, 54, 55, 56, 58, 27, 42, 2, 9, 46, 8, 24, 41]"

definition official_cleaned :: "string list" where
  "official_cleaned =
    [''sqlascii'', ''eucjp'', ''euccn'', ''euckr'', ''euctw'', ''eucjis2004'', ''utf8'',
     ''muleinternal'', ''latin1'', ''latin2'', ''latin3'', ''latin4'', ''latin5'', ''latin6'',
     ''latin7'', ''latin8'', ''latin9'', ''latin10'', ''win1256'', ''win1258'', ''win866'',
     ''win874'', ''koi8r'', ''win1251'', ''win1252'', ''iso88595'', ''iso88596'', ''iso88597'',
     ''iso88598'', ''win1250'', ''win1253'', ''win1254'', ''win1255'', ''win1257'', ''koi8u'',
     ''sjis'', ''big5'', ''gbk'', ''uhc'', ''gb18030'', ''johab'', ''shiftjis2004'']"

lemma official_cleaned_eq:
  "map (\<lambda>e. clean_encoding_name ascii_alnum (enc2name_name e)) pg_enc2name_tbl = official_cleaned"
  by code_simp

lemma official_places_eq:
  "map (\<lambda>k. encname_name (pg_encname_tbl ! k)) official_places = official_cleaned"
  "map (\<lambda>k. encname_encoding (pg_encname_tbl ! k)) official_places = pg_enc_order"
  "list_all (\<lambda>k. k < 81) official_places"
  by (simp_all add: official_places_def official_cleaned_def pg_encname_tbl_def encname_def
      pg_enc_order_def)

lemma enc2name_order: "map enc2name_encoding pg_enc2name_tbl = pg_enc_order"
  by (simp add: pg_enc2name_tbl_def pg_enc_order_def DEF_ENC2NAME_def)

lemma official_name_nth:
  assumes "k < 42"
  defines "n \<equiv> enc2name_name (pg_enc2name_tbl ! k)"
  shows "encname_of (clean_encoding_name ascii_alnum n) = Some (pg_enc_order ! k)"
    "list_all (\<lambda>c. 0 \<le> schar c) n" "n \<noteq> []" "length n < 64"
proof -
  have l: "length pg_enc2name_tbl = 42" by (simp add: pg_enc2name_tbl_def)
  have lp: "length official_places = 42" by (simp add: official_places_def)
  have c: "clean_encoding_name ascii_alnum n = official_cleaned ! k"
    using assms(1) by (simp add: official_cleaned_eq [symmetric] l n_def)
  have p: "official_places ! k < 81" using official_places_eq(3) assms(1) by (simp add: list_all_length lp)
  have "nth_name (official_places ! k) = official_cleaned ! k"
    "encname_encoding (pg_encname_tbl ! (official_places ! k)) = pg_enc_order ! k"
    using assms(1) by (simp_all add: official_places_eq(1,2) [symmetric] lp)
  then show "encname_of (clean_encoding_name ascii_alnum n) = Some (pg_enc_order ! k)"
    using encname_of_nth [OF p] c by simp
  show "list_all (\<lambda>c. 0 \<le> schar c) n" "n \<noteq> []" "length n < 64"
    using official_names_ascii assms(1) unfolding list_all_length l n_def by blast+
qed

text \<open>
  C20: the official name of every encoding is a name the search accepts, and it finds the same
  encoding, in every locale that classifies the ASCII characters as ASCII does:
  \<open>pg_char_to_encoding\<close> is a left inverse of \<open>pg_encoding_to_char\<close>.
\<close>

theorem pg_char_to_encoding_of_to_char:
  assumes "ascii_locale isalnum" "PG_VALID_ENCODING e"
  shows "pg_char_to_encoding isalnum (Some (pg_encoding_to_char e)) = e"
proof -
  have k: "nat e < 42" "0 \<le> e" using assms(2) by (auto simp: PG_VALID_ENCODING_def PG_LAST_ENCODING_eq)
  note n = official_name_nth [OF k(1)]
  have "pg_enc_id (pg_enc_order ! nat e) = e"
    using k pg_enc_id_nth [OF k(1)] by simp
  then show ?thesis using assms n
    by (simp add: pg_encoding_to_char_def pg_char_to_encoding_def NAMEDATALEN_def
        length_pg_encname_tbl search_eq_lookup clean_ascii)
qed

theorem pg_char_to_encoding_of_to_char_witness:
  "pg_char_to_encoding ascii_alnum (Some (pg_encoding_to_char 6)) = 6
     \<and> pg_encoding_to_char 6 = ''UTF8''"
  using pg_char_to_encoding_of_to_char [of ascii_alnum 6]
  by (simp add: ascii_locale_def PG_VALID_ENCODING_def PG_LAST_ENCODING_eq pg_encoding_to_char_def
      pg_enc2name_tbl_def DEF_ENC2NAME_def)

text \<open>The gettext table covers every encoding but \<open>MULE_INTERNAL\<close>, as its comment says.\<close>

lemma pg_enc2gettext_covers: "set (map fst pg_enc2gettext_tbl) = set pg_enc_order - {PG_MULE_INTERNAL}"
  by (simp add: pg_enc2gettext_tbl_def pg_enc_order_def) blast

end
