(* ===== verification/Wchar_Table.thy ===== *)
theory Wchar_Table
  imports Wchar_Codec Utf8_Width Enc_Names
begin

text \<open>
  The table \<open>pg_wchar_table\<close> of \<open>wchar.c\<close>, the functions that dispatch through it, and the
  verification of whole strings. A null pointer in the table is \<open>None\<close>.

  The result of a function that may report an error is a sum: \<open>Inl\<close> the report, \<open>Inr\<close> the value
  returned. The option around it is \<open>None\<close> when memory outside the string would be read.
\<close>

section \<open>The table\<close>

record pg_wchar_tbl =
  mb2wchar_with_len :: "(byte list \<Rightarrow> int \<Rightarrow> pg_wchar list option) option"
  wchar2mb_with_len :: "(pg_wchar list \<Rightarrow> int \<Rightarrow> byte list option) option"
  mblen :: "byte list \<Rightarrow> nat option"
  dsplen :: "byte list \<Rightarrow> int option"
  mbverify :: "byte list \<Rightarrow> int \<Rightarrow> int option"
  maxmblen :: int

definition wchar_tbl ::
  "(byte list \<Rightarrow> int \<Rightarrow> pg_wchar list option) option \<Rightarrow> (pg_wchar list \<Rightarrow> int \<Rightarrow> byte list option) option
   \<Rightarrow> (byte list \<Rightarrow> nat option) \<Rightarrow> (byte list \<Rightarrow> int option) \<Rightarrow> (byte list \<Rightarrow> int \<Rightarrow> int option) \<Rightarrow> int
   \<Rightarrow> pg_wchar_tbl" where
  "wchar_tbl d e l w v m = \<lparr>mb2wchar_with_len = d, wchar2mb_with_len = e, mblen = l, dsplen = w,
     mbverify = v, maxmblen = m\<rparr>"

definition pg_wchar_table :: "pg_wchar_tbl list" where
  "pg_wchar_table =
    [wchar_tbl (Some pg_ascii2wchar_with_len) (Some pg_wchar2single_with_len)
       pg_ascii_mblen pg_ascii_dsplen pg_ascii_verifier 1,
     wchar_tbl (Some pg_eucjp2wchar_with_len) (Some pg_wchar2euc_with_len)
       pg_eucjp_mblen pg_eucjp_dsplen pg_eucjp_verifier 3,
     wchar_tbl (Some pg_euccn2wchar_with_len) (Some pg_wchar2euc_with_len)
       pg_euccn_mblen pg_euccn_dsplen pg_euccn_verifier 2,
     wchar_tbl (Some pg_euckr2wchar_with_len) (Some pg_wchar2euc_with_len)
       pg_euckr_mblen pg_euckr_dsplen pg_euckr_verifier 3,
     wchar_tbl (Some pg_euctw2wchar_with_len) (Some pg_wchar2euc_with_len)
       pg_euctw_mblen pg_euctw_dsplen pg_euctw_verifier 4,
     wchar_tbl (Some pg_eucjp2wchar_with_len) (Some pg_wchar2euc_with_len)
       pg_eucjp_mblen pg_eucjp_dsplen pg_eucjp_verifier 3,
     wchar_tbl (Some pg_utf2wchar_with_len) (Some pg_wchar2utf_with_len)
       pg_utf_mblen pg_utf_dsplen pg_utf8_verifier 4,
     wchar_tbl (Some pg_mule2wchar_with_len) (Some pg_wchar2mule_with_len)
       pg_mule_mblen pg_mule_dsplen pg_mule_verifier 4,
     wchar_tbl (Some pg_latin12wchar_with_len) (Some pg_wchar2single_with_len)
       pg_latin1_mblen pg_latin1_dsplen pg_latin1_verifier 1,
     wchar_tbl (Some pg_latin12wchar_with_len) (Some pg_wchar2single_with_len)
       pg_latin1_mblen pg_latin1_dsplen pg_latin1_verifier 1,
     wchar_tbl (Some pg_latin12wchar_with_len) (Some pg_wchar2single_with_len)
       pg_latin1_mblen pg_latin1_dsplen pg_latin1_verifier 1,
     wchar_tbl (Some pg_latin12wchar_with_len) (Some pg_wchar2single_with_len)
       pg_latin1_mblen pg_latin1_dsplen pg_latin1_verifier 1,
     wchar_tbl (Some pg_latin12wchar_with_len) (Some pg_wchar2single_with_len)
       pg_latin1_mblen pg_latin1_dsplen pg_latin1_verifier 1,
     wchar_tbl (Some pg_latin12wchar_with_len) (Some pg_wchar2single_with_len)
       pg_latin1_mblen pg_latin1_dsplen pg_latin1_verifier 1,
     wchar_tbl (Some pg_latin12wchar_with_len) (Some pg_wchar2single_with_len)
       pg_latin1_mblen pg_latin1_dsplen pg_latin1_verifier 1,
     wchar_tbl (Some pg_latin12wchar_with_len) (Some pg_wchar2single_with_len)
       pg_latin1_mblen pg_latin1_dsplen pg_latin1_verifier 1,
     wchar_tbl (Some pg_latin12wchar_with_len) (Some pg_wchar2single_with_len)
       pg_latin1_mblen pg_latin1_dsplen pg_latin1_verifier 1,
     wchar_tbl (Some pg_latin12wchar_with_len) (Some pg_wchar2single_with_len)
       pg_latin1_mblen pg_latin1_dsplen pg_latin1_verifier 1,
     wchar_tbl (Some pg_latin12wchar_with_len) (Some pg_wchar2single_with_len)
       pg_latin1_mblen pg_latin1_dsplen pg_latin1_verifier 1,
     wchar_tbl (Some pg_latin12wchar_with_len) (Some pg_wchar2single_with_len)
       pg_latin1_mblen pg_latin1_dsplen pg_latin1_verifier 1,
     wchar_tbl (Some pg_latin12wchar_with_len) (Some pg_wchar2single_with_len)
       pg_latin1_mblen pg_latin1_dsplen pg_latin1_verifier 1,
     wchar_tbl (Some pg_latin12wchar_with_len) (Some pg_wchar2single_with_len)
       pg_latin1_mblen pg_latin1_dsplen pg_latin1_verifier 1,
     wchar_tbl (Some pg_latin12wchar_with_len) (Some pg_wchar2single_with_len)
       pg_latin1_mblen pg_latin1_dsplen pg_latin1_verifier 1,
     wchar_tbl (Some pg_latin12wchar_with_len) (Some pg_wchar2single_with_len)
       pg_latin1_mblen pg_latin1_dsplen pg_latin1_verifier 1,
     wchar_tbl (Some pg_latin12wchar_with_len) (Some pg_wchar2single_with_len)
       pg_latin1_mblen pg_latin1_dsplen pg_latin1_verifier 1,
     wchar_tbl (Some pg_latin12wchar_with_len) (Some pg_wchar2single_with_len)
       pg_latin1_mblen pg_latin1_dsplen pg_latin1_verifier 1,
     wchar_tbl (Some pg_latin12wchar_with_len) (Some pg_wchar2single_with_len)
       pg_latin1_mblen pg_latin1_dsplen pg_latin1_verifier 1,
     wchar_tbl (Some pg_latin12wchar_with_len) (Some pg_wchar2single_with_len)
       pg_latin1_mblen pg_latin1_dsplen pg_latin1_verifier 1,
     wchar_tbl (Some pg_latin12wchar_with_len) (Some pg_wchar2single_with_len)
       pg_latin1_mblen pg_latin1_dsplen pg_latin1_verifier 1,
     wchar_tbl (Some pg_latin12wchar_with_len) (Some pg_wchar2single_with_len)
       pg_latin1_mblen pg_latin1_dsplen pg_latin1_verifier 1,
     wchar_tbl (Some pg_latin12wchar_with_len) (Some pg_wchar2single_with_len)
       pg_latin1_mblen pg_latin1_dsplen pg_latin1_verifier 1,
     wchar_tbl (Some pg_latin12wchar_with_len) (Some pg_wchar2single_with_len)
       pg_latin1_mblen pg_latin1_dsplen pg_latin1_verifier 1,
     wchar_tbl (Some pg_latin12wchar_with_len) (Some pg_wchar2single_with_len)
       pg_latin1_mblen pg_latin1_dsplen pg_latin1_verifier 1,
     wchar_tbl (Some pg_latin12wchar_with_len) (Some pg_wchar2single_with_len)
       pg_latin1_mblen pg_latin1_dsplen pg_latin1_verifier 1,
     wchar_tbl (Some pg_latin12wchar_with_len) (Some pg_wchar2single_with_len)
       pg_latin1_mblen pg_latin1_dsplen pg_latin1_verifier 1,
     wchar_tbl None None
       pg_sjis_mblen pg_sjis_dsplen pg_sjis_verifier 2,
     wchar_tbl None None
       pg_big5_mblen pg_big5_dsplen pg_big5_verifier 2,
     wchar_tbl None None
       pg_gbk_mblen pg_gbk_dsplen pg_gbk_verifier 2,
     wchar_tbl None None
       pg_uhc_mblen pg_uhc_dsplen pg_uhc_verifier 2,
     wchar_tbl None None
       pg_gb18030_mblen pg_gb18030_dsplen pg_gb18030_verifier 4,
     wchar_tbl None None
       pg_johab_mblen pg_johab_dsplen pg_johab_verifier 3,
     wchar_tbl None None
       pg_sjis_mblen pg_sjis_dsplen pg_sjis_verifier 2]"

section \<open>Dispatch\<close>

definition pg_mic_mblen :: "byte list \<Rightarrow> nat option" where
  "pg_mic_mblen mbstr = pg_mule_mblen mbstr"

definition pg_encoding_mblen :: "int \<Rightarrow> byte list \<Rightarrow> nat option" where
  "pg_encoding_mblen encoding mbstr =
    (if PG_VALID_ENCODING encoding then mblen (pg_wchar_table ! nat encoding) mbstr
     else mblen (pg_wchar_table ! nat (pg_enc_id PG_SQL_ASCII)) mbstr)"

definition pg_encoding_dsplen :: "int \<Rightarrow> byte list \<Rightarrow> int option" where
  "pg_encoding_dsplen encoding mbstr =
    (if PG_VALID_ENCODING encoding then dsplen (pg_wchar_table ! nat encoding) mbstr
     else dsplen (pg_wchar_table ! nat (pg_enc_id PG_SQL_ASCII)) mbstr)"

definition pg_encoding_verifymb :: "int \<Rightarrow> byte list \<Rightarrow> int \<Rightarrow> int option" where
  "pg_encoding_verifymb encoding mbstr len =
    (if PG_VALID_ENCODING encoding then mbverify (pg_wchar_table ! nat encoding) mbstr len
     else mbverify (pg_wchar_table ! nat (pg_enc_id PG_SQL_ASCII)) mbstr len)"

text \<open>Without a valid identifier the table would be read out of range (the C code only asserts it).\<close>

definition pg_encoding_max_length :: "int \<Rightarrow> int option" where
  "pg_encoding_max_length encoding =
    (if PG_VALID_ENCODING encoding then Some (maxmblen (pg_wchar_table ! nat encoding)) else None)"

section \<open>Error reports\<close>

datatype wchar_error =
    Invalid_byte_sequence string string
  | Untranslatable_char string string string
  | Elog string

definition hex_digit :: "nat \<Rightarrow> char" where
  "hex_digit d = ''0123456789abcdef'' ! d"

text \<open>The buffer that the loop of \<open>sprintf\<close> calls fills: \<open>0xab\<close> for each byte, one space between.\<close>

definition sprintf_0x02x :: "byte \<Rightarrow> string" where
  "sprintf_0x02x b = [CHR ''0'', CHR ''x'', hex_digit (unat b div 16), hex_digit (unat b mod 16)]"

fun hex_dump :: "byte list \<Rightarrow> nat \<Rightarrow> nat \<Rightarrow> string option" where
  "hex_dump mbstr j 0 = Some []"
| "hex_dump mbstr j (Suc k) = do {
     b \<leftarrow> peek mbstr j;
     rest \<leftarrow> hex_dump mbstr (Suc j) k;
     Some (sprintf_0x02x b @ (if k > 0 then '' '' else []) @ rest) }"

definition report_invalid_encoding :: "int \<Rightarrow> byte list \<Rightarrow> int \<Rightarrow> wchar_error option" where
  "report_invalid_encoding encoding mbstr len = do {
     l \<leftarrow> pg_encoding_mblen encoding mbstr;
     let jlimit = min (int l) len;
     let jlimit = min jlimit 8;
     buf \<leftarrow> hex_dump mbstr 0 (nat jlimit);
     Some (Invalid_byte_sequence (enc2name_name (pg_enc2name_tbl ! nat encoding)) buf) }"

definition report_untranslatable_char :: "int \<Rightarrow> int \<Rightarrow> byte list \<Rightarrow> int \<Rightarrow> wchar_error option" where
  "report_untranslatable_char src_encoding dest_encoding mbstr len = do {
     l \<leftarrow> pg_encoding_mblen src_encoding mbstr;
     let jlimit = min (int l) len;
     let jlimit = min jlimit 8;
     buf \<leftarrow> hex_dump mbstr 0 (nat jlimit);
     Some (Untranslatable_char buf (enc2name_name (pg_enc2name_tbl ! nat src_encoding))
       (enc2name_name (pg_enc2name_tbl ! nat dest_encoding))) }"

text \<open>The checks in their order; the messages are identified by their format strings.\<close>

definition check_encoding_conversion_args :: "int \<Rightarrow> int \<Rightarrow> int \<Rightarrow> int \<Rightarrow> int \<Rightarrow> wchar_error + unit" where
  "check_encoding_conversion_args src_encoding dest_encoding len expected_src expected_dest =
    (if \<not> PG_VALID_ENCODING src_encoding then Inl (Elog ''invalid source encoding ID: %d'')
     else if src_encoding \<noteq> expected_src \<and> expected_src \<ge> 0
       then Inl (Elog ''expected source encoding \"%s\", but got \"%s\"'')
     else if \<not> PG_VALID_ENCODING dest_encoding then Inl (Elog ''invalid destination encoding ID: %d'')
     else if dest_encoding \<noteq> expected_dest \<and> expected_dest \<ge> 0
       then Inl (Elog ''expected destination encoding \"%s\", but got \"%s\"'')
     else if len < 0 then Inl (Elog ''encoding conversion length must not be negative'')
     else Inr ())"

section \<open>Verification of a string\<close>

fun memchr :: "byte list \<Rightarrow> byte \<Rightarrow> nat \<Rightarrow> nat option option" where
  "memchr s c 0 = Some None"
| "memchr [] c (Suc n) = None"
| "memchr (b # s) c (Suc n) =
    (if b = c then Some (Some 0) else map_option (map_option Suc) (memchr s c n))"

text \<open>
  The loop of \<open>pg_verify_mbstr_len\<close>. It would not end if a verifier returned 0, so it is a partial
  function; that it always returns is part of what is proved.
\<close>

partial_function (option) verify_loop ::
  "(byte list \<Rightarrow> int \<Rightarrow> int option) \<Rightarrow> int \<Rightarrow> byte list \<Rightarrow> int \<Rightarrow> int \<Rightarrow> bool \<Rightarrow> (wchar_error + int) option" where
  "verify_loop verify encoding mbstr len mb_len noError =
    (if len > 0 then do {
       c \<leftarrow> peek mbstr 0;
       if \<not> IS_HIGHBIT_SET c then
         (if c \<noteq> 0 then verify_loop verify encoding (drop 1 mbstr) (len - 1) (mb_len + 1) noError
          else if noError then Some (Inr (-1))
          else map_option Inl (report_invalid_encoding encoding mbstr len))
       else do {
         l \<leftarrow> verify mbstr len;
         if l < 0 then
           (if noError then Some (Inr (-1))
            else map_option Inl (report_invalid_encoding encoding mbstr len))
         else verify_loop verify encoding (drop (nat l) mbstr) (len - l) (mb_len + 1) noError } }
     else Some (Inr mb_len))"

text \<open>A negative length is outside the contract of \<open>memchr\<close>, which takes it as a huge \<open>size_t\<close>.\<close>

definition pg_verify_mbstr_len :: "int \<Rightarrow> byte list \<Rightarrow> int \<Rightarrow> bool \<Rightarrow> (wchar_error + int) option" where
  "pg_verify_mbstr_len encoding mbstr len noError = do {
     maxlen \<leftarrow> pg_encoding_max_length encoding;
     if maxlen \<le> 1 then
       (if len < 0 then None
        else do {
          nullpos \<leftarrow> memchr mbstr 0 (nat len);
          case nullpos of
            None \<Rightarrow> Some (Inr len)
          | Some p \<Rightarrow>
              if noError then Some (Inr (-1))
              else map_option Inl (report_invalid_encoding encoding (drop p mbstr) 1) })
     else verify_loop (mbverify (pg_wchar_table ! nat encoding)) encoding mbstr len 0 noError }"

definition pg_verify_mbstr :: "int \<Rightarrow> byte list \<Rightarrow> int \<Rightarrow> bool \<Rightarrow> (wchar_error + bool) option" where
  "pg_verify_mbstr encoding mbstr len noError =
    map_option (map_sum id (\<lambda>n. n \<ge> 0)) (pg_verify_mbstr_len encoding mbstr len noError)"

text \<open>The encoding of the current database is state of the backend, an argument here.\<close>

definition pg_verifymbstr :: "int \<Rightarrow> byte list \<Rightarrow> int \<Rightarrow> bool \<Rightarrow> (wchar_error + bool) option" where
  "pg_verifymbstr database_encoding mbstr len noError =
    map_option (map_sum id (\<lambda>n. n \<ge> 0)) (pg_verify_mbstr_len database_encoding mbstr len noError)"

definition pg_database_encoding_max_length :: "int \<Rightarrow> int option" where
  "pg_database_encoding_max_length database_encoding =
    (if PG_VALID_ENCODING database_encoding
     then Some (maxmblen (pg_wchar_table ! nat database_encoding)) else None)"

lemma length_pg_wchar_table: "length pg_wchar_table = 42"
  by (simp add: pg_wchar_table_def)

end
