(* ===== verification/Mb_Encoding.thy ===== *)
theory Mb_Encoding
  imports Mb_Verify
begin

text \<open>
  The contract between the length function, the verifier and the maximal length of an encoding
  (the comments of \<open>wchar.c\<close> state it as the API of \<open>mbverify\<close>), and its proof for every family of
  encodings. The functions that scan strings rest on it: a verifier never reads beyond the given
  length, a character it accepts has the length that \<open>mblen\<close> reports, contains no NUL and is
  decided by its own bytes alone, and a byte without the high bit is a character of its own.
\<close>

locale mb_encoding =
  fixes mblen :: "byte list \<Rightarrow> nat option"
    and verify :: "byte list \<Rightarrow> int \<Rightarrow> int option"
    and maxlen :: int
  assumes ver_result: "0 < n \<Longrightarrow> n \<le> int (length s) \<Longrightarrow> s ! 0 \<noteq> 0 \<Longrightarrow>
      \<exists>l. verify s n = Some l \<and>
        (l = -1 \<or> 1 \<le> l \<and> l \<le> n \<and> l \<le> maxlen \<and> mblen s = Some (nat l) \<and> (\<forall>i < nat l. s ! i \<noteq> 0))"
    and ver_own: "1 \<le> l \<Longrightarrow> l \<le> n \<Longrightarrow> n \<le> int (length s) \<Longrightarrow> l \<le> 4 \<Longrightarrow> s ! 0 \<noteq> 0 \<Longrightarrow>
      verify s n = Some l \<longleftrightarrow> verify (take (nat l) s) l = Some l"
    and ver_ascii: "\<not> IS_HIGHBIT_SET c \<Longrightarrow> c \<noteq> 0 \<Longrightarrow> 0 < n \<Longrightarrow>
      verify (c # s) n = Some 1 \<and> mblen (c # s) = Some 1"
    and maxlen4: "maxlen \<le> 4"

text \<open>Splitting off the first characters.\<close>

lemma cases4:
  fixes l :: int
  assumes "1 \<le> l" "l \<le> 4" "l \<le> int (length s)"
  obtains a r where "l = 1" "s = a # r" | a b r where "l = 2" "s = a # b # r"
    | a b c r where "l = 3" "s = a # b # c # r" | a b c d r where "l = 4" "s = a # b # c # d # r"
proof -
  consider "l = 1" | "l = 2" | "l = 3" | "l = 4" using assms by linarith
  then show thesis
  proof cases
    case 1 then show thesis using that(1) assms by (cases s) auto
  next
    case 2
    then have "2 \<le> length s" using assms by simp
    then show thesis using that(2) 2 by (auto simp: numeral_eq_Suc Suc_le_length_iff)
  next
    case 3
    then have "3 \<le> length s" using assms by simp
    then show thesis using that(3) 3 by (auto simp: numeral_eq_Suc Suc_le_length_iff)
  next
    case 4
    then have "4 \<le> length s" using assms by simp
    then show thesis using that(4) 4 by (auto simp: numeral_eq_Suc Suc_le_length_iff)
  qed
qed

lemma tail_loop_result:
  "i + k \<le> length s \<Longrightarrow> tail_loop bad s i k m
     = Some (if \<exists>j. i \<le> j \<and> j < i + k \<and> bad (s ! j) then -1 else m)"
proof (induction k arbitrary: i)
  case (Suc k)
  have "(\<exists>j. i \<le> j \<and> j < i + Suc k \<and> bad (s ! j)) \<longleftrightarrow>
    bad (s ! i) \<or> (\<exists>j. Suc i \<le> j \<and> j < Suc i + k \<and> bad (s ! j))"
    by (metis Suc_le_eq add_Suc add_Suc_right le_neq_implies_less less_add_Suc1 less_or_eq_imp_le)
  then show ?case using Suc by (simp add: peek_in_bounds)
qed auto

lemma IS_EUC_RANGE_VALID_nonzero: "IS_EUC_RANGE_VALID c \<Longrightarrow> c \<noteq> 0"
  by (auto simp: IS_EUC_RANGE_VALID_def)

lemma HIGHBIT_nonzero: "IS_HIGHBIT_SET c \<Longrightarrow> c \<noteq> 0"
  by auto

section \<open>One-byte encodings\<close>

interpretation enc_ascii: mb_encoding pg_ascii_mblen pg_ascii_verifier 1
  by unfold_locales (auto simp: pg_ascii_mblen_def pg_ascii_verifier_def)

interpretation enc_latin1: mb_encoding pg_latin1_mblen pg_latin1_verifier 1
  by unfold_locales (auto simp: pg_latin1_mblen_def pg_latin1_verifier_def)

section \<open>The EUC family\<close>

lemma all_less_nums:
  "(\<forall>i < 1. P i) = P (0 :: nat)" "(\<forall>i < 2. P i) = (P (0 :: nat) \<and> P 1)"
  "(\<forall>i < 3. P i) = (P (0 :: nat) \<and> P 1 \<and> P 2)"
  "(\<forall>i < 4. P i) = (P (0 :: nat) \<and> P 1 \<and> P 2 \<and> P 3)"
  by (auto simp: less_Suc_eq numeral_eq_Suc)

interpretation enc_eucjp: mb_encoding pg_eucjp_mblen pg_eucjp_verifier 3
proof (unfold_locales, goal_cases)
  case (1 n s)
  then show ?case
    by (auto simp: pg_eucjp_verifier_def pg_eucjp_mblen_def pg_euc_mblen_def peek_def
        IS_EUC_RANGE_VALID_nonzero all_less_nums split: if_splits)
next
  case (2 l n s)
  then have "1 \<le> l" "l \<le> 4" "l \<le> int (length s)" by simp_all
  then show ?case using 2
    by (cases rule: cases4) (auto simp: pg_eucjp_verifier_def split: if_splits bind_splits)
next
  case (3 c n s)
  then show ?case
    by (auto simp: pg_eucjp_verifier_def pg_eucjp_mblen_def pg_euc_mblen_def dest: low_not_SS)
qed simp

lemma SS_not_range: "\<not> IS_EUC_RANGE_VALID SS2" "\<not> IS_EUC_RANGE_VALID SS3"
  by (simp_all add: IS_EUC_RANGE_VALID_def SS2_def SS3_def)

interpretation enc_euckr: mb_encoding pg_euckr_mblen pg_euckr_verifier 3
proof (unfold_locales, goal_cases)
  case (1 n s)
  then show ?case
    by (auto simp: pg_euckr_verifier_def pg_euckr_mblen_def pg_euc_mblen_def SS_not_range peek_def
        IS_EUC_RANGE_VALID_nonzero all_less_nums split: if_splits)
next
  case (2 l n s)
  then have "1 \<le> l" "l \<le> 4" "l \<le> int (length s)" by simp_all
  then show ?case using 2
    by (cases rule: cases4) (auto simp: pg_euckr_verifier_def split: if_splits bind_splits)
next
  case (3 c n s)
  then show ?case by (auto simp: pg_euckr_verifier_def pg_euckr_mblen_def pg_euc_mblen_def SS_not_range dest: low_not_SS)
qed simp

interpretation enc_euccn: mb_encoding pg_euccn_mblen pg_euccn_verifier 2
proof (unfold_locales, goal_cases)
  case (1 n s)
  then show ?case
    by (auto simp: pg_euccn_verifier_def pg_euckr_verifier_def pg_euccn_mblen_def peek_def
        IS_EUC_RANGE_VALID_nonzero all_less_nums split: if_splits)
next
  case (2 l n s)
  then have "1 \<le> l" "l \<le> 4" "l \<le> int (length s)" by simp_all
  then show ?case using 2
    by (cases rule: cases4) (auto simp: pg_euccn_verifier_def pg_euckr_verifier_def split: if_splits bind_splits)
next
  case (3 c n s)
  then show ?case by (auto simp: pg_euccn_verifier_def pg_euckr_verifier_def pg_euccn_mblen_def dest: low_not_SS)
qed simp

interpretation enc_euctw: mb_encoding pg_euctw_mblen pg_euctw_verifier 4
proof (unfold_locales, goal_cases)
  case (1 n s)
  then show ?case
    by (auto simp: pg_euctw_verifier_def pg_euctw_mblen_def peek_def
        IS_EUC_RANGE_VALID_nonzero all_less_nums split: if_splits)
next
  case (2 l n s)
  then have "1 \<le> l" "l \<le> 4" "l \<le> int (length s)" by simp_all
  then show ?case using 2
    by (cases rule: cases4) (auto simp: pg_euctw_verifier_def split: if_splits bind_splits)
next
  case (3 c n s)
  then show ?case by (auto simp: pg_euctw_verifier_def pg_euctw_mblen_def dest: low_not_SS)
qed simp

section \<open>Encodings verified by a loop over the trailing bytes\<close>

lemma ex_less_nums:
  "(\<exists>j. Suc 0 \<le> j \<and> j < 1 \<and> P j) = False" "(\<exists>j. Suc 0 \<le> j \<and> j < 2 \<and> P j) = P (1 :: nat)"
  "(\<exists>j. Suc 0 \<le> j \<and> j < 3 \<and> P j) = (P (1 :: nat) \<or> P 2)"
  "(\<exists>j. Suc 0 \<le> j \<and> j < 4 \<and> P j) = (P (1 :: nat) \<or> P 2 \<or> P 3)"
  by (auto simp: less_Suc_eq numeral_eq_Suc)

text \<open>
  \<open>len\<close> is the length read off the first byte; a character of more than one byte is accepted when
  no trailing byte is \<open>bad\<close>.
\<close>

lemma tail_verifier_encoding:
  assumes mb: "\<And>c s. mblen (c # s) = Some (len c)" "\<And>c. 1 \<le> len c" "\<And>c. int (len c) \<le> maxlen" "maxlen \<le> 4"
    and ver: "\<And>s n. verify s n = do { l \<leftarrow> mblen s; if n < int l then Some (-1)
        else if l = 1 then Some 1 else tail_loop bad s 1 (l - 1) (int l) }"
    and bad: "bad 0" and low: "\<And>c. \<not> IS_HIGHBIT_SET c \<Longrightarrow> len c = 1"
  shows "mb_encoding mblen verify maxlen"
proof (unfold_locales, goal_cases)
  have unf: "verify s n = Some (if n < int (len (s ! 0)) then -1
      else if \<exists>j. 1 \<le> j \<and> j < len (s ! 0) \<and> bad (s ! j) then -1 else int (len (s ! 0)))"
    if "s \<noteq> []" "n \<le> int (length s)" for s n
  proof -
    obtain c r where s: "s = c # r" using \<open>s \<noteq> []\<close> by (cases s) auto
    have "1 + (len c - 1) \<le> length s \<or> n < int (len c)" using that(2) mb(2) [of c] by linarith
    then show ?thesis using mb(2) [of c] tail_loop_result [of 1 "len c - 1" s bad]
      by (auto simp: ver mb(1) s)
  qed
  {
    case (1 n s)
    then have s: "s \<noteq> []" by auto
    then have m: "mblen s = Some (len (s ! 0))" by (cases s) (auto simp: mb(1))
    have "s ! i \<noteq> 0" if "i < len (s ! 0)" "\<not> (\<exists>j. 1 \<le> j \<and> j < len (s ! 0) \<and> bad (s ! j))" for i
      using that bad 1(3) by (cases "i = 0") (auto simp: Suc_le_eq)
    then show ?case using 1 unf [OF s, of n] mb(2,3) [of "s ! 0"] m by auto
  next
    case (2 l n s)
    have s: "s \<noteq> []" "take (nat l) s \<noteq> []" using 2 by auto
    have e: "take (nat l) s ! 0 = s ! 0" using 2 by simp
    have "(\<exists>j. 1 \<le> j \<and> j < nat l \<and> bad (take (nat l) s ! j)) = (\<exists>j. 1 \<le> j \<and> j < nat l \<and> bad (s ! j))"
      by auto
    then show ?case using unf [OF s(1), of n] unf [OF s(2), of l] 2 unfolding e
      by (auto split: if_splits)
  next
    case (3 c n s)
    then show ?case using low [of c] by (simp add: ver mb(1))
  next
    case 4 show ?case by (rule mb(4))
  }
qed

definition euc_len :: "byte \<Rightarrow> nat" where
  "euc_len c = (if c = SS2 then 2 else if c = SS3 then 3 else if IS_HIGHBIT_SET c then 2 else 1)"

interpretation enc_johab: mb_encoding pg_johab_mblen pg_johab_verifier 3
proof (rule tail_verifier_encoding [where len = euc_len and bad = "\<lambda>c. \<not> IS_EUC_RANGE_VALID c"], goal_cases)
  case (5 s n)
  show ?case
    by (cases s) (auto simp: pg_johab_verifier_def pg_johab_mblen_def pg_euc_mblen_def split: if_splits)
next
  case 6 show ?case by (simp add: IS_EUC_RANGE_VALID_def)
qed (auto simp: pg_johab_mblen_def pg_euc_mblen_def euc_len_def dest: low_not_SS)

definition mule_len :: "byte \<Rightarrow> nat" where
  "mule_len c = (if IS_LC1 c then 2 else if IS_LCPRV1 c then 3 else if IS_LC2 c then 3
     else if IS_LCPRV2 c then 4 else 1)"

interpretation enc_mule: mb_encoding pg_mule_mblen pg_mule_verifier 4
proof (rule tail_verifier_encoding [where len = mule_len and bad = "\<lambda>c. \<not> IS_HIGHBIT_SET c"], goal_cases)
  case (5 s n)
  show ?case by (cases s) (auto simp: pg_mule_verifier_def pg_mule_mblen_def)
next
  case (7 c)
  then show ?case by (auto simp: mule_len_def mule_classes byte_masks byte_le_iff)
qed (auto simp: pg_mule_mblen_def mule_len_def)

definition high2_len :: "byte \<Rightarrow> nat" where
  "high2_len c = (if IS_HIGHBIT_SET c then 2 else 1)"

interpretation enc_big5: mb_encoding pg_big5_mblen pg_big5_verifier 2
proof (rule tail_verifier_encoding [where len = high2_len and bad = "\<lambda>c. c = 0"], goal_cases)
  case (5 s n)
  show ?case by (cases s) (auto simp: pg_big5_verifier_def pg_big5_mblen_def)
qed (auto simp: pg_big5_mblen_def high2_len_def)

interpretation enc_gbk: mb_encoding pg_gbk_mblen pg_gbk_verifier 2
proof (rule tail_verifier_encoding [where len = high2_len and bad = "\<lambda>c. c = 0"], goal_cases)
  case (5 s n)
  show ?case by (cases s) (auto simp: pg_gbk_verifier_def pg_gbk_mblen_def)
qed (auto simp: pg_gbk_mblen_def high2_len_def)

interpretation enc_uhc: mb_encoding pg_uhc_mblen pg_uhc_verifier 2
proof (rule tail_verifier_encoding [where len = high2_len and bad = "\<lambda>c. c = 0"], goal_cases)
  case (5 s n)
  show ?case by (cases s) (auto simp: pg_uhc_verifier_def pg_uhc_mblen_def)
qed (auto simp: pg_uhc_mblen_def high2_len_def)

section \<open>The remaining encodings\<close>

interpretation enc_sjis: mb_encoding pg_sjis_mblen pg_sjis_verifier 2
proof (unfold_locales, goal_cases)
  case (1 n s)
  then show ?case
    by (auto simp: pg_sjis_verifier_def pg_sjis_mblen_def ISSJISTAIL_def peek_def all_less_nums
        split: if_splits)
next
  case (2 l n s)
  then have "1 \<le> l" "l \<le> 4" "l \<le> int (length s)" by simp_all
  then show ?case using 2
    by (cases rule: cases4) (auto simp: pg_sjis_verifier_def pg_sjis_mblen_def split: if_splits bind_splits)
next
  case (3 c n s)
  then show ?case
    by (auto simp: pg_sjis_verifier_def pg_sjis_mblen_def byte_masks byte_le_iff)
qed simp

text \<open>The byte classes of GB18030; a digit is never the second byte of a two-byte character.\<close>

definition gb_digit :: "byte \<Rightarrow> bool" where
  "gb_digit c \<longleftrightarrow> 0x30 \<le> c \<and> c \<le> 0x39"

definition gb_lead :: "byte \<Rightarrow> bool" where
  "gb_lead c \<longleftrightarrow> 0x81 \<le> c \<and> c \<le> 0xfe"

definition gb_trail :: "byte \<Rightarrow> bool" where
  "gb_trail c \<longleftrightarrow> 0x40 \<le> c \<and> c \<le> 0x7e \<or> 0x80 \<le> c \<and> c \<le> 0xfe"

lemma gb_classes: "gb_digit c \<Longrightarrow> \<not> gb_trail c \<and> c \<noteq> 0" "gb_lead c \<Longrightarrow> c \<noteq> 0" "gb_trail c \<Longrightarrow> \<not> gb_digit c \<and> c \<noteq> 0"
  by (auto simp: gb_digit_def gb_lead_def gb_trail_def byte_le_iff)

lemmas gb_verifier = pg_gb18030_verifier_def [folded gb_digit_def gb_lead_def gb_trail_def]

lemmas gb_mblen = pg_gb18030_mblen_def [folded gb_digit_def]

interpretation enc_gb18030: mb_encoding pg_gb18030_mblen pg_gb18030_verifier 4
proof (unfold_locales, goal_cases)
  case (1 n s)
  then show ?case
    by (auto simp: gb_verifier gb_mblen peek_def all_less_nums gb_classes split: if_splits)
next
  case (2 l n s)
  then have "1 \<le> l" "l \<le> 4" "l \<le> int (length s)" by simp_all
  then show ?case using 2
    by (cases rule: cases4) (auto simp: gb_verifier gb_classes split: if_splits bind_splits)
next
  case (3 c n s)
  then show ?case by (auto simp: gb_verifier gb_mblen)
qed simp

lemma utf8_legal_tail: "utf8_legal xs \<Longrightarrow> x \<in> set (tl xs) \<Longrightarrow> x \<noteq> 0"
  by (cases xs rule: utf8_legal_cases) auto

lemma utf8_legal_nonzero:
  assumes "utf8_legal (map unat (take m s))" "m \<le> length s" "i < m" "s ! 0 \<noteq> (0 :: byte)"
  shows "s ! i \<noteq> 0"
proof (cases i)
  case (Suc j)
  have "unat (s ! i) = tl (map unat (take m s)) ! j" using Suc assms by (simp add: nth_tl)
  moreover have "tl (map unat (take m s)) ! j \<in> set (tl (map unat (take m s)))"
    using Suc assms by (intro nth_mem) simp
  ultimately have "unat (s ! i) \<noteq> 0" using utf8_legal_tail [OF assms(1)] by metis
  then show ?thesis by auto
qed (use assms in simp)

interpretation enc_utf8: mb_encoding pg_utf_mblen pg_utf8_verifier 4
proof (unfold_locales, goal_cases)
  case (1 n s)
  then obtain m where m: "pg_utf_mblen s = Some m" by (cases s) (auto simp: pg_utf_mblen_Cons)
  show ?case
  proof (cases "n < int m")
    case True
    then show ?thesis using m pg_utf8_verifier_short by auto
  next
    case False
    then show ?thesis using m pg_utf8_verifier_eq [OF m, of n] pg_utf_mblen_bounds [OF m] 1
        utf8_legal_nonzero [of m s] by auto
  qed
next
  case (2 l n s)
  then have s: "s \<noteq> []" "take (nat l) s \<noteq> []" by auto
  then obtain m where m: "pg_utf_mblen s = Some m" "pg_utf_mblen (take (nat l) s) = Some m"
    by (cases s; cases "nat l") (auto simp: pg_utf_mblen_Cons)
  have n: "int m \<le> n" if "pg_utf8_verifier s n = Some l"
    using pg_utf8_verifier_short [OF m(1), of n] that 2(1) by fastforce
  have l: "int m \<le> l" if "pg_utf8_verifier (take (nat l) s) l = Some l"
    using pg_utf8_verifier_short [OF m(2), of l] that 2(1) by fastforce
  show ?case
  proof
    assume a: "pg_utf8_verifier s n = Some l"
    then have "l = int m" "utf8_legal (map unat (take m s))"
      using pg_utf8_verifier_eq [OF m(1) n [OF a]] 2 by (auto split: if_splits)
    then show "pg_utf8_verifier (take (nat l) s) l = Some l"
      using pg_utf8_verifier_eq [OF m(2), of l] 2 by simp
  next
    assume a: "pg_utf8_verifier (take (nat l) s) l = Some l"
    then have "l = int m" "utf8_legal (map unat (take m s))"
      using pg_utf8_verifier_eq [OF m(2) l [OF a]] 2 by (auto split: if_splits)
    then show "pg_utf8_verifier s n = Some l" using pg_utf8_verifier_eq [OF m(1), of n] 2 by simp
  qed
next
  case (3 c n s)
  then have c: "unat c < 128" by (simp add: byte_masks)
  then have "pg_utf_mblen (c # s) = Some 1" by (simp add: pg_utf_mblen_Cons)
  moreover have "pg_utf8_islegal (c # s) 1 = Some True" using islegal_one(1) c by blast
  ultimately show ?case using 3 by (simp add: pg_utf8_verifier_def)
qed simp

end
