(* ===== verification/Wchar_Verify.thy ===== *)
theory Wchar_Verify
  imports Wchar_Table Mb_Encoding
begin

text \<open>
  What the verification of a whole string establishes, for every encoding of the table: it always
  returns, reads only the given bytes, and accepts exactly the strings that are a sequence of
  well-formed characters, whose number it returns. Scanning such a string with
  \<open>pg_encoding_mblen\<close> then visits the same characters.
\<close>

text \<open>A well-formed character: the verifier accepts its bytes as one character.\<close>

definition wf_char :: "(byte list \<Rightarrow> int \<Rightarrow> int option) \<Rightarrow> byte list \<Rightarrow> bool" where
  "wf_char verify c \<longleftrightarrow> c \<noteq> [] \<and> c ! 0 \<noteq> 0 \<and> verify c (int (length c)) = Some (int (length c))"

definition wf_text :: "(byte list \<Rightarrow> int \<Rightarrow> int option) \<Rightarrow> byte list \<Rightarrow> byte list list \<Rightarrow> bool" where
  "wf_text verify s cs \<longleftrightarrow> list_all (wf_char verify) cs \<and> s = concat cs"

lemma wf_text_Nil [simp]: "wf_text verify s [] \<longleftrightarrow> s = []"
  by (simp add: wf_text_def)

lemma wf_text_Cons: "wf_text verify s (c # cs) \<longleftrightarrow> (\<exists>r. wf_char verify c \<and> s = c @ r \<and> wf_text verify r cs)"
  by (auto simp: wf_text_def)

lemma wf_text_empty: "wf_text verify [] cs \<longleftrightarrow> cs = []"
  by (cases cs) (auto simp: wf_text_def wf_char_def)

section \<open>The loop, for any encoding that meets the contract\<close>

lemma hex_dump_total: "j + k \<le> length s \<Longrightarrow> \<exists>b. hex_dump s j k = Some b \<and> length b = (if k = 0 then 0 else 5 * k - 1)"
proof (induction k arbitrary: j)
  case (Suc k)
  obtain b where "hex_dump s (Suc j) k = Some b" "length b = (if k = 0 then 0 else 5 * k - 1)"
    using Suc.IH [of "Suc j"] Suc.prems by auto
  then show ?case using Suc.prems by (auto simp: peek_in_bounds sprintf_0x02x_def)
qed simp

context mb_encoding
begin

lemma wf_char_len: "wf_char verify c \<Longrightarrow> length c \<le> 4"
  using ver_result [of "int (length c)" c] maxlen4 by (fastforce simp: wf_char_def)

lemma wf_char_prefix:
  assumes "wf_char verify c" "n \<le> int (length (c @ r))" "int (length c) \<le> n"
  shows "verify (c @ r) n = Some (int (length c))"
proof -
  have "1 \<le> int (length c)" "(c @ r) ! 0 \<noteq> 0"
    using assms(1) by (cases c; simp add: wf_char_def)+
  then show ?thesis
    using ver_own [of "int (length c)" n "c @ r"] wf_char_len [OF assms(1)] assms
    by (simp add: wf_char_def)
qed

lemma verify_step:
  assumes "0 < len" "len \<le> int (length s)" "verify s len = Some l" "0 \<le> l" "s ! 0 \<noteq> 0"
  shows "1 \<le> l" "l \<le> len" "wf_char verify (take (nat l) s)" "mblen s = Some (nat l)"
proof -
  have r: "1 \<le> l" "l \<le> len" "l \<le> maxlen" "mblen s = Some (nat l)"
    using ver_result [OF assms(1,2,5)] assms(3,4) by auto
  then have "verify (take (nat l) s) l = Some l"
    using ver_own [of l len s] assms maxlen4 by auto
  then show "wf_char verify (take (nat l) s)" using r assms by (auto simp: wf_char_def)
qed (use ver_result [OF assms(1,2,5)] assms(3,4) in auto)

lemma wf_text_step:
  assumes "wf_text verify (take (nat len) s) cs" "0 < len" "len \<le> int (length s)"
  obtains c cs' where "cs = c # cs'" "verify s len = Some (int (length c))" "1 \<le> length c"
    "int (length c) \<le> len" "s ! 0 \<noteq> 0"
    "wf_text verify (take (nat (len - int (length c))) (drop (length c) s)) cs'"
proof -
  have "take (nat len) s \<noteq> []" using assms by auto
  then obtain c cs' where cs: "cs = c # cs'" using assms(1) by (cases cs) auto
  then obtain r where r: "wf_char verify c" "take (nat len) s = c @ r" "wf_text verify r cs'"
    using assms(1) by (auto simp: wf_text_Cons)
  have l: "length c \<le> nat len"
    using arg_cong [OF r(2), of length] assms by simp
  have "take (length c) (take (nat len) s) = c" by (simp add: r(2))
  then have tc: "take (length c) s = c" using l by (simp add: min_absorb1)
  obtain r' where s: "s = c @ r'" using append_take_drop_id [of "length c" s] unfolding tc by metis
  have "drop (length c) (take (nat len) s) = r" by (simp add: r(2))
  then have "r = take (nat (len - int (length c))) (drop (length c) s)"
  proof -
    have "nat len - length c = nat (len - int (length c))" by linarith
    then show ?thesis using \<open>drop (length c) (take (nat len) s) = r\<close> by (simp only: drop_take)
  qed
  then have "wf_text verify (take (nat (len - int (length c))) (drop (length c) s)) cs'"
    using r(3) by simp
  moreover have "verify s len = Some (int (length c))"
    using wf_char_prefix [OF r(1), of len r'] l assms(2,3) by (simp add: s)
  moreover have "1 \<le> length c" "s ! 0 \<noteq> 0"
    using r(1) s by (cases c; simp add: wf_char_def)+
  ultimately show thesis using that cs l assms by auto
qed

lemma low_byte: "\<not> IS_HIGHBIT_SET (s ! 0) \<Longrightarrow> s ! 0 \<noteq> 0 \<Longrightarrow> 0 < n \<Longrightarrow> s \<noteq> [] \<Longrightarrow> verify s n = Some 1"
  using ver_ascii [of "s ! 0" n "tl s"] by (cases s) auto

text \<open>One round: a character is accepted and the loop goes on behind it, or the loop ends.\<close>

lemma verify_loop_char:
  assumes "0 < len" "len \<le> int (length s)" "s ! 0 \<noteq> 0" "verify s len = Some l" "0 \<le> l"
  shows "verify_loop verify e s len mb noError = verify_loop verify e (drop (nat l) s) (len - l) (mb + 1) noError"
proof -
  have s: "s \<noteq> []" using assms by auto
  show ?thesis
  proof (cases "IS_HIGHBIT_SET (s ! 0)")
    case True
    then show ?thesis using assms s by (subst verify_loop.simps) (simp add: peek_in_bounds)
  next
    case False
    then have "l = 1" using low_byte [of s len] assms s by simp
    then show ?thesis using assms s False by (subst verify_loop.simps) (simp add: peek_in_bounds)
  qed
qed

lemma verify_loop_stop:
  assumes "0 < len" "len \<le> int (length s)" "s ! 0 \<noteq> 0 \<longrightarrow> verify s len = Some (-1)"
  shows "verify_loop verify e s len mb noError =
    (if noError then Some (Inr (-1)) else map_option Inl (report_invalid_encoding e s len))"
proof -
  have s: "s \<noteq> []" using assms by auto
  have "s ! 0 \<noteq> 0 \<Longrightarrow> IS_HIGHBIT_SET (s ! 0)" using low_byte [of s len] assms s by auto
  then show ?thesis using assms s by (subst verify_loop.simps) (auto simp: peek_in_bounds)
qed

lemma verify_loop_end: "len \<le> 0 \<Longrightarrow> verify_loop verify e s len mb noError = Some (Inr mb)"
  by (subst verify_loop.simps) simp

text \<open>
  The loop accepts exactly the texts of well-formed characters. When it stops early it has found
  the first byte of a malformed rest; the report is then the only other thing it evaluates.
\<close>

lemma verify_loop_accepts:
  assumes "wf_text verify (take (nat len) s) cs" "len \<le> int (length s)" "0 \<le> len"
  shows "verify_loop verify e s len mb noError = Some (Inr (mb + int (length cs)))"
  using assms
proof (induction cs arbitrary: s len mb)
  case Nil
  then have "len \<le> 0" by auto
  then show ?case by (simp add: verify_loop_end)
next
  case (Cons c cs)
  have l0: "0 < len"
  proof (rule ccontr)
    assume "\<not> 0 < len"
    then show False using Cons.prems by (simp add: wf_text_empty)
  qed
  from Cons.prems(1) l0 Cons.prems(2) obtain c' cs' where cs: "c # cs = c' # cs'"
    and c: "verify s len = Some (int (length c'))" "1 \<le> length c'" "int (length c') \<le> len" "s ! 0 \<noteq> 0"
      "wf_text verify (take (nat (len - int (length c'))) (drop (length c') s)) cs'"
    by (rule wf_text_step)
  have "verify_loop verify e s len mb noError
      = verify_loop verify e (drop (length c') s) (len - int (length c')) (mb + 1) noError"
    using verify_loop_char [OF l0 Cons.prems(2) c(4,1)] by simp
  also have "\<dots> = Some (Inr (mb + 1 + int (length cs)))"
    using Cons.IH [of "len - int (length c')" "drop (length c') s" "mb + 1"] c cs Cons.prems by simp
  finally show ?case by simp
qed

lemma verify_loop_rejects:
  assumes "\<nexists>cs. wf_text verify (take (nat len) s) cs" "len \<le> int (length s)"
  shows "\<exists>k. k < nat len \<and> verify_loop verify e s len mb noError =
    (if noError then Some (Inr (-1))
     else map_option Inl (report_invalid_encoding e (drop k s) (len - int k)))"
  using assms
proof (induction "nat len" arbitrary: s len mb rule: less_induct)
  case less
  have l0: "0 < len"
  proof (rule ccontr)
    assume "\<not> 0 < len"
    then have "wf_text verify (take (nat len) s) []" by simp
    then show False using less.prems by blast
  qed
  show ?case
  proof (cases "s ! 0 \<noteq> 0 \<longrightarrow> verify s len = Some (-1)")
    case True
    then show ?thesis using verify_loop_stop [OF l0 less.prems(2), of e mb noError] l0
      by (intro exI [of _ 0]) simp
  next
    case False
    then obtain l where l: "verify s len = Some l" "1 \<le> l" "s ! 0 \<noteq> 0"
      using ver_result [OF l0 less.prems(2)] by auto
    note st = verify_step [OF l0 less.prems(2) l(1) _ l(3)]
    have t: "take (nat len) s = take (nat l) s @ take (nat (len - l)) (drop (nat l) s)"
      using l st by (simp add: take_add [symmetric] nat_add_distrib [symmetric])
    have "\<nexists>cs. wf_text verify (take (nat (len - l)) (drop (nat l) s)) cs"
    proof
      assume "\<exists>cs. wf_text verify (take (nat (len - l)) (drop (nat l) s)) cs"
      then obtain cs where "wf_text verify (take (nat (len - l)) (drop (nat l) s)) cs" by blast
      then have "wf_text verify (take (nat len) s) (take (nat l) s # cs)"
        using t st l by (auto simp: wf_text_Cons)
      then show False using less.prems by blast
    qed
    moreover have "len - l \<le> int (length (drop (nat l) s))" "nat (len - l) < nat len"
      using less.prems l st by auto
    ultimately obtain k where k: "k < nat (len - l)"
      "verify_loop verify e (drop (nat l) s) (len - l) (mb + 1) noError =
        (if noError then Some (Inr (-1))
         else map_option Inl (report_invalid_encoding e (drop k (drop (nat l) s)) (len - l - int k)))"
      using less.hyps by blast
    have "verify_loop verify e s len mb noError
        = verify_loop verify e (drop (nat l) s) (len - l) (mb + 1) noError"
      using verify_loop_char [OF l0 less.prems(2) l(3,1)] l by simp
    moreover have "drop k (drop (nat l) s) = drop (nat l + k) s" "len - l - int k = len - int (nat l + k)"
      using l by (simp_all add: add.commute)
    moreover have "nat l + k < nat len" using k(1) l by linarith
    ultimately show ?thesis using k(2) by metis
  qed
qed

text \<open>The loop gets past a prefix of well-formed characters, whatever follows.\<close>

lemma verify_loop_prefix:
  assumes "wf_text verify p cs" "0 \<le> n" "n \<le> int (length r)"
  shows "verify_loop verify e (p @ r) (int (length p) + n) mb noError = verify_loop verify e r n (mb + int (length cs)) noError"
  using assms(1)
proof (induction cs arbitrary: p mb)
  case (Cons c cs)
  then obtain q where c: "wf_char verify c" "p = c @ q" "wf_text verify q cs" by (auto simp: wf_text_Cons)
  let ?n = "int (length p) + n"
  have l: "0 < ?n" "?n \<le> int (length (p @ r))" "(p @ r) ! 0 \<noteq> 0" "int (length c) \<le> ?n"
    using c(1,2) assms(2,3) by (cases c; simp add: wf_char_def)+
  have v: "verify (p @ r) ?n = Some (int (length c))" using wf_char_prefix [OF c(1), of ?n "q @ r"] c(2) l by simp
  have "verify_loop verify e (p @ r) ?n mb noError = verify_loop verify e (q @ r) (int (length q) + n) (mb + 1) noError"
    using verify_loop_char [OF l(1-3) v] c(2) by (simp add: algebra_simps)
  also have "\<dots> = verify_loop verify e r n (mb + 1 + int (length cs)) noError" by (rule Cons.IH [OF c(3)])
  finally show ?case by (simp add: add.assoc)
qed simp

text \<open>Scanning by \<open>mblen\<close> visits the characters of a well-formed text.\<close>

lemma mblen_of_char:
  assumes "wf_char verify c"
  shows "mblen (c @ r) = Some (length c)"
proof -
  have nz: "0 < int (length (c @ r))" "(c @ r) ! 0 \<noteq> 0" using assms by (cases c; simp add: wf_char_def)+
  have "verify (c @ r) (int (length (c @ r))) = Some (int (length c))" using wf_char_prefix [OF assms] by simp
  then show ?thesis using verify_step(4) [OF nz(1) _ _ _ nz(2)] by simp
qed

lemma mblen_of_text:
  assumes "wf_text verify s (c # cs)"
  shows "mblen s = Some (length c)"
  using assms mblen_of_char by (auto simp: wf_text_Cons)

text \<open>No character of a well-formed text contains a NUL byte.\<close>

lemma wf_char_no_nul: "wf_char verify c \<Longrightarrow> 0 \<notin> set c"
  using ver_result [of "int (length c)" c] by (auto simp: wf_char_def in_set_conv_nth)

lemma wf_text_no_nul: "wf_text verify s cs \<Longrightarrow> 0 \<notin> set s"
  using wf_char_no_nul by (auto simp: wf_text_def list_all_iff)

end

section \<open>The table meets the contract\<close>

lemma table_encodings:
  "list_all (\<lambda>t. mb_encoding (mblen t) (mbverify t) (maxmblen t)) pg_wchar_table"
  by (simp add: pg_wchar_table_def wchar_tbl_def enc_ascii.mb_encoding_axioms
      enc_latin1.mb_encoding_axioms enc_eucjp.mb_encoding_axioms enc_euckr.mb_encoding_axioms
      enc_euccn.mb_encoding_axioms enc_euctw.mb_encoding_axioms enc_johab.mb_encoding_axioms
      enc_mule.mb_encoding_axioms enc_big5.mb_encoding_axioms enc_gbk.mb_encoding_axioms
      enc_uhc.mb_encoding_axioms enc_sjis.mb_encoding_axioms enc_gb18030.mb_encoding_axioms
      enc_utf8.mb_encoding_axioms)

lemma one_byte_encodings:
  "list_all (\<lambda>t. maxmblen t \<le> 1 \<longrightarrow> (\<forall>c r n. mbverify t (c # r) n = Some 1)) pg_wchar_table"
  by (simp add: pg_wchar_table_def wchar_tbl_def pg_ascii_verifier_def pg_latin1_verifier_def)

lemma valid_nth: "PG_VALID_ENCODING e \<Longrightarrow> 0 \<le> e \<and> nat e < 42"
  by (auto simp: PG_VALID_ENCODING_def PG_LAST_ENCODING_eq)

lemma table_encoding:
  assumes "PG_VALID_ENCODING e"
  shows "mb_encoding (pg_encoding_mblen e) (pg_encoding_verifymb e) (maxmblen (pg_wchar_table ! nat e))"
proof -
  have "pg_encoding_mblen e = mblen (pg_wchar_table ! nat e)"
    "pg_encoding_verifymb e = mbverify (pg_wchar_table ! nat e)"
    using assms by (intro ext; simp add: pg_encoding_mblen_def pg_encoding_verifymb_def)+
  then show ?thesis
    using table_encodings valid_nth [OF assms] by (simp add: list_all_length length_pg_wchar_table)
qed

lemma one_byte_verifymb:
  assumes "PG_VALID_ENCODING e" "maxmblen (pg_wchar_table ! nat e) \<le> 1"
  shows "pg_encoding_verifymb e (c # r) n = Some 1"
  using one_byte_encodings assms valid_nth [OF assms(1)]
  by (simp add: list_all_length length_pg_wchar_table pg_encoding_verifymb_def)

lemma memchr_result:
  "n \<le> length s \<Longrightarrow> (0 \<notin> set (take n s) \<and> memchr s 0 n = Some None) \<or>
     (0 \<in> set (take n s) \<and> (\<exists>p < n. memchr s 0 n = Some (Some p)))"
proof (induction s "0 :: byte" n rule: memchr.induct)
  case (3 b s n)
  then show ?case by (cases "b = 0") auto
qed simp_all

lemma one_byte_text:
  assumes "\<And>c r n. verify (c # r) n = Some 1"
  shows "(\<exists>cs. wf_text verify s cs \<and> length cs = n) \<longleftrightarrow> 0 \<notin> set s \<and> n = length s"
proof
  have one: "wf_char verify c \<longleftrightarrow> (\<exists>b. c = [b] \<and> b \<noteq> 0)" for c
    using assms by (cases c) (auto simp: wf_char_def)
  {
    assume "\<exists>cs. wf_text verify s cs \<and> length cs = n"
    then obtain cs where cs: "wf_text verify s cs" "length cs = n" by blast
    have "0 \<notin> set s \<and> length cs = length s" using cs(1)
    proof (induction cs arbitrary: s)
      case (Cons c cs)
      then show ?case by (force simp: wf_text_Cons one)
    qed simp
    then show "0 \<notin> set s \<and> n = length s" using cs by simp
  next
    assume a: "0 \<notin> set s \<and> n = length s"
    then have "wf_text verify s (map (\<lambda>b. [b]) s)"
      by (induction s arbitrary: n) (auto simp: wf_text_Cons one)
    then show "\<exists>cs. wf_text verify s cs \<and> length cs = n" using a by (intro exI conjI) auto
  }
qed

text \<open>What the two paths of \<open>pg_verify_mbstr_len\<close> have in common.\<close>

lemma pg_verify_mbstr_len_cases:
  assumes "PG_VALID_ENCODING e" "0 \<le> len" "len \<le> int (length s)"
  defines "T \<equiv> wf_text (pg_encoding_verifymb e) (take (nat len) s)"
  shows "(\<exists>cs. T cs \<and> pg_verify_mbstr_len e s len noError = Some (Inr (int (length cs)))) \<or>
    (\<nexists>cs. T cs) \<and> (\<exists>k m. int k < len \<and> 0 < m \<and> m \<le> len - int k \<and> pg_verify_mbstr_len e s len noError =
      (if noError then Some (Inr (-1)) else map_option Inl (report_invalid_encoding e (drop k s) m)))"
proof -
  note enc = table_encoding [OF assms(1)]
  have fn: "pg_encoding_verifymb e = mbverify (pg_wchar_table ! nat e)"
    using assms by (intro ext) (simp add: pg_encoding_verifymb_def)
  show ?thesis
  proof (cases "maxmblen (pg_wchar_table ! nat e) \<le> 1")
    case True
    note one = one_byte_text [of "pg_encoding_verifymb e" "take (nat len) s",
        OF one_byte_verifymb [OF assms(1) True]]
    have mem: "pg_verify_mbstr_len e s len noError = (do {
          nullpos \<leftarrow> memchr s 0 (nat len);
          case nullpos of None \<Rightarrow> Some (Inr len)
          | Some p \<Rightarrow> if noError then Some (Inr (-1))
              else map_option Inl (report_invalid_encoding e (drop p s) 1) })"
      using assms True by (simp add: pg_verify_mbstr_len_def pg_encoding_max_length_def)
    have "nat len \<le> length s" using assms by simp
    from memchr_result [OF this] show ?thesis
    proof (elim disjE conjE exE)
      assume "0 \<notin> set (take (nat len) s)" "memchr s 0 (nat len) = Some None"
      then show ?thesis using one [of "nat len"] assms mem by (auto simp: T_def)
    next
      fix p assume "0 \<in> set (take (nat len) s)" "p < nat len" "memchr s 0 (nat len) = Some (Some p)"
      then show ?thesis using one mem
        by (intro disjI2 conjI exI [of _ p] exI [of _ "1 :: int"]) (auto simp: T_def)
    qed
  next
    case False
    have loop: "pg_verify_mbstr_len e s len noError
        = verify_loop (pg_encoding_verifymb e) e s len 0 noError"
      using assms(1) False by (simp add: pg_verify_mbstr_len_def pg_encoding_max_length_def fn)
    show ?thesis
    proof (cases "\<exists>cs. T cs")
      case True
      then obtain cs where "T cs" by blast
      then show ?thesis
        using mb_encoding.verify_loop_accepts [OF enc, of len s cs] assms loop by (auto simp: T_def)
    next
      case no: False
      then obtain k where "k < nat len" "verify_loop (pg_encoding_verifymb e) e s len 0 noError =
          (if noError then Some (Inr (-1))
           else map_option Inl (report_invalid_encoding e (drop k s) (len - int k)))"
        using mb_encoding.verify_loop_rejects [OF enc, of len s] assms unfolding T_def by blast
      then show ?thesis using no unfolding loop
        by (intro disjI2 conjI exI [of _ k] exI [of _ "len - int k"]) auto
    qed
  qed
qed

text \<open>A text has only one reading as a sequence of characters.\<close>

context mb_encoding
begin

lemma wf_text_unique: "wf_text verify s cs \<Longrightarrow> wf_text verify s ds \<Longrightarrow> cs = ds"
proof (induction cs arbitrary: s ds)
  case (Cons c cs)
  have "s \<noteq> []" using Cons.prems(1) by (auto simp: wf_text_Cons wf_char_def)
  then obtain d ds' where ds: "ds = d # ds'" using Cons.prems(2) by (cases ds) auto
  have "length c = length d"
    using mblen_of_text [OF Cons.prems(1)] mblen_of_text [OF Cons.prems(2) [unfolded ds]] by simp
  then show ?case using Cons ds by (auto simp: wf_text_Cons)
qed (auto simp: wf_text_empty)

end

section \<open>Properties\<close>

text \<open>
  C8: \<open>pg_verify_mbstr_len\<close> decides well-formedness in every encoding of the table. On a buffer of
  at least \<open>len\<close> bytes it always returns without reading beyond them; with \<open>noError\<close> the result
  is \<open>n \<ge> 0\<close> exactly when the \<open>len\<close> bytes are a sequence of \<open>n\<close> characters that the encoding's
  verifier accepts one by one, and -1 otherwise.
\<close>

theorem pg_verify_mbstr_len_correct:
  assumes "PG_VALID_ENCODING e" "0 \<le> len" "len \<le> int (length s)"
  defines "readings \<equiv> {cs. wf_text (pg_encoding_verifymb e) (take (nat len) s) cs}"
  shows "(\<exists>cs. readings = {cs} \<and> pg_verify_mbstr_len e s len True = Some (Inr (int (length cs))))
    \<or> (readings = {} \<and> pg_verify_mbstr_len e s len True = Some (Inr (-1)))"
  using pg_verify_mbstr_len_cases [OF assms(1-3), of True]
proof (elim disjE exE conjE)
  fix cs assume cs: "wf_text (pg_encoding_verifymb e) (take (nat len) s) cs"
    "pg_verify_mbstr_len e s len True = Some (Inr (int (length cs)))"
  have "readings = {cs}"
    using mb_encoding.wf_text_unique [OF table_encoding [OF assms(1)] cs(1)] cs(1)
    unfolding readings_def by blast
  then show ?thesis using cs(2) by blast
next
  assume "\<nexists>cs. wf_text (pg_encoding_verifymb e) (take (nat len) s) cs"
  then have "readings = {}" by (simp add: readings_def)
  moreover fix k m assume "pg_verify_mbstr_len e s len True = (if True then Some (Inr (-1))
    else map_option Inl (report_invalid_encoding e (drop k s) m))"
  ultimately show ?thesis by simp
qed

theorem pg_verify_mbstr_len_correct_witness:
  "pg_verify_mbstr_len 6 [0x41, 0xE2, 0x82, 0xAC, 0xFF] 4 True = Some (Inr 2)"
proof -
  have "pg_encoding_verifymb 6 = pg_utf8_verifier"
    by (intro ext) (simp add: pg_encoding_verifymb_def PG_VALID_ENCODING_def PG_LAST_ENCODING_eq
        pg_wchar_table_def wchar_tbl_def)
  then have "wf_text (pg_encoding_verifymb 6) [0x41, 0xE2, 0x82, 0xAC] [[0x41], [0xE2, 0x82, 0xAC]]"
    by (simp add: wf_text_def wf_char_def pg_utf8_verifier_def pg_utf_mblen_def pg_utf8_islegal_def)
  then have r: "[[0x41], [0xE2, 0x82, 0xAC]]
      \<in> {cs. wf_text (pg_encoding_verifymb 6) (take (nat 4) [0x41, 0xE2, 0x82, 0xAC, 0xFF]) cs}"
    (is "_ \<in> ?R") by simp
  have "(\<exists>cs. ?R = {cs} \<and> pg_verify_mbstr_len 6 [0x41, 0xE2, 0x82, 0xAC, 0xFF] 4 True
      = Some (Inr (int (length cs))))
    \<or> (?R = {} \<and> pg_verify_mbstr_len 6 [0x41, 0xE2, 0x82, 0xAC, 0xFF] 4 True = Some (Inr (-1)))"
    by (rule pg_verify_mbstr_len_correct) (simp_all add: PG_VALID_ENCODING_def PG_LAST_ENCODING_eq)
  then obtain cs where cs: "?R = {cs}" "pg_verify_mbstr_len 6 [0x41, 0xE2, 0x82, 0xAC, 0xFF] 4 True
      = Some (Inr (int (length cs)))" using r by blast
  have "cs = [[0x41], [0xE2, 0x82, 0xAC]]" using r unfolding cs(1) by blast
  then show ?thesis using cs(2) by simp
qed

lemma mblen_total_but_gb18030:
  assumes "PG_VALID_ENCODING e" "e \<noteq> pg_enc_id PG_GB18030"
  shows "\<exists>l. pg_encoding_mblen e (c # r) = Some l"
proof -
  have tot: "list_all (\<lambda>t. \<exists>l. mblen t (c # r) = Some l) (take 39 pg_wchar_table @ drop 40 pg_wchar_table)"
    by (simp add: pg_wchar_table_def wchar_tbl_def mblen_defs pg_utf_mblen_def)
  have e: "nat e < 42" "0 \<le> e" "nat e \<noteq> 39"
    using assms valid_nth by (auto simp: pg_enc_id_def pg_enc_order_def)
  have "pg_wchar_table ! nat e \<in> set (take 39 pg_wchar_table @ drop 40 pg_wchar_table)"
  proof (cases "nat e < 39")
    case True
    then have "take 39 pg_wchar_table ! nat e = pg_wchar_table ! nat e" by simp
    then show ?thesis using True nth_mem [of "nat e" "take 39 pg_wchar_table"]
      by (simp add: length_pg_wchar_table)
  next
    case False
    then have "drop 40 pg_wchar_table ! (nat e - 40) = pg_wchar_table ! nat e"
      using e by (simp add: length_pg_wchar_table)
    then show ?thesis using False e nth_mem [of "nat e - 40" "drop 40 pg_wchar_table"]
      by (simp add: length_pg_wchar_table)
  qed
  then show ?thesis using tot assms(1) by (simp add: list_all_iff pg_encoding_mblen_def)
qed

text \<open>
  C24: when \<open>noError\<close> is false, malformed input is reported instead: in every encoding but GB18030
  \<open>pg_verify_mbstr_len\<close> returns a report of at most 8 bytes of the offending character, whose
  hexadecimal dump fits in the buffer of \<open>report_invalid_encoding\<close>, and again nothing beyond the
  \<open>len\<close> bytes is read.
\<close>

theorem pg_verify_mbstr_len_reports:
  assumes "PG_VALID_ENCODING e" "e \<noteq> pg_enc_id PG_GB18030" "0 \<le> len" "len \<le> int (length s)"
    "pg_verify_mbstr_len e s len True = Some (Inr (-1))"
  shows "\<exists>buf. length buf < 8 * 5 + 1 \<and> pg_verify_mbstr_len e s len False
    = Some (Inl (Invalid_byte_sequence (pg_encoding_to_char e) buf))"
proof -
  have no: "\<nexists>cs. wf_text (pg_encoding_verifymb e) (take (nat len) s) cs"
    using pg_verify_mbstr_len_cases [OF assms(1,3,4), of True] assms(5) by auto
  obtain k m where km: "int k < len" "0 < m" "m \<le> len - int k"
    "pg_verify_mbstr_len e s len False = map_option Inl (report_invalid_encoding e (drop k s) m)"
    using pg_verify_mbstr_len_cases [OF assms(1,3,4), of False] no by auto
  obtain c r where cr: "drop k s = c # r" using km assms(4) by (cases "drop k s") auto
  obtain l where l: "pg_encoding_mblen e (c # r) = Some l"
    using mblen_total_but_gb18030 [OF assms(1,2)] by blast
  define j where "j = nat (min (min (int l) m) 8)"
  have "j \<le> length (c # r)" using km assms(4) unfolding cr [symmetric] j_def by simp
  then obtain b where b: "hex_dump (c # r) 0 j = Some b" "length b = (if j = 0 then 0 else 5 * j - 1)"
    using hex_dump_total [of 0 j "c # r"] by auto
  have "j \<le> 8" by (simp add: j_def)
  then have "length b < 8 * 5 + 1" using b(2) by (cases "j = 0") simp_all
  moreover have "report_invalid_encoding e (c # r) m
      = Some (Invalid_byte_sequence (pg_encoding_to_char e) b)"
    using l b(1) assms(1)
    by (simp add: report_invalid_encoding_def j_def [symmetric] pg_encoding_to_char_def del: hex_dump.simps)
  ultimately show ?thesis using km(4) unfolding cr by (intro exI [of _ b]) simp
qed

theorem pg_verify_mbstr_len_reports_witness:
  "\<exists>buf. length buf < 8 * 5 + 1 \<and> pg_verify_mbstr_len 6 [0x41, 0xFF] 2 False
    = Some (Inl (Invalid_byte_sequence (pg_encoding_to_char 6) buf))"
proof (rule pg_verify_mbstr_len_reports)
  have "pg_verify_mbstr_len 6 [0x41, 0xFF] 2 True
      = verify_loop pg_utf8_verifier 6 [0x41, 0xFF] 2 0 True"
    by (simp add: pg_verify_mbstr_len_def pg_encoding_max_length_def PG_VALID_ENCODING_def
        PG_LAST_ENCODING_eq pg_wchar_table_def wchar_tbl_def)
  also have "\<dots> = Some (Inr (-1))"
    by (simp add: verify_loop.simps IS_HIGHBIT_SET_def pg_utf8_verifier_def pg_utf_mblen_def
        pg_utf8_islegal_def)
  finally show "pg_verify_mbstr_len 6 [0x41, 0xFF] 2 True = Some (Inr (-1))" .
qed (simp_all add: PG_VALID_ENCODING_def PG_LAST_ENCODING_eq pg_enc_id_def pg_enc_order_def)

text \<open>
  In GB18030 the report itself reads too far. The length function looks at the second byte
  of a character, so for every well-formed text with any high byte behind it, the call that is to
  report the incomplete character reads the byte behind the input, while the call without a report
  rejects the input as it should.
\<close>

theorem pg_verify_mbstr_len_gb18030_overread:
  assumes "wf_text pg_gb18030_verifier p cs" "IS_HIGHBIT_SET b"
  shows "pg_verify_mbstr_len (pg_enc_id PG_GB18030) (p @ [b]) (int (length p) + 1) False = None
   \<and> pg_verify_mbstr_len (pg_enc_id PG_GB18030) (p @ [b]) (int (length p) + 1) True = Some (Inr (-1))"
proof -
  have v: "pg_encoding_verifymb (pg_enc_id PG_GB18030) = pg_gb18030_verifier"
    by (intro ext) (simp add: pg_encoding_verifymb_def PG_VALID_ENCODING_def PG_LAST_ENCODING_eq pg_wchar_table_def wchar_tbl_def
        pg_enc_id_def pg_enc_order_def)
  have enc: "mb_encoding (pg_encoding_mblen (pg_enc_id PG_GB18030)) pg_gb18030_verifier (maxmblen (pg_wchar_table ! nat (pg_enc_id PG_GB18030)))"
    using table_encoding [OF pg_enc_id_valid, of PG_GB18030] by (simp only: v)
  have m: "pg_verify_mbstr_len (pg_enc_id PG_GB18030) s n ne = verify_loop pg_gb18030_verifier (pg_enc_id PG_GB18030) s n 0 ne" for s n ne
    by (simp add: pg_verify_mbstr_len_def pg_encoding_max_length_def PG_VALID_ENCODING_def PG_LAST_ENCODING_eq pg_wchar_table_def
        wchar_tbl_def pg_enc_id_def pg_enc_order_def)
  have l: "pg_encoding_mblen (pg_enc_id PG_GB18030) [b] = None"
    using assms(2) by (simp add: pg_encoding_mblen_def PG_VALID_ENCODING_def PG_LAST_ENCODING_eq pg_wchar_table_def wchar_tbl_def
        pg_enc_id_def pg_enc_order_def pg_gb18030_mblen_def)
  have "verify_loop pg_gb18030_verifier e [b] 1 mb ne = (if ne then Some (Inr (-1)) else map_option Inl (report_invalid_encoding e [b] 1))" for e mb ne
    using assms(2) by (subst verify_loop.simps) (simp add: pg_gb18030_verifier_def)
  then show ?thesis
    using mb_encoding.verify_loop_prefix [OF enc assms(1), of 1 "[b]"] l by (simp add: m report_invalid_encoding_def)
qed

theorem pg_verify_mbstr_len_gb18030_overread_witness:
  "pg_verify_mbstr_len (pg_enc_id PG_GB18030) [0x41, 0x81, 0x40, 0x81] 4 False = None
   \<and> pg_verify_mbstr_len (pg_enc_id PG_GB18030) [0x41, 0x81, 0x40, 0x81] 4 True = Some (Inr (-1))"
proof -
  have "wf_text pg_gb18030_verifier [0x41, 0x81, 0x40] [[0x41], [0x81, 0x40]]"
    by (simp add: wf_text_def wf_char_def pg_gb18030_verifier_def IS_HIGHBIT_SET_def)
  from pg_verify_mbstr_len_gb18030_overread [OF this, where b = "0x81"] show ?thesis by (simp add: IS_HIGHBIT_SET_def)
qed

lemma verifymb_utf8: "pg_encoding_verifymb (pg_enc_id PG_UTF8) = pg_utf8_verifier"
  by (intro ext) (simp add: pg_encoding_verifymb_def PG_VALID_ENCODING_def PG_LAST_ENCODING_eq
      pg_wchar_table_def wchar_tbl_def pg_enc_id_def pg_enc_order_def)

lemma wf_char_utf8:
  assumes "wf_char pg_utf8_verifier c"
  shows "utf8_char c \<and> c \<noteq> [] \<and> hd c \<noteq> 0"
proof -
  have c: "c \<noteq> []" "c ! 0 \<noteq> 0" "pg_utf8_verifier c (int (length c)) = Some (int (length c))"
    using assms by (auto simp: wf_char_def)
  obtain m where m: "pg_utf_mblen c = Some m" using c by (cases c) (auto simp: pg_utf_mblen_Cons)
  have "int m \<le> int (length c)" using pg_utf8_verifier_short [OF m, of "int (length c)"] c by fastforce
  then have "m = length c" "utf8_legal (map unat (take m c))"
    using pg_utf8_verifier_eq [OF m] c by (auto split: if_splits)
  then show ?thesis using c by (simp add: utf8_char_def hd_conv_nth)
qed

text \<open>
  C16: verification and conversion of UTF-8 fit together. When \<open>pg_verify_mbstr_len\<close> accepts a
  string with \<open>n\<close> characters, \<open>pg_utf2wchar_with_len\<close> turns it into exactly \<open>n\<close> code points, and
  \<open>pg_wchar2utf_with_len\<close> turns those back into the same bytes.
\<close>

theorem utf8_conversion_of_verified:
  assumes "pg_verify_mbstr_len (pg_enc_id PG_UTF8) s len True = Some (Inr n)" "0 \<le> n"
    and "0 \<le> len" "len \<le> int (length s)"
  shows "\<exists>ws. pg_utf2wchar_with_len s len = Some ws \<and> int (length ws) = n \<and>
    pg_wchar2utf_with_len ws n = Some (take (nat len) s)"
proof -
  obtain cs where cs: "wf_text pg_utf8_verifier (take (nat len) s) cs" "n = int (length cs)"
    using pg_verify_mbstr_len_cases [OF pg_enc_id_valid assms(3,4), of PG_UTF8 True] assms(1,2)
    by (auto simp: verifymb_utf8)
  then have t: "take (nat len) s = concat cs" "\<forall>c \<in> set cs. c \<noteq> [] \<and> hd c \<noteq> 0 \<and> utf8_char c"
    using wf_char_utf8 by (auto simp: wf_text_def list_all_iff)
  have "concat cs @ drop (nat len) s = s" unfolding t(1) [symmetric] by simp
  moreover have "int (length (concat cs)) = len" using assms(3,4) unfolding t(1) [symmetric] by simp
  ultimately show ?thesis using utf8.convert_chars [OF t(2), of "drop (nat len) s"] cs(2) t(1) by auto
qed

theorem utf8_conversion_of_verified_witness:
  "\<exists>ws. pg_utf2wchar_with_len [0xC3, 0xA4, 0x41] 3 = Some ws \<and> int (length ws) = 2 \<and>
    pg_wchar2utf_with_len ws 2 = Some [0xC3, 0xA4, 0x41]"
proof -
  have "pg_verify_mbstr_len (pg_enc_id PG_UTF8) [0xC3, 0xA4, 0x41] 3 True
      = verify_loop pg_utf8_verifier 6 [0xC3, 0xA4, 0x41] 3 0 True"
    by (simp add: pg_verify_mbstr_len_def pg_encoding_max_length_def PG_VALID_ENCODING_def
        PG_LAST_ENCODING_eq pg_wchar_table_def wchar_tbl_def pg_enc_id_def pg_enc_order_def)
  also have "\<dots> = Some (Inr 2)"
    by (simp add: verify_loop.simps IS_HIGHBIT_SET_def pg_utf8_verifier_def pg_utf_mblen_def
        pg_utf8_islegal_def)
  finally show ?thesis using utf8_conversion_of_verified [of "[0xC3, 0xA4, 0x41]" 3 2] by simp
qed

definition MAX_MULTIBYTE_CHAR_LEN :: int where "MAX_MULTIBYTE_CHAR_LEN = 4"

definition mblen_upto :: "(byte list \<Rightarrow> nat option) \<Rightarrow> byte list \<Rightarrow> nat \<Rightarrow> bool" where
  "mblen_upto f s k \<longleftrightarrow> (\<forall>n. f s = Some n \<longrightarrow> 1 \<le> n \<and> n \<le> k)"

lemma mblen_ranges:
  "mblen_upto pg_ascii_mblen s 1" "mblen_upto pg_latin1_mblen s 1" "mblen_upto pg_eucjp_mblen s 3" "mblen_upto pg_euckr_mblen s 3"
  "mblen_upto pg_euccn_mblen s 2" "mblen_upto pg_euctw_mblen s 4" "mblen_upto pg_johab_mblen s 3" "mblen_upto pg_mule_mblen s 4"
  "mblen_upto pg_sjis_mblen s 2" "mblen_upto pg_big5_mblen s 2" "mblen_upto pg_gbk_mblen s 2" "mblen_upto pg_uhc_mblen s 2"
  "mblen_upto pg_gb18030_mblen s 4" "mblen_upto pg_utf_mblen s 4"
  by (cases "peek s 0"; cases "peek s 1"; simp add: mblen_upto_def mblen_defs pg_utf_mblen_def)+

text \<open>
  No character is longer than the table says. Whatever the bytes are, well-formed or not, and in
  every encoding, a length that \<open>pg_encoding_mblen\<close> gives is at least 1 and at most
  \<open>pg_encoding_max_length\<close>, which is at most \<open>MAX_MULTIBYTE_CHAR_LEN\<close>.
\<close>

theorem pg_encoding_mblen_max:
  assumes "PG_VALID_ENCODING e" "pg_encoding_mblen e s = Some n"
  shows "\<exists>m. pg_encoding_max_length e = Some m \<and> 1 \<le> n \<and> int n \<le> m \<and> m \<le> MAX_MULTIBYTE_CHAR_LEN"
proof -
  have "list_all (\<lambda>t. \<exists>k. mblen_upto (mblen t) s k \<and> int k \<le> maxmblen t \<and> maxmblen t \<le> MAX_MULTIBYTE_CHAR_LEN) pg_wchar_table"
    unfolding pg_wchar_table_def wchar_tbl_def MAX_MULTIBYTE_CHAR_LEN_def
    using mblen_ranges [of s] by (simp only: list.pred_inject pg_wchar_tbl.simps simp_thms) (intro conjI; force)
  then show ?thesis using assms valid_nth [OF assms(1)]
    by (fastforce simp: list_all_length length_pg_wchar_table pg_encoding_max_length_def pg_encoding_mblen_def mblen_upto_def)
qed

theorem pg_encoding_mblen_max_witness:
  "\<exists>m. pg_encoding_max_length (pg_enc_id PG_EUC_TW) = Some m \<and> 4 \<le> m \<and> m \<le> MAX_MULTIBYTE_CHAR_LEN"
proof -
  have "pg_encoding_mblen (pg_enc_id PG_EUC_TW) [0x8e] = Some 4"
    by (simp add: pg_encoding_mblen_def PG_VALID_ENCODING_def PG_LAST_ENCODING_eq pg_wchar_table_def wchar_tbl_def
        pg_enc_id_def pg_enc_order_def pg_euctw_mblen_def SS2_def)
  from pg_encoding_mblen_max [OF pg_enc_id_valid this] show ?thesis by simp
qed

end
