(* ===== verification/Charinc.thy ===== *)
theory Charinc
  imports Wchar_Verify
begin

text \<open>
  The character incrementers of \<open>wchar.c\<close>: given a valid character, change its bytes in place
  to a greater valid character, or fail. The result is the flag and the memory afterwards;
  \<open>None\<close> is an access outside the character.
\<close>

section \<open>Operations\<close>

text \<open>
  The loop \<open>while (*lastbyte < 255)\<close> of \<open>pg_generic_charinc\<close>; \<open>i\<close> is the offset of the last byte. The
  verifier of the database encoding is an argument.
\<close>

function generic_charinc_loop ::
  "(byte list \<Rightarrow> int \<Rightarrow> int option) \<Rightarrow> byte list \<Rightarrow> int \<Rightarrow> nat \<Rightarrow> (bool \<times> byte list) option" where
  "generic_charinc_loop verify charptr len i = do {
     b \<leftarrow> peek charptr i;
     if b < 255 then do {
       let charptr = charptr[i := b + 1];
       r \<leftarrow> verify charptr len;
       if r = len then Some (True, charptr)
       else generic_charinc_loop verify charptr len i }
     else Some (False, charptr) }"
  by pat_completeness auto

termination generic_charinc_loop
proof (relation "measure (\<lambda>(v, s, len, i). 255 - unat (s ! i))", simp, goal_cases)
  case (1 verify charptr len i b x r)
  then have i: "i < length charptr" "charptr ! i = b" "x = charptr[i := b + 1]"
    by (auto simp: mem_simps)
  have "unat b < 255" using 1 by (simp add: byte_less_iff)
  then have "unat (b + 1) = unat b + 1" by (simp add: unat_word_ariths)
  then show ?case using i \<open>unat b < 255\<close> by simp
qed

definition pg_generic_charinc :: "int \<Rightarrow> byte list \<Rightarrow> nat \<Rightarrow> (bool \<times> byte list) option" where
  "pg_generic_charinc database_encoding charptr len =
    generic_charinc_loop (mbverify (pg_wchar_table ! nat database_encoding)) charptr (int len) (len - 1)"

text \<open>The \<open>switch\<close> on the length falls through to the lower positions.\<close>

definition pg_utf8_increment :: "byte list \<Rightarrow> nat \<Rightarrow> (bool \<times> byte list) option" where
  "pg_utf8_increment charptr len =
    (let level1 = do {
           a \<leftarrow> peek charptr 0;
           if a = 0x7F \<or> a = 0xDF \<or> a = 0xEF \<or> a = 0xF4 then Some (False, charptr)
           else Some (True, charptr[0 := a + 1]) };
         level2 = do {
           a \<leftarrow> peek charptr 1; c \<leftarrow> peek charptr 0;
           let limit = (if c = 0xED then 0x9F else if c = 0xF4 then 0x8F else 0xBF);
           if a < limit then Some (True, charptr[1 := a + 1]) else level1 };
         level3 = do {
           a \<leftarrow> peek charptr 2;
           if a < 0xBF then Some (True, charptr[2 := a + 1]) else level2 };
         level4 = do {
           a \<leftarrow> peek charptr 3;
           if a < 0xBF then Some (True, charptr[3 := a + 1]) else level3 }
     in if len = 4 then level4 else if len = 3 then level3 else if len = 2 then level2
        else if len = 1 then level1 else Some (False, charptr))"

text \<open>The loops \<open>for (i = ...; i >= ...; i--)\<close> over the trailing bytes: \<open>is\<close> lists the offsets.\<close>

fun eucjp_inc_loop :: "byte list \<Rightarrow> nat list \<Rightarrow> (bool \<times> byte list) option" where
  "eucjp_inc_loop charptr [] = Some (False, charptr)"
| "eucjp_inc_loop charptr (i # is) = do {
     c2 \<leftarrow> peek charptr i;
     if c2 < 0xa1 then Some (True, charptr[i := 0xa1])
     else if c2 < 0xfe then Some (True, charptr[i := c2 + 1])
     else eucjp_inc_loop charptr is }"

definition pg_eucjp_increment :: "byte list \<Rightarrow> nat \<Rightarrow> (bool \<times> byte list) option" where
  "pg_eucjp_increment charptr len = do {
     c1 \<leftarrow> peek charptr 0;
     if c1 = SS2 then
       (if len \<noteq> 2 then Some (False, charptr)
        else do {
          c2 \<leftarrow> peek charptr 1;
          Some (True,
            if c2 \<ge> 0xdf then charptr[1 := 0xa1, 0 := 0xa1]
            else if c2 < 0xa1 then charptr[1 := 0xa1]
            else charptr[1 := c2 + 1]) })
     else if c1 = SS3 then
       (if len \<noteq> 3 then Some (False, charptr) else eucjp_inc_loop charptr [2, 1])
     else if IS_HIGHBIT_SET c1 then
       (if len \<noteq> 2 then Some (False, charptr) else eucjp_inc_loop charptr [1, 0])
     else if c1 > 0x7e then Some (False, charptr)
     else Some (True, charptr[0 := c1 + 1]) }"

datatype character_incrementer = Inc_utf8 | Inc_eucjp | Inc_generic

definition pg_database_encoding_character_incrementer :: "int \<Rightarrow> character_incrementer" where
  "pg_database_encoding_character_incrementer database_encoding =
    (if database_encoding = pg_enc_id PG_UTF8 then Inc_utf8
     else if database_encoding = pg_enc_id PG_EUC_JP then Inc_eucjp
     else Inc_generic)"

declare generic_charinc_loop.simps [simp del]

section \<open>The generic incrementer\<close>

lemma unat_Suc_byte: "(b :: byte) < 255 \<Longrightarrow> unat (b + 1) = unat b + 1"
  by (simp add: byte_less_iff unat_word_ariths)

lemma generic_loop_result:
  assumes "i < length c" "\<And>b. c ! i < b \<Longrightarrow> verify (c[i := b]) len \<noteq> None"
  shows "(\<exists>b > c ! i. generic_charinc_loop verify c len i = Some (True, c[i := b])
        \<and> verify (c[i := b]) len = Some len
        \<and> (\<forall>d. c ! i < d \<and> d < b \<longrightarrow> verify (c[i := d]) len \<noteq> Some len))
    \<or> (\<exists>c'. generic_charinc_loop verify c len i = Some (False, c')
        \<and> (\<forall>d > c ! i. verify (c[i := d]) len \<noteq> Some len))"
  using assms
proof (induction "255 - unat (c ! i)" arbitrary: c rule: less_induct)
  case less
  let ?b = "c ! i"
  show ?case
  proof (cases "?b < 255")
    case False
    then have "\<not> ?b < d" for d
      unfolding byte_less_iff using unat_byte_less [of d] by (simp del: unat_byte_less)
    then show ?thesis using False less.prems(1)
      by (subst (1 2) generic_charinc_loop.simps) (simp add: peek_in_bounds)
  next
    case True
    have u: "unat (?b + 1) = unat ?b + 1" by (rule unat_Suc_byte [OF True])
    then have gt: "?b < ?b + 1" by (simp add: byte_less_iff)
    obtain r where r: "verify (c[i := ?b + 1]) len = Some r" using less.prems(2) [OF gt] by auto
    have next_d: "d = ?b + 1 \<or> ?b + 1 < d" if "?b < d" for d
      using that u by (auto simp: byte_less_iff word_unat_eq_iff)
    show ?thesis
    proof (cases "r = len")
      case t: True
      have "generic_charinc_loop verify c len i = Some (True, c[i := ?b + 1])"
        using True r t less.prems(1) by (subst generic_charinc_loop.simps) (simp add: peek_in_bounds)
      moreover have "\<not> (?b < d \<and> d < ?b + 1)" for d using u by (auto simp: byte_less_iff)
      ultimately show ?thesis using gt r t by blast
    next
      case f: False
      let ?c = "c[i := ?b + 1]"
      have step: "generic_charinc_loop verify c len i = generic_charinc_loop verify ?c len i"
        using True r f less.prems(1) by (subst generic_charinc_loop.simps) (simp add: peek_in_bounds)
      have ci: "?c ! i = ?b + 1" "?c[i := d] = c[i := d]" "i < length ?c" for d
        using less.prems(1) by simp_all
      have m: "255 - unat (?c ! i) < 255 - unat ?b" using u True ci by (simp add: byte_less_iff)
      have v: "verify (c[i := d]) len \<noteq> None" if "?b + 1 < d" for d
        using less.prems(2) [OF order_less_trans [OF gt that]] .
      have "(\<exists>b > ?b + 1. generic_charinc_loop verify ?c len i = Some (True, c[i := b])
            \<and> verify (c[i := b]) len = Some len
            \<and> (\<forall>d. ?b + 1 < d \<and> d < b \<longrightarrow> verify (c[i := d]) len \<noteq> Some len))
        \<or> (\<exists>c'. generic_charinc_loop verify ?c len i = Some (False, c')
            \<and> (\<forall>d > ?b + 1. verify (c[i := d]) len \<noteq> Some len))"
        by (rule less.hyps [OF m ci(3), unfolded ci(1,2)]) (rule v)
      note ih = this
      have lift: "verify (c[i := d]) len \<noteq> Some len" if "?b < d" "?b + 1 < d \<Longrightarrow> verify (c[i := d]) len \<noteq> Some len" for d
        using next_d [OF that(1)] that(2) r f by auto
      from ih show ?thesis
      proof (elim disjE exE conjE)
        fix b assume b: "?b + 1 < b" "generic_charinc_loop verify ?c len i = Some (True, c[i := b])"
          "verify (c[i := b]) len = Some len"
          "\<forall>d. ?b + 1 < d \<and> d < b \<longrightarrow> verify (c[i := d]) len \<noteq> Some len"
        have "?b < b" using gt b(1) by (rule order_less_trans)
        moreover have "\<forall>d. ?b < d \<and> d < b \<longrightarrow> verify (c[i := d]) len \<noteq> Some len"
          using lift b(4) by blast
        ultimately show ?thesis using b step by auto
      next
        fix c' assume "generic_charinc_loop verify ?c len i = Some (False, c')"
          "\<forall>d > ?b + 1. verify (c[i := d]) len \<noteq> Some len"
        then show ?thesis using lift step by auto
      qed
    qed
  qed
qed

text \<open>
  C22: \<open>pg_generic_charinc\<close> finds the next valid character that differs in the last byte only. In
  every encoding of the table it always returns, stays within the character, and on success the
  new last byte is the least greater one for which the verifier accepts the character; it fails
  only when no greater last byte would do.
\<close>

theorem pg_generic_charinc_least:
  assumes "PG_VALID_ENCODING e" "1 \<le> length c" "c ! 0 \<noteq> 0"
  defines "valid d \<equiv> pg_encoding_verifymb e (c[length c - 1 := d]) (int (length c)) = Some (int (length c))"
  shows "(\<exists>d > c ! (length c - 1). pg_generic_charinc e c (length c) = Some (True, c[length c - 1 := d])
        \<and> valid d \<and> (\<forall>d'. c ! (length c - 1) < d' \<and> d' < d \<longrightarrow> \<not> valid d'))
    \<or> (\<exists>c'. pg_generic_charinc e c (length c) = Some (False, c') \<and> (\<forall>d > c ! (length c - 1). \<not> valid d))"
proof -
  let ?i = "length c - 1"
  have fn: "pg_encoding_verifymb e = mbverify (pg_wchar_table ! nat e)"
    using assms(1) by (intro ext) (simp add: pg_encoding_verifymb_def)
  have "pg_encoding_verifymb e (c[?i := d]) (int (length c)) \<noteq> None" if d: "c ! ?i < d" for d
  proof -
    have "d \<noteq> 0" using d by auto
    then have "c[?i := d] ! 0 \<noteq> 0" using assms(2,3) by (cases "?i = 0") auto
    moreover have "0 < int (length c)" "int (length c) \<le> int (length (c[?i := d]))"
      using assms(2) by (linarith, simp)
    ultimately obtain l where "pg_encoding_verifymb e (c[?i := d]) (int (length c)) = Some l"
      using mb_encoding.ver_result [OF table_encoding [OF assms(1)]] by blast
    then show ?thesis by simp
  qed
  moreover have "?i < length c" using assms(2) by simp
  ultimately show ?thesis
    unfolding pg_generic_charinc_def valid_def fn by (intro generic_loop_result)
qed

theorem pg_generic_charinc_least_witness:
  "(\<exists>d > 0xfd. pg_generic_charinc 2 [0xa1, 0xfd] 2 = Some (True, [0xa1, d]))
   \<or> (\<exists>c'. pg_generic_charinc 2 [0xa1, 0xfd] 2 = Some (False, c'))"
proof -
  have v: "PG_VALID_ENCODING 2" by (simp add: PG_VALID_ENCODING_def PG_LAST_ENCODING_eq)
  have c: "1 \<le> length [0xa1, 0xfd :: byte]" "[0xa1, 0xfd :: byte] ! 0 \<noteq> 0" by simp_all
  have l: "length [0xa1, 0xfd :: byte] = 2" by simp
  show ?thesis using pg_generic_charinc_least [OF v c] unfolding l by (elim disjE) auto
qed

section \<open>UTF-8\<close>

lemma byte_const_eq:
  "(a :: byte) = 0x7F \<longleftrightarrow> unat a = 127" "(a :: byte) = 0xDF \<longleftrightarrow> unat a = 223"
  "(a :: byte) = 0xEF \<longleftrightarrow> unat a = 239" "(a :: byte) = 0xF4 \<longleftrightarrow> unat a = 244"
  "(a :: byte) = 0xED \<longleftrightarrow> unat a = 237" "(a :: byte) = 0xBF \<longleftrightarrow> unat a = 191"
  "(a :: byte) = 0xEC \<longleftrightarrow> unat a = 236" "(a :: byte) = 0xF3 \<longleftrightarrow> unat a = 243"
  "(a :: byte) = 0x8F \<longleftrightarrow> unat a = 143"
  by (simp_all add: word_unat_eq_iff)

lemma unat_inc: "unat (a :: byte) < 255 \<Longrightarrow> unat (a + 1) = unat a + 1"
  by (rule unat_Suc_byte) (simp add: byte_less_iff)

text \<open>The characters that cannot be incremented, and those whose increment is not valid.\<close>

definition utf8_last :: "byte list set" where
  "utf8_last = {[0x7F], [0xDF, 0xBF], [0xEF, 0xBF, 0xBF], [0xF4, 0x8F, 0xBF, 0xBF]}"

definition utf8_inc_broken :: "byte list set" where
  "utf8_inc_broken = {[0xEC, 0xBF, 0xBF], [0xF3, 0xBF, 0xBF, 0xBF]}"

definition utf8_inc_ok :: "byte list \<Rightarrow> bool \<Rightarrow> byte list \<Rightarrow> bool" where
  "utf8_inc_ok c ok c' \<longleftrightarrow> length c' = length c \<and> ok = (c \<notin> utf8_last) \<and>
     (if ok then c < c' \<and> (utf8_char c' \<longleftrightarrow> c \<notin> utf8_inc_broken) else c' = c)"

lemma Cons_less_Cons: "(a # x) < (b # y) \<longleftrightarrow> a < b \<or> a = b \<and> x < (y :: byte list)"
  by simp

lemma utf8_increment_one:
  assumes "unat a < 128"
  shows "\<exists>ok c'. pg_utf8_increment [a] 1 = Some (ok, c') \<and> utf8_inc_ok [a] ok c'"
  using assms
  by (cases "unat a = 127")
    (auto simp: pg_utf8_increment_def utf8_inc_ok_def utf8_last_def utf8_inc_broken_def utf8_char_def
      byte_const_eq unat_inc byte_less_iff)

lemma utf8_increment_two:
  assumes "utf8_legal [unat a, unat b]"
  shows "\<exists>ok c'. pg_utf8_increment [a, b] 2 = Some (ok, c') \<and> utf8_inc_ok [a, b] ok c'"
  using assms
  by (cases "unat b < 191"; cases "unat a = 223")
    (auto simp: pg_utf8_increment_def utf8_inc_ok_def utf8_last_def utf8_inc_broken_def utf8_char_def
      byte_const_eq unat_inc byte_less_iff)

lemma utf8_increment_three:
  assumes "utf8_legal [unat a, unat b, unat d]"
  shows "\<exists>ok c'. pg_utf8_increment [a, b, d] 3 = Some (ok, c') \<and> utf8_inc_ok [a, b, d] ok c'"
proof -
  note defs = pg_utf8_increment_def utf8_inc_ok_def utf8_last_def utf8_inc_broken_def utf8_char_def
    byte_const_eq unat_inc byte_less_iff
  show ?thesis
  proof (cases "unat d < 191")
    case True
    then show ?thesis using assms by (auto simp: defs)
  next
    case d: False
    then have d: "unat d = 191" using assms by simp
    show ?thesis
    proof (cases "unat b < (if unat a = 237 then 159 else 191)")
      case True
      then show ?thesis using assms d by (cases "unat a = 237") (auto simp: defs)
    next
      case False
      then have "unat b = (if unat a = 237 then 159 else 191)" using assms by (auto split: if_splits)
      then show ?thesis using assms d
        by (cases "unat a = 237"; cases "unat a = 236"; cases "unat a = 239") (auto simp: defs)
    qed
  qed
qed

lemma utf8_increment_four:
  assumes "utf8_legal [unat a, unat b, unat d, unat f]"
  shows "\<exists>ok c'. pg_utf8_increment [a, b, d, f] 4 = Some (ok, c') \<and> utf8_inc_ok [a, b, d, f] ok c'"
proof -
  note defs = pg_utf8_increment_def utf8_inc_ok_def utf8_last_def utf8_inc_broken_def utf8_char_def
    byte_const_eq unat_inc byte_less_iff
  show ?thesis
  proof (cases "unat f < 191")
    case True
    then show ?thesis using assms by (auto simp: defs)
  next
    case False
    then have f: "unat f = 191" using assms by simp
    show ?thesis
    proof (cases "unat d < 191")
      case True
      then show ?thesis using assms f by (auto simp: defs)
    next
      case False
      then have d: "unat d = 191" using assms by simp
      show ?thesis
      proof (cases "unat b < (if unat a = 244 then 143 else 191)")
        case True
        then show ?thesis using assms f d by (cases "unat a = 244") (auto simp: defs)
      next
        case False
        then have "unat b = (if unat a = 244 then 143 else 191)" using assms by (auto split: if_splits)
        then show ?thesis using assms f d
          by (cases "unat a = 244"; cases "unat a = 243") (auto simp: defs)
      qed
    qed
  qed
qed

lemma utf8_increment_char:
  assumes "utf8_char c"
  shows "\<exists>ok c'. pg_utf8_increment c (length c) = Some (ok, c') \<and> utf8_inc_ok c ok c'"
proof -
  have l: "utf8_legal (map unat c)" using assms by (simp add: utf8_char_def)
  then consider a where "c = [a]" | a b where "c = [a, b]" | a b d where "c = [a, b, d]"
    | a b d f where "c = [a, b, d, f]"
    by (cases "map unat c" rule: utf8_legal.cases) (auto simp: map_eq_Cons_conv)
  then show ?thesis
  proof cases
    case (1 a) then show ?thesis using l utf8_increment_one [of a] by simp
  next
    case (2 a b) then show ?thesis using l utf8_increment_two [of a b] by (simp add: numeral_2_eq_2)
  next
    case (3 a b d) then show ?thesis using l utf8_increment_three [of a b d] by (simp add: numeral_3_eq_3)
  next
    case (4 a b d f)
    moreover have "length c = 4" using 4 by simp
    ultimately show ?thesis using l utf8_increment_four [of a b d f] by (simp only: list.map)
  qed
qed

text \<open>
  C21: on a valid UTF-8 character \<open>pg_utf8_increment\<close> stays within its bytes and fails exactly on
  the last character of each length (U+007F, U+07FF, U+FFFF, U+10FFFF), leaving it unchanged.
  Otherwise the new character has the same length and is greater in byte order, and it is again
  valid UTF-8 for every character but two.
\<close>

theorem pg_utf8_increment_greater:
  assumes "utf8_char c"
  shows "if c \<in> {[0x7F], [0xDF, 0xBF], [0xEF, 0xBF, 0xBF], [0xF4, 0x8F, 0xBF, 0xBF]}
    then pg_utf8_increment c (length c) = Some (False, c)
    else \<exists>c'. pg_utf8_increment c (length c) = Some (True, c') \<and> length c' = length c \<and> c < c'
      \<and> (utf8_char c' \<longleftrightarrow> c \<notin> {[0xEC, 0xBF, 0xBF], [0xF3, 0xBF, 0xBF, 0xBF]})"
  using utf8_increment_char [OF assms]
  unfolding utf8_inc_ok_def utf8_last_def [symmetric] utf8_inc_broken_def [symmetric]
  by (auto split: if_splits)

theorem pg_utf8_increment_greater_witness:
  "\<exists>c'. pg_utf8_increment [0xE2, 0x82, 0xAC] 3 = Some (True, c') \<and> utf8_char c'"
  using pg_utf8_increment_greater [of "[0xE2, 0x82, 0xAC]"]
  by (auto simp: utf8_char_def numeral_3_eq_3)

text \<open>
  The two exceptions are real. U+CFFF is incremented to the bytes of a surrogate (U+DFFF) and
  U+FFFFF to bytes beyond U+10FFFF, although the function means to skip the surrogates: its
  special case for the lead byte 0xED is only reached from a character that already has it.
\<close>

lemma pg_utf8_increment_makes_invalid:
  "pg_utf8_increment [0xEC, 0xBF, 0xBF] 3 = Some (True, [0xED, 0xBF, 0xBF])
   \<and> pg_utf8_verifier [0xEC, 0xBF, 0xBF] 3 = Some 3
   \<and> pg_utf8_verifier [0xED, 0xBF, 0xBF] 3 = Some (-1)
   \<and> pg_utf8_increment [0xF3, 0xBF, 0xBF, 0xBF] 4 = Some (True, [0xF4, 0xBF, 0xBF, 0xBF])
   \<and> pg_utf8_verifier [0xF4, 0xBF, 0xBF, 0xBF] 4 = Some (-1)"
  by (simp add: pg_utf8_increment_def pg_utf8_verifier_def pg_utf_mblen_def pg_utf8_islegal_def)

section \<open>EUC-JP\<close>

text \<open>
  C23: on a valid EUC-JP character \<open>pg_eucjp_increment\<close> fails exactly on the last character of each
  plane (DEL, JIS X 0208 row 94 cell 94, JIS X 0212 row 94 cell 94); otherwise the result is a valid
  EUC-JP character of the same length, greater in byte order.
\<close>

theorem pg_eucjp_increment_greater:
  assumes "pg_eucjp_verifier c (int (length c)) = Some (int (length c))" "c ! 0 \<noteq> 0"
  shows "if c \<in> {[0x7F], [0xFE, 0xFE], [0x8F, 0xFE, 0xFE]}
    then pg_eucjp_increment c (length c) = Some (False, c)
    else \<exists>c'. pg_eucjp_increment c (length c) = Some (True, c') \<and> length c' = length c \<and> c < c'
      \<and> pg_eucjp_verifier c' (int (length c')) = Some (int (length c'))"
proof -
  note defs = pg_eucjp_verifier_def pg_eucjp_increment_def IS_EUC_RANGE_VALID_def
    SS2_def SS3_def byte_le_iff byte_less_iff byte_masks word_unat_eq_iff unat_inc
  have "length c \<noteq> 0" using assms(1) by (auto simp: pg_eucjp_verifier_def split: if_splits)
  moreover have "length c \<le> 3"
    using assms(1) by (auto simp: pg_eucjp_verifier_def split: if_splits bind_splits)
  ultimately consider a where "c = [a]" | a b where "c = [a, b]" | a b d where "c = [a, b, d]"
    by (cases c; cases "tl c"; cases "tl (tl c)") auto
  then show ?thesis
  proof cases
    case (1 a)
    then show ?thesis using assms by (cases "unat a < 127") (auto simp: defs split: if_splits)
  next
    case (2 a b)
    then have v: "unat a = 142 \<and> 161 \<le> unat b \<and> unat b \<le> 223 \<or>
        161 \<le> unat a \<and> unat a \<le> 254 \<and> 161 \<le> unat b \<and> unat b \<le> 254"
      using assms by (auto simp: defs split: if_splits)
    then consider "unat a = 142" "unat b = 223" | "unat a = 142" "161 \<le> unat b" "unat b < 223"
      | "161 \<le> unat a" "unat a \<le> 254" "161 \<le> unat b" "unat b < 254"
      | "161 \<le> unat a" "unat a < 254" "unat b = 254" | "unat a = 254" "unat b = 254" by linarith
    then show ?thesis using 2 by cases (auto simp: defs)
  next
    case (3 a b d)
    then have v: "unat a = 143 \<and> 161 \<le> unat b \<and> unat b \<le> 254 \<and> 161 \<le> unat d \<and> unat d \<le> 254"
      using assms by (auto simp: defs split: if_splits)
    then consider "unat d < 254" | "unat d = 254" "unat b < 254" | "unat d = 254" "unat b = 254"
      by linarith
    then show ?thesis using 3 v by cases (auto simp: defs)
  qed
qed

theorem pg_eucjp_increment_greater_witness:
  "\<exists>c'. pg_eucjp_increment [0x8E, 0xDF] 2 = Some (True, c') \<and>
     pg_eucjp_verifier c' (int (length c')) = Some (int (length c'))"
proof -
  have "pg_eucjp_verifier [0x8E, 0xDF] (int (length [0x8E, 0xDF :: byte])) = Some (int (length [0x8E, 0xDF :: byte]))"
    by (simp add: pg_eucjp_verifier_def SS2_def)
  moreover have "[0x8E, 0xDF :: byte] ! 0 \<noteq> 0" by simp
  moreover have "[0x8E, 0xDF] \<notin> {[0x7F], [0xFE, 0xFE], [0x8F, 0xFE, 0xFE :: byte]}" by simp
  moreover have "length [0x8E, 0xDF :: byte] = 2" by simp
  ultimately show ?thesis using pg_eucjp_increment_greater [of "[0x8E, 0xDF]"] by metis
qed

end
