(* ===== verification/C_Heap.thy ===== *)
theory C_Heap
  imports Prelude
begin

text \<open>
  The C allocator as the sources see it. Its answers are a list of booleans that is consumed one
  by one, so that every pattern of successes and failures is covered; behind its end allocation
  fails. The contents of fresh memory are arbitrary: \<open>junk\<close> gives them.

  \<open>size_t\<close> has 32 bits, as in the Win32 build of the project; the 64-bit build computes with the
  same numbers, since every size stays below \<open>INT_MAX\<close> or is checked against it.
\<close>

record heap =
  answers :: "bool list"
  junk :: "nat \<Rightarrow> byte"

definition INT_MAX :: nat where "INT_MAX = 2147483647"

text \<open>The result of an operation on \<open>size_t\<close>, and its difference, which wraps around.\<close>

definition size_t :: "nat \<Rightarrow> nat" where
  "size_t n = n mod 2 ^ 32"

definition size_sub :: "nat \<Rightarrow> nat \<Rightarrow> nat" where
  "size_sub a b = (a + 2 ^ 32 - b mod 2 ^ 32) mod 2 ^ 32"

definition next_answer :: "heap \<Rightarrow> bool \<times> heap" where
  "next_answer h = (case answers h of [] \<Rightarrow> (False, h) | a # as \<Rightarrow> (a, h\<lparr>answers := as\<rparr>))"

definition fresh :: "heap \<Rightarrow> nat \<Rightarrow> byte list" where
  "fresh h n = map (junk h) [0..<n]"

definition malloc :: "nat \<Rightarrow> heap \<Rightarrow> byte list option \<times> heap" where
  "malloc n h = (let (ok, h') = next_answer h in (if ok then Some (fresh h n) else None, h'))"

text \<open>\<open>realloc\<close> keeps the old contents as far as they fit; when it fails the block is unchanged.\<close>

definition realloc :: "byte list \<Rightarrow> nat \<Rightarrow> heap \<Rightarrow> byte list option \<times> heap" where
  "realloc old n h = (let (ok, h') = next_answer h in
     (if ok then Some (take n old @ fresh h (n - length old)) else None, h'))"

named_theorems sizes "arithmetic of size_t"

lemma INT_MAX_eq [sizes]: "INT_MAX = 2147483647"
  by (rule INT_MAX_def)

lemma size_t_id [sizes]: "n < 2 ^ 32 \<Longrightarrow> size_t n = n"
  by (simp add: size_t_def)

lemma size_sub_id [sizes]: "b \<le> a \<Longrightarrow> a < 2 ^ 32 \<Longrightarrow> size_sub a b = a - b"
proof -
  assume ba: "b \<le> a" and a: "a < 2 ^ 32"
  have b: "b mod 2 ^ 32 = b" by (rule mod_less) (rule le_less_trans [OF ba a])
  have e: "a + 2 ^ 32 - b = (a - b) + 2 ^ 32" using ba by linarith
  have "(a - b) mod 2 ^ 32 = a - b" by (rule mod_less) (rule le_less_trans [OF diff_le_self a])
  then show ?thesis unfolding size_sub_def b e mod_add_self2 .
qed

lemma length_fresh [simp]: "length (fresh h n) = n"
  by (simp add: fresh_def)

lemma malloc_eq:
  "malloc n h = (if fst (next_answer h) then Some (fresh h n) else None, snd (next_answer h))"
  by (simp add: malloc_def split_beta)

lemma realloc_eq:
  "realloc old n h = (if fst (next_answer h) then Some (take n old @ fresh h (n - length old)) else None,
     snd (next_answer h))"
  by (simp add: realloc_def split_beta)

lemma realloc_cases:
  obtains h' where "realloc old n h = (None, h')"
  | h' where "realloc old n h = (Some (take n old @ fresh h (n - length old)), h')"
  using realloc_eq [of old n h] that by (cases "fst (next_answer h)") simp_all

lemma malloc_cases:
  obtains h' where "malloc n h = (None, h')" | h' where "malloc n h = (Some (fresh h n), h')"
  using malloc_eq [of n h] that by (cases "fst (next_answer h)") simp_all

text \<open>With memory for every request the heap keeps answering yes.\<close>

definition plenty :: "nat \<Rightarrow> heap \<Rightarrow> bool" where
  "plenty k h \<longleftrightarrow> k \<le> length (answers h) \<and> (\<forall>i < k. answers h ! i)"

lemma plenty_next:
  assumes "plenty (Suc k) h"
  shows "fst (next_answer h)" "plenty k (snd (next_answer h))"
proof -
  obtain a as where a: "answers h = a # as" using assms by (cases "answers h") (auto simp: plenty_def)
  have all: "i < Suc k \<Longrightarrow> answers h ! i" for i using assms by (simp add: plenty_def)
  have "a" using all [of 0] by (simp add: a)
  moreover have "as ! i" if "i < k" for i using all [of "Suc i"] that by (simp add: a)
  ultimately show "fst (next_answer h)" "plenty k (snd (next_answer h))"
    using assms by (simp_all add: plenty_def a next_answer_def)
qed

lemma plenty_realloc:
  "plenty (Suc k) h \<Longrightarrow> \<exists>h'. realloc old n h = (Some (take n old @ fresh h (n - length old)), h') \<and> plenty k h'"
  using plenty_next [of k h] by (simp add: realloc_eq)

lemma plenty_malloc: "plenty (Suc k) h \<Longrightarrow> \<exists>h'. malloc n h = (Some (fresh h n), h') \<and> plenty k h'"
  using plenty_next [of k h] by (simp add: malloc_eq)

lemma plenty_mono: "plenty k h \<Longrightarrow> j \<le> k \<Longrightarrow> plenty j h"
  by (simp add: plenty_def)

end
