(* ===== verification/Exp_Buffer.thy ===== *)
theory Exp_Buffer
  imports C_Heap
begin

text \<open>
  \<open>pqexpbuffer.c\<close>: the extensible string buffer of libpq. A buffer whose allocation failed is
  broken: its data points to a static empty string (here \<open>None\<close>) and every operation but a reset
  does nothing. A null \<open>PQExpBuffer\<close> pointer is \<open>None\<close>. The outer option of a result is \<open>None\<close> when
  memory outside the buffer would be accessed.

  \<open>vsnprintf\<close> is a parameter: for a fixed format and arguments it maps the size it is given to what
  it returns, what it leaves in \<open>errno\<close> and which bytes it stores.
\<close>

section \<open>State\<close>

record PQExpBufferData =
  eb_data :: "byte list option"
  eb_len :: nat
  eb_maxlen :: nat

type_synonym PQExpBuffer = "PQExpBufferData option"

definition PQExpBufferBroken :: "PQExpBuffer \<Rightarrow> bool" where
  "PQExpBufferBroken str \<longleftrightarrow> (case str of None \<Rightarrow> True | Some b \<Rightarrow> eb_maxlen b = 0)"

definition PQExpBufferDataBroken :: "PQExpBufferData \<Rightarrow> bool" where
  "PQExpBufferDataBroken b \<longleftrightarrow> eb_maxlen b = 0"

definition INITIAL_EXPBUFFER_SIZE :: nat where "INITIAL_EXPBUFFER_SIZE = 256"

text \<open>A store at \<open>data + i\<close>; the static \<open>oom_buffer\<close> is read-only.\<close>

definition store :: "PQExpBufferData \<Rightarrow> nat \<Rightarrow> byte list \<Rightarrow> PQExpBufferData option" where
  "store b i bs = do {
     d \<leftarrow> eb_data b;
     d' \<leftarrow> blit d i bs;
     Some (b\<lparr>eb_data := Some d'\<rparr>) }"

section \<open>Operations\<close>

definition markPQExpBufferBroken :: "PQExpBufferData \<Rightarrow> PQExpBufferData" where
  "markPQExpBufferBroken b = b\<lparr>eb_data := None, eb_len := 0, eb_maxlen := 0\<rparr>"

definition initPQExpBuffer :: "heap \<Rightarrow> (PQExpBufferData \<times> heap) option" where
  "initPQExpBuffer h =
    (case malloc INITIAL_EXPBUFFER_SIZE h of
       (None, h') \<Rightarrow> Some (\<lparr>eb_data = None, eb_len = 0, eb_maxlen = 0\<rparr>, h')
     | (Some d, h') \<Rightarrow> do {
         b \<leftarrow> store \<lparr>eb_data = Some d, eb_len = 0, eb_maxlen = INITIAL_EXPBUFFER_SIZE\<rparr> 0 [0];
         Some (b, h') })"

text \<open>The struct itself is allocated first; its size is not used further.\<close>

definition createPQExpBuffer :: "heap \<Rightarrow> (PQExpBuffer \<times> heap) option" where
  "createPQExpBuffer h =
    (case malloc 12 h of
       (None, h') \<Rightarrow> Some (None, h')
     | (Some _, h') \<Rightarrow> do { (b, h'') \<leftarrow> initPQExpBuffer h'; Some (Some b, h'') })"

definition termPQExpBuffer :: "PQExpBufferData \<Rightarrow> PQExpBufferData" where
  "termPQExpBuffer b = b\<lparr>eb_data := None, eb_maxlen := 0, eb_len := 0\<rparr>"

text \<open>After \<open>destroyPQExpBuffer\<close> the struct is freed: nothing is left to point to.\<close>

definition destroyPQExpBuffer :: "PQExpBuffer \<Rightarrow> PQExpBuffer" where
  "destroyPQExpBuffer str = (case str of None \<Rightarrow> None | Some b \<Rightarrow> (let b' = termPQExpBuffer b in None))"

definition resetPQExpBuffer :: "PQExpBuffer \<Rightarrow> heap \<Rightarrow> (PQExpBuffer \<times> heap) option" where
  "resetPQExpBuffer str h =
    (case str of
       None \<Rightarrow> Some (None, h)
     | Some b \<Rightarrow>
         if eb_data b \<noteq> None then do {
           b' \<leftarrow> store (b\<lparr>eb_len := 0\<rparr>) 0 [0];
           Some (Some b', h) }
         else do {
           (b', h') \<leftarrow> initPQExpBuffer h;
           Some (Some b', h') })"

text \<open>The loop \<open>while (needed > newlen) newlen = 2 * newlen\<close>, in \<open>size_t\<close>.\<close>

partial_function (option) double_until :: "nat \<Rightarrow> nat \<Rightarrow> nat option" where
  "double_until needed newlen =
    (if needed > newlen then double_until needed (size_t (2 * newlen)) else Some newlen)"

definition enlargePQExpBuffer :: "PQExpBuffer \<Rightarrow> nat \<Rightarrow> heap \<Rightarrow> (bool \<times> PQExpBuffer \<times> heap) option" where
  "enlargePQExpBuffer str needed h =
    (if PQExpBufferBroken str then Some (False, str, h)
     else do {
       b \<leftarrow> str;
       if needed \<ge> size_sub INT_MAX (eb_len b) then Some (False, Some (markPQExpBufferBroken b), h)
       else do {
         let needed = size_t (needed + eb_len b + 1);
         if needed \<le> eb_maxlen b then Some (True, str, h)
         else do {
           newlen \<leftarrow> double_until needed (if eb_maxlen b > 0 then size_t (2 * eb_maxlen b) else 64);
           let newlen = (if newlen > INT_MAX then INT_MAX else newlen);
           d \<leftarrow> eb_data b;
           case realloc d newlen h of
             (Some d', h') \<Rightarrow> Some (True, Some (b\<lparr>eb_data := Some d', eb_maxlen := newlen\<rparr>), h')
           | (None, h') \<Rightarrow> Some (False, Some (markPQExpBufferBroken b), h') } } })"

text \<open>The errno of \<open>vsnprintf\<close>: 0, \<open>ENOMEM\<close>, or another code.\<close>

datatype errno = ENONE | ENOMEM | EOTHER

record vsn_result =
  nprinted :: int
  vsn_errno :: errno
  stored :: "byte list"

definition appendPQExpBufferVA ::
  "(nat \<Rightarrow> vsn_result) \<Rightarrow> PQExpBufferData \<Rightarrow> heap \<Rightarrow> (bool \<times> PQExpBufferData \<times> heap) option" where
  "appendPQExpBufferVA vsn b h =
    (let retry = (\<lambda>b needed. do {
           (ok, str, h') \<leftarrow> enlargePQExpBuffer (Some b) needed h;
           b' \<leftarrow> str;
           Some (\<not> ok, b', h') })
     in if eb_maxlen b > size_t (eb_len b + 16) then do {
          let avail = size_sub (size_sub (eb_maxlen b) (eb_len b)) 1;
          let r = vsn avail;
          let n = nprinted r;
          b \<leftarrow> (if length (stored r) \<le> avail then store b (eb_len b) (stored r) else None);
          if n < 0 \<and> vsn_errno r \<noteq> ENONE \<and> vsn_errno r \<noteq> ENOMEM
            then Some (True, markPQExpBufferBroken b, h)
          else if n \<ge> 0 \<and> nat n < size_sub avail 1
            then Some (True, b\<lparr>eb_len := size_t (eb_len b + nat n)\<rparr>, h)
          else if n \<ge> 0 \<and> nat n > avail then
            (if n > int INT_MAX - 2 then Some (True, markPQExpBufferBroken b, h)
             else retry b (nat n + 2))
          else if avail \<ge> INT_MAX div 2 then retry b INT_MAX
          else retry b (size_t (avail * 2)) }
        else retry b 32)"

text \<open>The loop \<open>do ... while (!done)\<close>.\<close>

partial_function (option) append_loop ::
  "(nat \<Rightarrow> vsn_result) \<Rightarrow> PQExpBufferData \<Rightarrow> heap \<Rightarrow> (PQExpBufferData \<times> heap) option" where
  "append_loop vsn b h = do {
     (finished, b', h') \<leftarrow> appendPQExpBufferVA vsn b h;
     if finished then Some (b', h') else append_loop vsn b' h' }"

definition appendPQExpBuffer ::
  "(nat \<Rightarrow> vsn_result) \<Rightarrow> PQExpBuffer \<Rightarrow> heap \<Rightarrow> (PQExpBuffer \<times> heap) option" where
  "appendPQExpBuffer vsn str h =
    (if PQExpBufferBroken str then Some (str, h)
     else do {
       b \<leftarrow> str;
       (b', h') \<leftarrow> append_loop vsn b h;
       Some (Some b', h') })"

definition printfPQExpBuffer ::
  "(nat \<Rightarrow> vsn_result) \<Rightarrow> PQExpBuffer \<Rightarrow> heap \<Rightarrow> (PQExpBuffer \<times> heap) option" where
  "printfPQExpBuffer vsn str h = do {
     (str, h) \<leftarrow> resetPQExpBuffer str h;
     if PQExpBufferBroken str then Some (str, h)
     else do {
       b \<leftarrow> str;
       (b', h') \<leftarrow> append_loop vsn b h;
       Some (Some b', h') } }"

definition appendBinaryPQExpBuffer ::
  "PQExpBuffer \<Rightarrow> byte list \<Rightarrow> heap \<Rightarrow> (PQExpBuffer \<times> heap) option" where
  "appendBinaryPQExpBuffer str bs h = do {
     (ok, str, h) \<leftarrow> enlargePQExpBuffer str (length bs) h;
     if \<not> ok then Some (str, h)
     else do {
       b \<leftarrow> str;
       b \<leftarrow> store b (eb_len b) bs;
       let b = b\<lparr>eb_len := size_t (eb_len b + length bs)\<rparr>;
       b \<leftarrow> store b (eb_len b) [0];
       Some (Some b, h) } }"

text \<open>\<open>strlen\<close> of a C string: the bytes up to the first NUL; without one it runs past the end.\<close>

fun strlen :: "byte list \<Rightarrow> nat option" where
  "strlen [] = None"
| "strlen (c # s) = (if c = 0 then Some 0 else map_option Suc (strlen s))"

definition appendPQExpBufferStr :: "PQExpBuffer \<Rightarrow> byte list \<Rightarrow> heap \<Rightarrow> (PQExpBuffer \<times> heap) option" where
  "appendPQExpBufferStr str cs h = do {
     n \<leftarrow> strlen cs;
     appendBinaryPQExpBuffer str (take n cs) h }"

definition appendPQExpBufferChar :: "PQExpBuffer \<Rightarrow> byte \<Rightarrow> heap \<Rightarrow> (PQExpBuffer \<times> heap) option" where
  "appendPQExpBufferChar str ch h = do {
     (ok, str, h) \<leftarrow> enlargePQExpBuffer str 1 h;
     if \<not> ok then Some (str, h)
     else do {
       b \<leftarrow> str;
       b \<leftarrow> store b (eb_len b) [ch];
       let b = b\<lparr>eb_len := size_t (eb_len b + 1)\<rparr>;
       b \<leftarrow> store b (eb_len b) [0];
       Some (Some b, h) } }"

section \<open>Invariant and contents\<close>

text \<open>
  The comment of \<open>pqexpbuffer.h\<close> made precise: a broken buffer has no data and no length; any other
  has a block of \<open>maxlen \<le> INT_MAX\<close> bytes, holds fewer than \<open>maxlen\<close> bytes of text and has a NUL
  behind them.
\<close>

definition eb_inv :: "PQExpBufferData \<Rightarrow> bool" where
  "eb_inv b \<longleftrightarrow> (case eb_data b of
     None \<Rightarrow> eb_len b = 0 \<and> eb_maxlen b = 0
   | Some d \<Rightarrow> length d = eb_maxlen b \<and> eb_len b < eb_maxlen b \<and> eb_maxlen b \<le> INT_MAX
       \<and> d ! eb_len b = 0)"

text \<open>The text the buffer stands for; \<open>None\<close> when it is broken.\<close>

definition eb_text :: "PQExpBufferData \<Rightarrow> byte list option" where
  "eb_text b = map_option (take (eb_len b)) (eb_data b)"

lemma broken_iff: "eb_inv b \<Longrightarrow> PQExpBufferBroken (Some b) \<longleftrightarrow> eb_text b = None"
  by (auto simp: eb_inv_def eb_text_def PQExpBufferBroken_def split: option.splits)

lemma markBroken [simp]: "eb_inv (markPQExpBufferBroken b)" "eb_text (markPQExpBufferBroken b) = None"
  by (simp_all add: markPQExpBufferBroken_def eb_inv_def eb_text_def)

lemma eb_inv_data:
  assumes "eb_inv b" "eb_text b = Some t"
  obtains d where "eb_data b = Some d" "length d = eb_maxlen b" "eb_len b < eb_maxlen b"
    "eb_maxlen b \<le> INT_MAX" "d ! eb_len b = 0" "t = take (eb_len b) d" "length t = eb_len b"
  using assms by (auto simp: eb_inv_def eb_text_def split: option.splits)

lemma double_until_result:
  assumes "needed \<le> INT_MAX" "0 < newlen" "newlen < 2 ^ 32"
  shows "\<exists>r. double_until needed newlen = Some r \<and> needed \<le> r \<and> newlen \<le> r \<and> r < 2 ^ 32"
  using assms
proof (induction "needed - newlen" arbitrary: newlen rule: less_induct)
  case less
  show ?case
  proof (cases "needed > newlen")
    case True
    have lt: "2 * newlen < 2 ^ 32" using True less.prems(1) by (simp add: INT_MAX_eq)
    then have e: "size_t (2 * newlen) = 2 * newlen" by (rule size_t_id)
    have "needed - 2 * newlen < needed - newlen" using True less.prems by linarith
    then have "\<exists>r. double_until needed (2 * newlen) = Some r \<and> needed \<le> r \<and> 2 * newlen \<le> r \<and> r < 2 ^ 32"
      using less lt by simp
    then obtain r where "double_until needed (2 * newlen) = Some r" "needed \<le> r" "2 * newlen \<le> r" "r < 2 ^ 32"
      by blast
    then show ?thesis using True by (subst double_until.simps) (auto simp: e)
  next
    case False
    then show ?thesis using less.prems by (subst double_until.simps) simp
  qed
qed

lemma enlarge_broken: "eb_inv b \<Longrightarrow> eb_text b = None \<Longrightarrow>
    enlargePQExpBuffer (Some b) n h = Some (False, Some b, h)"
  by (simp add: enlargePQExpBuffer_def broken_iff)

text \<open>
  The shape of a buffer that is not broken, without the terminator: while \<open>vsnprintf\<close> is retried
  the byte behind the text may be anything.
\<close>

definition eb_shape :: "PQExpBufferData \<Rightarrow> byte list \<Rightarrow> bool" where
  "eb_shape b d \<longleftrightarrow> eb_data b = Some d \<and> length d = eb_maxlen b \<and> eb_len b < eb_maxlen b
     \<and> eb_maxlen b \<le> INT_MAX"

lemma eb_inv_shape: "eb_inv b \<Longrightarrow> eb_text b = Some t \<Longrightarrow>
    \<exists>d. eb_shape b d \<and> t = take (eb_len b) d \<and> length t = eb_len b \<and> d ! eb_len b = 0"
  by (auto simp: eb_inv_def eb_text_def eb_shape_def split: option.splits)

lemma shape_inv: "eb_shape b d \<Longrightarrow> d ! eb_len b = 0 \<Longrightarrow> eb_inv b \<and> eb_text b = Some (take (eb_len b) d)"
  by (auto simp: eb_inv_def eb_text_def eb_shape_def)

text \<open>
  The heart of the component: after a successful call there is room for \<open>n\<close> more bytes and the
  NUL, and the block has only been extended; a failure breaks the buffer, and can only come from
  the size limit or from the allocator.
\<close>

lemma enlarge_shape:
  assumes sh: "eb_shape b d"
  shows "(\<exists>X h'. enlargePQExpBuffer (Some b) n h
        = Some (True, Some (b\<lparr>eb_data := Some (d @ X), eb_maxlen := eb_maxlen b + length X\<rparr>), h')
        \<and> eb_len b + n < eb_maxlen b + length X \<and> eb_maxlen b + length X \<le> INT_MAX
        \<and> (\<forall>k. plenty (Suc k) h \<longrightarrow> plenty k h')) \<or>
    (\<exists>h'. enlargePQExpBuffer (Some b) n h = Some (False, Some (markPQExpBufferBroken b), h')
        \<and> (\<forall>k. plenty (Suc k) h \<longrightarrow> INT_MAX \<le> eb_len b + n))"
proof -
  have d: "eb_data b = Some d" "length d = eb_maxlen b" "eb_len b < eb_maxlen b" "eb_maxlen b \<le> INT_MAX"
    using sh by (simp_all add: eb_shape_def)
  have nb: "\<not> PQExpBufferBroken (Some b)" using d(3) by (simp add: PQExpBufferBroken_def)
  have sub: "size_sub INT_MAX (eb_len b) = INT_MAX - eb_len b"
    using d by (intro size_sub_id) (simp_all add: INT_MAX_eq)
  show ?thesis
  proof (cases "INT_MAX - eb_len b \<le> n")
    case True
    then have "enlargePQExpBuffer (Some b) n h = Some (False, Some (markPQExpBufferBroken b), h)"
      using nb by (simp add: enlargePQExpBuffer_def sub)
    moreover have "INT_MAX \<le> eb_len b + n" using True by linarith
    ultimately show ?thesis by blast
  next
    case False
    define m where "m = n + eb_len b + 1"
    have m: "m \<le> INT_MAX" using False by (simp add: m_def)
    then have sm: "size_t (n + eb_len b + 1) = m" by (simp add: m_def sizes)
    show ?thesis
    proof (cases "m \<le> eb_maxlen b")
      case True
      then have "enlargePQExpBuffer (Some b) n h = Some (True, Some b, h)"
        using nb False by (simp add: enlargePQExpBuffer_def sub sm [simplified])
      then show ?thesis using True d plenty_mono [of _ h]
        by (intro disjI1 exI [of _ "[]"] exI [of _ h]) (simp add: m_def)
    next
      case grow: False
      have lt: "2 * eb_maxlen b < 2 ^ 32" using d(4) by (simp add: INT_MAX_eq)
      have s2: "(if eb_maxlen b > 0 then size_t (2 * eb_maxlen b) else 64) = 2 * eb_maxlen b"
        using d(3) size_t_id [OF lt] by simp
      obtain r where r: "double_until m (2 * eb_maxlen b) = Some r" "m \<le> r" "2 * eb_maxlen b \<le> r"
        using double_until_result [OF m, of "2 * eb_maxlen b"] lt d(3) by auto
      define l where "l = (if r > INT_MAX then INT_MAX else r)"
      have l: "m \<le> l" "l \<le> INT_MAX" using m r by (simp_all add: l_def)
      have e: "enlargePQExpBuffer (Some b) n h = (case realloc d l h of
             (Some d', h') \<Rightarrow> Some (True, Some (b\<lparr>eb_data := Some d', eb_maxlen := l\<rparr>), h')
           | (None, h') \<Rightarrow> Some (False, Some (markPQExpBufferBroken b), h'))"
        unfolding enlargePQExpBuffer_def l_def
        using nb False grow by (simp add: sub sm [simplified] s2 [simplified] r d(1) Let_def)
      have ld: "eb_maxlen b \<le> l" using grow l(1) by simp
      have room: "eb_len b + n < l" using l(1) by (simp add: m_def)
      show ?thesis
      proof (cases "fst (next_answer h)")
        case True
        have "realloc d l h = (Some (d @ fresh h (l - eb_maxlen b)), snd (next_answer h))"
          using True ld d(2) by (simp add: realloc_eq)
        then show ?thesis using e ld room l(2) plenty_next(2) [of _ h]
          by (intro disjI1 exI [of _ "fresh h (l - eb_maxlen b)"] exI [of _ "snd (next_answer h)"]) simp
      next
        case False
        then have "realloc d l h = (None, snd (next_answer h))" by (simp add: realloc_eq)
        then show ?thesis using e plenty_next(1) [of _ h] False by (intro disjI2) auto
      qed
    qed
  qed
qed

lemma enlarge_result:
  assumes inv: "eb_inv b" and t: "eb_text b = Some t"
  shows "(\<exists>b' h'. enlargePQExpBuffer (Some b) n h = Some (True, Some b', h') \<and> eb_inv b'
        \<and> eb_text b' = Some t \<and> eb_len b' = eb_len b \<and> eb_len b + n < eb_maxlen b'
        \<and> (\<forall>k. plenty (Suc k) h \<longrightarrow> plenty k h')) \<or>
    (\<exists>h'. enlargePQExpBuffer (Some b) n h = Some (False, Some (markPQExpBufferBroken b), h')
        \<and> (\<forall>k. plenty (Suc k) h \<longrightarrow> INT_MAX \<le> length t + n))"
proof -
  obtain d where d: "eb_shape b d" "t = take (eb_len b) d" "length t = eb_len b" "d ! eb_len b = 0"
    using eb_inv_shape [OF inv t] by blast
  have len: "eb_len b < length d" "length d = eb_maxlen b" using d(1) by (auto simp: eb_shape_def)
  have "eb_inv (b\<lparr>eb_data := Some (d @ X), eb_maxlen := eb_maxlen b + length X\<rparr>) \<and>
      eb_text (b\<lparr>eb_data := Some (d @ X), eb_maxlen := eb_maxlen b + length X\<rparr>) = Some t"
    if "eb_maxlen b + length X \<le> INT_MAX" for X
    using len d that by (simp add: eb_inv_def eb_text_def nth_append)
  then show ?thesis using enlarge_shape [OF d(1), of n h] unfolding d(3) by fastforce
qed

lemma store_at_len:
  assumes "eb_data b = Some d" "i + length bs \<le> length d"
  shows "store b i bs = Some (b\<lparr>eb_data := Some (take i d @ bs @ drop (i + length bs) d)\<rparr>)"
  using assms by (simp add: store_def blit_def)

text \<open>Storing text behind the current end, moving the end and terminating it.\<close>

lemma store_text:
  assumes "eb_inv b" "eb_text b = Some t" "eb_len b + length bs < eb_maxlen b"
  shows "\<exists>b'. do {
       b \<leftarrow> store b (eb_len b) bs;
       let b = b\<lparr>eb_len := size_t (eb_len b + length bs)\<rparr>;
       b \<leftarrow> store b (eb_len b) [0];
       Some (Some b, h) } = Some (Some b', h) \<and> eb_inv b' \<and> eb_text b' = Some (t @ bs)"
proof -
  from assms(1,2) obtain d where d: "eb_data b = Some d" "length d = eb_maxlen b" "eb_len b < eb_maxlen b"
    "eb_maxlen b \<le> INT_MAX" "d ! eb_len b = 0" "t = take (eb_len b) d" "length t = eb_len b"
    by (rule eb_inv_data)
  define n where "n = eb_len b + length bs"
  have n: "n < length d" "size_t n = n" using assms(3) d by (simp_all add: n_def sizes)
  define D where "D = t @ bs @ drop n d"
  have s1: "store b (eb_len b) bs = Some (b\<lparr>eb_data := Some D\<rparr>)"
    using store_at_len [OF d(1), of "eb_len b" bs] n(1) d(6) by (simp add: n_def D_def)
  have ld: "length D = length d" using d n(1) by (simp add: n_def D_def)
  have l: "length t + length bs = n" using d(7) by (simp add: n_def)
  have tk: "take n D = t @ bs" using l by (simp add: D_def)
  have s2: "store (b\<lparr>eb_data := Some D, eb_len := n\<rparr>) n [0]
      = Some (b\<lparr>eb_data := Some (t @ bs @ [0] @ drop (n + 1) D), eb_len := n\<rparr>)"
    using store_at_len [of "b\<lparr>eb_data := Some D, eb_len := n\<rparr>" D n "[0]"] ld n(1) tk by simp
  have "eb_inv (b\<lparr>eb_data := Some (t @ bs @ [0] @ drop (n + 1) D), eb_len := n\<rparr>)"
    using n(1) d(2,4) ld unfolding l [symmetric] by (simp add: eb_inv_def nth_append)
  moreover have "eb_text (b\<lparr>eb_data := Some (t @ bs @ [0] @ drop (n + 1) D), eb_len := n\<rparr>) = Some (t @ bs)"
    using l by (simp add: eb_text_def)
  ultimately show ?thesis using s1 s2 n(2) by (simp add: n_def [symmetric])
qed

section \<open>Appending\<close>

lemma append_char_binary: "appendPQExpBufferChar str ch h = appendBinaryPQExpBuffer str [ch] h"
  unfolding appendPQExpBufferChar_def appendBinaryPQExpBuffer_def
  by (intro Option.bind_cong) (auto split: prod.splits)

lemma append_binary_result:
  assumes inv: "eb_inv b"
  shows "\<exists>b' h'. appendBinaryPQExpBuffer (Some b) bs h = Some (Some b', h') \<and> eb_inv b' \<and>
    (eb_text b' = None \<or> eb_text b' = map_option (\<lambda>t. t @ bs) (eb_text b)) \<and>
    (\<forall>t k. eb_text b = Some t \<and> length t + length bs < INT_MAX \<and> plenty (Suc k) h
       \<longrightarrow> eb_text b' = Some (t @ bs) \<and> plenty k h')"
proof (cases "eb_text b")
  case None
  then have "appendBinaryPQExpBuffer (Some b) bs h = Some (Some b, h)"
    by (simp add: appendBinaryPQExpBuffer_def enlarge_broken [OF inv])
  then show ?thesis using inv None by auto
next
  case (Some t)
  from enlarge_result [OF inv Some, of "length bs" h] show ?thesis
  proof (elim disjE exE conjE)
    fix h' assume e: "enlargePQExpBuffer (Some b) (length bs) h = Some (False, Some (markPQExpBufferBroken b), h')"
      "\<forall>k. plenty (Suc k) h \<longrightarrow> INT_MAX \<le> length t + length bs"
    then have "appendBinaryPQExpBuffer (Some b) bs h = Some (Some (markPQExpBufferBroken b), h')"
      by (simp add: appendBinaryPQExpBuffer_def)
    then show ?thesis using Some e(2) by fastforce
  next
    fix b1 h1 assume b1: "enlargePQExpBuffer (Some b) (length bs) h = Some (True, Some b1, h1)" "eb_inv b1"
        "eb_text b1 = Some t" "eb_len b1 = eb_len b" "eb_len b + length bs < eb_maxlen b1"
      and pl: "\<forall>k. plenty (Suc k) h \<longrightarrow> plenty k h1"
    obtain b2 where b2: "do {
       b \<leftarrow> store b1 (eb_len b1) bs;
       let b = b\<lparr>eb_len := size_t (eb_len b + length bs)\<rparr>;
       b \<leftarrow> store b (eb_len b) [0];
       Some (Some b, h1) } = Some (Some b2, h1)" "eb_inv b2" "eb_text b2 = Some (t @ bs)"
      using store_text [OF b1(2,3), of bs h1] b1(4,5) by auto
    have "appendBinaryPQExpBuffer (Some b) bs h = Some (Some b2, h1)"
      using b2(1) by (simp add: appendBinaryPQExpBuffer_def b1(1) Let_def)
    then show ?thesis using b2 Some pl by auto
  qed
qed

section \<open>The buffer as a sink for text\<close>

text \<open>
  What the rest of the library uses of an append operation: it never fails to return, keeps the
  invariant, and either appends exactly the given bytes or leaves the buffer broken, for ever; with
  memory and below the size limit it appends.
\<close>

fun append_all :: "('a \<Rightarrow> 'b \<Rightarrow> heap \<Rightarrow> ('b \<times> heap) option) \<Rightarrow> 'a list \<Rightarrow> 'b \<Rightarrow> heap \<Rightarrow> ('b \<times> heap) option" where
  "append_all app [] b h = Some (b, h)"
| "append_all app (x # xs) b h = do { (b, h) \<leftarrow> app x b h; append_all app xs b h }"

locale text_sink =
  fixes inv :: "'b \<Rightarrow> bool" and txt_of :: "'b \<Rightarrow> byte list option"
    and app :: "'a \<Rightarrow> 'b \<Rightarrow> heap \<Rightarrow> ('b \<times> heap) option"
    and bytes_of :: "'a \<Rightarrow> byte list" and good :: "'a \<Rightarrow> bool"
  assumes app_result: "inv b \<Longrightarrow> good x \<Longrightarrow>
      \<exists>b' h'. app x b h = Some (b', h') \<and> inv b' \<and>
        (txt_of b' = None \<or> txt_of b' = map_option (\<lambda>t. t @ bytes_of x) (txt_of b)) \<and>
        (\<forall>t k. txt_of b = Some t \<and> length t + length (bytes_of x) < INT_MAX \<and> plenty (Suc k) h
          \<longrightarrow> txt_of b' = Some (t @ bytes_of x) \<and> plenty k h')"
begin

lemma append_all_result:
  assumes "inv b" "list_all good xs"
  shows "\<exists>b' h'. append_all app xs b h = Some (b', h') \<and> inv b' \<and>
    (txt_of b' = None \<or> txt_of b' = map_option (\<lambda>t. t @ concat (map bytes_of xs)) (txt_of b)) \<and>
    (\<forall>t. txt_of b = Some t \<and> length t + length (concat (map bytes_of xs)) < INT_MAX \<and> plenty (length xs) h
      \<longrightarrow> txt_of b' = Some (t @ concat (map bytes_of xs)))"
  using assms
proof (induction xs arbitrary: b h)
  case Nil
  then show ?case by (cases "txt_of b") auto
next
  case (Cons x xs)
  obtain b1 h1 where b1: "app x b h = Some (b1, h1)" "inv b1"
    "txt_of b1 = None \<or> txt_of b1 = map_option (\<lambda>t. t @ bytes_of x) (txt_of b)"
    and room: "\<And>t k. txt_of b = Some t \<Longrightarrow> length t + length (bytes_of x) < INT_MAX \<Longrightarrow> plenty (Suc k) h
          \<Longrightarrow> txt_of b1 = Some (t @ bytes_of x) \<and> plenty k h1"
    using app_result [OF Cons.prems(1), of x h] Cons.prems(2) by auto
  obtain b2 h2 where b2: "append_all app xs b1 h1 = Some (b2, h2)" "inv b2"
    "txt_of b2 = None \<or> txt_of b2 = map_option (\<lambda>t. t @ concat (map bytes_of xs)) (txt_of b1)"
    "\<And>t. txt_of b1 = Some t \<Longrightarrow> length t + length (concat (map bytes_of xs)) < INT_MAX \<Longrightarrow> plenty (length xs) h1
      \<Longrightarrow> txt_of b2 = Some (t @ concat (map bytes_of xs))"
    using Cons.IH [OF b1(2), of h1] Cons.prems(2) by auto
  have "txt_of b2 = Some (t @ concat (map bytes_of (x # xs)))"
    if t: "txt_of b = Some t" "length t + length (concat (map bytes_of (x # xs))) < INT_MAX"
      "plenty (length (x # xs)) h" for t
    using room [OF t(1), of "length xs"] b2(4) [of "t @ bytes_of x"] t(2,3) by simp
  moreover have "txt_of b2 = None \<or> txt_of b2 = map_option (\<lambda>t. t @ concat (map bytes_of (x # xs))) (txt_of b)"
    using b1(3) b2(3) by (cases "txt_of b") auto
  ultimately show ?case using b1(1) b2(1,2) by auto
qed

end

text \<open>The three append operations on a buffer that is not a null pointer.\<close>

definition on_buffer :: "(PQExpBuffer \<Rightarrow> 'a \<Rightarrow> heap \<Rightarrow> (PQExpBuffer \<times> heap) option) \<Rightarrow>
    'a \<Rightarrow> PQExpBufferData \<Rightarrow> heap \<Rightarrow> (PQExpBufferData \<times> heap) option" where
  "on_buffer f x b h = (case f (Some b) x h of Some (Some b', h') \<Rightarrow> Some (b', h') | _ \<Rightarrow> None)"

interpretation binary: text_sink eb_inv eb_text "on_buffer appendBinaryPQExpBuffer" "\<lambda>bs. bs" "\<lambda>bs. True"
proof
  fix b :: PQExpBufferData and x :: "byte list" and h
  assume "eb_inv b"
  from append_binary_result [OF this, of x h]
  show "\<exists>b' h'. on_buffer appendBinaryPQExpBuffer x b h = Some (b', h') \<and> eb_inv b' \<and>
        (eb_text b' = None \<or> eb_text b' = map_option (\<lambda>t. t @ x) (eb_text b)) \<and>
        (\<forall>t k. eb_text b = Some t \<and> length t + length x < INT_MAX \<and> plenty (Suc k) h
          \<longrightarrow> eb_text b' = Some (t @ x) \<and> plenty k h')"
    unfolding on_buffer_def by (elim exE conjE) simp
qed

interpretation char: text_sink eb_inv eb_text "on_buffer appendPQExpBufferChar" "\<lambda>c. [c]" "\<lambda>c. True"
proof
  fix b :: PQExpBufferData and x :: byte and h
  assume "eb_inv b"
  from binary.app_result [OF this, of "[x]" h]
  show "\<exists>b' h'. on_buffer appendPQExpBufferChar x b h = Some (b', h') \<and> eb_inv b' \<and>
        (eb_text b' = None \<or> eb_text b' = map_option (\<lambda>t. t @ [x]) (eb_text b)) \<and>
        (\<forall>t k. eb_text b = Some t \<and> length t + length [x] < INT_MAX \<and> plenty (Suc k) h
          \<longrightarrow> eb_text b' = Some (t @ [x]) \<and> plenty k h')"
    by (simp add: append_char_binary on_buffer_def)
qed

lemma strlen_result:
  "strlen str = Some n \<Longrightarrow> n < length str \<and> str ! n = 0 \<and> (\<forall>i < n. str ! i \<noteq> 0)"
proof (induction str arbitrary: n)
  case (Cons c s)
  show ?case
  proof (cases "c = 0")
    case False
    then obtain m where m: "strlen s = Some m" "n = Suc m" using Cons.prems by auto
    have "(c # s) ! i \<noteq> 0" if "i < n" for i using Cons.IH [OF m(1)] False m(2) that by (cases i) auto
    then show ?thesis using Cons.IH [OF m(1)] m(2) by simp
  qed (use Cons.prems in simp)
qed simp

lemma strlen_append: "0 \<notin> set s \<Longrightarrow> strlen (s @ 0 # r) = Some (length s)"
  by (induction s) auto

text \<open>A C string: it has a NUL, and stands for the bytes before it.\<close>

definition c_string :: "byte list \<Rightarrow> byte list" where
  "c_string cs = takeWhile (\<lambda>c. c \<noteq> 0) cs"

lemma strlen_c_string: "0 \<in> set cs \<Longrightarrow> strlen cs = Some (length (c_string cs)) \<and> take (length (c_string cs)) cs = c_string cs"
  by (induction cs) (auto simp: c_string_def)

interpretation str: text_sink eb_inv eb_text "on_buffer appendPQExpBufferStr" c_string "\<lambda>cs. 0 \<in> set cs"
proof
  fix b :: PQExpBufferData and x :: "byte list" and h
  assume "eb_inv b" "0 \<in> set x"
  from binary.app_result [OF this(1), of "c_string x" h] strlen_c_string [OF this(2)]
  show "\<exists>b' h'. on_buffer appendPQExpBufferStr x b h = Some (b', h') \<and> eb_inv b' \<and>
        (eb_text b' = None \<or> eb_text b' = map_option (\<lambda>t. t @ c_string x) (eb_text b)) \<and>
        (\<forall>t k. eb_text b = Some t \<and> length t + length (c_string x) < INT_MAX \<and> plenty (Suc k) h
          \<longrightarrow> eb_text b' = Some (t @ c_string x) \<and> plenty k h')"
    by (simp add: appendPQExpBufferStr_def on_buffer_def)
qed

section \<open>Formatted output\<close>

text \<open>
  What is asked of \<open>vsnprintf\<close>. \<open>vsn_safe\<close>: it stores no more bytes than it is told it may.
  \<open>vsn_formats vsn txt\<close>: when its result is below the size less one, it has stored \<open>txt\<close> and a
  NUL and returns the length; when \<open>txt\<close> fits with two bytes to spare, it does that; it claims
  more than the size only if the text is that long, and it fails with a negative number only for
  lack of room. The C99 function, the older ones that return -1 or the number of bytes stored,
  and mixtures of them all meet this.
\<close>

definition vsn_safe :: "(nat \<Rightarrow> vsn_result) \<Rightarrow> bool" where
  "vsn_safe vsn \<longleftrightarrow> (\<forall>k. length (stored (vsn k)) \<le> k)"

definition vsn_formats :: "(nat \<Rightarrow> vsn_result) \<Rightarrow> byte list \<Rightarrow> bool" where
  "vsn_formats vsn txt \<longleftrightarrow> vsn_safe vsn \<and>
     (\<forall>k. let n = nprinted (vsn k) in
        (0 \<le> n \<and> nat n + 1 < k \<longrightarrow> stored (vsn k) = txt @ [0] \<and> nat n = length txt) \<and>
        (length txt + 1 < k \<longrightarrow> n = int (length txt)) \<and>
        (n > int k \<longrightarrow> n \<le> int (length txt)) \<and>
        (n < 0 \<longrightarrow> vsn_errno (vsn k) \<noteq> EOTHER))"

definition broken_buffer :: PQExpBufferData where
  "broken_buffer = \<lparr>eb_data = None, eb_len = 0, eb_maxlen = 0\<rparr>"

lemma markBroken_eq: "markPQExpBufferBroken b = broken_buffer"
  by (cases b) (simp add: markPQExpBufferBroken_def broken_buffer_def)

lemma broken_buffer_simps [simp]: "eb_inv broken_buffer" "eb_text broken_buffer = None"
  by (simp_all add: broken_buffer_def eb_inv_def eb_text_def)

text \<open>A retry: the buffer grows and keeps its text, or breaks.\<close>

lemma retry_result:
  assumes sh: "eb_shape b d" and more: "eb_maxlen b \<le> eb_len b + n"
  shows "(\<exists>X h'. enlargePQExpBuffer (Some b) n h
        = Some (True, Some (b\<lparr>eb_data := Some (d @ X), eb_maxlen := eb_maxlen b + length X\<rparr>), h')
        \<and> eb_shape (b\<lparr>eb_data := Some (d @ X), eb_maxlen := eb_maxlen b + length X\<rparr>) (d @ X)
        \<and> X \<noteq> [] \<and> (\<forall>k. plenty (Suc k) h \<longrightarrow> plenty k h')) \<or>
    (\<exists>h'. enlargePQExpBuffer (Some b) n h = Some (False, Some broken_buffer, h')
        \<and> (\<forall>k. plenty (Suc k) h \<longrightarrow> INT_MAX \<le> eb_len b + n))"
  using enlarge_shape [OF sh, of n h] more sh unfolding markBroken_eq
  by (elim disjE exE conjE) (auto simp: eb_shape_def)

text \<open>
  One call of \<open>appendPQExpBufferVA\<close>: finished with a broken buffer, finished with the bytes that
  \<open>vsnprintf\<close> stored, or to be retried with a larger block and the same text. \<open>needed\<close> is what
  it asks for in the last case.
\<close>

lemma appendVA_result:
  assumes sh: "eb_shape b d" and safe: "vsn_safe vsn"
  defines "avail \<equiv> eb_maxlen b - eb_len b - 1"
  defines "r \<equiv> vsn avail"
  defines "d' \<equiv> take (eb_len b) d @ stored r @ drop (eb_len b + length (stored r)) d"
  defines "small \<equiv> eb_maxlen b \<le> eb_len b + 16"
  shows "appendPQExpBufferVA vsn b h = (
    if small then do {
        (ok, str, h') \<leftarrow> enlargePQExpBuffer (Some b) 32 h; b' \<leftarrow> str; Some (\<not> ok, b', h') }
    else if nprinted r < 0 \<and> vsn_errno r = EOTHER then Some (True, broken_buffer, h)
    else if 0 \<le> nprinted r \<and> nat (nprinted r) + 1 < avail
      then Some (True, b\<lparr>eb_data := Some d', eb_len := eb_len b + nat (nprinted r)\<rparr>, h)
    else if nprinted r > int INT_MAX - 2 \<and> nat (nprinted r) > avail then Some (True, broken_buffer, h)
    else do {
        (ok, str, h') \<leftarrow> enlargePQExpBuffer (Some (b\<lparr>eb_data := Some d'\<rparr>))
          (if nprinted r \<ge> 0 \<and> nat (nprinted r) > avail then nat (nprinted r) + 2
           else if avail \<ge> INT_MAX div 2 then INT_MAX else avail * 2) h;
        b' \<leftarrow> str; Some (\<not> ok, b', h') })
    \<and> (\<not> small \<longrightarrow> eb_shape (b\<lparr>eb_data := Some d'\<rparr>) d' \<and> take (eb_len b) d' = take (eb_len b) d)"
proof -
  have d: "eb_data b = Some d" "length d = eb_maxlen b" "eb_len b < eb_maxlen b" "eb_maxlen b \<le> INT_MAX"
    using sh by (simp_all add: eb_shape_def)
  have sz: "size_t (eb_len b + 16) = eb_len b + 16" using d by (simp add: sizes)
  have av: "size_sub (size_sub (eb_maxlen b) (eb_len b)) 1 = avail"
    using d by (simp add: sizes avail_def)
  have st: "length (stored r) \<le> avail" using safe by (simp add: r_def vsn_safe_def)
  have ld: "length d' = eb_maxlen b" "take (eb_len b) d' = take (eb_len b) d"
    using st d by (simp_all add: d'_def avail_def)
  have sto: "store b (eb_len b) (stored r) = Some (b\<lparr>eb_data := Some d'\<rparr>)"
    using store_at_len [OF d(1), of "eb_len b" "stored r"] st d by (simp add: d'_def avail_def)
  have shape: "eb_shape (b\<lparr>eb_data := Some d'\<rparr>) d'" using d ld by (simp add: eb_shape_def)
  show ?thesis
  proof (cases small)
    case True
    then have "\<not> eb_maxlen b > size_t (eb_len b + 16)" by (simp add: sz small_def)
    then show ?thesis using True by (simp add: appendPQExpBufferVA_def)
  next
    case False
    have big: "eb_maxlen b > size_t (eb_len b + 16)" using False by (simp add: sz small_def)
    have a1: "size_sub avail 1 = avail - 1" "16 \<le> avail" using False d
      by (simp_all add: sizes small_def avail_def)
    have a2: "size_t (avail * 2) = avail * 2" if "avail < INT_MAX div 2"
      using that by (intro size_t_id) (simp add: INT_MAX_eq)
    have a3: "size_t (eb_len b + nat (nprinted r)) = eb_len b + nat (nprinted r)"
      if "nat (nprinted r) + 1 < avail" using that d by (intro size_t_id) (simp add: avail_def INT_MAX_eq)
    have eo: "(nprinted r < 0 \<and> vsn_errno r \<noteq> ENONE \<and> vsn_errno r \<noteq> ENOMEM)
        = (nprinted r < 0 \<and> vsn_errno r = EOTHER)"
      by (cases "vsn_errno r") simp_all
    have lt: "(nprinted r \<ge> 0 \<and> nat (nprinted r) < avail - 1) = (0 \<le> nprinted r \<and> nat (nprinted r) + 1 < avail)"
      by (simp only: less_diff_conv)
    define R where "R needed = do {
           (ok, str, h') \<leftarrow> enlargePQExpBuffer (Some (b\<lparr>eb_data := Some d'\<rparr>)) needed h;
           b' \<leftarrow> str;
           Some (\<not> ok, b', h') }" for needed
    have "appendPQExpBufferVA vsn b h = (
        if nprinted r < 0 \<and> vsn_errno r = EOTHER then Some (True, broken_buffer, h)
        else if 0 \<le> nprinted r \<and> nat (nprinted r) + 1 < avail
          then Some (True, b\<lparr>eb_data := Some d', eb_len := size_t (eb_len b + nat (nprinted r))\<rparr>, h)
        else if nprinted r \<ge> 0 \<and> nat (nprinted r) > avail then
          (if nprinted r > int INT_MAX - 2 then Some (True, broken_buffer, h) else R (nat (nprinted r) + 2))
        else if avail \<ge> INT_MAX div 2 then R INT_MAX
        else R (size_t (avail * 2)))"
      unfolding appendPQExpBufferVA_def Let_def av r_def [symmetric] R_def if_P [OF big] if_P [OF st] sto
        bind.bind_lunit eo a1(1) lt markBroken_eq
      by simp
    also have "\<dots> = (
        if nprinted r < 0 \<and> vsn_errno r = EOTHER then Some (True, broken_buffer, h)
        else if 0 \<le> nprinted r \<and> nat (nprinted r) + 1 < avail
          then Some (True, b\<lparr>eb_data := Some d', eb_len := eb_len b + nat (nprinted r)\<rparr>, h)
        else if nprinted r > int INT_MAX - 2 \<and> nat (nprinted r) > avail then Some (True, broken_buffer, h)
        else R (if nprinted r \<ge> 0 \<and> nat (nprinted r) > avail then nat (nprinted r) + 2
           else if avail \<ge> INT_MAX div 2 then INT_MAX else avail * 2))"
      using a2 a3 by (auto simp: not_le)
    finally show ?thesis using False shape ld unfolding R_def by simp
  qed
qed

lemma retry_step:
  assumes sh: "eb_shape b d" and more: "eb_maxlen b \<le> eb_len b + n"
    and va: "VA = do { (ok, str, h') \<leftarrow> enlargePQExpBuffer (Some b) n h; b' \<leftarrow> str; Some (\<not> ok, b', h') }"
  shows "(\<exists>h'. VA = Some (True, broken_buffer, h') \<and> (\<forall>k. plenty (Suc k) h \<longrightarrow> INT_MAX \<le> eb_len b + n)) \<or>
    (\<exists>b' d' h'. VA = Some (False, b', h') \<and> eb_shape b' d' \<and> take (eb_len b) d' = take (eb_len b) d
       \<and> eb_len b' = eb_len b \<and> eb_maxlen b < eb_maxlen b' \<and> (\<forall>k. plenty (Suc k) h \<longrightarrow> plenty k h'))"
  using retry_result [OF sh more, of h]
proof (elim disjE exE conjE)
  fix X h' assume *: "enlargePQExpBuffer (Some b) n h
        = Some (True, Some (b\<lparr>eb_data := Some (d @ X), eb_maxlen := eb_maxlen b + length X\<rparr>), h')"
    "eb_shape (b\<lparr>eb_data := Some (d @ X), eb_maxlen := eb_maxlen b + length X\<rparr>) (d @ X)"
    "X \<noteq> []" "\<forall>k. plenty (Suc k) h \<longrightarrow> plenty k h'"
  moreover have "eb_len b \<le> length d" using sh by (simp add: eb_shape_def)
  ultimately show ?thesis unfolding va
    by (intro disjI2 exI [of _ "b\<lparr>eb_data := Some (d @ X), eb_maxlen := eb_maxlen b + length X\<rparr>"]
        exI [of _ "d @ X"] exI [of _ h']) simp
qed (auto simp: va)

definition append_step_ok :: "(nat \<Rightarrow> vsn_result) \<Rightarrow> byte list \<Rightarrow> PQExpBufferData \<Rightarrow> byte list \<Rightarrow> heap
    \<Rightarrow> (bool \<times> PQExpBufferData \<times> heap) option \<Rightarrow> bool" where
  "append_step_ok vsn txt b d h VA \<longleftrightarrow>
     (\<exists>h'. VA = Some (True, broken_buffer, h')
        \<and> (vsn_formats vsn txt \<and> eb_len b + 2 * length txt + 34 < INT_MAX \<longrightarrow> (\<forall>k. \<not> plenty (Suc k) h)))
   \<or> (\<exists>b'. VA = Some (True, b', h)
        \<and> (vsn_formats vsn txt \<longrightarrow> eb_inv b' \<and> eb_text b' = Some (take (eb_len b) d @ txt)))
   \<or> (\<exists>b' d' h'. VA = Some (False, b', h') \<and> eb_shape b' d' \<and> take (eb_len b) d' = take (eb_len b) d
        \<and> eb_len b' = eb_len b \<and> eb_maxlen b < eb_maxlen b' \<and> (\<forall>k. plenty (Suc k) h \<longrightarrow> plenty k h')
        \<and> (vsn_formats vsn txt \<longrightarrow> eb_maxlen b \<le> eb_len b + length txt + 17))"

lemma append_step_okI:
  assumes "eb_shape b d1" "take (eb_len b) d1 = take (eb_len b) d" "eb_maxlen b \<le> eb_len b + n"
    and "VA = do { (ok, str, h') \<leftarrow> enlargePQExpBuffer (Some b) n h; b' \<leftarrow> str; Some (\<not> ok, b', h') }"
    and "vsn_formats vsn txt \<Longrightarrow> eb_maxlen b \<le> eb_len b + length txt + 17"
    and "vsn_formats vsn txt \<Longrightarrow> eb_len b + 2 * length txt + 34 < INT_MAX \<Longrightarrow> eb_len b + n < INT_MAX"
  shows "append_step_ok vsn txt b d h VA"
  using retry_step [OF assms(1,3,4)]
proof (elim disjE exE conjE)
  fix h' assume *: "VA = Some (True, broken_buffer, h')" "\<forall>k. plenty (Suc k) h \<longrightarrow> INT_MAX \<le> eb_len b + n"
  have "\<forall>k. \<not> plenty (Suc k) h" if "vsn_formats vsn txt" "eb_len b + 2 * length txt + 34 < INT_MAX"
    using *(2) assms(6) [OF that] not_le by blast
  then show ?thesis using *(1) unfolding append_step_ok_def by blast
next
  fix b' d' h' assume *: "VA = Some (False, b', h')" "eb_shape b' d'" "take (eb_len b) d' = take (eb_len b) d1"
    "eb_len b' = eb_len b" "eb_maxlen b < eb_maxlen b'" "\<forall>k. plenty (Suc k) h \<longrightarrow> plenty k h'"
  show ?thesis using * assms(5) unfolding append_step_ok_def assms(2) by blast
qed

lemma append_step_cong:
  "eb_len b1 = eb_len b \<Longrightarrow> eb_maxlen b1 = eb_maxlen b \<Longrightarrow>
    append_step_ok vsn txt b1 d h VA = append_step_ok vsn txt b d h VA"
  by (simp add: append_step_ok_def)

lemma append_step:
  assumes sh: "eb_shape b d" and safe: "vsn_safe vsn"
  shows "append_step_ok vsn txt b d h (appendPQExpBufferVA vsn b h)"
proof -
  define avail where "avail = eb_maxlen b - eb_len b - 1"
  define r where "r = vsn avail"
  define d' where "d' = take (eb_len b) d @ stored r @ drop (eb_len b + length (stored r)) d"
  note va = appendVA_result [OF sh safe, of h, folded avail_def, folded r_def, folded d'_def]
  have b: "eb_len b < eb_maxlen b" "length d = eb_maxlen b" "eb_maxlen b \<le> INT_MAX"
    using sh by (simp_all add: eb_shape_def)
  show ?thesis
  proof (cases "eb_maxlen b \<le> eb_len b + 16")
    case True
    then have e: "appendPQExpBufferVA vsn b h = do {
        (ok, str, h') \<leftarrow> enlargePQExpBuffer (Some b) 32 h; b' \<leftarrow> str; Some (\<not> ok, b', h') }"
      using va by simp
    show ?thesis by (rule append_step_okI [OF sh refl _ e]) (use True in simp_all)
  next
    case big: False
    then have a: "16 \<le> avail" "eb_maxlen b = eb_len b + avail + 1" using b by (simp_all add: avail_def)
    have sh': "eb_shape (b\<lparr>eb_data := Some d'\<rparr>) d'" "take (eb_len b) d' = take (eb_len b) d"
      using va big by auto
    have fmt: "0 \<le> nprinted r \<Longrightarrow> nat (nprinted r) + 1 < avail \<Longrightarrow> stored r = txt @ [0] \<and> nat (nprinted r) = length txt"
      "length txt + 1 < avail \<Longrightarrow> nprinted r = int (length txt)"
      "nprinted r > int avail \<Longrightarrow> nprinted r \<le> int (length txt)"
      "nprinted r < 0 \<Longrightarrow> vsn_errno r \<noteq> EOTHER" if "vsn_formats vsn txt"
      using that unfolding vsn_formats_def r_def Let_def by blast+
    consider (hard) "nprinted r < 0" "vsn_errno r = EOTHER"
      | (fin) "0 \<le> nprinted r" "nat (nprinted r) + 1 < avail"
      | (over) "nprinted r > int INT_MAX - 2" "nat (nprinted r) > avail"
      | (again) "\<not> (nprinted r < 0 \<and> vsn_errno r = EOTHER)"
        "\<not> (0 \<le> nprinted r \<and> nat (nprinted r) + 1 < avail)"
        "\<not> (nprinted r > int INT_MAX - 2 \<and> nat (nprinted r) > avail)" by blast
    then show ?thesis
    proof cases
      case hard
      then have "appendPQExpBufferVA vsn b h = Some (True, broken_buffer, h)" using va big by simp
      then show ?thesis using fmt(4) hard unfolding append_step_ok_def by blast
    next
      case fin
      then have e: "appendPQExpBufferVA vsn b h
          = Some (True, b\<lparr>eb_data := Some d', eb_len := eb_len b + nat (nprinted r)\<rparr>, h)"
        using va big by simp
      have "eb_inv (b\<lparr>eb_data := Some d', eb_len := eb_len b + nat (nprinted r)\<rparr>) \<and>
        eb_text (b\<lparr>eb_data := Some d', eb_len := eb_len b + nat (nprinted r)\<rparr>) = Some (take (eb_len b) d @ txt)"
        if f: "vsn_formats vsn txt"
      proof -
        have st: "stored r = txt @ [0]" "nat (nprinted r) = length txt" using fmt(1) [OF f fin] by auto
        have l: "length (take (eb_len b) d) = eb_len b" using b by simp
        have "length d' = eb_maxlen b" using sh' by (simp add: eb_shape_def)
        moreover have "d' ! (eb_len b + length txt) = 0"
          using nth_append_length [of "take (eb_len b) d @ txt" 0] l by (simp add: d'_def st)
        moreover have "take (eb_len b + length txt) d' = take (eb_len b) d @ txt"
          using l by (simp add: d'_def st)
        moreover have "eb_len b + length txt < eb_maxlen b" using fin st a by simp
        ultimately show ?thesis using b st by (simp add: eb_inv_def eb_text_def)
      qed
      then show ?thesis using e unfolding append_step_ok_def by blast
    next
      case over
      then have "\<not> (nprinted r < 0 \<and> vsn_errno r = EOTHER)" "\<not> nat (nprinted r) + 1 < avail"
        by (auto simp: INT_MAX_eq)
      then have "appendPQExpBufferVA vsn b h = Some (True, broken_buffer, h)" using va big over by simp
      moreover have "\<not> (eb_len b + 2 * length txt + 34 < INT_MAX)" if "vsn_formats vsn txt"
      proof -
        have "nprinted r > int avail" using over(2) by linarith
        then show ?thesis using fmt(3) [OF that] over(1) by (simp add: INT_MAX_eq)
      qed
      ultimately show ?thesis unfolding append_step_ok_def by blast
    next
      case again
      define n where "n = (if nprinted r \<ge> 0 \<and> nat (nprinted r) > avail then nat (nprinted r) + 2
           else if avail \<ge> INT_MAX div 2 then INT_MAX else avail * 2)"
      have e: "appendPQExpBufferVA vsn b h = do {
        (ok, str, h') \<leftarrow> enlargePQExpBuffer (Some (b\<lparr>eb_data := Some d'\<rparr>)) n h; b' \<leftarrow> str; Some (\<not> ok, b', h') }"
        using va unfolding if_not_P [OF big] if_not_P [OF again(1)] if_not_P [OF again(2)]
          if_not_P [OF again(3)] n_def by (rule conjunct1)
      have lo: "avail \<le> length txt + 1" if "vsn_formats vsn txt"
      proof (rule ccontr)
        assume "\<not> avail \<le> length txt + 1"
        then have "nprinted r = int (length txt)" using fmt(2) [OF that] by simp
        then show False using again(2) \<open>\<not> avail \<le> length txt + 1\<close> by simp
      qed
      have nb: "eb_len b + n < INT_MAX" if "vsn_formats vsn txt" "eb_len b + 2 * length txt + 34 < INT_MAX"
      proof (cases "nprinted r \<ge> 0 \<and> nat (nprinted r) > avail")
        case True
        then have "nprinted r > int avail" by linarith
        then have "nat (nprinted r) \<le> length txt" using fmt(3) [OF that(1)] by linarith
        then show ?thesis using True that(2) by (simp add: n_def)
      next
        case False
        have "\<not> INT_MAX div 2 \<le> avail" using lo [OF that(1)] that(2) by (simp add: INT_MAX_eq)
        then have "n = avail * 2" unfolding n_def if_not_P [OF False] by simp
        then show ?thesis using lo [OF that(1)] that(2) by linarith
      qed
      have na: "avail + 1 \<le> n"
      proof (cases "nprinted r \<ge> 0 \<and> nat (nprinted r) > avail")
        case True
        then show ?thesis unfolding n_def if_P [OF True] by linarith
      next
        case False
        then show ?thesis unfolding n_def if_not_P [OF False] using a b by (simp add: INT_MAX_eq)
      qed
      have "append_step_ok vsn txt (b\<lparr>eb_data := Some d'\<rparr>) d h (appendPQExpBufferVA vsn b h)"
      proof (rule append_step_okI [OF sh'(1) _ _ e])
        show "take (eb_len (b\<lparr>eb_data := Some d'\<rparr>)) d' = take (eb_len (b\<lparr>eb_data := Some d'\<rparr>)) d"
          using sh'(2) by simp
        show "eb_maxlen (b\<lparr>eb_data := Some d'\<rparr>) \<le> eb_len (b\<lparr>eb_data := Some d'\<rparr>) + n"
          using a(2) na by simp
        show "eb_maxlen (b\<lparr>eb_data := Some d'\<rparr>) \<le> eb_len (b\<lparr>eb_data := Some d'\<rparr>) + length txt + 17"
          if "vsn_formats vsn txt" using lo [OF that] a(2) by simp
        show "eb_len (b\<lparr>eb_data := Some d'\<rparr>) + n < INT_MAX"
          if "vsn_formats vsn txt" "eb_len (b\<lparr>eb_data := Some d'\<rparr>) + 2 * length txt + 34 < INT_MAX"
          using nb that by simp
      qed
      moreover have "eb_len (b\<lparr>eb_data := Some d'\<rparr>) = eb_len b" "eb_maxlen (b\<lparr>eb_data := Some d'\<rparr>) = eb_maxlen b"
        by simp_all
      ultimately show ?thesis using append_step_cong by blast
    qed
  qed
qed


text \<open>
  The retry loop ends, since every retry has a larger block and blocks are bounded by \<open>INT_MAX\<close>.
\<close>

lemma append_loop_result:
  assumes safe: "vsn_safe vsn" and sh: "eb_shape b d"
  shows "\<exists>b' h'. append_loop vsn b h = Some (b', h') \<and> (vsn_formats vsn txt \<longrightarrow>
    eb_inv b' \<and> (eb_text b' = None \<or> eb_text b' = Some (take (eb_len b) d @ txt)) \<and>
    (\<forall>k. eb_len b + 2 * length txt + 34 < INT_MAX \<and> plenty (Suc (eb_len b + length txt + 18 - eb_maxlen b) + k) h
       \<longrightarrow> eb_text b' = Some (take (eb_len b) d @ txt) \<and> plenty k h'))"
  using sh
proof (induction "INT_MAX - eb_maxlen b" arbitrary: b d h rule: less_induct)
  case less
  have loop: "append_loop vsn b h = do {
     (finished, b', h') \<leftarrow> appendPQExpBufferVA vsn b h;
     if finished then Some (b', h') else append_loop vsn b' h' }"
    by (rule append_loop.simps)
  consider (failed) h' where "appendPQExpBufferVA vsn b h = Some (True, broken_buffer, h')"
      "vsn_formats vsn txt \<Longrightarrow> eb_len b + 2 * length txt + 34 < INT_MAX \<Longrightarrow> \<forall>k. \<not> plenty (Suc k) h"
    | (finished) b' where "appendPQExpBufferVA vsn b h = Some (True, b', h)"
      "vsn_formats vsn txt \<Longrightarrow> eb_inv b' \<and> eb_text b' = Some (take (eb_len b) d @ txt)"
    | (again) b' d' h' where "appendPQExpBufferVA vsn b h = Some (False, b', h')" "eb_shape b' d'"
      "take (eb_len b) d' = take (eb_len b) d" "eb_len b' = eb_len b" "eb_maxlen b < eb_maxlen b'"
      "\<forall>k. plenty (Suc k) h \<longrightarrow> plenty k h'"
      "vsn_formats vsn txt \<Longrightarrow> eb_maxlen b \<le> eb_len b + length txt + 17"
    using append_step [OF less.prems safe, of "txt" h] unfolding append_step_ok_def by blast
  then show ?case
  proof cases
    case failed
    then show ?thesis by (auto simp: loop)
  next
    case finished
    have "plenty k h" if "plenty (Suc (eb_len b + length txt + 18 - eb_maxlen b) + k) h" for k
      by (rule plenty_mono [OF that]) simp
    then show ?thesis using finished by (auto simp: loop)
  next
    case again
    have "eb_maxlen b' \<le> INT_MAX" using again(2) by (simp add: eb_shape_def)
    then have "INT_MAX - eb_maxlen b' < INT_MAX - eb_maxlen b" using again(5) by linarith
    from less.hyps [OF this again(2), of h'] obtain b2 h2 where b2: "append_loop vsn b' h' = Some (b2, h2)"
      "vsn_formats vsn txt \<Longrightarrow> eb_inv b2 \<and> (eb_text b2 = None \<or> eb_text b2 = Some (take (eb_len b) d @ txt))"
      and ok: "\<And>k. vsn_formats vsn txt \<Longrightarrow> eb_len b + 2 * length txt + 34 < INT_MAX \<Longrightarrow>
         plenty (Suc (eb_len b + length txt + 18 - eb_maxlen b') + k) h'
         \<Longrightarrow> eb_text b2 = Some (take (eb_len b) d @ txt) \<and> plenty k h2"
      unfolding again(3,4) by blast
    have "plenty (Suc (eb_len b + length txt + 18 - eb_maxlen b') + k) h'"
      if "vsn_formats vsn txt" "plenty (Suc (eb_len b + length txt + 18 - eb_maxlen b) + k) h" for k
    proof -
      have "plenty (eb_len b + length txt + 18 - eb_maxlen b + k) h'" using that(2) again(6) by simp
      then show ?thesis by (rule plenty_mono) (use again(5) again(7) [OF that(1)] in linarith)
    qed
    then have "\<forall>k. eb_len b + 2 * length txt + 34 < INT_MAX \<and>
        plenty (Suc (eb_len b + length txt + 18 - eb_maxlen b) + k) h
        \<longrightarrow> eb_text b2 = Some (take (eb_len b) d @ txt) \<and> plenty k h2" if "vsn_formats vsn txt"
      using ok that by blast
    moreover have "append_loop vsn b h = Some (b2, h2)" using again(1) b2(1) by (simp add: loop)
    ultimately show ?thesis using b2(2) by blast
  qed
qed

lemma appendPQExpBuffer_result:
  assumes inv: "eb_inv b" and fmt: "vsn_formats vsn txt"
  shows "\<exists>b' h'. appendPQExpBuffer vsn (Some b) h = Some (Some b', h') \<and> eb_inv b' \<and>
    (eb_text b' = None \<or> eb_text b' = map_option (\<lambda>t. t @ txt) (eb_text b)) \<and>
    (\<forall>t k. eb_text b = Some t \<and> length t + 2 * length txt + 34 < INT_MAX \<and> plenty (length txt + 19 + k) h
       \<longrightarrow> eb_text b' = Some (t @ txt) \<and> plenty k h')"
proof (cases "eb_text b")
  case None
  then show ?thesis using inv by (simp add: appendPQExpBuffer_def broken_iff)
next
  case (Some t)
  obtain d where d: "eb_shape b d" "t = take (eb_len b) d" "length t = eb_len b"
    using eb_inv_shape [OF inv Some] by blast
  have safe: "vsn_safe vsn" using fmt by (simp add: vsn_formats_def)
  obtain b' h' where b': "append_loop vsn b h = Some (b', h')" "eb_inv b'"
    "eb_text b' = None \<or> eb_text b' = Some (t @ txt)"
    and ok: "\<And>k. eb_len b + 2 * length txt + 34 < INT_MAX \<Longrightarrow>
       plenty (Suc (eb_len b + length txt + 18 - eb_maxlen b) + k) h \<Longrightarrow> eb_text b' = Some (t @ txt) \<and> plenty k h'"
    using append_loop_result [OF safe d(1), of h "txt"] fmt unfolding d(2) by blast
  have lt: "eb_len b < eb_maxlen b" using d(1) by (simp add: eb_shape_def)
  have "eb_text b' = Some (t @ txt) \<and> plenty k h'"
    if "length t + 2 * length txt + 34 < INT_MAX" "plenty (length txt + 19 + k) h" for k
  proof (rule ok)
    show "eb_len b + 2 * length txt + 34 < INT_MAX" using that(1) d(3) by simp
    show "plenty (Suc (eb_len b + length txt + 18 - eb_maxlen b) + k) h"
      by (rule plenty_mono [OF that(2)]) (use lt in linarith)
  qed
  moreover have "appendPQExpBuffer vsn (Some b) h = Some (Some b', h')"
    using inv Some b'(1) by (simp add: appendPQExpBuffer_def broken_iff)
  ultimately show ?thesis using b' Some by auto
qed

section \<open>Initialising and resetting\<close>

lemma store_first:
  assumes "length d = n" "0 < n" "n \<le> INT_MAX"
  shows "\<exists>b. store \<lparr>eb_data = Some d, eb_len = 0, eb_maxlen = n\<rparr> 0 [0] = Some b \<and> eb_inv b \<and> eb_text b = Some []"
  using store_at_len [of "\<lparr>eb_data = Some d, eb_len = 0, eb_maxlen = n\<rparr>" d 0 "[0]"] assms
  by (simp add: eb_inv_def eb_text_def)

lemma init_result:
  "\<exists>b h'. initPQExpBuffer h = Some (b, h') \<and> eb_inv b \<and> (eb_text b = None \<or> eb_text b = Some []) \<and>
     (\<forall>k. plenty (Suc k) h \<longrightarrow> eb_text b = Some [] \<and> plenty k h')"
proof (cases "fst (next_answer h)")
  case True
  obtain b where "store \<lparr>eb_data = Some (fresh h INITIAL_EXPBUFFER_SIZE), eb_len = 0,
      eb_maxlen = INITIAL_EXPBUFFER_SIZE\<rparr> 0 [0] = Some b" "eb_inv b" "eb_text b = Some []"
    using store_first [of "fresh h INITIAL_EXPBUFFER_SIZE" INITIAL_EXPBUFFER_SIZE]
    by (auto simp: INITIAL_EXPBUFFER_SIZE_def INT_MAX_eq)
  then show ?thesis using True plenty_next(2) [of _ h]
    by (simp add: initPQExpBuffer_def malloc_eq)
next
  case False
  then show ?thesis using plenty_next(1) [of _ h]
    by (auto simp: initPQExpBuffer_def malloc_eq eb_inv_def eb_text_def)
qed

lemma reset_result:
  assumes inv: "eb_inv b"
  shows "\<exists>b' h'. resetPQExpBuffer (Some b) h = Some (Some b', h') \<and> eb_inv b' \<and>
    (eb_text b' = None \<or> eb_text b' = Some []) \<and> (eb_text b \<noteq> None \<longrightarrow> eb_text b' = Some [] \<and> h' = h) \<and>
    (\<forall>k. plenty (Suc k) h \<longrightarrow> eb_text b' = Some [] \<and> plenty k h')"
proof (cases "eb_text b")
  case None
  then have "eb_data b = None" by (simp add: eb_text_def)
  then have "resetPQExpBuffer (Some b) h = do { (b', h') \<leftarrow> initPQExpBuffer h; Some (Some b', h') }"
    by (simp add: resetPQExpBuffer_def)
  then show ?thesis using init_result [of h] None by auto
next
  case (Some t)
  from inv Some obtain d where d: "eb_data b = Some d" "length d = eb_maxlen b" "eb_len b < eb_maxlen b"
    "eb_maxlen b \<le> INT_MAX" by (rule eb_inv_data)
  have e: "b\<lparr>eb_len := 0\<rparr> = \<lparr>eb_data = Some d, eb_len = 0, eb_maxlen = eb_maxlen b\<rparr>"
    using d(1) by (cases b) simp
  obtain b' where "store (b\<lparr>eb_len := 0\<rparr>) 0 [0] = Some b'" "eb_inv b'" "eb_text b' = Some []"
    using store_first [OF d(2)] d(3,4) unfolding e by auto
  then have "resetPQExpBuffer (Some b) h = Some (Some b', h) \<and> eb_inv b' \<and> eb_text b' = Some []"
    using d(1) by (simp add: resetPQExpBuffer_def)
  then show ?thesis using plenty_mono [of _ h] by auto
qed


section \<open>Sequences of operations\<close>

text \<open>
  Any sequence of operations on one buffer, and what it is meant to do to the text. A formatted
  append carries the text that the format stands for.
\<close>

datatype buffer_op =
    Reset
  | Binary "byte list"
  | Char byte
  | Str "byte list"
  | Format "nat \<Rightarrow> vsn_result" "byte list"
  | Printf "nat \<Rightarrow> vsn_result" "byte list"

fun exec_op :: "buffer_op \<Rightarrow> PQExpBuffer \<Rightarrow> heap \<Rightarrow> (PQExpBuffer \<times> heap) option" where
  "exec_op Reset b h = resetPQExpBuffer b h"
| "exec_op (Binary bs) b h = appendBinaryPQExpBuffer b bs h"
| "exec_op (Char c) b h = appendPQExpBufferChar b c h"
| "exec_op (Str cs) b h = appendPQExpBufferStr b cs h"
| "exec_op (Format vsn _) b h = appendPQExpBuffer vsn b h"
| "exec_op (Printf vsn _) b h = printfPQExpBuffer vsn b h"

fun exec_ops :: "buffer_op list \<Rightarrow> PQExpBuffer \<Rightarrow> heap \<Rightarrow> (PQExpBuffer \<times> heap) option" where
  "exec_ops [] b h = Some (b, h)"
| "exec_ops (x # xs) b h = do { (b, h) \<leftarrow> exec_op x b h; exec_ops xs b h }"

text \<open>The specification: the text, or \<open>None\<close> once the buffer is broken.\<close>

fun spec_op :: "buffer_op \<Rightarrow> byte list option \<Rightarrow> byte list option" where
  "spec_op Reset t = Some []"
| "spec_op (Binary bs) t = map_option (\<lambda>t. t @ bs) t"
| "spec_op (Char c) t = map_option (\<lambda>t. t @ [c]) t"
| "spec_op (Str cs) t = map_option (\<lambda>t. t @ c_string cs) t"
| "spec_op (Format _ x) t = map_option (\<lambda>t. t @ x) t"
| "spec_op (Printf _ x) t = Some x"

fun good_op :: "buffer_op \<Rightarrow> bool" where
  "good_op (Str cs) = (0 \<in> set cs)"
| "good_op (Format vsn x) = vsn_formats vsn x"
| "good_op (Printf vsn x) = vsn_formats vsn x"
| "good_op _ = True"

text \<open>Bounds on the room and on the allocations an operation asks for.\<close>

fun op_room :: "buffer_op \<Rightarrow> nat" where
  "op_room Reset = 0"
| "op_room (Binary bs) = length bs"
| "op_room (Char c) = 1"
| "op_room (Str cs) = length cs"
| "op_room (Format _ x) = 2 * length x + 34"
| "op_room (Printf _ x) = 2 * length x + 34"

fun op_allocs :: "buffer_op \<Rightarrow> nat" where
  "op_allocs (Format _ x) = length x + 19"
| "op_allocs (Printf _ x) = length x + 20"
| "op_allocs _ = 1"

definition op_result :: "buffer_op \<Rightarrow> PQExpBufferData \<Rightarrow> heap \<Rightarrow> (PQExpBuffer \<times> heap) option \<Rightarrow> bool" where
  "op_result x b h R \<longleftrightarrow> (\<exists>b' h'. R = Some (Some b', h') \<and> eb_inv b' \<and>
    (eb_text b' = None \<or> eb_text b' = spec_op x (eb_text b)) \<and>
    (\<forall>t k. eb_text b = Some t \<and> length t + op_room x < INT_MAX \<and> plenty (op_allocs x + k) h
       \<longrightarrow> eb_text b' = spec_op x (Some t) \<and> plenty k h'))"

lemma c_string_length: "length (c_string cs) \<le> length cs"
  by (simp add: c_string_def length_takeWhile_le)

lemma on_buffer_Some: "on_buffer f x b h = Some (b', h') \<longleftrightarrow> f (Some b) x h = Some (Some b', h')"
  by (auto simp: on_buffer_def split: option.splits)

lemma sink_op:
  assumes "\<exists>b' h'. on_buffer f x b h = Some (b', h') \<and> eb_inv b' \<and>
        (eb_text b' = None \<or> eb_text b' = map_option (\<lambda>t. t @ bs) (eb_text b)) \<and>
        (\<forall>t k. eb_text b = Some t \<and> length t + length bs < INT_MAX \<and> plenty (Suc k) h
          \<longrightarrow> eb_text b' = Some (t @ bs) \<and> plenty k h')"
    and "\<And>t. spec_op y t = map_option (\<lambda>t. t @ bs) t" "length bs \<le> op_room y" "op_allocs y = 1"
  shows "op_result y b h (f (Some b) x h)"
  using assms(1)
proof (elim exE conjE)
  fix b' h' assume r: "on_buffer f x b h = Some (b', h')" "eb_inv b'"
    "eb_text b' = None \<or> eb_text b' = map_option (\<lambda>t. t @ bs) (eb_text b)"
    "\<forall>t k. eb_text b = Some t \<and> length t + length bs < INT_MAX \<and> plenty (Suc k) h
          \<longrightarrow> eb_text b' = Some (t @ bs) \<and> plenty k h'"
  have "eb_text b' = spec_op y (Some t) \<and> plenty k h'"
    if "eb_text b = Some t" "length t + op_room y < INT_MAX" "plenty (op_allocs y + k) h" for t k
  proof -
    have "length t + length bs < INT_MAX" using that(2) assms(3) by linarith
    then show ?thesis using r(4) that(1,3) by (simp add: assms(2,4))
  qed
  then show ?thesis using r(1,2,3) unfolding op_result_def on_buffer_Some assms(2) by blast
qed

lemma printf_result:
  assumes inv: "eb_inv b" and fmt: "vsn_formats vsn x"
  shows "op_result (Printf vsn x) b h (printfPQExpBuffer vsn (Some b) h)"
proof -
  obtain b1 h1 where b1: "resetPQExpBuffer (Some b) h = Some (Some b1, h1)" "eb_inv b1"
    "eb_text b1 = None \<or> eb_text b1 = Some []" and ok1: "\<And>k. plenty (Suc k) h \<Longrightarrow> eb_text b1 = Some [] \<and> plenty k h1"
    using reset_result [OF inv, of h] by blast
  obtain b2 h2 where b2: "appendPQExpBuffer vsn (Some b1) h1 = Some (Some b2, h2)" "eb_inv b2"
    "eb_text b2 = None \<or> eb_text b2 = map_option (\<lambda>t. t @ x) (eb_text b1)"
    and ok2: "\<And>t k. eb_text b1 = Some t \<Longrightarrow> length t + 2 * length x + 34 < INT_MAX \<Longrightarrow>
      plenty (length x + 19 + k) h1 \<Longrightarrow> eb_text b2 = Some (t @ x) \<and> plenty k h2"
    using appendPQExpBuffer_result [OF b1(2) fmt, of h1] by blast
  have "printfPQExpBuffer vsn (Some b) h = appendPQExpBuffer vsn (Some b1) h1"
    by (simp add: printfPQExpBuffer_def b1(1) appendPQExpBuffer_def)
  moreover have "eb_text b2 = None \<or> eb_text b2 = Some x" using b1(3) b2(3) by auto
  moreover have "eb_text b2 = Some x \<and> plenty k h2"
    if "length t + (2 * length x + 34) < INT_MAX" "plenty (length x + 20 + k) h" for t :: "byte list" and k
  proof -
    have "Suc (length x + 19 + k) = length x + 20 + k" by simp
    then have "eb_text b1 = Some [] \<and> plenty (length x + 19 + k) h1" using ok1 that(2) by metis
    then show ?thesis using ok2 [of "[]" k] that(1) by simp
  qed
  ultimately show ?thesis using b2(1,2) unfolding op_result_def by auto
qed

lemma exec_op_result:
  assumes inv: "eb_inv b" and good: "good_op x"
  shows "op_result x b h (exec_op x (Some b) h)"
proof (cases x)
  case Reset
  then show ?thesis using reset_result [OF inv, of h] unfolding op_result_def by auto
next
  case (Binary bs)
  show ?thesis unfolding Binary exec_op.simps
    by (rule sink_op [OF binary.app_result [OF inv]]) simp_all
next
  case (Char c)
  show ?thesis unfolding Char exec_op.simps
    by (rule sink_op [OF char.app_result [OF inv]]) simp_all
next
  case (Str cs)
  then have "0 \<in> set cs" using good by simp
  then show ?thesis unfolding Str exec_op.simps
    by (intro sink_op [OF str.app_result [OF inv]]) (simp_all add: c_string_length)
next
  case (Format vsn y)
  then have f: "vsn_formats vsn y" using good by simp
  show ?thesis unfolding Format exec_op.simps op_result_def
    using appendPQExpBuffer_result [OF inv f, of h] by (auto simp: algebra_simps)
next
  case (Printf vsn y)
  then show ?thesis using printf_result [OF inv, of vsn y h] good by simp
qed


text \<open>
  A broken buffer stays broken until a reset, so the text either is what the specification says
  or is gone.
\<close>

lemma spec_None: "fold spec_op xs None = None \<or> fold spec_op xs None = fold spec_op xs t"
proof (induction xs arbitrary: t)
  case (Cons x xs)
  show ?case using Cons.IH [of "spec_op x t"] by (cases x) auto
qed simp

lemma exec_ops_result:
  assumes "eb_inv b" "list_all good_op xs"
  shows "\<exists>b' h'. exec_ops xs (Some b) h = Some (Some b', h') \<and> eb_inv b' \<and>
    (eb_text b' = None \<or> eb_text b' = fold spec_op xs (eb_text b)) \<and>
    (\<forall>t. eb_text b = Some t \<and> length t + sum_list (map op_room xs) < INT_MAX \<and> plenty (sum_list (map op_allocs xs)) h
       \<longrightarrow> eb_text b' = fold spec_op xs (Some t))"
  using assms
proof (induction xs arbitrary: b h)
  case (Cons x xs)
  obtain b1 h1 where b1: "exec_op x (Some b) h = Some (Some b1, h1)" "eb_inv b1"
    "eb_text b1 = None \<or> eb_text b1 = spec_op x (eb_text b)"
    and ok1: "\<And>t k. eb_text b = Some t \<Longrightarrow> length t + op_room x < INT_MAX \<Longrightarrow> plenty (op_allocs x + k) h
       \<Longrightarrow> eb_text b1 = spec_op x (Some t) \<and> plenty k h1"
    using exec_op_result [OF Cons.prems(1), of x h] Cons.prems(2) unfolding op_result_def by auto
  obtain b2 h2 where b2: "exec_ops xs (Some b1) h1 = Some (Some b2, h2)" "eb_inv b2"
    "eb_text b2 = None \<or> eb_text b2 = fold spec_op xs (eb_text b1)"
    and ok2: "\<And>t. eb_text b1 = Some t \<Longrightarrow> length t + sum_list (map op_room xs) < INT_MAX \<Longrightarrow>
       plenty (sum_list (map op_allocs xs)) h1 \<Longrightarrow> eb_text b2 = fold spec_op xs (Some t)"
    using Cons.IH [OF b1(2), of h1] Cons.prems(2) by auto
  have len: "spec_op x (Some t) = Some u \<Longrightarrow> length u \<le> length t + op_room x" for t u
    using c_string_length by (cases x) auto
  have "eb_text b2 = None \<or> eb_text b2 = fold spec_op (x # xs) (eb_text b)"
    using b1(3) b2(3) spec_None [of xs "spec_op x (eb_text b)"] by auto
  moreover have "eb_text b2 = fold spec_op (x # xs) (Some t)"
    if t: "eb_text b = Some t" "length t + sum_list (map op_room (x # xs)) < INT_MAX"
      "plenty (sum_list (map op_allocs (x # xs))) h" for t
  proof -
    obtain u where u: "spec_op x (Some t) = Some u" by (cases x) auto
    have b: "eb_text b1 = Some u \<and> plenty (sum_list (map op_allocs xs)) h1"
      using ok1 [OF t(1)] t(2,3) u by simp
    then show ?thesis using ok2 [of u] len [OF u] t(2) u by simp
  qed
  ultimately show ?case using b1(1) b2(1,2) by auto
qed simp

section \<open>Properties\<close>

text \<open>
  C26: A buffer that is not broken comes back from \<open>enlargePQExpBuffer\<close> either with the same text,
  the invariant and room for \<open>n\<close> more bytes and the NUL, or broken; with memory and below
  \<open>INT_MAX\<close> it is the former.
\<close>

theorem enlargePQExpBuffer_room:
  assumes "eb_inv b" "eb_text b = Some t"
  shows "(\<exists>b' h'. enlargePQExpBuffer (Some b) n h = Some (True, Some b', h') \<and> eb_inv b' \<and> eb_text b' = Some t
        \<and> length t + n < eb_maxlen b') \<or>
    (\<exists>b' h'. enlargePQExpBuffer (Some b) n h = Some (False, Some b', h') \<and> eb_inv b' \<and> PQExpBufferBroken (Some b')
        \<and> (INT_MAX \<le> length t + n \<or> \<not> plenty 1 h))"
proof -
  have l: "length t = eb_len b" using eb_inv_data [OF assms] by metis
  have "PQExpBufferBroken (Some (markPQExpBufferBroken b))" by (simp add: broken_iff)
  then show ?thesis using enlarge_result [OF assms, of n h] unfolding l by (metis One_nat_def markBroken(1))
qed

definition two_bytes :: PQExpBufferData where
  "two_bytes = \<lparr>eb_data = Some [65, 66, 0, 7], eb_len = 2, eb_maxlen = 4\<rparr>"

lemma two_bytes: "eb_inv two_bytes" "eb_text two_bytes = Some [65, 66]"
  by (simp_all add: two_bytes_def eb_inv_def eb_text_def INT_MAX_def)

theorem enlargePQExpBuffer_room_witness:
  "\<exists>b' h'. enlargePQExpBuffer (Some two_bytes) 10 \<lparr>answers = [True], junk = \<lambda>i. 3\<rparr> = Some (True, Some b', h')
     \<and> eb_inv b' \<and> eb_text b' = Some [65, 66] \<and> 12 < eb_maxlen b'"
proof -
  have "plenty 1 \<lparr>answers = [True], junk = \<lambda>i. 3\<rparr>" by (simp add: plenty_def)
  then show ?thesis
    using enlargePQExpBuffer_room [OF two_bytes, of 10 "\<lparr>answers = [True], junk = \<lambda>i. 3\<rparr>"]
    by (auto simp: INT_MAX_def)
qed

text \<open>
  C11: Every sequence of resets and of binary, character, string and formatted appends returns,
  keeps the invariant of the buffer, and leaves it broken or with exactly the text of the
  specification; when the allocator has memory for all of it and the sizes stay below \<open>INT_MAX\<close>,
  it is the text.
\<close>

theorem exec_ops_refine:
  assumes "eb_inv b" "list_all good_op xs"
  shows "\<exists>b' h'. exec_ops xs (Some b) h = Some (Some b', h') \<and> eb_inv b' \<and>
    (eb_text b' = None \<or> eb_text b' = fold spec_op xs (eb_text b)) \<and>
    (\<forall>t. eb_text b = Some t \<and> length t + sum_list (map op_room xs) < INT_MAX \<and> plenty (sum_list (map op_allocs xs)) h
       \<longrightarrow> eb_text b' = fold spec_op xs (Some t))"
  by (rule exec_ops_result [OF assms])

text \<open>The \<open>vsnprintf\<close> of C99, for a format that stands for \<open>x\<close>.\<close>

definition c99_vsnprintf :: "byte list \<Rightarrow> nat \<Rightarrow> vsn_result" where
  "c99_vsnprintf x k = \<lparr>nprinted = int (length x), vsn_errno = ENONE,
     stored = (if k = 0 then [] else take (k - 1) x @ [0])\<rparr>"

lemma c99_formats: "vsn_formats (c99_vsnprintf x) x"
  by (auto simp: vsn_formats_def vsn_safe_def c99_vsnprintf_def Let_def)

theorem exec_ops_refine_witness:
  "\<exists>b' h'. exec_ops [Str [67, 0], Char 68, Format (c99_vsnprintf [69, 70]) [69, 70]] (Some two_bytes)
     \<lparr>answers = replicate 23 True, junk = \<lambda>i. 3\<rparr> = Some (Some b', h') \<and> eb_text b' = Some [65, 66, 67, 68, 69, 70]"
proof -
  let ?xs = "[Str [67, 0], Char 68, Format (c99_vsnprintf [69, 70]) [69, 70]]"
  let ?h = "\<lparr>answers = replicate 23 True, junk = \<lambda>i. 3\<rparr>"
  have "list_all good_op ?xs" by (simp add: c99_formats)
  moreover have "plenty (sum_list (map op_allocs ?xs)) ?h" by (simp add: plenty_def)
  moreover have "fold spec_op ?xs (Some [65, 66]) = Some [65, 66, 67, 68, 69, 70]" by (simp add: c_string_def)
  moreover have "length [65, 66 :: byte] + sum_list (map op_room ?xs) < INT_MAX" by (simp add: INT_MAX_def)
  ultimately show ?thesis using exec_ops_refine [OF two_bytes(1), of ?xs ?h] two_bytes(2) by fastforce
qed

text \<open>
  C27: The retry loop of a formatted append ends for every \<open>vsnprintf\<close> that stays inside the room
  it is given, whatever it returns and whatever the allocator answers.
\<close>

theorem appendPQExpBuffer_terminates:
  assumes "vsn_safe vsn" "eb_inv b"
  shows "\<exists>b' h'. appendPQExpBuffer vsn (Some b) h = Some (Some b', h')"
proof (cases "eb_text b")
  case None
  then show ?thesis using assms(2) by (simp add: appendPQExpBuffer_def broken_iff)
next
  case (Some t)
  then obtain d where d: "eb_shape b d" using eb_inv_shape [OF assms(2)] by blast
  obtain b' h' where "append_loop vsn b h = Some (b', h')"
    using append_loop_result [OF assms(1) d] by blast
  then show ?thesis using assms(2) Some by (simp add: appendPQExpBuffer_def broken_iff)
qed

text \<open>A \<open>vsnprintf\<close> that always answers -1.\<close>

theorem appendPQExpBuffer_terminates_witness:
  "\<exists>b' h'. appendPQExpBuffer (\<lambda>k. \<lparr>nprinted = -1, vsn_errno = ENONE, stored = replicate k 1\<rparr>) (Some two_bytes)
     \<lparr>answers = replicate 40 True, junk = \<lambda>i. 3\<rparr> = Some (Some b', h')"
  by (rule appendPQExpBuffer_terminates) (simp_all add: vsn_safe_def two_bytes)

text \<open>
  C28: A reset repairs a broken buffer when there is memory, and empties one that is not broken
  without asking for any.
\<close>

theorem resetPQExpBuffer_repairs:
  assumes "eb_inv b"
  shows "\<exists>b' h'. resetPQExpBuffer (Some b) h = Some (Some b', h') \<and> eb_inv b' \<and>
    (plenty 1 h \<or> \<not> PQExpBufferBroken (Some b) \<longrightarrow> eb_text b' = Some []) \<and>
    (\<not> PQExpBufferBroken (Some b) \<longrightarrow> h' = h)"
  using reset_result [OF assms, of h] unfolding broken_iff [OF assms] One_nat_def by blast

theorem resetPQExpBuffer_repairs_witness:
  "\<exists>b' h'. resetPQExpBuffer (Some broken_buffer) \<lparr>answers = [True], junk = \<lambda>i. 3\<rparr> = Some (Some b', h')
     \<and> eb_text b' = Some []"
proof -
  have "plenty 1 \<lparr>answers = [True], junk = \<lambda>i. 3\<rparr>" by (simp add: plenty_def)
  then show ?thesis using resetPQExpBuffer_repairs [of broken_buffer "\<lparr>answers = [True], junk = \<lambda>i. 3\<rparr>"] by auto
qed

end
