(* ===== verification/PG_Conn.thy ===== *)
theory PG_Conn
  imports Exp_Buffer
begin

text \<open>
  The connection object of \<open>libpq-int.h\<close>, with the fields that the modelled functions use, and the
  reports that the functions leave in its error message.

  Offsets into the buffers are C \<open>int\<close>s that are never negative and are natural numbers here,
  except \<open>outMsgStart\<close>, which is -1 for a message without a length word.
\<close>

datatype ConnStatusType =
    CONNECTION_OK
  | CONNECTION_BAD
  | CONNECTION_STARTED
  | CONNECTION_MADE
  | CONNECTION_AWAITING_RESPONSE
  | CONNECTION_AUTH_OK
  | CONNECTION_SETENV
  | CONNECTION_SSL_STARTUP
  | CONNECTION_NEEDED

record PGconn =
  status :: ConnStatusType
  nonblocking :: bool
  sock :: int
  pversion :: nat
  sversion :: int
  client_encoding :: int
  std_strings :: bool
  inBuffer :: "byte list"
  inBufSize :: nat
  inStart :: nat
  inCursor :: nat
  inEnd :: nat
  outBuffer :: "byte list"
  outBufSize :: nat
  outCount :: nat
  outMsgStart :: int
  outMsgEnd :: nat
  errorMessage :: PQExpBufferData

definition PGINVALID_SOCKET :: int where "PGINVALID_SOCKET = -1"

definition PG_PROTOCOL_MAJOR :: "nat \<Rightarrow> nat" where
  "PG_PROTOCOL_MAJOR v = v div 2 ^ 16"

definition PG_PROTOCOL_MINOR :: "nat \<Rightarrow> nat" where
  "PG_PROTOCOL_MINOR v = v mod 2 ^ 16"

definition PG_PROTOCOL :: "nat \<Rightarrow> nat \<Rightarrow> nat" where
  "PG_PROTOCOL m n = m * 2 ^ 16 + n"

text \<open>
  \<open>printfPQExpBuffer(&conn->errorMessage, libpq_gettext(fmt), ...)\<close>. The translation of the message
  and \<open>vsnprintf\<close> are outside the sources: a formatter gives, for the format, what \<open>vsnprintf\<close>
  does with its translation and the arguments of the call.
\<close>

type_synonym formatter = "string \<Rightarrow> nat \<Rightarrow> vsn_result"

definition print_error :: "formatter \<Rightarrow> string \<Rightarrow> PGconn \<Rightarrow> heap \<Rightarrow> (PGconn \<times> heap) option" where
  "print_error vsn fmt conn h = do {
     (str, h') \<leftarrow> printfPQExpBuffer (vsn fmt) (Some (errorMessage conn)) h;
     e \<leftarrow> str;
     Some (conn\<lparr>errorMessage := e\<rparr>, h') }"

text \<open>Every format stands for some text.\<close>

definition formatter_ok :: "formatter \<Rightarrow> bool" where
  "formatter_ok vsn \<longleftrightarrow> (\<forall>fmt. \<exists>x. vsn_formats (vsn fmt) x)"

lemma print_error_result:
  assumes "formatter_ok vsn" "eb_inv (errorMessage conn)"
  shows "\<exists>e h'. print_error vsn fmt conn h = Some (conn\<lparr>errorMessage := e\<rparr>, h') \<and> eb_inv e"
proof -
  obtain x where "vsn_formats (vsn fmt) x" using assms(1) unfolding formatter_ok_def by blast
  from printf_result [OF assms(2) this, of h] obtain e h'
    where "printfPQExpBuffer (vsn fmt) (Some (errorMessage conn)) h = Some (Some e, h')" "eb_inv e"
    unfolding op_result_def by blast
  then show ?thesis by (intro exI [of _ e] exI [of _ h']) (simp add: print_error_def)
qed

text \<open>The formatter of C99 that prints the format itself.\<close>

definition plain_formatter :: formatter where
  "plain_formatter fmt = c99_vsnprintf (map of_char fmt)"

lemma plain_formatter_ok: "formatter_ok plain_formatter"
  unfolding formatter_ok_def plain_formatter_def using c99_formats by blast

text \<open>A connection for examples.\<close>

definition test_conn :: PGconn where
  "test_conn = \<lparr>status = CONNECTION_OK, nonblocking = False, sock = 3, pversion = 196608, sversion = 90600,
     client_encoding = 6, std_strings = True, inBuffer = replicate 16 0, inBufSize = 16, inStart = 0, inCursor = 0,
     inEnd = 0, outBuffer = replicate 16 0, outBufSize = 16, outCount = 0, outMsgStart = 0, outMsgEnd = 0,
     errorMessage = two_bytes\<rparr>"

lemma test_conn_simps [simp]: "eb_inv (errorMessage test_conn)" "client_encoding test_conn = 6"
    "std_strings test_conn"
  by (simp_all add: test_conn_def two_bytes)

end
