(* ===== verification/Escape_String.thy ===== *)
theory Escape_String
  imports PG_Conn Wchar_Verify
begin

text \<open>
  \<open>PQescapeStringInternal\<close> of \<open>fe-exec.c\<close> and the functions on top of it: the text of an SQL
  string literal, in a buffer of the caller. The source string is the memory that may be read from
  \<open>from\<close> on, the target the whole buffer \<open>to\<close>; a read or a write outside of them gives \<open>None\<close>.
\<close>

section \<open>Definitions\<close>

abbreviation (input) quote_byte :: byte where "quote_byte \<equiv> 39"
abbreviation (input) bslash_byte :: byte where "bslash_byte \<equiv> 92"
abbreviation (input) space_byte :: byte where "space_byte \<equiv> 32"

definition SQL_STR_DOUBLE :: "byte \<Rightarrow> bool \<Rightarrow> bool" where
  "SQL_STR_DOUBLE ch escape_backslash \<longleftrightarrow> ch = quote_byte \<or> (ch = bslash_byte \<and> escape_backslash)"

text \<open>
  The inner loop \<open>for (i = 0; i < len; i++)\<close>; the first argument counts down \<open>len - i\<close>, and its
  value at the end is in the result.
\<close>

fun copy_char :: "nat \<Rightarrow> byte list \<Rightarrow> nat \<Rightarrow> nat \<Rightarrow> byte list \<Rightarrow> nat
    \<Rightarrow> (nat \<times> nat \<times> nat \<times> byte list \<times> nat) option" where
  "copy_char 0 src source remaining to target = Some (0, source, remaining, to, target)"
| "copy_char (Suc k) src source remaining to target =
    (if remaining = 0 then Some (Suc k, source, remaining, to, target)
     else do {
       c \<leftarrow> peek src source;
       if c = 0 then Some (Suc k, source, remaining, to, target)
       else do {
         to \<leftarrow> poke to target c;
         copy_char k src (source + 1) (remaining - 1) to (target + 1) } })"

text \<open>The padding loop \<open>for (; i < len; i++)\<close>.\<close>

fun pad_spaces :: "nat \<Rightarrow> nat \<Rightarrow> byte list \<Rightarrow> nat \<Rightarrow> (byte list \<times> nat) option" where
  "pad_spaces 0 len to target = Some (to, target)"
| "pad_spaces (Suc k) len to target =
    (if target div 2 \<ge> len then Some (to, target)
     else do { to \<leftarrow> poke to target space_byte; pad_spaces k len to (target + 1) })"

text \<open>
  The outer loop. Its result is the target buffer, the target position and whether an incomplete
  character was found.
\<close>

partial_function (option) escape_loop ::
  "int \<Rightarrow> bool \<Rightarrow> nat \<Rightarrow> byte list \<Rightarrow> nat \<Rightarrow> nat \<Rightarrow> byte list \<Rightarrow> nat \<Rightarrow> (byte list \<times> nat \<times> bool) option" where
  "escape_loop encoding std_strs len src source remaining to target =
    (if remaining = 0 then Some (to, target, False)
     else do {
       c \<leftarrow> peek src source;
       if c = 0 then Some (to, target, False)
       else if \<not> IS_HIGHBIT_SET c then do {
         (to, target) \<leftarrow> (if SQL_STR_DOUBLE c (\<not> std_strs)
            then do { to \<leftarrow> poke to target c; Some (to, target + 1) } else Some (to, target));
         to \<leftarrow> poke to target c;
         escape_loop encoding std_strs len src (source + 1) (remaining - 1) to (target + 1) }
       else do {
         l \<leftarrow> pg_encoding_mblen encoding (drop source src);
         (k, source, remaining, to, target) \<leftarrow> copy_char l src source remaining to target;
         if k > 0 then do {
           (to, target) \<leftarrow> pad_spaces k len to target;
           Some (to, target, True) }
         else escape_loop encoding std_strs len src source remaining to target } })"

text \<open>
  The result: the buffer, the length of the text, the value of \<open>*error\<close>, and the connection. The
  report is written before the padding in the C code; they touch different memory.
\<close>

definition PQescapeStringInternal ::
  "formatter \<Rightarrow> PGconn option \<Rightarrow> byte list \<Rightarrow> byte list \<Rightarrow> nat \<Rightarrow> int \<Rightarrow> bool \<Rightarrow> heap
   \<Rightarrow> (byte list \<times> nat \<times> bool \<times> PGconn option \<times> heap) option" where
  "PQescapeStringInternal vsn conn to from len encoding std_strs h = do {
     (to, target, bad) \<leftarrow> escape_loop encoding std_strs len from 0 len to 0;
     (conn, h) \<leftarrow> (case conn of
         Some c \<Rightarrow> if bad then do { (c, h) \<leftarrow> print_error vsn ''incomplete multibyte character'' c h; Some (Some c, h) }
                  else Some (Some c, h)
       | None \<Rightarrow> Some (None, h));
     to \<leftarrow> poke to target 0;
     Some (to, target, bad, conn, h) }"

definition PQescapeStringConn ::
  "formatter \<Rightarrow> PGconn option \<Rightarrow> byte list \<Rightarrow> byte list \<Rightarrow> nat \<Rightarrow> heap
   \<Rightarrow> (byte list \<times> nat \<times> bool \<times> PGconn option \<times> heap) option" where
  "PQescapeStringConn vsn conn to from len h = (case conn of
     None \<Rightarrow> do { to \<leftarrow> poke to 0 0; Some (to, 0, True, None, h) }
   | Some c \<Rightarrow> PQescapeStringInternal vsn conn to from len (client_encoding c) (std_strings c) h)"

text \<open>The two static variables that \<open>pqSaveParameterStatus\<close> keeps are arguments.\<close>

definition PQescapeString ::
  "formatter \<Rightarrow> int \<Rightarrow> bool \<Rightarrow> byte list \<Rightarrow> byte list \<Rightarrow> nat \<Rightarrow> heap
   \<Rightarrow> (byte list \<times> nat \<times> bool \<times> PGconn option \<times> heap) option" where
  "PQescapeString vsn static_client_encoding static_std_strings to from len h =
    PQescapeStringInternal vsn None to from len static_client_encoding static_std_strings h"

section \<open>Writing at the end of what has been written\<close>

text \<open>
  \<open>written to0 to target out\<close>: the buffer \<open>to\<close> is the buffer \<open>to0\<close> with \<open>out\<close> written at its
  front and nothing else changed.
\<close>

definition written :: "byte list \<Rightarrow> byte list \<Rightarrow> nat \<Rightarrow> byte list \<Rightarrow> bool" where
  "written to0 to target out \<longleftrightarrow> target = length out \<and> length out \<le> length to0 \<and> to = out @ drop (length out) to0"

lemma written_init [simp]: "written to to 0 []"
  by (simp add: written_def)

lemma written_length: "written to0 to target out \<Longrightarrow> length to = length to0"
  by (auto simp: written_def)

lemma written_poke:
  assumes "written to0 to target out" "target < length to0"
  shows "\<exists>to'. poke to target c = Some to' \<and> written to0 to' (Suc target) (out @ [c])"
proof -
  have t: "target = length out" "to = out @ drop (length out) to0" "length out < length to0"
    using assms by (auto simp: written_def)
  obtain x r where r: "drop (length out) to0 = x # r" using t(3) by (cases "drop (length out) to0") auto
  have r': "r = drop (Suc (length out)) to0" using r by (metis drop_Suc list.sel(3) tl_drop)
  have "poke to target c = Some (out @ c # r)" using t by (simp add: poke_def r list_update_append)
  then show ?thesis using t(3) by (simp add: written_def t(1) r')
qed

text \<open>The store before a character that must be doubled.\<close>

lemma written_double:
  assumes "written to0 to target out" "target < length to0"
  shows "\<exists>to'. (if dbl then do { to \<leftarrow> poke to target c; Some (to, target + 1) } else Some (to, target))
        = Some (to', target + length (if dbl then [c] else []))
    \<and> written to0 to' (target + length (if dbl then [c] else [])) (out @ (if dbl then [c] else []))"
  using written_poke [OF assms, of c] assms(1) by (cases dbl) auto

lemma written_take: "written to0 to target out \<Longrightarrow> take target to = out"
  by (simp add: written_def)


section \<open>Bounds\<close>

text \<open>The string that a C function sees: the bytes before the first NUL, at most \<open>n\<close>.\<close>

definition text_of :: "byte list \<Rightarrow> nat \<Rightarrow> byte list" where
  "text_of src n = takeWhile (\<lambda>c. c \<noteq> 0) (take n src)"

text \<open>The memory reaches at least one byte behind that string: a NUL, or more of the source.\<close>

definition terminated :: "byte list \<Rightarrow> nat \<Rightarrow> bool" where
  "terminated src n \<longleftrightarrow> length (text_of src n) < length src"

lemma text_of_length: "length (text_of src n) \<le> n"
  using length_takeWhile_le [of "\<lambda>c. c \<noteq> 0" "take n src"] by (simp add: text_of_def)

lemma text_of_nth: "i < length (text_of src n) \<Longrightarrow> text_of src n ! i = src ! i \<and> src ! i \<noteq> 0"
  using takeWhile_nth [of i "\<lambda>c. c \<noteq> 0" "take n src"] nth_mem [of i "text_of src n"]
    length_takeWhile_le [of "\<lambda>c. c \<noteq> 0" "take n src"]
  by (auto simp: text_of_def dest: set_takeWhileD)

lemma text_of_end: "length (text_of src n) < n \<Longrightarrow> terminated src n \<Longrightarrow> src ! length (text_of src n) = 0"
  using nth_length_takeWhile [of "\<lambda>c. c \<noteq> 0" "take n src"] by (auto simp: text_of_def terminated_def)

lemma text_of_take: "terminated src n \<Longrightarrow> take (length (text_of src n)) src = text_of src n"
  by (rule nth_equalityI) (auto simp: terminated_def text_of_nth)

text \<open>Every length function, on a character that is followed by a byte, gives 1 to 4.\<close>

definition in_range :: "nat option \<Rightarrow> bool" where
  "in_range r \<longleftrightarrow> (case r of None \<Rightarrow> False | Some l \<Rightarrow> 1 \<le> l \<and> l \<le> 4)"

lemma in_range_simps [simp]: "\<not> in_range None" "in_range (Some l) \<longleftrightarrow> 1 \<le> l \<and> l \<le> 4"
    "in_range (if P then x else y) \<longleftrightarrow> (if P then in_range x else in_range y)"
  by (simp_all add: in_range_def)

lemma mblen_functions_range:
  "in_range (pg_ascii_mblen (a # b # r))" "in_range (pg_latin1_mblen (a # b # r))"
  "in_range (pg_eucjp_mblen (a # b # r))" "in_range (pg_euckr_mblen (a # b # r))"
  "in_range (pg_euccn_mblen (a # b # r))" "in_range (pg_euctw_mblen (a # b # r))"
  "in_range (pg_johab_mblen (a # b # r))" "in_range (pg_mule_mblen (a # b # r))"
  "in_range (pg_sjis_mblen (a # b # r))" "in_range (pg_big5_mblen (a # b # r))"
  "in_range (pg_gbk_mblen (a # b # r))" "in_range (pg_uhc_mblen (a # b # r))"
  "in_range (pg_gb18030_mblen (a # b # r))" "in_range (pg_utf_mblen (a # b # r))"
  by (simp_all add: mblen_defs pg_utf_mblen_def)

lemma table_range: "list_all (\<lambda>t. in_range (mblen t (a # b # r))) pg_wchar_table"
  by (simp add: pg_wchar_table_def wchar_tbl_def mblen_functions_range)

lemma mblen_range:
  assumes "2 \<le> length s"
  shows "\<exists>l. pg_encoding_mblen e s = Some l \<and> 1 \<le> l \<and> l \<le> 4"
proof -
  obtain a b r where s: "s = a # b # r" using list_ge2 [OF assms] by blast
  have all: "in_range (mblen (pg_wchar_table ! i) s)" if "i < 42" for i
    using that table_range unfolding s list_all_length length_pg_wchar_table by blast
  have "nat (pg_enc_id PG_SQL_ASCII) < 42" by (simp add: pg_enc_id_def pg_enc_order_def)
  then have "in_range (pg_encoding_mblen e s)" using valid_nth [of e] all by (simp add: pg_encoding_mblen_def)
  then show ?thesis by (cases "pg_encoding_mblen e s") simp_all
qed

lemma copy_char_result:
  assumes "terminated src n" "s \<le> length (text_of src n)" "written to0 to t out"
    "t + (length (text_of src n) - s) \<le> length to0"
  shows "\<exists>m to'. m = min k (length (text_of src n) - s) \<and>
    copy_char k src s (n - s) to t = Some (k - m, s + m, n - (s + m), to', t + m) \<and>
    written to0 to' (t + m) (out @ take m (drop s src))"
  using assms(2-)
proof (induction k arbitrary: s to t out)
  case (Suc k)
  let ?E = "length (text_of src n)"
  have len: "?E < length src" using assms(1) by (simp add: terminated_def)
  show ?case
  proof (cases "s < ?E")
    case False
    then have "s = ?E" using Suc.prems(1) by simp
    moreover have "n - s = 0 \<or> src ! s = 0" using text_of_end [OF _ assms(1)] calculation by fastforce
    ultimately show ?thesis using Suc.prems(2) len by (auto simp: peek_in_bounds)
  next
    case True
    have c: "src ! s \<noteq> 0" "n - s \<noteq> 0" using text_of_nth [OF True] True text_of_length [of src n] by auto
    obtain to' where to': "poke to t (src ! s) = Some to'" "written to0 to' (Suc t) (out @ [src ! s])"
      using written_poke [OF Suc.prems(2)] Suc.prems(3) True by fastforce
    have nt: "drop s src = src ! s # drop (Suc s) src" using True len by (simp add: Cons_nth_drop_Suc)
    have pre: "Suc s \<le> ?E" "Suc t + (?E - Suc s) \<le> length to0" using True Suc.prems(3) by linarith+
    obtain to2 where to2: "copy_char k src (Suc s) (n - Suc s) to' (Suc t) = Some (k - min k (?E - Suc s),
        Suc s + min k (?E - Suc s), n - (Suc s + min k (?E - Suc s)), to2, Suc t + min k (?E - Suc s))"
      "written to0 to2 (Suc t + min k (?E - Suc s)) ((out @ [src ! s]) @ take (min k (?E - Suc s)) (drop (Suc s) src))"
      using Suc.IH [OF pre(1) to'(2) pre(2)] by blast
    have m: "min (Suc k) (?E - s) = Suc (min k (?E - Suc s))" using True by linarith
    show ?thesis using to'(1) to2 c len True by (simp add: m nt peek_in_bounds)
  qed
qed (auto simp: written_def)

lemma pad_spaces_result:
  assumes "written to0 to t out" "2 * n \<le> length to0" "t \<le> 2 * n"
  shows "\<exists>to' t' out'. pad_spaces k n to t = Some (to', t') \<and> written to0 to' t' out' \<and> t' \<le> 2 * n"
  using assms
proof (induction k arbitrary: to t out)
  case (Suc k)
  show ?case
  proof (cases "n \<le> t div 2")
    case False
    then have t: "Suc t \<le> 2 * n" by linarith
    obtain to' where to': "poke to t 32 = Some to'" "written to0 to' (Suc t) (out @ [32])"
      using written_poke [OF Suc.prems(1)] Suc.prems(2) t by fastforce
    show ?thesis using Suc.IH [OF to'(2) Suc.prems(2) t] to'(1) False by simp
  qed (use Suc.prems in auto)
qed auto

text \<open>
  Two bytes of target for each byte of the source are enough, and one byte behind the source is
  all that is read beyond it, whatever the bytes are.
\<close>

lemma escape_loop_bounds:
  assumes tm: "terminated src n" and cap: "2 * n \<le> length to0"
    and "s \<le> length (text_of src n)" "written to0 to t out" "t \<le> 2 * s"
  shows "\<exists>to' t' bad out'. escape_loop e std n src s (n - s) to t = Some (to', t', bad)
    \<and> written to0 to' t' out' \<and> t' \<le> 2 * n"
  using assms(3-)
proof (induction "length (text_of src n) - s" arbitrary: s to t out rule: less_induct)
  case less
  let ?E = "length (text_of src n)"
  have len: "?E < length src" "?E \<le> n" using tm text_of_length by (auto simp: terminated_def)
  show ?case
  proof (cases "s < ?E")
    case False
    then have "s = ?E" using less.prems(1) by simp
    moreover have "n - s = 0 \<or> src ! s = 0" using text_of_end [OF _ tm] calculation by fastforce
    ultimately show ?thesis using less.prems(2,3) len
      by (subst escape_loop.simps) (auto simp: peek_in_bounds)
  next
    case True
    have c: "src ! s \<noteq> 0" "n - s \<noteq> 0" "peek src s = Some (src ! s)"
      using text_of_nth [OF True] True len by (auto simp: peek_in_bounds)
    have dec: "?E - s' < ?E - s" if "s < s'" for s' using that True by linarith
    show ?thesis
    proof (cases "IS_HIGHBIT_SET (src ! s)")
      case False
      have t0: "t < length to0" using less.prems(3) cap len True by linarith
      obtain to1 t1 out1 where q: "(if SQL_STR_DOUBLE (src ! s) (\<not> std)
            then do { to \<leftarrow> poke to t (src ! s); Some (to, t + 1) } else Some (to, t)) = Some (to1, t1)"
        "written to0 to1 t1 out1" "t1 = t + length (if SQL_STR_DOUBLE (src ! s) (\<not> std) then [src ! s] else [])"
        using written_double [OF less.prems(2) t0] by blast
      have t1: "t1 \<le> 2 * s + 1" using q(3) less.prems(3) by (simp split: if_splits)
      have "t1 < length to0" using t1 cap len True by linarith
      then obtain to2 where to2: "poke to1 t1 (src ! s) = Some to2" "written to0 to2 (Suc t1) (out1 @ [src ! s])"
        using written_poke [OF q(2)] by blast
      have "escape_loop e std n src s (n - s) to t = escape_loop e std n src (Suc s) (n - Suc s) to2 (Suc t1)"
        using c False to2(1) by (subst escape_loop.simps) (simp add: q(1))
      then show ?thesis
        using less.hyps [OF dec [of "Suc s"] _ to2(2)] t1 True by simp
    next
      case True
      have "2 \<le> length (drop s src)" using \<open>s < ?E\<close> len by simp
      from mblen_range [OF this] obtain l where
        l: "pg_encoding_mblen e (drop s src) = Some l" "1 \<le> l" by blast
      have room: "t + (?E - s) \<le> length to0" using less.prems(3) \<open>s < ?E\<close> len cap by linarith
      obtain m to1 where m: "m = min l (?E - s)"
        "copy_char l src s (n - s) to t = Some (l - m, s + m, n - (s + m), to1, t + m)"
        "written to0 to1 (t + m) (out @ take m (drop s src))"
        using copy_char_result [OF tm less.prems(1,2) room, of l] by blast
      have m1: "1 \<le> m" "s + m \<le> ?E" using m(1) l(2) \<open>s < ?E\<close> by auto
      show ?thesis
      proof (cases "l - m > 0")
        case True
        have "t + m \<le> 2 * n" using m1 less.prems(3) len by linarith
        then obtain to2 t2 out2 where "pad_spaces (l - m) n to1 (t + m) = Some (to2, t2)" "written to0 to2 t2 out2" "t2 \<le> 2 * n"
          using pad_spaces_result [OF m(3) cap] by blast
        then have "escape_loop e std n src s (n - s) to t = Some (to2, t2, True) \<and> written to0 to2 t2 out2 \<and> t2 \<le> 2 * n"
          using c \<open>IS_HIGHBIT_SET (src ! s)\<close> True by (subst escape_loop.simps) (simp add: l(1) m(2))
        then show ?thesis by blast
      next
        case False
        then have "escape_loop e std n src s (n - s) to t = escape_loop e std n src (s + m) (n - (s + m)) to1 (t + m)"
          using c \<open>IS_HIGHBIT_SET (src ! s)\<close> by (subst escape_loop.simps) (simp add: l(1) m(2))
        then show ?thesis using less.hyps [OF dec m1(2) m(3)] m1 less.prems(3) by simp
      qed
    qed
  qed
qed


section \<open>Valid text\<close>

text \<open>The escaped form of one character, where the bytes in \<open>dbl\<close> are doubled.\<close>

definition escape_char :: "(byte \<Rightarrow> bool) \<Rightarrow> byte list \<Rightarrow> byte list" where
  "escape_char dbl c = (case c of [b] \<Rightarrow> if dbl b then [b, b] else [b] | _ \<Rightarrow> c)"

definition escape_chars :: "(byte \<Rightarrow> bool) \<Rightarrow> byte list \<Rightarrow> byte list list" where
  "escape_chars dbl c = (case c of [b] \<Rightarrow> if dbl b then [[b], [b]] else [[b]] | _ \<Rightarrow> [c])"

lemma concat_escape_chars: "concat (escape_chars dbl c) = escape_char dbl c"
  by (auto simp: escape_chars_def escape_char_def split: list.splits)

lemma concat_map_escape_chars: "concat (concat (map (escape_chars dbl) cs)) = concat (map (escape_char dbl) cs)"
  by (induction cs) (simp_all add: concat_escape_chars)

text \<open>
  The reader of a quoted body, on characters: the special ones must be doubled and stand for one.
  It is \<open>None\<close> when the body would end there, or a backslash would start an escape sequence.
\<close>

fun quoted_body :: "(byte \<Rightarrow> bool) \<Rightarrow> byte list list \<Rightarrow> byte list list option" where
  "quoted_body dbl [] = Some []"
| "quoted_body dbl (c # cs) =
    (if length c = 1 \<and> dbl (hd c)
     then (case cs of [] \<Rightarrow> None
           | d # ds \<Rightarrow> if d = c then map_option (\<lambda>xs. c # xs) (quoted_body dbl ds) else None)
     else map_option (\<lambda>xs. c # xs) (quoted_body dbl cs))"

definition literal_body :: "bool \<Rightarrow> byte list list \<Rightarrow> byte list list option" where
  "literal_body std = quoted_body (\<lambda>b. SQL_STR_DOUBLE b (\<not> std))"

lemma quoted_body_escape: "quoted_body dbl (concat (map (escape_chars dbl) cs)) = Some cs"
proof (induction cs)
  case (Cons c cs)
  show ?case
  proof (cases "length c = 1 \<and> dbl (hd c)")
    case True
    then obtain b where "c = [b]" by (cases c) auto
    then show ?thesis using Cons True by (simp add: escape_chars_def)
  next
    case False
    have "escape_chars dbl c = [c]" using False by (auto simp: escape_chars_def split: list.splits)
    then have "concat (map (escape_chars dbl) (c # cs)) = c # concat (map (escape_chars dbl) cs)" by simp
    then show ?thesis using Cons by (simp only: quoted_body.simps if_not_P [OF False] option.map)
  qed
qed simp

context mb_encoding
begin

lemma wf_char_low: "\<not> IS_HIGHBIT_SET b \<Longrightarrow> b \<noteq> 0 \<Longrightarrow> wf_char verify [b]"
  using ver_ascii [of b 1 "[]"] by (simp add: wf_char_def)

lemma wf_char_head_low:
  assumes "wf_char verify (b # r)" "\<not> IS_HIGHBIT_SET b"
  shows "r = []"
proof -
  have "verify (b # r) (int (length (b # r))) = Some 1"
    using ver_ascii [of b "int (length (b # r))" r] assms by (simp add: wf_char_def)
  then show ?thesis using assms(1) by (simp add: wf_char_def)
qed

lemma wf_text_escape: "list_all (wf_char verify) cs \<Longrightarrow> list_all (wf_char verify) (concat (map (escape_chars dbl) cs))"
  by (induction cs) (auto simp: escape_chars_def split: list.splits)

end

lemma drop_text_of:
  assumes "terminated src n" "drop s (text_of src n) = c @ r" "c \<noteq> []"
  shows "drop s src = c @ r @ drop (length (text_of src n)) src"
proof (cases "s \<le> length (text_of src n)")
  case True
  have "src = text_of src n @ drop (length (text_of src n)) src"
    using text_of_take [OF assms(1)] append_take_drop_id by metis
  then have "drop s src = drop s (text_of src n @ drop (length (text_of src n)) src)" by simp
  then show ?thesis using True assms(2) by simp
next
  case False
  then show ?thesis using assms(2,3) by simp
qed

text \<open>The loop on a text of whole characters writes the escaped characters and reports nothing.\<close>

lemma escape_loop_text:
  assumes tm: "terminated src n" and cap: "2 * n \<le> length to0" and e: "PG_VALID_ENCODING e"
    and "wf_text (pg_encoding_verifymb e) (drop s (text_of src n)) cs" "s \<le> length (text_of src n)"
    "written to0 to t out" "t \<le> 2 * s"
  shows "\<exists>to'. escape_loop e std n src s (n - s) to t
        = Some (to', t + length (concat (map (escape_char (\<lambda>b. SQL_STR_DOUBLE b (\<not> std))) cs)), False)
    \<and> written to0 to' (t + length (concat (map (escape_char (\<lambda>b. SQL_STR_DOUBLE b (\<not> std))) cs))) (out @ concat (map (escape_char (\<lambda>b. SQL_STR_DOUBLE b (\<not> std))) cs))"
  using assms(4-)
proof (induction cs arbitrary: s to t out)
  case Nil
  let ?E = "length (text_of src n)"
  have len: "?E < length src" "?E \<le> n" using tm text_of_length by (auto simp: terminated_def)
  have "s = ?E" using Nil by simp
  moreover have "n - s = 0 \<or> src ! s = 0" using text_of_end [OF _ tm] calculation by fastforce
  ultimately show ?case using Nil.prems(3) len by (subst escape_loop.simps) (auto simp: peek_in_bounds)
next
  case (Cons c cs)
  let ?E = "length (text_of src n)" and ?v = "pg_encoding_verifymb e"
  have len: "?E < length src" "?E \<le> n" using tm text_of_length by (auto simp: terminated_def)
  note enc = table_encoding [OF e]
  obtain r where r: "wf_char ?v c" "drop s (text_of src n) = c @ r" "wf_text ?v r cs"
    using Cons.prems(1) by (auto simp: wf_text_Cons)
  have c0: "c \<noteq> []" "0 \<notin> set c" using r(1) mb_encoding.wf_char_no_nul [OF enc] by (auto simp: wf_char_def)
  note mem = drop_text_of [OF tm r(2) c0(1)]
  have el: "length c + length r = ?E - s" using arg_cong [OF r(2), of length] by simp
  then have s: "s + length c \<le> ?E" "s < ?E" using c0(1) Cons.prems(2) by (cases c; simp)+
  have rest: "drop (s + length c) (text_of src n) = r"
    using arg_cong [OF r(2), of "drop (length c)"] by (simp add: add.commute)
  have hd: "src ! s = hd c" 
  proof -
    have "hd (drop s src) = src ! s" using s(2) len(1) by (simp add: hd_drop_conv_nth)
    then show ?thesis unfolding mem using c0(1) by simp
  qed
  have cc: "src ! s \<noteq> 0" "n - s \<noteq> 0" "peek src s = Some (src ! s)"
    using text_of_nth [OF s(2)] s len by (auto simp: peek_in_bounds)
  have IH: "\<exists>to'. escape_loop e std n src (s + length c) (n - (s + length c)) to1 t1
        = Some (to', t1 + length (concat (map (escape_char (\<lambda>b. SQL_STR_DOUBLE b (\<not> std))) cs)), False)
    \<and> written to0 to' (t1 + length (concat (map (escape_char (\<lambda>b. SQL_STR_DOUBLE b (\<not> std))) cs))) (out1 @ concat (map (escape_char (\<lambda>b. SQL_STR_DOUBLE b (\<not> std))) cs))"
    if "written to0 to1 t1 out1" "t1 \<le> 2 * (s + length c)" for to1 t1 out1
    using Cons.IH [of "s + length c" to1 t1 out1] that r(3) rest s by simp
  show ?case
  proof (cases "IS_HIGHBIT_SET (hd c)")
    case False
    have c: "c = [src ! s]"
      using mb_encoding.wf_char_head_low [OF enc, of "hd c" "tl c"] r(1) False c0(1) hd by (cases c) simp_all
    define D where "D = (if SQL_STR_DOUBLE (src ! s) (\<not> std) then [src ! s] else [])"
    have ec: "escape_char (\<lambda>b. SQL_STR_DOUBLE b (\<not> std)) c = D @ [src ! s]" by (subst c) (simp add: escape_char_def D_def)
    have t0: "t < length to0" using Cons.prems(4) cap len s by linarith
    obtain to1 where q: "(if SQL_STR_DOUBLE (src ! s) (\<not> std)
            then do { to \<leftarrow> poke to t (src ! s); Some (to, t + 1) } else Some (to, t)) = Some (to1, t + length D)"
        "written to0 to1 (t + length D) (out @ D)"
      using written_double [OF Cons.prems(3) t0] unfolding D_def by blast
    have "t + length D < length to0" using Cons.prems(4) cap len s by (auto simp: D_def)
    then obtain to2 where to2: "poke to1 (t + length D) (src ! s) = Some to2"
        "written to0 to2 (Suc (t + length D)) (out @ escape_char (\<lambda>b. SQL_STR_DOUBLE b (\<not> std)) c)"
      using written_poke [OF q(2)] unfolding ec by fastforce
    have "escape_loop e std n src s (n - s) to t
        = escape_loop e std n src (s + length c) (n - (s + length c)) to2 (Suc (t + length D))"
      using cc False to2(1) c unfolding hd [symmetric] by (subst escape_loop.simps) (simp add: q(1))
    moreover have "Suc (t + length D) \<le> 2 * (s + length c)" using Cons.prems(4) c by (subst c) (auto simp: D_def)
    ultimately show ?thesis using IH [OF to2(2)] by (simp add: ec add.assoc)
  next
    case True
    have l: "pg_encoding_mblen e (drop s src) = Some (length c)"
      unfolding mem using mb_encoding.mblen_of_char [OF enc r(1)] by simp
    have room: "t + (?E - s) \<le> length to0" using Cons.prems(4) s len cap by linarith
    have m: "min (length c) (?E - s) = length c" using s by simp
    have tk: "take (length c) (drop s src) = c" by (simp add: mem)
    obtain k to1 where k: "k = min (length c) (?E - s)" "copy_char (length c) src s (n - s) to t
          = Some (length c - k, s + k, n - (s + k), to1, t + k)" "written to0 to1 (t + k) (out @ take k (drop s src))"
      using copy_char_result [OF tm Cons.prems(2,3) room, of "length c"] by blast
    have "k = length c" using k(1) m by simp
    then have to1: "copy_char (length c) src s (n - s) to t = Some (0, s + length c, n - (s + length c), to1, t + length c)"
        "written to0 to1 (t + length c) (out @ c)"
      using k(2,3) tk by simp_all
    have ec: "escape_char (\<lambda>b. SQL_STR_DOUBLE b (\<not> std)) c = c"
      using True c0(1) by (auto simp: escape_char_def SQL_STR_DOUBLE_def IS_HIGHBIT_SET_unat split: list.splits)
    have "escape_loop e std n src s (n - s) to t
        = escape_loop e std n src (s + length c) (n - (s + length c)) to1 (t + length c)"
      using cc True to1(1) unfolding hd [symmetric] by (subst escape_loop.simps) (simp add: l)
    then show ?thesis using IH [OF to1(2)] Cons.prems(4) by (simp add: ec add.assoc)
  qed
qed


lemma written_end:
  assumes "written to0 to' m out" "m < length to0"
  shows "poke to' m 0 = Some (out @ 0 # drop (Suc m) to0)"
proof -
  have w: "m = length out" "to' = out @ drop (length out) to0" "length out < length to0"
    using assms by (auto simp: written_def)
  have "drop (length out) to0 = to0 ! length out # drop (Suc (length out)) to0"
    using w(3) by (simp add: Cons_nth_drop_Suc)
  then show ?thesis using w by (simp add: poke_def list_update_append)
qed

lemma escape_start:
  assumes "terminated from n" "2 * n + 1 \<le> length to0"
  shows "\<exists>to' m bad out. escape_loop e std n from 0 n to0 0 = Some (to', m, bad) \<and> m = length out \<and> m \<le> 2 * n
    \<and> poke to' m 0 = Some (out @ 0 # drop (Suc m) to0)"
proof -
  obtain to' m bad out where r: "escape_loop e std n from 0 n to0 0 = Some (to', m, bad)" "written to0 to' m out" "m \<le> 2 * n"
    using escape_loop_bounds [OF assms(1), of to0 0 to0 0 "[]" e std] assms(2) by auto
  moreover have "m = length out" using r(2) by (simp add: written_def)
  moreover have "poke to' m 0 = Some (out @ 0 # drop (Suc m) to0)"
    by (rule written_end [OF r(2)]) (use r(3) assms(2) in linarith)
  ultimately show ?thesis by blast
qed

section \<open>Properties\<close>

text \<open>
  C29: For all bytes, in every encoding, \<open>PQescapeStringInternal\<close> returns and stays inside its
  buffers: of the source it reads the string and one byte behind it, and a target of \<open>2 * length + 1\<close>
  bytes receives at most \<open>2 * length\<close> bytes and a NUL, while the rest of it is left as it was.
\<close>

theorem PQescapeStringInternal_bounds:
  assumes "terminated from n" "2 * n + 1 \<le> length to" "formatter_ok vsn" "eb_inv (errorMessage conn)"
  shows "\<exists>out m bad conn' h'. PQescapeStringInternal vsn (Some conn) to from n e std h
      = Some (out @ 0 # drop (Suc m) to, m, bad, Some conn', h') \<and> m = length out \<and> m \<le> 2 * n
      \<and> eb_inv (errorMessage conn')"
proof -
  obtain to' m bad out where r: "escape_loop e std n from 0 n to 0 = Some (to', m, bad)" "m = length out" "m \<le> 2 * n"
    "poke to' m 0 = Some (out @ 0 # drop (Suc m) to)"
    using escape_start [OF assms(1,2)] by metis
  obtain e' h' where "print_error vsn ''incomplete multibyte character'' conn h = Some (conn\<lparr>errorMessage := e'\<rparr>, h')"
    "eb_inv e'"
    using print_error_result [OF assms(3,4)] by blast
  then show ?thesis using r assms(4) by (cases bad) (auto simp: PQescapeStringInternal_def)
qed

theorem PQescapeStringInternal_bounds_witness:
  "\<exists>out m bad conn' h'. PQescapeStringInternal plain_formatter (Some test_conn) (replicate 9 1) [65, 39, 0xE2, 0] 3 6 True
      \<lparr>answers = [], junk = \<lambda>i. 0\<rparr> = Some (out @ 0 # drop (Suc m) (replicate 9 1), m, bad, Some conn', h') \<and> m \<le> 6"
  using PQescapeStringInternal_bounds [of "[65, 39, 0xE2, 0]" 3 "replicate 9 1" plain_formatter test_conn 6 True
      "\<lparr>answers = [], junk = \<lambda>i. 0\<rparr>"]
  by (fastforce simp: plain_formatter_ok terminated_def text_of_def)

text \<open>
  C7: Escaping a string of valid characters of the client encoding reports no error and yields again
  valid text in that encoding, which the reader of string literals turns back into the same
  characters, with and without \<open>standard_conforming_strings\<close>.
\<close>

theorem PQescapeStringConn_roundtrip:
  assumes "PG_VALID_ENCODING (client_encoding conn)" "terminated from n" "2 * n + 1 \<le> length to"
    and "wf_text (pg_encoding_verifymb (client_encoding conn)) (text_of from n) cs"
  shows "\<exists>out ds. PQescapeStringConn vsn (Some conn) to from n h
      = Some (out @ 0 # drop (Suc (length out)) to, length out, False, Some conn, h)
    \<and> wf_text (pg_encoding_verifymb (client_encoding conn)) out ds \<and> literal_body (std_strings conn) ds = Some cs"
proof -
  let ?e = "client_encoding conn" and ?std = "std_strings conn"
  let ?dbl = "\<lambda>b. SQL_STR_DOUBLE b (\<not> ?std)"
  let ?out = "concat (map (escape_char ?dbl) cs)" and ?ds = "concat (map (escape_chars ?dbl) cs)"
  obtain to' where to': "escape_loop ?e ?std n from 0 n to 0 = Some (to', length ?out, False)"
    "written to to' (length ?out) ?out"
    using escape_loop_text [OF assms(2) _ assms(1), of to 0 cs to 0 "[]" ?std] assms(3,4) by auto
  obtain to2 m bad out where r: "escape_loop ?e ?std n from 0 n to 0 = Some (to2, m, bad)" "m \<le> 2 * n"
    using escape_start [OF assms(2,3)] by metis
  have "length ?out < length to" using r to'(1) assms(3) by simp
  then have "poke to' (length ?out) 0 = Some (?out @ 0 # drop (Suc (length ?out)) to)"
    by (rule written_end [OF to'(2)])
  then have "PQescapeStringConn vsn (Some conn) to from n h
      = Some (?out @ 0 # drop (Suc (length ?out)) to, length ?out, False, Some conn, h)"
    using to'(1) by (simp add: PQescapeStringConn_def PQescapeStringInternal_def)
  moreover have "concat ?ds = ?out" by (rule concat_map_escape_chars)
  then have "wf_text (pg_encoding_verifymb ?e) ?out ?ds"
    using assms(4) mb_encoding.wf_text_escape [OF table_encoding [OF assms(1)]] by (simp add: wf_text_def)
  ultimately show ?thesis using quoted_body_escape [of ?dbl cs] unfolding literal_body_def by blast
qed

theorem PQescapeStringConn_roundtrip_witness:
  "\<exists>out ds. PQescapeStringConn plain_formatter (Some test_conn) (replicate 11 1) [39, 0xE2, 0x82, 0xAC, 92, 0] 5 \<lparr>answers = [], junk = \<lambda>i. 0\<rparr>
      = Some (out @ 0 # drop (Suc (length out)) (replicate 11 1), length out, False, Some test_conn, \<lparr>answers = [], junk = \<lambda>i. 0\<rparr>)
    \<and> literal_body True ds = Some [[39], [0xE2, 0x82, 0xAC], [92]] \<and> out = concat ds"
proof -
  have "wf_text (pg_encoding_verifymb (client_encoding test_conn)) (text_of [39, 0xE2, 0x82, 0xAC, 92, 0] 5)
      [[39], [0xE2, 0x82, 0xAC], [92]]"
    by (simp add: wf_text_def text_of_def wf_char_def verifymb_utf8 [unfolded pg_enc_id_def pg_enc_order_def, simplified]
        pg_utf8_verifier_def pg_utf8_islegal_def pg_utf_mblen_def)
  moreover have "PG_VALID_ENCODING (client_encoding test_conn)" "terminated [39, 0xE2, 0x82, 0xAC, 92, 0] 5"
    by (simp_all add: PG_VALID_ENCODING_def PG_LAST_ENCODING_eq terminated_def text_of_def)
  ultimately show ?thesis
    using PQescapeStringConn_roundtrip [of test_conn "[39, 0xE2, 0x82, 0xAC, 92, 0]" 5 "replicate 11 1"
        "[[39], [0xE2, 0x82, 0xAC], [92]]" plain_formatter "\<lparr>answers = [], junk = \<lambda>i. 0\<rparr>"]
    unfolding wf_text_def by auto
qed

text \<open>
  C30: The protection depends on the input being valid: in UTF-8 a two-byte lead that is followed by
  a quote takes the quote along undoubled, and no error is reported, although the verifier rejects
  the string.
\<close>

theorem PQescapeString_swallows_quote:
  assumes "192 \<le> unat b" "unat b < 224"
  shows "PQescapeString vsn 6 std (replicate 5 1) [b, 39, 0] 2 h = Some ([b, 39, 0, 1, 1], 2, False, None, h)
    \<and> pg_verify_mbstr_len 6 [b, 39] 2 True = Some (Inr (-1))"
proof -
  have hb: "IS_HIGHBIT_SET b" "b \<noteq> 0" using assms by (auto simp: IS_HIGHBIT_SET_unat)
  have l: "pg_utf_mblen (b # r) = Some 2" for r
    using assms by (simp add: pg_utf_mblen_def byte_masks)
  have m: "pg_encoding_mblen 6 (b # r) = Some 2" for r
    using l by (simp add: pg_encoding_mblen_def PG_VALID_ENCODING_def PG_LAST_ENCODING_eq pg_wchar_table_def wchar_tbl_def)
  have two: "(2 :: nat) = Suc (Suc 0)" by simp
  have "copy_char (Suc (Suc 0)) [b, 39, 0] 0 2 [1, 1, 1, 1, 1] 0 = Some (0, 2, 0, [b, 39, 1, 1, 1], 2)"
    using hb by (simp add: poke_def)
  then have "copy_char 2 [b, 39, 0] 0 2 [1, 1, 1, 1, 1] 0 = Some (0, 2, 0, [b, 39, 1, 1, 1], 2)"
    by (simp only: two)
  then have e1: "escape_loop 6 std 2 [b, 39, 0] 0 2 [1, 1, 1, 1, 1] 0 = Some ([b, 39, 1, 1, 1], 2, False)"
    using hb by (subst escape_loop.simps) (simp add: m escape_loop.simps [of _ _ _ _ _ 0])
  have v: "pg_utf8_verifier [b, 39] 2 = Some (-1)"
    using assms by (simp add: pg_utf8_verifier_def l pg_utf8_islegal_def byte_masks)
  have "pg_verify_mbstr_len 6 [b, 39] 2 True = Some (Inr (-1))"
    using hb v by (simp add: pg_verify_mbstr_len_def pg_encoding_max_length_def PG_VALID_ENCODING_def
        PG_LAST_ENCODING_eq pg_wchar_table_def wchar_tbl_def verify_loop.simps)
  then show ?thesis using e1
    by (simp add: PQescapeString_def PQescapeStringInternal_def poke_def numeral_eq_Suc)
qed

theorem PQescapeString_swallows_quote_witness:
  "PQescapeString plain_formatter 6 True (replicate 5 1) [0xC0, 39, 0] 2 \<lparr>answers = [], junk = \<lambda>i. 0\<rparr>
    = Some ([0xC0, 39, 0, 1, 1], 2, False, None, \<lparr>answers = [], junk = \<lambda>i. 0\<rparr>)"
  using PQescapeString_swallows_quote [of "0xC0" plain_formatter True "\<lparr>answers = [], junk = \<lambda>i. 0\<rparr>"] by simp

end
