(* ===== verification/Escape_Quote.thy ===== *)
theory Escape_Quote
  imports Escape_String
begin

text \<open>
  \<open>PQescapeInternal\<close> of \<open>fe-exec.c\<close>: a string as a complete SQL literal or identifier, in a newly
  allocated buffer. A null result pointer is \<open>None\<close> inside of the outer option; the outer \<open>None\<close> is
  an access outside of a buffer, or an overflow of the \<open>int\<close> that holds the size.
\<close>

section \<open>Definitions\<close>

abbreviation (input) dquote_byte :: byte where "dquote_byte \<equiv> 34"

text \<open>
  The scan for characters that must be escaped: \<open>Inl ()\<close> is the report of an incomplete character,
  otherwise the position where it stops and the two counters.
\<close>

partial_function (option) scan_quotes ::
  "int \<Rightarrow> byte \<Rightarrow> byte list \<Rightarrow> nat \<Rightarrow> nat \<Rightarrow> nat \<Rightarrow> nat \<Rightarrow> (unit + nat \<times> nat \<times> nat) option" where
  "scan_quotes encoding quote_char str len s num_quotes num_backslashes =
    (if s < len then do {
       c \<leftarrow> peek str s;
       if c = 0 then Some (Inr (s, num_quotes, num_backslashes))
       else if c = quote_char then scan_quotes encoding quote_char str len (s + 1) (num_quotes + 1) num_backslashes
       else if c = bslash_byte then scan_quotes encoding quote_char str len (s + 1) num_quotes (num_backslashes + 1)
       else if IS_HIGHBIT_SET c then do {
         charlen \<leftarrow> pg_encoding_mblen encoding (drop s str);
         if s + charlen > len then Some (Inl ())
         else do {
           nul \<leftarrow> memchr (drop s str) 0 charlen;
           if nul \<noteq> None then Some (Inl ())
           else scan_quotes encoding quote_char str len (s + charlen) num_quotes num_backslashes } }
       else scan_quotes encoding quote_char str len (s + 1) num_quotes num_backslashes }
     else Some (Inr (s, num_quotes, num_backslashes)))"

text \<open>The loop \<open>while (1)\<close> that copies a multibyte character; it leaves \<open>s\<close> on its last byte.\<close>

partial_function (option) copy_mb ::
  "byte list \<Rightarrow> int \<Rightarrow> nat \<Rightarrow> byte list \<Rightarrow> nat \<Rightarrow> (nat \<times> byte list \<times> nat) option" where
  "copy_mb str i s buf rp = do {
     c \<leftarrow> peek str s;
     buf \<leftarrow> poke buf rp c;
     if i - 1 = 0 then Some (s, buf, rp + 1) else copy_mb str (i - 1) (s + 1) buf (rp + 1) }"

partial_function (option) quote_loop ::
  "int \<Rightarrow> byte \<Rightarrow> bool \<Rightarrow> byte list \<Rightarrow> nat \<Rightarrow> nat \<Rightarrow> byte list \<Rightarrow> nat \<Rightarrow> (byte list \<times> nat) option" where
  "quote_loop encoding quote_char as_ident str input_len s buf rp =
    (if s < input_len then do {
       c \<leftarrow> peek str s;
       if c = quote_char \<or> (\<not> as_ident \<and> c = bslash_byte) then do {
         buf \<leftarrow> poke buf rp c;
         buf \<leftarrow> poke buf (rp + 1) c;
         quote_loop encoding quote_char as_ident str input_len (s + 1) buf (rp + 2) }
       else if \<not> IS_HIGHBIT_SET c then do {
         buf \<leftarrow> poke buf rp c;
         quote_loop encoding quote_char as_ident str input_len (s + 1) buf (rp + 1) }
       else do {
         i \<leftarrow> pg_encoding_mblen encoding (drop s str);
         (s, buf, rp) \<leftarrow> copy_mb str (int i) s buf rp;
         quote_loop encoding quote_char as_ident str input_len (s + 1) buf rp } }
     else Some (buf, rp))"

definition memcpy_from :: "byte list \<Rightarrow> nat \<Rightarrow> byte list \<Rightarrow> nat \<Rightarrow> byte list option" where
  "memcpy_from buf rp src n = (if n \<le> length src then blit buf rp (take n src) else None)"

definition PQescapeInternal ::
  "formatter \<Rightarrow> PGconn option \<Rightarrow> byte list \<Rightarrow> nat \<Rightarrow> bool \<Rightarrow> heap
   \<Rightarrow> (byte list option \<times> PGconn option \<times> heap) option" where
  "PQescapeInternal vsn conn str len as_ident h =
    (let quote_char = (if as_ident then dquote_byte else quote_byte)
     in case conn of
       None \<Rightarrow> Some (None, None, h)
     | Some c \<Rightarrow> do {
         scanned \<leftarrow> scan_quotes (client_encoding c) quote_char str len 0 0 0;
         case scanned of
           Inl _ \<Rightarrow> do {
             (c, h) \<leftarrow> print_error vsn ''incomplete multibyte character'' c h;
             Some (None, Some c, h) }
         | Inr (input_len, num_quotes, num_backslashes) \<Rightarrow> do {
             let result_size = input_len + num_quotes + 3 +
               (if \<not> as_ident \<and> num_backslashes > 0 then num_backslashes + 2 else 0);
             if result_size > INT_MAX then None
             else case malloc result_size h of
               (None, h) \<Rightarrow> do {
                 (c, h) \<leftarrow> print_error vsn ''out of memory'' c h;
                 Some (None, Some c, h) }
             | (Some buf, h) \<Rightarrow> do {
                 (buf, rp) \<leftarrow> (if \<not> as_ident \<and> num_backslashes > 0
                   then do { buf \<leftarrow> poke buf 0 space_byte; buf \<leftarrow> poke buf 1 69; Some (buf, 2) }
                   else Some (buf, 0));
                 buf \<leftarrow> poke buf rp quote_char;
                 (buf, rp) \<leftarrow> (if num_quotes = 0 \<and> (num_backslashes = 0 \<or> as_ident)
                   then do { buf \<leftarrow> memcpy_from buf (rp + 1) str input_len; Some (buf, rp + 1 + input_len) }
                   else quote_loop (client_encoding c) quote_char as_ident str input_len 0 buf (rp + 1));
                 buf \<leftarrow> poke buf rp quote_char;
                 buf \<leftarrow> poke buf (rp + 1) 0;
                 Some (Some buf, Some c, h) } } })"

definition PQescapeLiteral ::
  "formatter \<Rightarrow> PGconn option \<Rightarrow> byte list \<Rightarrow> nat \<Rightarrow> heap \<Rightarrow> (byte list option \<times> PGconn option \<times> heap) option" where
  "PQescapeLiteral vsn conn str len h = PQescapeInternal vsn conn str len False h"

definition PQescapeIdentifier ::
  "formatter \<Rightarrow> PGconn option \<Rightarrow> byte list \<Rightarrow> nat \<Rightarrow> heap \<Rightarrow> (byte list option \<times> PGconn option \<times> heap) option" where
  "PQescapeIdentifier vsn conn str len h = PQescapeInternal vsn conn str len True h"

section \<open>The characters that a scan visits\<close>

text \<open>
  Both loops step over the string by \<open>pg_encoding_mblen\<close>; \<open>chars_at\<close> says that \<open>cs\<close> are the
  characters they meet from position \<open>s\<close> on.
\<close>

fun chars_at :: "int \<Rightarrow> byte list \<Rightarrow> nat \<Rightarrow> byte list list \<Rightarrow> bool" where
  "chars_at enc str s [] \<longleftrightarrow> True"
| "chars_at enc str s (c # cs) \<longleftrightarrow> c \<noteq> [] \<and> 0 \<notin> set c \<and> s + length c \<le> length str
     \<and> take (length c) (drop s str) = c
     \<and> (if IS_HIGHBIT_SET (hd c) then pg_encoding_mblen enc (drop s str) = Some (length c) else length c = 1)
     \<and> chars_at enc str (s + length c) cs"

lemma chars_at_head:
  assumes "chars_at enc str s (c # cs)"
  shows "s < length str" "str ! s = hd c" "hd c \<noteq> 0" "peek str s = Some (hd c)"
proof -
  have c: "c \<noteq> []" "0 \<notin> set c" "s + length c \<le> length str" "take (length c) (drop s str) = c"
    using assms by simp_all
  show l: "s < length str" using c(1,3) by (cases c) auto
  have "hd (take (length c) (drop s str)) = str ! s" using c(1) l by (simp add: hd_drop_conv_nth hd_take)
  then show s: "str ! s = hd c" unfolding c(4) by simp
  show "hd c \<noteq> 0" using c(1,2) hd_in_set [of c] by metis
  show "peek str s = Some (hd c)" using l s by (simp add: peek_in_bounds)
qed

lemma chars_at_low: "chars_at enc str s (c # cs) \<Longrightarrow> \<not> IS_HIGHBIT_SET (hd c) \<Longrightarrow> c = [hd c]"
  by (cases c) auto

lemma chars_at_concat:
  "chars_at enc str s cs \<Longrightarrow> s \<le> length str \<Longrightarrow>
    take (length (concat cs)) (drop s str) = concat cs \<and> s + length (concat cs) \<le> length str"
proof (induction cs arbitrary: s)
  case (Cons c cs)
  have c: "s + length c \<le> length str" "take (length c) (drop s str) = c" "chars_at enc str (s + length c) cs"
    using Cons.prems by simp_all
  have "drop s str = c @ drop (s + length c) str"
    using append_take_drop_id [of "length c" "drop s str"] c(2) by (simp add: add.commute)
  then show ?case using Cons.IH [OF c(3,1)] by simp
qed simp

lemma memchr_found: "p < n \<Longrightarrow> p < length s \<Longrightarrow> s ! p = b \<Longrightarrow> \<exists>p'. memchr s b n = Some (Some p')"
proof (induction s b n arbitrary: p rule: memchr.induct)
  case (3 a s b n)
  show ?case
  proof (cases "a = b")
    case False
    then obtain q where "p = Suc q" using 3 by (cases p) auto
    then show ?thesis using 3 False by fastforce
  qed simp
qed auto

lemma memchr_none: "n \<le> length s \<Longrightarrow> b \<notin> set (take n s) \<Longrightarrow> memchr s b n = Some None"
  by (induction s b n rule: memchr.induct) auto

abbreviation count :: "byte list list \<Rightarrow> byte \<Rightarrow> nat" where
  "count cs b \<equiv> length (filter (\<lambda>c. c = [b]) cs)"

lemma high_not_single: "IS_HIGHBIT_SET (hd c) \<Longrightarrow> \<not> IS_HIGHBIT_SET b \<Longrightarrow> c \<noteq> [b]"
  by auto

lemma not_high_bslash [simp]: "\<not> IS_HIGHBIT_SET 92" "\<not> IS_HIGHBIT_SET 39" "\<not> IS_HIGHBIT_SET 34"
  by (simp_all add: IS_HIGHBIT_SET_def)

lemma scan_chars:
  assumes "chars_at enc str s cs" "s + length (concat cs) = E" "E \<le> n"
    "E = n \<or> (E < length str \<and> str ! E = 0)" and q: "\<not> IS_HIGHBIT_SET q" "q \<noteq> 92"
  shows "scan_quotes enc q str n s nq nb = Some (Inr (E, nq + count cs q, nb + count cs 92))"
  using assms(1-4)
proof (induction cs arbitrary: s nq nb)
  case Nil
  then show ?case by (subst scan_quotes.simps) (auto simp: peek_in_bounds)
next
  case (Cons c cs)
  note hd = chars_at_head [OF Cons.prems(1)]
  have sE: "s < n" using Cons.prems by (cases c) auto
  have IH: "scan_quotes enc q str n (s + length c) nq nb = Some (Inr (E, nq + count cs q, nb + count cs 92))" for nq nb
    using Cons by simp
  show ?case
  proof (cases "IS_HIGHBIT_SET (hd c)")
    case False
    note c = chars_at_low [OF Cons.prems(1) False]
    have l: "s + length c = Suc s" by (subst c) simp
    have eq: "c = [b] \<longleftrightarrow> hd c = b" for b by (subst c) auto
    show ?thesis using IH [unfolded l] sE hd False q(2)
      by (subst scan_quotes.simps) (auto simp: eq)
  next
    case True
    have l: "pg_encoding_mblen enc (drop s str) = Some (length c)" "s + length c \<le> n"
      using Cons.prems True by auto
    have m: "memchr (drop s str) 0 (length c) = Some None"
      using Cons.prems(1) by (intro memchr_none) auto
    have "hd c \<noteq> q" "hd c \<noteq> 92" using True q by auto
    then show ?thesis using IH sE hd True l m high_not_single [OF True q(1)] high_not_single [OF True]
      by (subst scan_quotes.simps) simp
  qed
qed

lemma no_nul_slice: "s + l \<le> length (text_of str n) \<Longrightarrow> 0 \<notin> set (take l (drop s str))"
proof
  assume l: "s + l \<le> length (text_of str n)" and "0 \<in> set (take l (drop s str))"
  then obtain i where "i < l" "str ! (s + i) = 0" by (auto simp: in_set_conv_nth)
  then show False using text_of_nth [of "s + i" str n] l by simp
qed

text \<open>
  On any bytes the scan returns: with a report, or having seen the characters of the whole string.
\<close>

lemma scan_total:
  assumes tm: "terminated str n" and q: "\<not> IS_HIGHBIT_SET q" "q \<noteq> 92" and "s \<le> length (text_of str n)"
  shows "(\<forall>nq nb. scan_quotes enc q str n s nq nb = Some (Inl ())) \<or>
    (\<exists>cs. chars_at enc str s cs \<and> s + length (concat cs) = length (text_of str n))"
  using assms(4)
proof (induction "length (text_of str n) - s" arbitrary: s rule: less_induct)
  case less
  let ?E = "length (text_of str n)"
  have len: "?E < length str" "?E \<le> n" using tm text_of_length by (auto simp: terminated_def)
  show ?case
  proof (cases "s < ?E")
    case False
    then show ?thesis using less.prems by (intro disjI2 exI [of _ "[]"]) simp
  next
    case True
    have c: "str ! s \<noteq> 0" "peek str s = Some (str ! s)" "s < n"
      using text_of_nth [OF True] True len by (auto simp: peek_in_bounds)
    have step: ?thesis if c': "c' \<noteq> []" "s + length c' \<le> ?E" "take (length c') (drop s str) = c'"
        "if IS_HIGHBIT_SET (hd c') then pg_encoding_mblen enc (drop s str) = Some (length c') else length c' = 1"
      and sc: "\<And>nq nb. \<exists>nq' nb'. scan_quotes enc q str n s nq nb = scan_quotes enc q str n (s + length c') nq' nb'" for c'
    proof -
      have "0 \<notin> set c'" using no_nul_slice [OF c'(2)] c'(3) by simp
      moreover have "?E - (s + length c') < ?E - s" using c'(1) True by (cases c') auto
      ultimately show ?thesis
      proof (cases "\<exists>cs. chars_at enc str (s + length c') cs \<and> s + length c' + length (concat cs) = ?E")
        case True
        then obtain cs where "chars_at enc str (s + length c') cs" "s + length c' + length (concat cs) = ?E" by blast
        then have "chars_at enc str s (c' # cs) \<and> s + length (concat (c' # cs)) = ?E"
          using c' \<open>0 \<notin> set c'\<close> len by simp
        then show ?thesis by blast
      next
        case False
        then show ?thesis using less.hyps [OF \<open>?E - (s + length c') < ?E - s\<close> c'(2)] sc by metis
      qed
    qed
    show ?thesis
    proof (cases "IS_HIGHBIT_SET (str ! s)")
      case False
      have "take 1 (drop s str) = [str ! s]" using True len by (simp add: take_Suc hd_drop_conv_nth)
      moreover have "\<exists>nq' nb'. scan_quotes enc q str n s nq nb = scan_quotes enc q str n (s + length [str ! s]) nq' nb'" for nq nb
        using c False by (subst scan_quotes.simps) auto
      ultimately show ?thesis using step [of "[str ! s]"] False True by simp
    next
      case high: True
      have ne: "str ! s \<noteq> q" "str ! s \<noteq> 92" using high q by auto
      have "2 \<le> length (drop s str)" using True len by simp
      from mblen_range [OF this] obtain l where l: "pg_encoding_mblen enc (drop s str) = Some l" "1 \<le> l" by blast
      show ?thesis
      proof (cases "s + l \<le> ?E")
        case False
        have "scan_quotes enc q str n s nq nb = Some (Inl ())" for nq nb
        proof (cases "s + l > n")
          case True
          then show ?thesis using c ne high by (subst scan_quotes.simps) (simp add: l)
        next
          case False
          then have "?E < n" using \<open>\<not> s + l \<le> ?E\<close> by linarith
          then have "str ! ?E = 0" by (rule text_of_end [OF _ tm])
          then have "\<exists>p'. memchr (drop s str) 0 l = Some (Some p')"
            using memchr_found [of "?E - s" l "drop s str" 0] \<open>\<not> s + l \<le> ?E\<close> \<open>s < ?E\<close> len by auto
          then show ?thesis using c ne high False by (subst scan_quotes.simps) (auto simp: l)
        qed
        then show ?thesis by blast
      next
        case fits: True
        let ?c = "take l (drop s str)"
        have lc: "length ?c = l" using fits len by simp
        have hc: "hd ?c = str ! s" using l(2) True len by (simp add: hd_drop_conv_nth hd_take)
        have "0 \<notin> set ?c" by (rule no_nul_slice [OF fits])
        then have "memchr (drop s str) 0 l = Some None" using fits len by (intro memchr_none) simp_all
        then have "scan_quotes enc q str n s nq nb = scan_quotes enc q str n (s + length ?c) nq nb" for nq nb
          using c ne high fits len unfolding lc by (subst scan_quotes.simps) (simp add: l)
        then show ?thesis using step [of ?c] l lc hc high fits by (metis list.size(3) not_one_le_zero)
      qed
    qed
  qed
qed


section \<open>Writing the characters\<close>

lemma written_blit:
  assumes "written to0 to target out" "target + length bs \<le> length to0"
  shows "\<exists>to'. blit to target bs = Some to' \<and> written to0 to' (target + length bs) (out @ bs)"
proof -
  have w: "target = length out" "to = out @ drop (length out) to0" using assms by (auto simp: written_def)
  have "blit to target bs = Some (out @ bs @ drop (length out + length bs) to0)"
    using w assms(2) by (simp add: blit_def add.commute)
  then show ?thesis using w assms(2) by (simp add: written_def)
qed

lemma copy_mb_result:
  assumes "1 \<le> i" "s + i \<le> length str" "written to0 buf rp out" "rp + i \<le> length to0"
  shows "\<exists>buf'. copy_mb str (int i) s buf rp = Some (s + i - 1, buf', rp + i)
    \<and> written to0 buf' (rp + i) (out @ take i (drop s str))"
  using assms
proof (induction i arbitrary: s buf rp out)
  case (Suc i)
  obtain buf1 where b: "poke buf rp (str ! s) = Some buf1" "written to0 buf1 (Suc rp) (out @ [str ! s])"
    using written_poke [OF Suc.prems(3)] Suc.prems(4) by fastforce
  have pk: "peek str s = Some (str ! s)" using Suc.prems(2) by (simp add: peek_in_bounds)
  have tk: "take (Suc i) (drop s str) = str ! s # take i (drop (Suc s) str)"
    using Suc.prems(2) by (simp add: Cons_nth_drop_Suc [symmetric])
  show ?case
  proof (cases "i = 0")
    case True
    then show ?thesis using b pk tk by (subst copy_mb.simps) simp
  next
    case False
    obtain buf2 where b2: "copy_mb str (int i) (Suc s) buf1 (Suc rp) = Some (Suc s + i - 1, buf2, Suc rp + i)"
      "written to0 buf2 (Suc rp + i) ((out @ [str ! s]) @ take i (drop (Suc s) str))"
      using Suc.IH [OF _ _ b(2), of "Suc s"] False Suc.prems(2,4) by auto
    have "copy_mb str (int (Suc i)) s buf rp = copy_mb str (int i) (Suc s) buf1 (Suc rp)"
      using b(1) pk False by (subst copy_mb.simps) simp
    then show ?thesis using b2 by (simp add: tk)
  qed
qed simp

text \<open>What \<open>PQescapeInternal\<close> doubles.\<close>

definition doubled :: "byte \<Rightarrow> bool \<Rightarrow> byte \<Rightarrow> bool" where
  "doubled q as_ident b \<longleftrightarrow> b = q \<or> (\<not> as_ident \<and> b = bslash_byte)"

lemma escape_char_length:
  assumes "q \<noteq> 92"
  shows "length (concat (map (escape_char (doubled q idn)) cs))
    = length (concat cs) + count cs q + (if idn then 0 else count cs 92)"
proof (induction cs)
  case (Cons c cs)
  have "length (escape_char (doubled q idn) c) = length c + (if c = [q] then 1 else 0) + (if \<not> idn \<and> c = [92] then 1 else 0)"
    using assms by (auto simp: escape_char_def doubled_def split: list.splits)
  then show ?case using Cons assms by auto
qed simp

lemma quote_loop_chars:
  assumes "chars_at enc str s cs" "s + length (concat cs) = E" "written to0 buf rp out"
    "rp + length (concat (map (escape_char (doubled q idn)) cs)) \<le> length to0" and q: "\<not> IS_HIGHBIT_SET q"
  shows "\<exists>buf'. quote_loop enc q idn str E s buf rp
        = Some (buf', rp + length (concat (map (escape_char (doubled q idn)) cs)))
    \<and> written to0 buf' (rp + length (concat (map (escape_char (doubled q idn)) cs)))
        (out @ concat (map (escape_char (doubled q idn)) cs))"
  using assms(1-4)
proof (induction cs arbitrary: s buf rp out)
  case Nil
  then show ?case by (subst quote_loop.simps) simp
next
  case (Cons c cs)
  let ?esc = "escape_char (doubled q idn)"
  note hd = chars_at_head [OF Cons.prems(1)]
  have sE: "s < E" using Cons.prems by (cases c) auto
  have ch: "chars_at enc str (s + length c) cs" "s + length c + length (concat cs) = E"
    using Cons.prems by simp_all
  have room: "rp + length (?esc c) + length (concat (map ?esc cs)) \<le> length to0" using Cons.prems(4) by simp
  have done1: ?case if "quote_loop enc q idn str E s buf rp = quote_loop enc q idn str E (s + length c) buf1 (rp + length (?esc c))"
      "written to0 buf1 (rp + length (?esc c)) (out @ ?esc c)" for buf1
    using Cons.IH [OF ch that(2)] room that(1) by (simp add: add.assoc)
  show ?case
  proof (cases "IS_HIGHBIT_SET (hd c)")
    case False
    note c = chars_at_low [OF Cons.prems(1) False]
    show ?thesis
    proof (cases "doubled q idn (hd c)")
      case True
      have ec: "?esc c = [hd c, hd c]" by (subst c) (simp add: escape_char_def True)
      obtain buf1 where b1: "poke buf rp (hd c) = Some buf1" "written to0 buf1 (Suc rp) (out @ [hd c])"
        using written_poke [OF Cons.prems(3)] room by (fastforce simp: ec)
      obtain buf2 where b2: "poke buf1 (Suc rp) (hd c) = Some buf2" "written to0 buf2 (Suc (Suc rp)) ((out @ [hd c]) @ [hd c])"
        using written_poke [OF b1(2)] room by (fastforce simp: ec)
      have l: "length c = 1" by (subst c) simp
      have "quote_loop enc q idn str E s buf rp = quote_loop enc q idn str E (s + length c) buf2 (rp + length (?esc c))"
        using sE hd b1(1) b2(1) by (subst quote_loop.simps) (simp add: ec l True [unfolded doubled_def])
      then show ?thesis by (rule done1) (use b2(2) in \<open>simp add: ec\<close>)
    next
      case nd: False
      have ec: "?esc c = [hd c]" by (subst c) (simp add: escape_char_def nd)
      obtain buf1 where b1: "poke buf rp (hd c) = Some buf1" "written to0 buf1 (Suc rp) (out @ [hd c])"
        using written_poke [OF Cons.prems(3)] room by (fastforce simp: ec)
      have l: "length c = 1" by (subst c) simp
      have "quote_loop enc q idn str E s buf rp = quote_loop enc q idn str E (s + length c) buf1 (rp + length (?esc c))"
        using sE hd b1(1) False by (subst quote_loop.simps) (simp add: ec l nd [unfolded doubled_def])
      then show ?thesis by (rule done1) (use b1(2) in \<open>simp add: ec\<close>)
    qed
  next
    case True
    have l: "pg_encoding_mblen enc (drop s str) = Some (length c)" "s + length c \<le> length str"
      "take (length c) (drop s str) = c" "1 \<le> length c"
      using Cons.prems(1) True by (auto simp: Suc_le_eq)
    have nd: "\<not> (hd c = q \<or> (\<not> idn \<and> hd c = 92))" using True q by auto
    have ec: "?esc c = c" using nd by (auto simp: escape_char_def doubled_def split: list.splits)
    have r: "rp + length c \<le> length to0" using room by (simp add: ec)
    obtain buf1 where b1: "copy_mb str (int (length c)) s buf rp = Some (s + length c - 1, buf1, rp + length c)"
      "written to0 buf1 (rp + length c) (out @ c)"
      using copy_mb_result [OF l(4,2) Cons.prems(3) r] unfolding l(3) by blast
    have e: "s + length c - 1 + 1 = s + length c" using l(4) by simp
    have "quote_loop enc q idn str E s buf rp = quote_loop enc q idn str E (s + length c) buf1 (rp + length (?esc c))"
      using sE hd True e by (subst quote_loop.simps) (simp add: ec l(1) b1(1) nd)
    then show ?thesis by (rule done1) (use b1(2) in \<open>simp add: ec\<close>)
  qed
qed


lemma count_zero_escape:
  assumes "count cs q = 0" "idn \<or> count cs 92 = 0"
  shows "concat (map (escape_char (doubled q idn)) cs) = concat cs"
  using assms
proof (induction cs)
  case (Cons c cs)
  have "escape_char (doubled q idn) c = c"
    using Cons.prems by (auto simp: escape_char_def doubled_def split: list.splits if_splits)
  moreover have "count cs q = 0" "idn \<or> count cs 92 = 0" using Cons.prems by (auto split: if_splits)
  ultimately show ?case using Cons.IH by simp
qed simp

section \<open>The result\<close>

definition quote_prefix :: "bool \<Rightarrow> byte list list \<Rightarrow> byte list" where
  "quote_prefix idn cs = (if \<not> idn \<and> count cs 92 > 0 then [space_byte, 69] else [])"

text \<open>The output for the characters \<open>cs\<close>: it fills the allocated buffer to the last byte.\<close>

definition quoted :: "byte \<Rightarrow> bool \<Rightarrow> byte list list \<Rightarrow> byte list" where
  "quoted q idn cs = quote_prefix idn cs @ [q] @ concat (map (escape_char (doubled q idn)) cs) @ [q]"

lemma quoted_length:
  assumes "q \<noteq> 92"
  shows "length (quoted q idn cs @ [0]) = length (concat cs) + count cs q + 3 +
      (if \<not> idn \<and> count cs 92 > 0 then count cs 92 + 2 else 0)"
  unfolding quoted_def quote_prefix_def using escape_char_length [OF assms, of idn cs] by auto

lemma written_full: "written to0 buf n out \<Longrightarrow> length out = length to0 \<Longrightarrow> buf = out"
  by (simp add: written_def)

lemma escape_internal_chars:
  fixes idn :: bool
  defines "q \<equiv> (if idn then 34 else 39 :: byte)"
  assumes chars: "chars_at (client_encoding c) str 0 cs" and E: "length (concat cs) = length (text_of str n)"
    and tm: "terminated str n" and small: "length (quoted q idn cs) < INT_MAX"
  shows "PQescapeInternal vsn (Some c) str n idn h = (case malloc (length (quoted q idn cs @ [0])) h of
      (None, h) \<Rightarrow> do { (c, h) \<leftarrow> print_error vsn ''out of memory'' c h; Some (None, Some c, h) }
    | (Some _, h) \<Rightarrow> Some (Some (quoted q idn cs @ [0]), Some c, h))"
proof -
  let ?E = "length (text_of str n)" and ?S = "length (quoted q idn cs @ [0])"
  have q: "\<not> IS_HIGHBIT_SET q" "q \<noteq> 92" by (simp_all add: q_def)
  have end_cond: "?E = n \<or> (?E < length str \<and> str ! ?E = 0)"
    using text_of_end [OF _ tm] text_of_length [of str n] tm by (auto simp: terminated_def le_less)
  have scan: "scan_quotes (client_encoding c) q str n 0 0 0 = Some (Inr (?E, count cs q, count cs 92))"
    using scan_chars [OF chars _ text_of_length end_cond q, of 0 0] E by simp
  note S = quoted_length [OF q(2), of idn cs, unfolded E]
  have sz: "?E + count cs q + 3 + (if \<not> idn \<and> count cs 92 > 0 then count cs 92 + 2 else 0) = ?S"
    using S by simp
  have notbig: "\<not> ?S > INT_MAX" using small by simp
  define body where "body = concat (map (escape_char (doubled q idn)) cs)"
  define pre where "pre = quote_prefix idn cs"
  have lS: "?S = length pre + length body + 3" by (simp add: quoted_def body_def pre_def)
  have fill: "do {
       (buf, rp) \<leftarrow> (if \<not> idn \<and> count cs 92 > 0
         then do { buf \<leftarrow> poke to0 0 space_byte; buf \<leftarrow> poke buf 1 69; Some (buf, 2) }
         else Some (to0, 0));
       buf \<leftarrow> poke buf rp q;
       (buf, rp) \<leftarrow> (if count cs q = 0 \<and> (count cs 92 = 0 \<or> idn)
         then do { buf \<leftarrow> memcpy_from buf (rp + 1) str ?E; Some (buf, rp + 1 + ?E) }
         else quote_loop (client_encoding c) q idn str ?E 0 buf (rp + 1));
       buf \<leftarrow> poke buf rp q;
       buf \<leftarrow> poke buf (rp + 1) 0;
       Some (Some buf, Some c, h') } = Some (Some (quoted q idn cs @ [0]), Some c, h')"
    if to0: "length to0 = ?S" for to0 :: "byte list" and h' :: heap
  proof -
    obtain b1 where b1: "(if \<not> idn \<and> count cs 92 > 0
         then do { buf \<leftarrow> poke to0 0 space_byte; buf \<leftarrow> poke buf 1 69; Some (buf, 2) }
         else Some (to0, 0)) = Some (b1, length pre)" "written to0 b1 (length pre) pre"
    proof (cases "\<not> idn \<and> count cs 92 > 0")
      case True
      obtain x where x: "poke to0 0 32 = Some x" "written to0 x 1 [32]"
        using written_poke [OF written_init, of to0 32] to0 lS by auto
      have pre: "pre = [32, 69]" using True by (simp add: pre_def quote_prefix_def)
      have "1 < length to0" using to0 lS by linarith
      then obtain y where y: "poke x 1 69 = Some y" "written to0 y (Suc 1) ([32] @ [69])"
        using written_poke [OF x(2)] by blast
      have "written to0 y (length pre) pre" using y(2) by (simp add: pre)
      moreover have "length pre = 2" by (simp add: pre)
      ultimately show thesis using that [of y] x(1) y(1) True by simp
    next
      case False
      then show thesis using that [of to0] by (auto simp: pre_def quote_prefix_def)
    qed
    obtain b2 where b2: "poke b1 (length pre) q = Some b2" "written to0 b2 (Suc (length pre)) (pre @ [q])"
      using written_poke [OF b1(2)] to0 lS by fastforce
    have room: "Suc (length pre) + length body \<le> length to0" using to0 lS by simp
    have ql: "\<exists>b3. (if count cs q = 0 \<and> (count cs 92 = 0 \<or> idn)
         then do { buf \<leftarrow> memcpy_from b2 (length pre + 1) str ?E; Some (buf, length pre + 1 + ?E) }
         else quote_loop (client_encoding c) q idn str ?E 0 b2 (length pre + 1))
        = Some (b3, Suc (length pre) + length body) \<and> written to0 b3 (Suc (length pre) + length body) ((pre @ [q]) @ body)"
    proof (cases "count cs q = 0 \<and> (count cs 92 = 0 \<or> idn)")
      case True
      then have b: "body = concat cs" unfolding body_def using count_zero_escape by blast
      have "take ?E str = concat cs" "?E \<le> length str"
        using chars_at_concat [OF chars] E by simp_all
      moreover obtain b3 where "blit b2 (Suc (length pre)) (concat cs) = Some b3"
        "written to0 b3 (Suc (length pre) + length body) ((pre @ [q]) @ body)"
        using written_blit [OF b2(2), of "concat cs"] room b by auto
      ultimately show ?thesis unfolding if_P [OF True] using E b by (simp add: memcpy_from_def)
    next
      case False
      show ?thesis unfolding if_not_P [OF False] body_def
        using quote_loop_chars [OF chars _ b2(2) _ q(1), of ?E idn] E room body_def by simp
    qed
    then obtain b3 where b3: "(if count cs q = 0 \<and> (count cs 92 = 0 \<or> idn)
         then do { buf \<leftarrow> memcpy_from b2 (length pre + 1) str ?E; Some (buf, length pre + 1 + ?E) }
         else quote_loop (client_encoding c) q idn str ?E 0 b2 (length pre + 1))
        = Some (b3, Suc (length pre) + length body)"
        "written to0 b3 (Suc (length pre) + length body) ((pre @ [q]) @ body)" by blast
    obtain b4 where b4: "poke b3 (Suc (length pre) + length body) q = Some b4"
      "written to0 b4 (Suc (Suc (length pre) + length body)) (((pre @ [q]) @ body) @ [q])"
      using written_poke [OF b3(2)] to0 lS by fastforce
    obtain b5 where b5: "poke b4 (Suc (Suc (length pre) + length body)) 0 = Some b5"
      "written to0 b5 (Suc (Suc (Suc (length pre) + length body))) ((((pre @ [q]) @ body) @ [q]) @ [0])"
      using written_poke [OF b4(2)] to0 lS by fastforce
    have "b5 = quoted q idn cs @ [0]"
      using written_full [OF b5(2)] to0 lS by (simp add: quoted_def body_def pre_def)
    then show ?thesis unfolding b1(1) using b2(1) b3(1) b4(1) b5(1) by simp
  qed
  have "PQescapeInternal vsn (Some c) str n idn h = (case malloc ?S h of
      (None, h) \<Rightarrow> do { (c, h) \<leftarrow> print_error vsn ''out of memory'' c h; Some (None, Some c, h) }
    | (Some buf, h') \<Rightarrow> do {
       (buf, rp) \<leftarrow> (if \<not> idn \<and> count cs 92 > 0
         then do { buf \<leftarrow> poke buf 0 space_byte; buf \<leftarrow> poke buf 1 69; Some (buf, 2) }
         else Some (buf, 0));
       buf \<leftarrow> poke buf rp q;
       (buf, rp) \<leftarrow> (if count cs q = 0 \<and> (count cs 92 = 0 \<or> idn)
         then do { buf \<leftarrow> memcpy_from buf (rp + 1) str ?E; Some (buf, rp + 1 + ?E) }
         else quote_loop (client_encoding c) q idn str ?E 0 buf (rp + 1));
       buf \<leftarrow> poke buf rp q;
       buf \<leftarrow> poke buf (rp + 1) 0;
       Some (Some buf, Some c, h') })"
    unfolding PQescapeInternal_def Let_def option.case q_def [symmetric] scan bind.bind_lunit sum.case
      prod.case sz if_not_P [OF notbig] by (rule refl)
  also have "\<dots> = (case malloc ?S h of
      (None, h) \<Rightarrow> do { (c, h) \<leftarrow> print_error vsn ''out of memory'' c h; Some (None, Some c, h) }
    | (Some _, h) \<Rightarrow> Some (Some (quoted q idn cs @ [0]), Some c, h))"
  proof (cases rule: malloc_cases [of ?S h])
    case (2 h')
    show ?thesis unfolding 2 prod.case option.case by (rule fill) simp
  qed simp
  finally show ?thesis .
qed


section \<open>Valid text\<close>

lemma chars_at_text:
  assumes tm: "terminated str n" and e: "PG_VALID_ENCODING e"
    and "wf_text (pg_encoding_verifymb e) (drop s (text_of str n)) cs"
  shows "chars_at e str s cs"
  using assms(3)
proof (induction cs arbitrary: s)
  case (Cons c cs)
  note enc = table_encoding [OF e]
  obtain r where r: "wf_char (pg_encoding_verifymb e) c" "drop s (text_of str n) = c @ r"
    "wf_text (pg_encoding_verifymb e) r cs"
    using Cons.prems by (auto simp: wf_text_Cons)
  have c: "c \<noteq> []" "0 \<notin> set c" using r(1) mb_encoding.wf_char_no_nul [OF enc] by (auto simp: wf_char_def)
  note mem = drop_text_of [OF tm r(2) c(1)]
  have "length c + length r = length (text_of str n) - s" using arg_cong [OF r(2), of length] by simp
  moreover have "0 < length c" using c(1) by simp
  moreover have "length (text_of str n) < length str" using tm by (simp add: terminated_def)
  ultimately have l: "s + length c \<le> length str" by linarith
  have "drop (s + length c) (text_of str n) = r"
    using arg_cong [OF r(2), of "drop (length c)"] by (simp add: add.commute)
  then have "chars_at e str (s + length c) cs" using Cons.IH r(3) by simp
  moreover have "pg_encoding_mblen e (drop s str) = Some (length c)"
    unfolding mem using mb_encoding.mblen_of_char [OF enc r(1)] by simp
  moreover have "\<not> IS_HIGHBIT_SET (hd c) \<longrightarrow> length c = 1"
    using mb_encoding.wf_char_head_low [OF enc, of "hd c" "tl c"] r(1) c(1) by (cases c) auto
  ultimately show ?case using c l mem by auto
qed simp

lemma escape_length_le: "length (concat (map (escape_char dbl) cs)) \<le> 2 * length (concat cs)"
proof (induction cs)
  case (Cons c cs)
  have "length (escape_char dbl c) \<le> 2 * length c" by (auto simp: escape_char_def split: list.splits)
  then show ?case using Cons by simp
qed simp

lemma quoted_length_le: "length (quoted q idn cs) \<le> 2 * length (concat cs) + 4"
  using escape_length_le [of "doubled q idn" cs] by (auto simp: quoted_def quote_prefix_def)

lemma escape_internal_text:
  assumes "terminated str n" "PG_VALID_ENCODING (client_encoding c)"
    and wf: "wf_text (pg_encoding_verifymb (client_encoding c)) (text_of str n) cs"
    and small: "2 * n + 4 < INT_MAX" and mem: "plenty 1 h"
  shows "\<exists>h'. PQescapeInternal vsn (Some c) str n idn h
    = Some (Some (quoted (if idn then 34 else 39) idn cs @ [0]), Some c, h')"
proof -
  have ch: "chars_at (client_encoding c) str 0 cs" using chars_at_text [OF assms(1,2)] wf by simp
  have E: "length (concat cs) = length (text_of str n)" using wf by (simp add: wf_text_def)
  have "length (concat cs) \<le> n" using E text_of_length by simp
  then have "length (quoted (if idn then 34 else 39) idn cs) < INT_MAX"
    using quoted_length_le [of "if idn then 34 else 39" idn cs] small by linarith
  note r = escape_internal_chars [OF ch E assms(1) this]
  obtain h' where "malloc (length (quoted (if idn then 34 else 39) idn cs @ [0])) h
      = (Some (fresh h (length (quoted (if idn then 34 else 39) idn cs @ [0]))), h')"
    using plenty_malloc [of 0 h] mem by auto
  then show ?thesis unfolding r by simp
qed

lemma escape_chars_cong: "c \<noteq> [92] \<Longrightarrow> escape_chars (doubled q False) c = escape_chars (doubled q True) c"
  by (auto simp: escape_chars_def doubled_def split: list.splits)

lemma map_escape_chars_cong: "count cs 92 = 0 \<Longrightarrow> map (escape_chars (doubled q False)) cs = map (escape_chars (doubled q True)) cs"
  by (intro map_cong refl escape_chars_cong) (auto simp: filter_empty_conv)

lemma doubled_literal: "doubled 39 False = (\<lambda>b. SQL_STR_DOUBLE b (\<not> False))"
    "doubled 39 True = (\<lambda>b. SQL_STR_DOUBLE b (\<not> True))" "doubled 34 True = (\<lambda>b. b = 34)"
  by (auto simp: doubled_def SQL_STR_DOUBLE_def fun_eq_iff)

section \<open>Properties\<close>

text \<open>
  C32: For all bytes and all encodings \<open>PQescapeInternal\<close> returns without leaving its buffers: either
  a null pointer, with a valid error message, or a buffer of exactly the allocated size that holds
  the string, taken apart into characters, between quotes and with the special bytes doubled.
\<close>

theorem PQescapeInternal_bounds:
  assumes "terminated str n" "2 * n + 4 < INT_MAX" "formatter_ok vsn" "eb_inv (errorMessage conn)"
  shows "\<exists>r conn' h'. PQescapeInternal vsn (Some conn) str n as_ident h = Some (r, Some conn', h')
    \<and> eb_inv (errorMessage conn')
    \<and> (\<forall>buf. r = Some buf \<longrightarrow> (\<exists>cs. concat cs = text_of str n \<and> buf = quoted (if as_ident then 34 else 39) as_ident cs @ [0]))"
proof -
  let ?q = "if as_ident then 34 else 39 :: byte"
  have q: "\<not> IS_HIGHBIT_SET ?q" "?q \<noteq> 92" by simp_all
  have err: "\<exists>c' h'. print_error vsn m conn h = Some (c', h') \<and> eb_inv (errorMessage c')" for m h
    using print_error_result [OF assms(3,4), of m h] by auto
  from scan_total [OF assms(1) q le0, of "client_encoding conn"] show ?thesis
  proof (elim disjE exE)
    assume *: "\<forall>nq nb. scan_quotes (client_encoding conn) ?q str n 0 nq nb = Some (Inl ())"
    obtain c' h' where e: "print_error vsn ''incomplete multibyte character'' conn h = Some (c', h')"
      "eb_inv (errorMessage c')"
      using err by blast
    have "PQescapeInternal vsn (Some conn) str n as_ident h = Some (None, Some c', h')"
      unfolding PQescapeInternal_def Let_def option.case *[rule_format] by (simp add: e(1))
    then show ?thesis using e(2) by simp
  next
    fix cs assume *: "chars_at (client_encoding conn) str 0 cs \<and> 0 + length (concat cs) = length (text_of str n)"
    then have E: "length (concat cs) = length (text_of str n)" by simp
    have "length (concat cs) \<le> n" using E text_of_length by simp
    then have "length (quoted ?q as_ident cs) < INT_MAX"
      using quoted_length_le [of ?q as_ident cs] assms(2) by linarith
    note r = escape_internal_chars [OF conjunct1 [OF *] E assms(1) this]
    have "take (length (concat cs)) (drop 0 str) = concat cs"
      using chars_at_concat [OF conjunct1 [OF *]] by blast
    then have "concat cs = text_of str n" unfolding E drop_0 text_of_take [OF assms(1)] by (rule sym)
    note cs = this
    show ?thesis
    proof (cases rule: malloc_cases [of "length (quoted ?q as_ident cs @ [0])" h])
      case (1 h1)
      obtain c' h2 where e: "print_error vsn ''out of memory'' conn h1 = Some (c', h2)" "eb_inv (errorMessage c')"
        using err by blast
      have "PQescapeInternal vsn (Some conn) str n as_ident h = Some (None, Some c', h2)"
        unfolding r 1 by (simp add: e(1))
      then show ?thesis using e(2) by simp
    next
      case (2 h1)
      have "PQescapeInternal vsn (Some conn) str n as_ident h
          = Some (Some (quoted ?q as_ident cs @ [0]), Some conn, h1)"
        unfolding r 2 by simp
      then show ?thesis using cs assms(4) by blast
    qed
  qed
qed

theorem PQescapeInternal_bounds_witness:
  "\<exists>r conn' h'. PQescapeInternal plain_formatter (Some test_conn) [65, 0x8F, 39, 0] 3 False \<lparr>answers = [True], junk = \<lambda>i. 7\<rparr>
    = Some (r, Some conn', h') \<and> eb_inv (errorMessage conn')"
  using PQescapeInternal_bounds [of "[65, 0x8F, 39, 0]" 3 plain_formatter test_conn False "\<lparr>answers = [True], junk = \<lambda>i. 7\<rparr>"]
  by (auto simp: plain_formatter_ok terminated_def text_of_def INT_MAX_def)

text \<open>
  C6: \<open>PQescapeLiteral\<close> of valid text is a literal that reads back as the same characters: without
  backslashes in the text under both settings of \<open>standard_conforming_strings\<close>, otherwise in the
  escape string syntax behind a space.
\<close>

theorem PQescapeLiteral_roundtrip:
  assumes "terminated str n" "PG_VALID_ENCODING (client_encoding conn)"
    and "wf_text (pg_encoding_verifymb (client_encoding conn)) (text_of str n) cs"
    and "2 * n + 4 < INT_MAX" "plenty 1 h"
  shows "\<exists>out ds h'. PQescapeLiteral vsn (Some conn) str n h = Some (Some (out @ [0]), Some conn, h')
    \<and> list_all (wf_char (pg_encoding_verifymb (client_encoding conn))) ds
    \<and> (out = [39] @ concat ds @ [39] \<and> literal_body True ds = Some cs \<and> literal_body False ds = Some cs
       \<or> out = [32, 69, 39] @ concat ds @ [39] \<and> literal_body False ds = Some cs)"
proof -
  let ?ds = "concat (map (escape_chars (doubled 39 False)) cs)"
  obtain h' where r: "PQescapeLiteral vsn (Some conn) str n h = Some (Some (quoted 39 False cs @ [0]), Some conn, h')"
    using escape_internal_text [OF assms, of vsn False] unfolding PQescapeLiteral_def if_False by blast
  have wf: "list_all (wf_char (pg_encoding_verifymb (client_encoding conn))) ?ds"
    using assms(3) mb_encoding.wf_text_escape [OF table_encoding [OF assms(2)]] by (simp add: wf_text_def)
  have c: "concat ?ds = concat (map (escape_char (doubled 39 False)) cs)" by (rule concat_map_escape_chars)
  have f: "literal_body False ?ds = Some cs"
    using quoted_body_escape [of "doubled 39 False" cs] unfolding literal_body_def doubled_literal(1) .
  have t: "literal_body True ?ds = Some cs" if "count cs 92 = 0"
    unfolding map_escape_chars_cong [OF that] literal_body_def doubled_literal(2) [symmetric]
    by (rule quoted_body_escape)
  show ?thesis
  proof (cases "count cs 92 = 0")
    case True
    then have "quoted 39 False cs = [39] @ concat ?ds @ [39]" by (simp add: quoted_def quote_prefix_def c)
    then show ?thesis using r wf f t [OF True] by blast
  next
    case False
    then have "quoted 39 False cs = [32, 69, 39] @ concat ?ds @ [39]" by (simp add: quoted_def quote_prefix_def c)
    then show ?thesis using r wf f by blast
  qed
qed

text \<open>A text with a quote, a euro sign and a backslash, in UTF-8.\<close>

lemma sample_text:
  "wf_text (pg_encoding_verifymb (client_encoding test_conn)) (text_of [39, 0xE2, 0x82, 0xAC, 92, 0] 5) [[39], [0xE2, 0x82, 0xAC], [92]]"
  "PG_VALID_ENCODING (client_encoding test_conn)" "terminated [39, 0xE2, 0x82, 0xAC, 92, 0] 5"
  "plenty 1 \<lparr>answers = [True], junk = \<lambda>i. 7\<rparr>"
  by (simp_all add: wf_text_def text_of_def wf_char_def verifymb_utf8 [unfolded pg_enc_id_def pg_enc_order_def, simplified]
      pg_utf8_verifier_def pg_utf8_islegal_def pg_utf_mblen_def PG_VALID_ENCODING_def PG_LAST_ENCODING_eq
      terminated_def plenty_def)

theorem PQescapeLiteral_roundtrip_witness:
  "\<exists>out ds h'. PQescapeLiteral plain_formatter (Some test_conn) [39, 0xE2, 0x82, 0xAC, 92, 0] 5 \<lparr>answers = [True], junk = \<lambda>i. 7\<rparr>
    = Some (Some (out @ [0]), Some test_conn, h') \<and> literal_body False ds = Some [[39], [0xE2, 0x82, 0xAC], [92]]"
  using PQescapeLiteral_roundtrip [OF sample_text(3,2,1) _ sample_text(4), of plain_formatter]
  by (auto simp: INT_MAX_def)

text \<open>
  C31: \<open>PQescapeIdentifier\<close> of valid text is the text between double quotes, which the reader of quoted
  identifiers turns back into the same characters.
\<close>

theorem PQescapeIdentifier_roundtrip:
  assumes "terminated str n" "PG_VALID_ENCODING (client_encoding conn)"
    and "wf_text (pg_encoding_verifymb (client_encoding conn)) (text_of str n) cs"
    and "2 * n + 4 < INT_MAX" "plenty 1 h"
  shows "\<exists>ds h'. PQescapeIdentifier vsn (Some conn) str n h = Some (Some ([34] @ concat ds @ [34, 0]), Some conn, h')
    \<and> list_all (wf_char (pg_encoding_verifymb (client_encoding conn))) ds \<and> quoted_body (\<lambda>b. b = 34) ds = Some cs"
proof -
  let ?ds = "concat (map (escape_chars (doubled 34 True)) cs)"
  obtain h' where r: "PQescapeIdentifier vsn (Some conn) str n h = Some (Some (quoted 34 True cs @ [0]), Some conn, h')"
    using escape_internal_text [OF assms, of vsn True] unfolding PQescapeIdentifier_def if_True by blast
  have "list_all (wf_char (pg_encoding_verifymb (client_encoding conn))) ?ds"
    using assms(3) mb_encoding.wf_text_escape [OF table_encoding [OF assms(2)]] by (simp add: wf_text_def)
  moreover have "quoted 34 True cs @ [0] = [34] @ concat ?ds @ [34, 0]"
    by (simp add: quoted_def quote_prefix_def concat_map_escape_chars)
  moreover have "quoted_body (\<lambda>b. b = 34) ?ds = Some cs"
    using quoted_body_escape [of "doubled 34 True" cs] unfolding doubled_literal(3) .
  ultimately show ?thesis using r by metis
qed

theorem PQescapeIdentifier_roundtrip_witness:
  "\<exists>ds h'. PQescapeIdentifier plain_formatter (Some test_conn) [39, 0xE2, 0x82, 0xAC, 92, 0] 5 \<lparr>answers = [True], junk = \<lambda>i. 7\<rparr>
    = Some (Some ([34] @ concat ds @ [34, 0]), Some test_conn, h') \<and> quoted_body (\<lambda>b. b = 34) ds = Some [[39], [0xE2, 0x82, 0xAC], [92]]"
  using PQescapeIdentifier_roundtrip [OF sample_text(3,2,1) _ sample_text(4), of plain_formatter]
  by (auto simp: INT_MAX_def)

end
