(* ===== verification/Bytea.thy ===== *)
theory Bytea
  imports Escape_Quote
begin

text \<open>
  The text forms of binary strings in \<open>fe-exec.c\<close>: \<open>PQescapeBytea\<close> and its variants write a
  \<open>bytea\<close> value into an SQL literal, \<open>PQunescapeBytea\<close> reads the text form that a server returns.
\<close>

section \<open>Definitions\<close>

definition hextbl :: "byte list" where
  "hextbl = [48, 49, 50, 51, 52, 53, 54, 55, 56, 57, 97, 98, 99, 100, 101, 102]"

definition hexlookup :: "int list" where
  "hexlookup = [
     -1, -1, -1, -1, -1, -1, -1, -1, -1, -1, -1, -1, -1, -1, -1, -1,
     -1, -1, -1, -1, -1, -1, -1, -1, -1, -1, -1, -1, -1, -1, -1, -1,
     -1, -1, -1, -1, -1, -1, -1, -1, -1, -1, -1, -1, -1, -1, -1, -1,
     0, 1, 2, 3, 4, 5, 6, 7, 8, 9, -1, -1, -1, -1, -1, -1,
     -1, 10, 11, 12, 13, 14, 15, -1, -1, -1, -1, -1, -1, -1, -1, -1,
     -1, -1, -1, -1, -1, -1, -1, -1, -1, -1, -1, -1, -1, -1, -1, -1,
     -1, 10, 11, 12, 13, 14, 15, -1, -1, -1, -1, -1, -1, -1, -1, -1,
     -1, -1, -1, -1, -1, -1, -1, -1, -1, -1, -1, -1, -1, -1, -1, -1]"

text \<open>The argument is a plain \<open>char\<close>, which is signed.\<close>

definition get_hex :: "byte \<Rightarrow> int" where
  "get_hex c = (if 0 < sint c \<and> sint c < 127 then hexlookup ! unat c else -1)"

text \<open>The loop that computes the length in escape format, in \<open>size_t\<close>.\<close>

fun escaped_len :: "nat \<Rightarrow> byte list \<Rightarrow> nat \<Rightarrow> nat \<Rightarrow> nat \<Rightarrow> nat option" where
  "escaped_len bslash_len from 0 vp len = Some len"
| "escaped_len bslash_len from (Suc i) vp len = do {
     c \<leftarrow> peek from vp;
     escaped_len bslash_len from i (vp + 1) (size_t (len +
       (if c < 0x20 \<or> c > 0x7e then bslash_len + 3
        else if c = quote_byte then 2
        else if c = bslash_byte then bslash_len + bslash_len
        else 1))) }"

text \<open>Consecutive stores \<open>*rp++ = b\<close>.\<close>

fun put_bytes :: "byte list \<Rightarrow> nat \<Rightarrow> byte list \<Rightarrow> (byte list \<times> nat) option" where
  "put_bytes buf rp [] = Some (buf, rp)"
| "put_bytes buf rp (b # bs) = do { buf \<leftarrow> poke buf rp b; put_bytes buf (rp + 1) bs }"

text \<open>What the main loop stores for one byte.\<close>

definition bytea_char :: "bool \<Rightarrow> bool \<Rightarrow> byte \<Rightarrow> byte list" where
  "bytea_char std_strs use_hex c =
    (if use_hex then [hextbl ! unat (drop_bit 4 c AND 0xF), hextbl ! unat (c AND 0xF)]
     else if c < 0x20 \<or> c > 0x7e then
       (if \<not> std_strs then [bslash_byte] else []) @
       [bslash_byte, drop_bit 6 c + 48, (drop_bit 3 c AND 7) + 48, (c AND 7) + 48]
     else if c = quote_byte then [quote_byte, quote_byte]
     else if c = bslash_byte then
       (if \<not> std_strs then [bslash_byte, bslash_byte] else []) @ [bslash_byte, bslash_byte]
     else [c])"

fun bytea_loop :: "bool \<Rightarrow> bool \<Rightarrow> byte list \<Rightarrow> nat \<Rightarrow> nat \<Rightarrow> byte list \<Rightarrow> nat \<Rightarrow> (byte list \<times> nat) option" where
  "bytea_loop std_strs use_hex from 0 vp buf rp = Some (buf, rp)"
| "bytea_loop std_strs use_hex from (Suc i) vp buf rp = do {
     c \<leftarrow> peek from vp;
     (buf, rp) \<leftarrow> put_bytes buf rp (bytea_char std_strs use_hex c);
     bytea_loop std_strs use_hex from i (vp + 1) buf rp }"

text \<open>The result: the buffer or a null pointer, the value of \<open>*to_length\<close>, and the connection.\<close>

definition PQescapeByteaInternal ::
  "formatter \<Rightarrow> PGconn option \<Rightarrow> byte list \<Rightarrow> nat \<Rightarrow> bool \<Rightarrow> bool \<Rightarrow> heap
   \<Rightarrow> (byte list option \<times> nat \<times> PGconn option \<times> heap) option" where
  "PQescapeByteaInternal vsn conn from from_length std_strs use_hex h = do {
     let bslash_len = (if std_strs then 1 else 2 :: nat);
     len \<leftarrow> (if use_hex then Some (size_t (1 + bslash_len + 1 + 2 * from_length))
             else escaped_len bslash_len from from_length 0 1);
     case malloc len h of
       (None, h) \<Rightarrow>
         (case conn of
            Some c \<Rightarrow> do {
              (c, h) \<leftarrow> print_error vsn ''out of memory'' c h;
              Some (None, len, Some c, h) }
          | None \<Rightarrow> Some (None, len, None, h))
     | (Some buf, h) \<Rightarrow> do {
         (buf, rp) \<leftarrow> (if use_hex
            then put_bytes buf 0 ((if \<not> std_strs then [bslash_byte] else []) @ [bslash_byte, 120])
            else Some (buf, 0));
         (buf, rp) \<leftarrow> bytea_loop std_strs use_hex from from_length 0 buf rp;
         buf \<leftarrow> poke buf rp 0;
         Some (Some buf, len, conn, h) } }"

definition PQescapeByteaConn ::
  "formatter \<Rightarrow> PGconn option \<Rightarrow> byte list \<Rightarrow> nat \<Rightarrow> heap
   \<Rightarrow> (byte list option \<times> nat option \<times> PGconn option \<times> heap) option" where
  "PQescapeByteaConn vsn conn from from_length h = (case conn of
     None \<Rightarrow> Some (None, None, None, h)
   | Some c \<Rightarrow> do {
       (r, len, conn, h) \<leftarrow> PQescapeByteaInternal vsn conn from from_length (std_strings c) (sversion c \<ge> 90000) h;
       Some (r, Some len, conn, h) })"

definition PQescapeBytea ::
  "formatter \<Rightarrow> bool \<Rightarrow> byte list \<Rightarrow> nat \<Rightarrow> heap \<Rightarrow> (byte list option \<times> nat \<times> PGconn option \<times> heap) option" where
  "PQescapeBytea vsn static_std_strings from from_length h =
    PQescapeByteaInternal vsn None from from_length static_std_strings False h"

definition ISFIRSTOCTDIGIT :: "byte \<Rightarrow> bool" where "ISFIRSTOCTDIGIT c \<longleftrightarrow> 48 \<le> c \<and> c \<le> 51"
definition ISOCTDIGIT :: "byte \<Rightarrow> bool" where "ISOCTDIGIT c \<longleftrightarrow> 48 \<le> c \<and> c \<le> 55"
definition OCTVAL :: "byte \<Rightarrow> int" where "OCTVAL c = uint c - 48"

text \<open>The loop of the hex format: \<open>s\<close> reads the text, \<open>p\<close> writes the buffer.\<close>

partial_function (option) unhex_loop :: "byte list \<Rightarrow> nat \<Rightarrow> byte list \<Rightarrow> nat \<Rightarrow> (byte list \<times> nat) option" where
  "unhex_loop str s buf p = do {
     c \<leftarrow> peek str s;
     if c = 0 then Some (buf, p)
     else do {
       let v1 = get_hex c;
       d \<leftarrow> peek str (s + 1);
       if d = 0 \<or> v1 = -1 then unhex_loop str (s + 1) buf p
       else do {
         let v2 = get_hex d;
         if v2 \<noteq> -1 then do {
           buf \<leftarrow> poke buf p (push_bit 4 (word_of_int v1) OR word_of_int v2);
           unhex_loop str (s + 2) buf (p + 1) }
         else unhex_loop str (s + 2) buf p } } }"

text \<open>The test for an octal escape, whose conjunctions stop at the first byte that fails.\<close>

definition octal_at :: "byte list \<Rightarrow> nat \<Rightarrow> bool option" where
  "octal_at str i = do {
     a \<leftarrow> peek str i;
     if \<not> ISFIRSTOCTDIGIT a then Some False
     else do {
       b \<leftarrow> peek str (i + 1);
       if \<not> ISOCTDIGIT b then Some False
       else do {
         c \<leftarrow> peek str (i + 2);
         Some (ISOCTDIGIT c) } } }"

partial_function (option) unescape_loop ::
  "byte list \<Rightarrow> nat \<Rightarrow> nat \<Rightarrow> byte list \<Rightarrow> nat \<Rightarrow> (byte list \<times> nat) option" where
  "unescape_loop str strtextlen i buf j =
    (if i < strtextlen then do {
       c \<leftarrow> peek str i;
       if c = bslash_byte then do {
         d \<leftarrow> peek str (i + 1);
         if d = bslash_byte then do {
           buf \<leftarrow> poke buf j d;
           unescape_loop str strtextlen (i + 2) buf (j + 1) }
         else do {
           octal \<leftarrow> octal_at str (i + 1);
           if octal then do {
             let v = OCTVAL (str ! (i + 1)) * 8 + OCTVAL (str ! (i + 2));
             let v = v * 8 + OCTVAL (str ! (i + 3));
             buf \<leftarrow> poke buf j (word_of_int v);
             unescape_loop str strtextlen (i + 4) buf (j + 1) }
           else unescape_loop str strtextlen (i + 1) buf j } }
       else do {
         buf \<leftarrow> poke buf j c;
         unescape_loop str strtextlen (i + 1) buf (j + 1) } }
     else Some (buf, j))"

text \<open>The two branches: the filled buffer and its length, or \<open>None\<close> when allocation fails.\<close>

definition unhex :: "byte list \<Rightarrow> nat \<Rightarrow> heap \<Rightarrow> ((byte list \<times> nat) option \<times> heap) option" where
  "unhex str strtextlen h =
    (let buflen = size_sub strtextlen 2 div 2;
         (buffer, h') = malloc (if buflen > 0 then buflen else 1) h
     in case buffer of
          None \<Rightarrow> Some (None, h')
        | Some buf \<Rightarrow> map_option (\<lambda>r. (Some r, h')) (unhex_loop str 2 buf 0))"

definition unescape :: "byte list \<Rightarrow> nat \<Rightarrow> heap \<Rightarrow> ((byte list \<times> nat) option \<times> heap) option" where
  "unescape str strtextlen h =
    (let (buffer, h') = malloc (size_t (strtextlen + 1)) h
     in case buffer of
          None \<Rightarrow> Some (None, h')
        | Some buf \<Rightarrow> map_option (\<lambda>r. (Some r, h')) (unescape_loop str strtextlen 0 buf 0))"

text \<open>The buffer is shrunk at the end.\<close>

definition shrink :: "(byte list \<times> nat) option \<Rightarrow> heap \<Rightarrow> (byte list \<times> nat) option \<times> heap" where
  "shrink filled h = (case filled of
     None \<Rightarrow> (None, h)
   | Some (buf, buflen) \<Rightarrow>
       (let (tmpbuf, h') = realloc buf (size_t (buflen + 1)) h in (map_option (\<lambda>t. (t, buflen)) tmpbuf, h')))"

text \<open>The result: the shrunk buffer and the value of \<open>*retbuflen\<close>, or a null pointer.\<close>

definition PQunescapeBytea :: "byte list option \<Rightarrow> heap \<Rightarrow> ((byte list \<times> nat) option \<times> heap) option" where
  "PQunescapeBytea strtext h = (case strtext of
     None \<Rightarrow> Some (None, h)
   | Some str \<Rightarrow> do {
       strtextlen \<leftarrow> strlen str;
       a \<leftarrow> peek str 0;
       is_hex \<leftarrow> (if a = bslash_byte then do { b \<leftarrow> peek str 1; Some (b = 120) } else Some False);
       (filled, h) \<leftarrow> (if is_hex then unhex str strtextlen h else unescape str strtextlen h);
       Some (shrink filled h) })"

section \<open>Writing\<close>

lemma put_bytes_result:
  assumes "written to0 buf rp out" "rp + length bs \<le> length to0"
  shows "\<exists>buf'. put_bytes buf rp bs = Some (buf', rp + length bs) \<and> written to0 buf' (rp + length bs) (out @ bs)"
  using assms
proof (induction bs arbitrary: buf rp out)
  case (Cons b bs)
  obtain b1 where b1: "poke buf rp b = Some b1" "written to0 b1 (Suc rp) (out @ [b])"
    using written_poke [OF Cons.prems(1)] Cons.prems(2) by fastforce
  obtain b2 where "put_bytes b1 (Suc rp) bs = Some (b2, Suc rp + length bs)"
    "written to0 b2 (Suc rp + length bs) ((out @ [b]) @ bs)"
    using Cons.IH [OF b1(2)] Cons.prems(2) by auto
  then show ?case using b1(1) by simp
qed simp

lemma bytea_loop_result:
  assumes "vp + i \<le> length from" "written to0 buf rp out"
    "rp + length (concat (map (bytea_char std hex) (take i (drop vp from)))) \<le> length to0"
  shows "\<exists>buf'. bytea_loop std hex from i vp buf rp
      = Some (buf', rp + length (concat (map (bytea_char std hex) (take i (drop vp from)))))
    \<and> written to0 buf' (rp + length (concat (map (bytea_char std hex) (take i (drop vp from)))))
        (out @ concat (map (bytea_char std hex) (take i (drop vp from))))"
  using assms
proof (induction i arbitrary: vp buf rp out)
  case (Suc i)
  have t: "take (Suc i) (drop vp from) = from ! vp # take i (drop (Suc vp) from)" "peek from vp = Some (from ! vp)"
    using Suc.prems(1) by (simp_all add: Cons_nth_drop_Suc [symmetric] peek_in_bounds)
  have r: "rp + length (bytea_char std hex (from ! vp)) \<le> length to0" using Suc.prems(3) by (simp add: t)
  obtain b1 where b1: "put_bytes buf rp (bytea_char std hex (from ! vp)) = Some (b1, rp + length (bytea_char std hex (from ! vp)))"
    "written to0 b1 (rp + length (bytea_char std hex (from ! vp))) (out @ bytea_char std hex (from ! vp))"
    using put_bytes_result [OF Suc.prems(2) r] by blast
  show ?case using Suc.IH [OF _ b1(2), of "Suc vp"] Suc.prems(1,3) by (simp add: t b1(1) add.assoc)
qed simp

text \<open>The computed length is the length of what is written, reduced to a \<open>size_t\<close>.\<close>

lemma bytea_char_length:
  "length (bytea_char std False c) = (if c < 0x20 \<or> c > 0x7e then (if std then 1 else 2) + 3
        else if c = 39 then 2 else if c = 92 then (if std then 1 else 2) + (if std then 1 else 2) else 1)"
  "length (bytea_char std True c) = 2"
  by (simp_all add: bytea_char_def)

lemma bytea_char_le: "length (bytea_char std hex c) \<le> 5"
  by (simp add: bytea_char_def)

lemma escaped_len_result:
  assumes "vp + i \<le> length from"
  shows "escaped_len (if std then 1 else 2) from i vp (size_t n)
    = Some (size_t (n + length (concat (map (bytea_char std False) (take i (drop vp from))))))"
  using assms
proof (induction i arbitrary: vp n)
  case (Suc i)
  have t: "take (Suc i) (drop vp from) = from ! vp # take i (drop (Suc vp) from)" "peek from vp = Some (from ! vp)"
    using Suc.prems(1) by (simp_all add: Cons_nth_drop_Suc [symmetric] peek_in_bounds)
  let ?l = "length (bytea_char std False (from ! vp))"
  have s: "size_t (size_t n + ?l) = size_t (n + ?l)" by (simp add: size_t_def mod_add_left_eq)
  have "escaped_len (if std then 1 else 2) from (Suc i) vp (size_t n)
      = escaped_len (if std then 1 else 2) from i (vp + 1) (size_t (size_t n + ?l))"
    unfolding escaped_len.simps t(2) bind.bind_lunit bytea_char_length(1) by (rule refl)
  also have "\<dots> = Some (size_t (n + ?l + length (concat (map (bytea_char std False) (take i (drop (Suc vp) from))))))"
    using Suc.IH [of "Suc vp" "n + ?l"] Suc.prems by (simp add: s)
  finally show ?case by (simp add: t add.assoc)
qed simp

text \<open>What the literal body is.\<close>

definition bytea_text :: "bool \<Rightarrow> bool \<Rightarrow> byte list \<Rightarrow> byte list" where
  "bytea_text std hex bs = (if hex then (if std then [] else [92]) @ [92, 120] else [])
     @ concat (map (bytea_char std hex) bs)"

lemma concat_length_hex: "length (concat (map (bytea_char std True) bs)) = 2 * length bs"
  by (induction bs) (simp_all add: bytea_char_length)

lemma concat_length_le: "length (concat (map (bytea_char std hex) bs)) \<le> 5 * length bs"
proof (induction bs)
  case (Cons b bs)
  then show ?case using bytea_char_le [of std hex b] by simp
qed simp

lemma bytea_text_length: "length (bytea_text std hex bs) \<le> 5 * length bs + 3"
  using concat_length_le [of std hex bs] by (auto simp: bytea_text_def)

definition bytea_prefix :: "bool \<Rightarrow> bool \<Rightarrow> byte list" where
  "bytea_prefix std hex = (if hex then (if std then [] else [92]) @ [92, 120] else [])"

lemma bytea_text_eq: "bytea_text std hex bs = bytea_prefix std hex @ concat (map (bytea_char std hex) bs)"
  by (simp add: bytea_text_def bytea_prefix_def)

text \<open>The request for memory, and the writing into the block.\<close>

lemma escape_bytea_steps:
  fixes std hex :: bool
  assumes "n \<le> length from" "fst (next_answer h)"
  defines "k \<equiv> size_t (length (bytea_text std hex (take n from)) + 1)"
  shows "PQescapeByteaInternal vsn conn from n std hex h = do {
      (buf, rp) \<leftarrow> put_bytes (fresh h k) 0 (bytea_prefix std hex);
      (buf, rp) \<leftarrow> bytea_loop std hex from n 0 buf rp;
      buf \<leftarrow> poke buf rp 0;
      Some (Some buf, k, conn, snd (next_answer h)) }"
proof -
  have len: "(if hex then Some (size_t (1 + (if std then 1 else 2) + 1 + 2 * n))
             else escaped_len (if std then 1 else 2) from n 0 1) = Some k"
  proof (cases hex)
    case True
    then have "1 + (if std then 1 else 2) + 1 + 2 * n = length (bytea_text std hex (take n from)) + 1"
      using assms(1) by (simp add: bytea_text_def concat_length_hex)
    then show ?thesis using True by (simp add: k_def)
  next
    case False
    then show ?thesis using escaped_len_result [of 0 n "from" std 1] assms(1) by (simp add: k_def bytea_text_def size_t_def)
  qed
  have m: "malloc k h = (Some (fresh h k), snd (next_answer h))" using assms(2) by (simp add: malloc_eq)
  have p: "(if hex then put_bytes buf 0 ((if \<not> std then [bslash_byte] else []) @ [bslash_byte, 120]) else Some (buf, 0))
      = put_bytes buf 0 (bytea_prefix std hex)" for buf by (simp add: bytea_prefix_def)
  show ?thesis unfolding PQescapeByteaInternal_def Let_def len bind.bind_lunit m prod.case option.case p by (rule refl)
qed

lemma escape_bytea_fits:
  assumes "n \<le> length from" "length (bytea_text std hex (take n from)) + 1 < 2 ^ 32" "fst (next_answer h)"
  shows "PQescapeByteaInternal vsn conn from n std hex h
    = Some (Some (bytea_text std hex (take n from) @ [0]), length (bytea_text std hex (take n from)) + 1, conn,
        snd (next_answer h))"
proof -
  let ?t = "bytea_text std hex (take n from)" and ?c = "concat (map (bytea_char std hex) (take n from))" and ?p = "bytea_prefix std hex"
  have t: "?t = ?p @ ?c" by (rule bytea_text_eq)
  have k: "size_t (length ?t + 1) = length ?t + 1" by (rule size_t_id [OF assms(2)])
  define to0 where "to0 = fresh h (length ?t + 1)"
  have lt: "length to0 = length ?p + length ?c + 1" by (simp add: to0_def t)
  obtain b1 where b1: "put_bytes to0 0 ?p = Some (b1, length ?p)" "written to0 b1 (length ?p) ?p"
    using put_bytes_result [OF written_init, of "?p" to0] lt by auto
  have r: "length ?p + length (concat (map (bytea_char std hex) (take n (drop 0 from)))) \<le> length to0"
    using lt by simp
  obtain b2 where b2: "bytea_loop std hex from n 0 b1 (length ?p) = Some (b2, length ?p + length ?c)"
    "written to0 b2 (length ?p + length ?c) (?p @ ?c)"
    using bytea_loop_result [OF _ b1(2) r] assms(1) by auto
  have "poke b2 (length ?p + length ?c) 0 = Some ((?p @ ?c) @ 0 # drop (Suc (length ?p + length ?c)) to0)"
    by (rule written_end [OF b2(2)]) (use lt in simp)
  then have b3: "poke b2 (length ?p + length ?c) 0 = Some (?t @ [0])" using lt unfolding t by simp
  show ?thesis unfolding escape_bytea_steps [OF assms(1,3)] k to0_def [symmetric] b1(1) b2(1) b3 bind.bind_lunit prod.case by (rule refl)
qed

lemma escape_bytea_result:
  assumes "n \<le> length from" "5 * n + 4 < 2 ^ 32" "fst (next_answer h)"
  shows "PQescapeByteaInternal vsn conn from n std hex h
    = Some (Some (bytea_text std hex (take n from) @ [0]), length (bytea_text std hex (take n from)) + 1, conn,
        snd (next_answer h))"
  by (rule escape_bytea_fits [OF assms(1) _ assms(3)])
    (use bytea_text_length [of std hex "take n from"] assms(1,2) in simp)

text \<open>In any case the stores are as many as the text has bytes.\<close>

lemma put_bytes_length: "put_bytes buf rp bs = Some (buf', rp') \<Longrightarrow> length buf' = length buf \<and> rp' = rp + length bs"
proof (induction bs arbitrary: buf rp)
  case (Cons b bs)
  then obtain b1 where "poke buf rp b = Some b1" "put_bytes b1 (rp + 1) bs = Some (buf', rp')" by (auto split: bind_splits)
  then show ?case using Cons.IH length_poke by fastforce
qed simp

lemma bytea_loop_length:
  "vp + i \<le> length from \<Longrightarrow> bytea_loop std hex from i vp buf rp = Some (buf', rp')
    \<Longrightarrow> length buf' = length buf \<and> rp' = rp + length (concat (map (bytea_char std hex) (take i (drop vp from))))"
proof (induction i arbitrary: vp buf rp)
  case (Suc i)
  have t: "take (Suc i) (drop vp from) = from ! vp # take i (drop (Suc vp) from)" "peek from vp = Some (from ! vp)"
    using Suc.prems(1) by (simp_all add: Cons_nth_drop_Suc [symmetric] peek_in_bounds)
  obtain b1 r1 where b1: "put_bytes buf rp (bytea_char std hex (from ! vp)) = Some (b1, r1)"
    "bytea_loop std hex from i (vp + 1) b1 r1 = Some (buf', rp')" using Suc.prems(2) by (auto simp: t split: bind_splits)
  show ?case using Suc.IH [OF _ b1(2)] put_bytes_length [OF b1(1)] Suc.prems(1) by (simp add: t)
qed simp

lemma escape_bytea_overruns:
  assumes "n \<le> length from" "\<not> length (bytea_text std hex (take n from)) + 1 < 2 ^ 32" "fst (next_answer h)"
  shows "PQescapeByteaInternal vsn conn from n std hex h = None"
proof -
  let ?t = "bytea_text std hex (take n from)"
  let ?k = "size_t (length ?t + 1)"
  have small: "?k < 2 ^ 32" by (simp add: size_t_def)
  show ?thesis
  proof (cases "put_bytes (fresh h ?k) 0 (bytea_prefix std hex)")
    case None
    then show ?thesis unfolding escape_bytea_steps [OF assms(1,3)] by simp
  next
    case (Some p)
    then obtain b1 r1 where p: "put_bytes (fresh h ?k) 0 (bytea_prefix std hex) = Some (b1, r1)" by (cases p) auto
    note l1 = put_bytes_length [OF p]
    show ?thesis
    proof (cases "bytea_loop std hex from n 0 b1 r1")
      case None
      then show ?thesis unfolding escape_bytea_steps [OF assms(1,3)] p by simp
    next
      case (Some q)
      then obtain b2 r2 where q: "bytea_loop std hex from n 0 b1 r1 = Some (b2, r2)" by (cases q) auto
      have "length b2 = ?k" "r2 = length ?t" using bytea_loop_length [OF _ q] l1 assms(1) by (simp_all add: bytea_text_eq)
      then have "poke b2 r2 0 = None" using small assms(2) by (simp add: poke_def)
      then show ?thesis unfolding escape_bytea_steps [OF assms(1,3)] p q bind.bind_lunit prod.case by simp
    qed
  qed
qed

section \<open>Reading a literal back\<close>

text \<open>The text form of one byte, as the server has it once the literal has been read.\<close>

definition raw_char :: "bool \<Rightarrow> byte \<Rightarrow> byte list" where
  "raw_char hex c =
    (if hex then [hextbl ! unat (drop_bit 4 c AND 0xF), hextbl ! unat (c AND 0xF)]
     else if c < 0x20 \<or> c > 0x7e then
       [bslash_byte, drop_bit 6 c + 48, (drop_bit 3 c AND 7) + 48, (c AND 7) + 48]
     else if c = bslash_byte then [bslash_byte, bslash_byte]
     else [c])"

definition raw_text :: "bool \<Rightarrow> byte list \<Rightarrow> byte list" where
  "raw_text hex bs = (if hex then [92, 120] else []) @ concat (map (raw_char hex) bs)"

abbreviation singles :: "byte list \<Rightarrow> byte list list" where
  "singles bs \<equiv> map (\<lambda>b. [b]) bs"

text \<open>Facts about the digits, for all 256 bytes.\<close>

lemma byte_digits:
  "hextbl ! unat (drop_bit 4 (c :: byte) AND 0xF) \<notin> {0, 39, 92}"
  "hextbl ! unat ((c :: byte) AND 0xF) \<notin> {0, 39, 92}"
  "drop_bit 6 (c :: byte) + 48 \<notin> {0, 39, 92}" "(drop_bit 3 (c :: byte) AND 7) + 48 \<notin> {0, 39, 92}"
  "((c :: byte) AND 7) + 48 \<notin> {0, 39, 92}"
  by (rule all_bytesI [where b = c]; simp add: bytes256_def hextbl_def)+

lemma bytea_char_printable: "list_all (\<lambda>b. 0x20 \<le> b \<and> b \<le> 0x7e) (bytea_char std hex c)"
proof -
  have "list_all (\<lambda>c. list_all (\<lambda>b. 0x20 \<le> b \<and> b \<le> 0x7e) (bytea_char std True c)) bytes256"
    by (simp add: bytes256_def bytea_char_def hextbl_def)
  moreover have "list_all (\<lambda>c. list_all (\<lambda>b. 0x20 \<le> b \<and> b \<le> 0x7e) (bytea_char True False c)) bytes256"
    by (simp add: bytes256_def bytea_char_def)
  moreover have "list_all (\<lambda>c. list_all (\<lambda>b. 0x20 \<le> b \<and> b \<le> 0x7e) (bytea_char False False c)) bytes256"
    by (simp add: bytes256_def bytea_char_def)
  moreover have "bytea_char std True c = bytea_char True True c" by (simp add: bytea_char_def)
  ultimately show ?thesis
    using all_bytesI [of "\<lambda>c. list_all (\<lambda>b. 0x20 \<le> b \<and> b \<le> 0x7e) (bytea_char std hex c)" c]
    by (cases hex; cases std) simp_all
qed

lemma quoted_body_char:
  "quoted_body (\<lambda>b. SQL_STR_DOUBLE b (\<not> std)) (singles (bytea_char std hex c) @ rest)
    = map_option (\<lambda>xs. singles (raw_char hex c) @ xs) (quoted_body (\<lambda>b. SQL_STR_DOUBLE b (\<not> std)) rest)"
  using byte_digits [of c]
  by (cases "quoted_body (\<lambda>b. SQL_STR_DOUBLE b (\<not> std)) rest")
    (auto simp: bytea_char_def raw_char_def SQL_STR_DOUBLE_def)

lemma quoted_body_chars:
  "quoted_body (\<lambda>b. SQL_STR_DOUBLE b (\<not> std)) (singles (concat (map (bytea_char std hex) bs)))
    = Some (singles (concat (map (raw_char hex) bs)))"
  by (induction bs) (simp_all add: quoted_body_char)

lemma literal_body_bytea: "literal_body std (singles (bytea_text std hex bs)) = Some (singles (raw_text hex bs))"
  using quoted_body_chars [of std hex bs]
  by (auto simp: literal_body_def bytea_text_def raw_text_def SQL_STR_DOUBLE_def)

section \<open>Unescaping\<close>

lemma unhex_bounds:
  assumes n: "strlen str = Some n" and room: "(n - 2) div 2 \<le> length to0"
    and "2 \<le> s" "s \<le> n" "written to0 buf p out" "2 * p + 2 \<le> s"
  shows "\<exists>buf' p' out'. unhex_loop str s buf p = Some (buf', p') \<and> written to0 buf' p' out' \<and> 2 * p' + 2 \<le> n"
  using assms(3-)
proof (induction "n - s" arbitrary: s buf p out rule: less_induct)
  case less
  note st = strlen_result [OF n]
  show ?case
  proof (cases "s = n")
    case True
    then have "unhex_loop str s buf p = Some (buf, p)" using st by (subst unhex_loop.simps) (simp add: peek_in_bounds)
    then show ?thesis using less.prems True by blast
  next
    case False
    then have s: "s < n" "str ! s \<noteq> 0" using less.prems st by auto
    have pk: "peek str s = Some (str ! s)" "peek str (s + 1) = Some (str ! (s + 1))"
      using s st by (auto simp: peek_in_bounds)
    show ?thesis
    proof (cases "str ! (s + 1) = 0 \<or> get_hex (str ! s) = -1")
      case True
      have "unhex_loop str s buf p = unhex_loop str (s + 1) buf p"
        using pk s True by (subst unhex_loop.simps) simp
      moreover have "\<exists>buf' p' out'. unhex_loop str (s + 1) buf p = Some (buf', p') \<and> written to0 buf' p' out' \<and> 2 * p' + 2 \<le> n"
        by (rule less.hyps [OF _ _ _ less.prems(3)]) (use s less.prems in auto)
      ultimately show ?thesis by simp
    next
      case pair: False
      then have "s + 1 \<noteq> n" using st by auto
      then have s2: "s + 2 \<le> n" using s by simp
      show ?thesis
      proof (cases "get_hex (str ! (s + 1)) = -1")
        case True
        have "unhex_loop str s buf p = unhex_loop str (s + 2) buf p"
          using pk s pair True by (subst unhex_loop.simps) (simp add: Let_def)
        moreover have "\<exists>buf' p' out'. unhex_loop str (s + 2) buf p = Some (buf', p') \<and> written to0 buf' p' out' \<and> 2 * p' + 2 \<le> n"
          by (rule less.hyps [OF _ _ s2 less.prems(3)]) (use s less.prems in auto)
        ultimately show ?thesis by simp
      next
        case False
        let ?b = "push_bit 4 (word_of_int (get_hex (str ! s))) OR word_of_int (get_hex (str ! (s + 1))) :: byte"
        have "2 * p + 4 \<le> n" using less.prems(4) s2 by linarith
        then have "p < (n - 2) div 2" by linarith
        then have "p < length to0" using room by linarith
        then obtain b1 where b1: "poke buf p ?b = Some b1" "written to0 b1 (Suc p) (out @ [?b])"
          using written_poke [OF less.prems(3)] by blast
        have "unhex_loop str s buf p = unhex_loop str (s + 2) b1 (p + 1)"
          using pk s pair False b1(1) by (subst unhex_loop.simps) (simp add: Let_def)
        moreover have "\<exists>buf' p' out'. unhex_loop str (s + 2) b1 (Suc p) = Some (buf', p') \<and> written to0 buf' p' out' \<and> 2 * p' + 2 \<le> n"
          by (rule less.hyps [OF _ _ s2 b1(2)]) (use s less.prems in auto)
        ultimately show ?thesis by simp
      qed
    qed
  qed
qed

lemma octal_at_result:
  assumes "strlen str = Some n" "i \<le> n"
  shows "\<exists>b. octal_at str i = Some b \<and> (b \<longrightarrow> i + 3 \<le> n)"
proof -
  note st = strlen_result [OF assms(1)]
  have z: "\<not> ISFIRSTOCTDIGIT 0" "\<not> ISOCTDIGIT 0" by (simp_all add: ISFIRSTOCTDIGIT_def ISOCTDIGIT_def)
  have nz: "str ! j \<noteq> 0 \<Longrightarrow> j \<le> n \<Longrightarrow> Suc j \<le> n" for j using st by (metis Suc_leI le_neq_implies_less)
  have f: "ISFIRSTOCTDIGIT (str ! i) \<Longrightarrow> i + 1 \<le> n" using nz [of i] assms(2) z(1) by (cases "str ! i = 0") auto
  have g: "i + 1 \<le> n \<Longrightarrow> ISOCTDIGIT (str ! (i + 1)) \<Longrightarrow> i + 2 \<le> n" 
    using nz [of "i + 1"] z(2) by (cases "str ! (i + 1) = 0") auto
  have h: "i + 2 \<le> n \<Longrightarrow> ISOCTDIGIT (str ! (i + 2)) \<Longrightarrow> i + 3 \<le> n" 
    using nz [of "i + 2"] z(2) by (cases "str ! (i + 2) = 0") auto
  have pk: "j \<le> n \<Longrightarrow> peek str j = Some (str ! j)" for j using st by (simp add: peek_in_bounds)
  show ?thesis
  proof (cases "ISFIRSTOCTDIGIT (str ! i)")
    case True
    then show ?thesis using f g h pk [of i] pk [of "i + 1"] pk [of "i + 2"] assms(2)
      by (cases "ISOCTDIGIT (str ! (i + 1))") (auto simp: octal_at_def)
  next
    case False
    then have "octal_at str i = Some False" using pk [of i] assms(2) by (simp add: octal_at_def)
    then show ?thesis by blast
  qed
qed

lemma unescape_bounds:
  assumes n: "strlen str = Some n" and room: "n < length to0"
    and "i \<le> n" "written to0 buf j out" "j \<le> i"
  shows "\<exists>buf' j' out'. unescape_loop str n i buf j = Some (buf', j') \<and> written to0 buf' j' out' \<and> j' \<le> n"
  using assms(3-)
proof (induction "n - i" arbitrary: i buf j out rule: less_induct)
  case less
  note st = strlen_result [OF n]
  show ?case
  proof (cases "i < n")
    case False
    then have "unescape_loop str n i buf j = Some (buf, j)" by (subst unescape_loop.simps) simp
    then show ?thesis using less.prems by fastforce
  next
    case True
    have pk: "peek str i = Some (str ! i)" "peek str (i + 1) = Some (str ! (i + 1))"
      using True st by (auto simp: peek_in_bounds)
    have "j < length to0" using True less.prems room by linarith
    then have wr: "\<exists>b1. poke buf j b = Some b1 \<and> written to0 b1 (Suc j) (out @ [b])" for b
      using written_poke [OF less.prems(2)] by blast
    have IH: "\<exists>buf' j' out'. unescape_loop str n (i + k) b1 j1 = Some (buf', j') \<and> written to0 buf' j' out' \<and> j' \<le> n"
      if "0 < k" "i + k \<le> n" "written to0 b1 j1 o1" "j1 \<le> i + k" for k b1 j1 o1
      by (rule less.hyps [OF _ that(2-4)]) (use that(1) True in linarith)
    show ?thesis
    proof (cases "str ! i = 92")
      case False
      obtain b1 where b1: "poke buf j (str ! i) = Some b1" "written to0 b1 (Suc j) (out @ [str ! i])" using wr by blast
      have "unescape_loop str n i buf j = unescape_loop str n (i + 1) b1 (Suc j)"
        using True False pk b1(1) by (subst unescape_loop.simps) simp
      then show ?thesis using IH [OF _ _ b1(2), of 1] True less.prems(3) by simp
    next
      case bs: True
      show ?thesis
      proof (cases "str ! (i + 1) = 92")
        case True
        have "i + 1 \<noteq> n" using st True by auto
        then have i2: "i + 2 \<le> n" using \<open>i < n\<close> by simp
        obtain b1 where b1: "poke buf j 92 = Some b1" "written to0 b1 (Suc j) (out @ [92])" using wr by blast
        have "unescape_loop str n i buf j = unescape_loop str n (i + 2) b1 (Suc j)"
          using \<open>i < n\<close> bs True pk b1(1) by (subst unescape_loop.simps) simp
        then show ?thesis using IH [OF _ i2 b1(2)] less.prems(3) by simp
      next
        case ns: False
        obtain oct where oct: "octal_at str (i + 1) = Some oct" "oct \<longrightarrow> i + 4 \<le> n"
          using octal_at_result [OF n, of "i + 1"] True by auto
        show ?thesis
        proof (cases oct)
          case True
          let ?v = "word_of_int ((OCTVAL (str ! (i + 1)) * 8 + OCTVAL (str ! (i + 2))) * 8 + OCTVAL (str ! (i + 3))) :: byte"
          obtain b1 where b1: "poke buf j ?v = Some b1" "written to0 b1 (Suc j) (out @ [?v])" using wr by blast
          have "unescape_loop str n i buf j = unescape_loop str n (i + 4) b1 (Suc j)"
            using \<open>i < n\<close> bs ns True pk oct(1) b1(1) by (subst unescape_loop.simps) (simp add: Let_def)
          then show ?thesis using IH [OF _ _ b1(2), of 4] oct(2) True less.prems(3) by simp
        next
          case False
          have "unescape_loop str n i buf j = unescape_loop str n (i + 1) buf j"
            using \<open>i < n\<close> bs ns False pk oct(1) by (subst unescape_loop.simps) simp
          then show ?thesis using IH [OF _ _ less.prems(2), of 1] True less.prems(3) by simp
        qed
      qed
    qed
  qed
qed


text \<open>Reading back what was written, byte by byte.\<close>

lemma hex_pair:
  "get_hex (hextbl ! unat (drop_bit 4 (c :: byte) AND 0xF)) \<noteq> -1"
  "get_hex (hextbl ! unat ((c :: byte) AND 0xF)) \<noteq> -1"
  "push_bit 4 (word_of_int (get_hex (hextbl ! unat (drop_bit 4 (c :: byte) AND 0xF))))
     OR word_of_int (get_hex (hextbl ! unat (c AND 0xF))) = c"
  by (rule all_bytesI [where b = c]; simp add: bytes256_def hextbl_def get_hex_def hexlookup_def)+

lemma octal_digits:
  "ISFIRSTOCTDIGIT (drop_bit 6 (c :: byte) + 48)" "ISOCTDIGIT ((drop_bit 3 (c :: byte) AND 7) + 48)"
  "ISOCTDIGIT (((c :: byte) AND 7) + 48)"
  "word_of_int ((OCTVAL (drop_bit 6 (c :: byte) + 48) * 8 + OCTVAL ((drop_bit 3 c AND 7) + 48)) * 8
     + OCTVAL ((c AND 7) + 48)) = c"
  by (rule all_bytesI [where b = c]; simp add: bytes256_def ISFIRSTOCTDIGIT_def ISOCTDIGIT_def OCTVAL_def)+

lemma raw_char_no_nul: "0 \<notin> set (raw_char hex c)"
  using byte_digits [of c] by (auto simp: raw_char_def)

lemma raw_text_no_nul: "0 \<notin> set (raw_text hex bs)"
  using raw_char_no_nul by (auto simp: raw_text_def)

lemma peek_at: "peek (pre @ x # r) (length pre) = Some x" "peek (pre @ x # y # r) (length pre + 1) = Some y"
    "peek (pre @ x # y # z # r) (length pre + 2) = Some z"
    "peek (pre @ x # y # z # w # r) (length pre + 3) = Some w"
  by (simp_all add: peek_def nth_append)

lemma unhex_chars:
  assumes "str = pre @ concat (map (raw_char True) bs) @ 0 # r" "written to0 buf p out" "p + length bs \<le> length to0"
  shows "\<exists>buf'. unhex_loop str (length pre) buf p = Some (buf', p + length bs)
    \<and> written to0 buf' (p + length bs) (out @ bs)"
  using assms
proof (induction bs arbitrary: pre buf p out)
  case Nil
  then show ?case by (subst unhex_loop.simps) (simp add: peek_at)
next
  case (Cons b bs)
  let ?h = "hextbl ! unat (drop_bit 4 b AND 0xF)" and ?l = "hextbl ! unat (b AND 0xF)"
  have rc: "raw_char True b = [?h, ?l]" by (simp add: raw_char_def)
  have str: "str = pre @ ?h # ?l # concat (map (raw_char True) bs) @ 0 # r"
    using Cons.prems(1) by (simp add: rc)
  have str': "str = (pre @ [?h, ?l]) @ concat (map (raw_char True) bs) @ 0 # r" using str by simp
  obtain b1 where b1: "poke buf p b = Some b1" "written to0 b1 (Suc p) (out @ [b])"
    using written_poke [OF Cons.prems(2)] Cons.prems(3) by fastforce
  have pk: "peek str (length pre) = Some ?h" "peek str (length pre + 1) = Some ?l"
    unfolding str by (rule peek_at)+
  have "unhex_loop str (length pre) buf p = unhex_loop str (length pre + 2) b1 (p + 1)"
    using pk b1(1) hex_pair [of b] byte_digits(1,2) [of b] by (subst unhex_loop.simps) (simp add: Let_def)
  then show ?case using Cons.IH [OF str' b1(2)] Cons.prems(3) by simp
qed

lemma unescape_chars:
  assumes "str = pre @ concat (map (raw_char False) bs) @ 0 # r" "n = length pre + length (concat (map (raw_char False) bs))"
    "written to0 buf j out" "j + length bs \<le> length to0"
  shows "\<exists>buf'. unescape_loop str n (length pre) buf j = Some (buf', j + length bs)
    \<and> written to0 buf' (j + length bs) (out @ bs)"
  using assms
proof (induction bs arbitrary: pre buf j out)
  case Nil
  then show ?case by (subst unescape_loop.simps) simp
next
  case (Cons b bs)
  let ?rest = "concat (map (raw_char False) bs) @ 0 # r"
  have str: "str = pre @ raw_char False b @ ?rest" using Cons.prems(1) by simp
  have str': "str = (pre @ raw_char False b) @ ?rest" using str by simp
  obtain b1 where b1: "poke buf j b = Some b1" "written to0 b1 (Suc j) (out @ [b])"
    using written_poke [OF Cons.prems(3)] Cons.prems(4) by fastforce
  have rec: ?case if "unescape_loop str n (length pre) buf j = unescape_loop str n (length pre + length (raw_char False b)) b1 (Suc j)"
    using Cons.IH [OF str' _ b1(2)] Cons.prems(2,4) that by (simp add: add.assoc)
  have l: "length pre < n" using Cons.prems(2) by (auto simp: raw_char_def)
  consider (oct) "b < 0x20 \<or> b > 0x7e" | (bs) "b = 92" | (plain) "\<not> (b < 0x20 \<or> b > 0x7e)" "b \<noteq> 92" by blast
  then show ?case
  proof cases
    case oct
    let ?o1 = "drop_bit 6 b + 48" and ?o2 = "(drop_bit 3 b AND 7) + 48" and ?o3 = "(b AND 7) + 48"
    have rc: "raw_char False b = [92, ?o1, ?o2, ?o3]" using oct by (simp add: raw_char_def)
    have s: "str = pre @ 92 # ?o1 # ?o2 # ?o3 # ?rest" using str by (simp add: rc)
    have pk: "peek str (length pre) = Some 92" "peek str (length pre + 1) = Some ?o1"
      "peek str (length pre + 1 + 1) = Some ?o2" "peek str (length pre + 1 + 2) = Some ?o3"
      unfolding s by (simp_all add: peek_def nth_append)
    have nth: "str ! (length pre + 1) = ?o1" "str ! (length pre + 2) = ?o2" "str ! (length pre + 3) = ?o3"
      unfolding s by (simp_all add: nth_append)
    have oa: "octal_at str (length pre + 1) = Some True"
      unfolding octal_at_def pk bind.bind_lunit using octal_digits(1-3) [of b] by simp
    have o1: "(?o1 = 92) = False" using byte_digits(3) [of b] by blast
    have v: "word_of_int ((OCTVAL (str ! (length pre + 1)) * 8 + OCTVAL (str ! (length pre + 2))) * 8
        + OCTVAL (str ! (length pre + 3))) = b" unfolding nth by (rule octal_digits(4))
    have "unescape_loop str n (length pre) buf j = unescape_loop str n (length pre + 4) b1 (j + 1)"
      by (subst unescape_loop.simps) (simp only: l pk oa o1 v b1(1) if_True if_False bind.bind_lunit Let_def simp_thms)
    then show ?thesis by (intro rec) (simp add: rc numeral_eq_Suc)
  next
    case bs
    have rc: "raw_char False b = [92, 92]" using bs by (simp add: raw_char_def)
    have s: "str = pre @ 92 # 92 # ?rest" using str by (simp add: rc)
    have pk: "peek str (length pre) = Some 92" "peek str (length pre + 1) = Some 92"
      unfolding s by (rule peek_at)+
    have "unescape_loop str n (length pre) buf j = unescape_loop str n (length pre + 2) b1 (j + 1)"
      using l pk b1(1) bs by (subst unescape_loop.simps) simp
    then show ?thesis by (intro rec) (simp add: rc)
  next
    case plain
    have rc: "raw_char False b = [b]" using plain by (simp add: raw_char_def)
    have s: "str = pre @ b # ?rest" using str by (simp add: rc)
    have pk: "peek str (length pre) = Some b" unfolding s by (rule peek_at)
    have "unescape_loop str n (length pre) buf j = unescape_loop str n (length pre + 1) b1 (j + 1)"
      using l pk b1(1) plain by (subst unescape_loop.simps) simp
    then show ?thesis by (intro rec) (simp add: rc)
  qed
qed

lemma shrink_result:
  assumes "written to0 buf m out" "m < INT_MAX" "fst (next_answer h)"
  shows "\<exists>x. shrink (Some (buf, m)) h = (Some (out @ [x], m), snd (next_answer h))"
proof -
  have s: "size_t (Suc m) = Suc m" using assms(2) by (simp add: sizes)
  have b: "buf = out @ drop m to0" "m = length out" using assms(1) by (auto simp: written_def)
  have "\<exists>x. take (m + 1) buf @ fresh h (m + 1 - length buf) = out @ [x]"
  proof (cases "drop m to0")
    case Nil
    then show ?thesis using b by (simp add: fresh_def)
  next
    case (Cons y ys)
    then show ?thesis using b by (simp add: fresh_def)
  qed
  then show ?thesis using assms(3) by (auto simp: shrink_def realloc_eq s)
qed

lemma raw_start:
  "\<exists>a. peek (concat (map (raw_char False) bs) @ [0]) 0 = Some a \<and>
    (if a = 92 then do { b \<leftarrow> peek (concat (map (raw_char False) bs) @ [0]) 1; Some (b = 120) } else Some False) = Some False"
proof (cases bs)
  case (Cons b r)
  have "drop_bit 6 b + 48 \<noteq> 120" using octal_digits(1) [of b] by (auto simp: ISFIRSTOCTDIGIT_def)
  then show ?thesis by (auto simp: Cons raw_char_def)
qed simp

lemma unescape_raw:
  assumes "length (raw_text hex bs) < INT_MAX" "plenty 2 h"
  shows "\<exists>x h'. PQunescapeBytea (Some (raw_text hex bs @ [0])) h = Some (Some (bs @ [x], length bs), h')"
proof -
  let ?t = "raw_text hex bs" and ?h1 = "snd (next_answer h)"
  have p1: "fst (next_answer h)" "plenty 1 ?h1" using plenty_next [of 1 h] assms(2) by (simp_all add: numeral_2_eq_2)
  have p2: "fst (next_answer ?h1)" using plenty_next(1) [of 0 ?h1] p1(2) by simp
  have n: "strlen (?t @ [0]) = Some (length ?t)" by (rule strlen_append [OF raw_text_no_nul])
  have len: "length (concat (map (raw_char True) bs)) = 2 * length bs" for bs
    by (induction bs) (simp_all add: raw_char_def)
  have len': "length bs \<le> length (concat (map (raw_char False) bs))" for bs
  proof (induction bs)
    case (Cons b bs)
    have "1 \<le> length (raw_char False b)" by (simp add: raw_char_def)
    then show ?case using Cons by simp
  qed simp
  show ?thesis
  proof (cases hex)
    case True
    then have t: "?t = 92 # 120 # concat (map (raw_char True) bs)" by (simp add: raw_text_def)
    define B where "B = size_sub (length ?t) 2 div 2"
    have B: "B = length bs" using assms(1) by (simp add: B_def t len sizes)
    define to0 where "to0 = fresh h (if B > 0 then B else 1)"
    have m: "malloc (if B > 0 then B else 1) h = (Some to0, ?h1)" using p1(1) by (simp add: malloc_eq to0_def)
    have r: "0 + length bs \<le> length to0" by (simp add: to0_def B)
    have st: "?t @ [0] = [92, 120] @ concat (map (raw_char True) bs) @ 0 # []" by (simp add: t)
    obtain buf where u: "unhex_loop (?t @ [0]) (length [92, 120 :: byte]) to0 0 = Some (buf, 0 + length bs)"
      "written to0 buf (0 + length bs) ([] @ bs)"
      using unhex_chars [OF st written_init r] by blast
    have uh: "unhex (?t @ [0]) (length ?t) h = Some (Some (buf, length bs), ?h1)"
      unfolding unhex_def Let_def B_def [symmetric] m prod.case option.case using u(1) by (simp add: numeral_2_eq_2)
    have "written to0 buf (length bs) bs" using u(2) by simp
    moreover have "length bs < INT_MAX" using assms(1) by (simp add: t len)
    ultimately obtain x where "shrink (Some (buf, length bs)) ?h1 = (Some (bs @ [x], length bs), snd (next_answer ?h1))"
      using shrink_result p2 by blast
    moreover have "peek (?t @ [0]) 0 = Some 92" "peek (?t @ [0]) 1 = Some 120" by (simp_all add: t)
    ultimately show ?thesis using n uh by (simp add: PQunescapeBytea_def)
  next
    case False
    then have t: "?t = concat (map (raw_char False) bs)" by (simp add: raw_text_def)
    define to0 where "to0 = fresh h (length ?t + 1)"
    have s: "size_t (length ?t + 1) = length ?t + 1" using assms(1) by (simp add: sizes)
    have m: "malloc (length ?t + 1) h = (Some to0, ?h1)" using p1(1) by (simp add: malloc_eq to0_def)
    have r: "0 + length bs \<le> length to0" using len' [of bs] by (simp add: to0_def t)
    have st: "?t @ [0] = [] @ concat (map (raw_char False) bs) @ 0 # []"
      "length ?t = length ([] :: byte list) + length (concat (map (raw_char False) bs))" by (simp_all add: t)
    obtain buf where u: "unescape_loop (?t @ [0]) (length ?t) (length ([] :: byte list)) to0 0 = Some (buf, 0 + length bs)"
      "written to0 buf (0 + length bs) ([] @ bs)"
      using unescape_chars [OF st written_init r] by blast
    have uh: "unescape (?t @ [0]) (length ?t) h = Some (Some (buf, length bs), ?h1)"
      unfolding unescape_def s m prod.case option.case Let_def using u(1) by simp
    have "written to0 buf (length bs) bs" using u(2) by simp
    moreover have "length bs < INT_MAX" using assms(1) len' [of bs] by (simp add: t)
    ultimately obtain x where "shrink (Some (buf, length bs)) ?h1 = (Some (bs @ [x], length bs), snd (next_answer ?h1))"
      using shrink_result p2 by blast
    moreover note raw_start [of bs, folded t]
    ultimately show ?thesis using n uh by (auto simp: PQunescapeBytea_def)
  qed
qed


text \<open>On any NUL-terminated text both branches return, and the result is not longer than the text.\<close>

lemma unescape_total:
  assumes "strlen str = Some n" "n < INT_MAX"
  shows "\<exists>r h'. unescape str n h = Some (r, h') \<and> (\<forall>buf m. r = Some (buf, m) \<longrightarrow> m \<le> n)"
proof (cases rule: malloc_cases [of "size_t (n + 1)" h])
  case (1 h1)
  then show ?thesis by (simp add: unescape_def)
next
  case (2 h1)
  have "n < length (fresh h (size_t (n + 1)))" using assms(2) by (simp add: sizes)
  from unescape_bounds [OF assms(1) this le0 written_init le0] obtain buf j where
    "unescape_loop str n 0 (fresh h (size_t (n + 1))) 0 = Some (buf, j)" "j \<le> n" by blast
  then have "unescape str n h = Some (Some (buf, j), h1)"
    unfolding unescape_def Let_def 2 prod.case option.case by simp
  then show ?thesis using \<open>j \<le> n\<close> by simp
qed

lemma unhex_total:
  assumes "strlen str = Some n" "n < INT_MAX" "2 \<le> n"
  shows "\<exists>r h'. unhex str n h = Some (r, h') \<and> (\<forall>buf m. r = Some (buf, m) \<longrightarrow> m \<le> n)"
proof -
  define k where "k = size_sub n 2 div 2"
  have k: "k = (n - 2) div 2" using assms(2,3) by (simp add: k_def sizes)
  show ?thesis
  proof (cases rule: malloc_cases [of "if k > 0 then k else 1" h])
    case (1 h1)
    then have "unhex str n h = Some (None, h1)"
      unfolding unhex_def Let_def k_def [symmetric] by simp
    then show ?thesis by simp
  next
    case (2 h1)
    have "(n - 2) div 2 \<le> length (fresh h (if k > 0 then k else 1))" by (simp add: k)
    from unhex_bounds [OF assms(1) this order_refl assms(3) written_init] obtain buf p where
      u: "unhex_loop str 2 (fresh h (if k > 0 then k else 1)) 0 = Some (buf, p)" "2 * p + 2 \<le> n" by auto
    then have "unhex str n h = Some (Some (buf, p), h1)"
      unfolding unhex_def Let_def k_def [symmetric] 2 prod.case option.case by simp
    then show ?thesis using u(2) by auto
  qed
qed

lemma hex_test_total:
  assumes "strlen str = Some n"
  shows "\<exists>hx. (if str ! 0 = 92 then do { b \<leftarrow> peek str 1; Some (b = 120) } else Some False) = Some hx \<and> (hx \<longrightarrow> 2 \<le> n)"
proof (cases "str ! 0 = 92")
  case True
  note st = strlen_result [OF assms]
  have n1: "1 \<le> n" using st True by (cases n) auto
  then have "peek str 1 = Some (str ! 1)" using st by (auto simp: peek_in_bounds)
  moreover have "str ! 1 = 120 \<longrightarrow> 2 \<le> n" using st n1 by (cases "n = 1") auto
  ultimately show ?thesis using True by simp
next
  case False
  then show ?thesis by (intro exI [of _ False]) simp
qed

lemma shrink_total:
  assumes "\<forall>buf m. filled = Some (buf, m) \<longrightarrow> m \<le> n" "n < INT_MAX"
  shows "\<forall>buf m. fst (shrink filled h) = Some (buf, m) \<longrightarrow> m \<le> n \<and> length buf = m + 1"
proof (cases filled)
  case None
  then show ?thesis by (simp add: shrink_def)
next
  case (Some bm)
  then obtain buf m where m: "filled = Some (buf, m)" "m \<le> n" using assms(1) by (cases bm) auto
  have "size_t (Suc m) = Suc m" using m(2) assms(2) by (simp add: sizes)
  then show ?thesis using m by (auto simp: shrink_def realloc_eq)
qed

section \<open>Properties\<close>

text \<open>
  C12: Every binary string survives the trip: the literal that \<open>PQescapeByteaConn\<close> writes consists of
  printable ASCII bytes, the reader of string literals turns it into the text form of the value,
  and \<open>PQunescapeBytea\<close> of that text gives the same bytes, in hex and in escape format and with and
  without \<open>standard_conforming_strings\<close>.
\<close>

theorem PQescapeByteaConn_roundtrip:
  assumes "n \<le> length from" "5 * n + 4 < INT_MAX" "plenty 1 h" "plenty 2 h2"
  shows "\<exists>out raw x h' h2'. PQescapeByteaConn vsn (Some conn) from n h
      = Some (Some (out @ [0]), Some (length out + 1), Some conn, h')
    \<and> list_all (\<lambda>b. 0x20 \<le> b \<and> b \<le> 0x7e) out
    \<and> literal_body (std_strings conn) (singles out) = Some (singles raw)
    \<and> PQunescapeBytea (Some (raw @ [0])) h2 = Some (Some (take n from @ [x], n), h2')"
proof -
  let ?std = "std_strings conn" and ?hex = "sversion conn \<ge> 90000"
  let ?out = "bytea_text ?std ?hex (take n from)" and ?raw = "raw_text ?hex (take n from)"
  have small: "5 * n + 4 < 2 ^ 32" using assms(2) by (simp add: INT_MAX_eq)
  have next1: "fst (next_answer h)" using plenty_next(1) [of 0 h] assms(3) by simp
  have r: "PQescapeByteaConn vsn (Some conn) from n h
      = Some (Some (?out @ [0]), Some (length ?out + 1), Some conn, snd (next_answer h))"
    unfolding PQescapeByteaConn_def option.case escape_bytea_result [OF assms(1) small next1] by simp
  have pr: "list_all (\<lambda>b. 0x20 \<le> b \<and> b \<le> 0x7e) (concat (map (bytea_char ?std ?hex) bs))" for bs
    using bytea_char_printable [of ?std ?hex] by (induction bs) simp_all
  have "list_all (\<lambda>b. 0x20 \<le> b \<and> b \<le> 0x7e) ?out" using pr by (simp add: bytea_text_def)
  moreover have "literal_body ?std (singles ?out) = Some (singles ?raw)" by (rule literal_body_bytea)
  moreover have "length ?raw < INT_MAX"
  proof -
    have c: "length (concat (map (raw_char ?hex) bs)) \<le> 4 * length bs" for bs
    proof (induction bs)
      case (Cons b bs)
      have "length (raw_char ?hex b) \<le> 4" by (simp add: raw_char_def)
      then show ?case using Cons by simp
    qed simp
    have "length (take n from) = n" using assms(1) by simp
    moreover have "length ?raw \<le> 4 * length (take n from) + 2"
      using c [of "take n from"] by (auto simp: raw_text_def)
    ultimately show ?thesis using assms(2) by linarith
  qed
  from unescape_raw [OF this assms(4)] obtain x h2' where
    "PQunescapeBytea (Some (?raw @ [0])) h2 = Some (Some (take n from @ [x], n), h2')"
    using assms(1) by auto
  ultimately show ?thesis using r by blast
qed

theorem PQescapeByteaConn_roundtrip_witness:
  "\<exists>out raw x h' h2'. PQescapeByteaConn plain_formatter (Some test_conn) [0, 39, 92, 255] 4 \<lparr>answers = [True], junk = \<lambda>i. 7\<rparr>
      = Some (Some (out @ [0]), Some (length out + 1), Some test_conn, h')
    \<and> literal_body True (singles out) = Some (singles raw)
    \<and> PQunescapeBytea (Some (raw @ [0])) \<lparr>answers = [True, True], junk = \<lambda>i. 7\<rparr> = Some (Some ([0, 39, 92, 255] @ [x], 4), h2')"
proof -
  have "plenty 1 \<lparr>answers = [True], junk = \<lambda>i. 7\<rparr>" "plenty 2 \<lparr>answers = [True, True], junk = \<lambda>i. 7\<rparr>"
    by (simp_all add: plenty_def less_Suc_eq numeral_2_eq_2)
  from PQescapeByteaConn_roundtrip [OF _ _ this, of 4 "[0, 39, 92, 255]" plain_formatter test_conn]
  show ?thesis by (auto simp: INT_MAX_def)
qed

text \<open>
  C33: For every NUL-terminated input, well-formed or not, \<open>PQunescapeBytea\<close> returns and stays inside
  its buffers; the result is never longer than the input.
\<close>

theorem PQunescapeBytea_bounds:
  assumes "strlen str = Some n" "n < INT_MAX"
  shows "\<exists>r h'. PQunescapeBytea (Some str) h = Some (r, h') \<and> (\<forall>buf m. r = Some (buf, m) \<longrightarrow> m \<le> n \<and> length buf = m + 1)"
proof -
  obtain hx where hx: "(if str ! 0 = 92 then do { b \<leftarrow> peek str 1; Some (b = 120) } else Some False) = Some hx"
    "hx \<longrightarrow> 2 \<le> n" using hex_test_total [OF assms(1)] by blast
  obtain filled h1 where f: "(if hx then unhex str n h else unescape str n h) = Some (filled, h1)"
    "\<forall>buf m. filled = Some (buf, m) \<longrightarrow> m \<le> n"
    using unescape_total [OF assms, of h] unhex_total [OF assms, of h] hx(2) by (cases hx) auto
  have "0 < length str" using strlen_result [OF assms(1)] by linarith
  then have pk: "peek str 0 = Some (str ! 0)" by (simp add: peek_in_bounds)
  have "PQunescapeBytea (Some str) h = Some (shrink filled h1)"
    unfolding PQunescapeBytea_def option.case assms(1) bind.bind_lunit pk hx(1) f(1) prod.case by (rule refl)
  then show ?thesis using shrink_total [OF f(2) assms(2), of h1] by (cases "shrink filled h1") auto
qed

theorem PQunescapeBytea_bounds_witness:
  "\<exists>r h'. PQunescapeBytea (Some [92, 120, 65, 71, 49, 0]) \<lparr>answers = [True, True], junk = \<lambda>i. 7\<rparr> = Some (r, h')
    \<and> (\<forall>buf m. r = Some (buf, m) \<longrightarrow> m \<le> 5)"
  using PQunescapeBytea_bounds [of "[92, 120, 65, 71, 49, 0]" 5 "\<lparr>answers = [True, True], junk = \<lambda>i. 7\<rparr>"]
  by (fastforce simp: INT_MAX_def)

text \<open>
  C34: With memory for its request, \<open>PQescapeByteaInternal\<close> returns, in either format, the text of the
  value with its NUL byte and their length, exactly if this length is below \<open>2 ^ 32\<close>. For every
  longer result the 32-bit \<open>size_t\<close> wraps around, the block is too small, and the function writes
  behind it.
\<close>

theorem PQescapeByteaInternal_fits_or_overruns:
  assumes "n \<le> length from" "fst (next_answer h)"
  shows "PQescapeByteaInternal vsn conn from n std hex h =
    (let t = bytea_text std hex (take n from) in
     if length t + 1 < 2 ^ 32 then Some (Some (t @ [0]), length t + 1, conn, snd (next_answer h)) else None)"
  using escape_bytea_fits [OF assms(1) _ assms(2)] escape_bytea_overruns [OF assms(1) _ assms(2)] by (simp add: Let_def)

theorem PQescapeByteaInternal_fits_or_overruns_witness:
  "PQescapeByteaInternal plain_formatter None (replicate 858993460 255) 858993460 False False \<lparr>answers = [True], junk = \<lambda>i. 7\<rparr> = None"
proof -
  have "length (bytea_text False False (replicate n 255)) = 5 * n" for n
    by (induction n) (simp_all add: bytea_text_def bytea_char_def)
  then show ?thesis
    using PQescapeByteaInternal_fits_or_overruns [of 858993460 "replicate 858993460 255" "\<lparr>answers = [True], junk = \<lambda>i. 7\<rparr>"
      plain_formatter None False False] by (simp add: next_answer_def Let_def)
qed

end
