(* ===== verification/Conn_Buffer.thy ===== *)
theory Conn_Buffer
  imports PG_Conn
begin

text \<open>
  The first half of \<open>fe-misc.c\<close>: reading values out of the input buffer of a connection, and
  building messages in its output buffer. \<open>True\<close> stands for the result 0 and \<open>False\<close> for \<open>EOF\<close>; the
  value of a get function is \<open>None\<close> inside of the outer option for \<open>EOF\<close>. The trace output to
  \<open>Pfdebug\<close> and the notices of \<open>pqInternalNotice\<close> have no effect on the connection and are left out.
\<close>

section \<open>Growing a buffer\<close>

text \<open>Arithmetic of the C type \<open>int\<close>, which the sources expect to wrap around.\<close>

definition int32 :: "int \<Rightarrow> int" where
  "int32 x = (x + 2 ^ 31) mod 2 ^ 32 - 2 ^ 31"

text \<open>The loop \<open>do newsize = f newsize while (newsize > 0 && bytes_needed > (size_t) newsize)\<close>.\<close>

partial_function (option) grow :: "(int \<Rightarrow> int) \<Rightarrow> nat \<Rightarrow> int \<Rightarrow> int option" where
  "grow f bytes_needed newsize =
    (if f newsize > 0 \<and> bytes_needed > nat (f newsize) then grow f bytes_needed (f newsize)
     else Some (f newsize))"

definition try_realloc :: "byte list \<Rightarrow> int \<Rightarrow> nat \<Rightarrow> heap \<Rightarrow> byte list option \<times> heap" where
  "try_realloc buf newsize bytes_needed h =
    (if newsize > 0 \<and> bytes_needed \<le> nat newsize then realloc buf (nat newsize) h else (None, h))"

text \<open>
  The two attempts, doubling and then steps of 8192 bytes; the code is the same for both buffers.
  The result is the new buffer and its size.
\<close>

definition enlarge_buffer ::
  "byte list \<Rightarrow> nat \<Rightarrow> nat \<Rightarrow> heap \<Rightarrow> ((byte list \<times> nat) option \<times> heap) option" where
  "enlarge_buffer buf bufsize bytes_needed h = do {
     n1 \<leftarrow> grow (\<lambda>n. int32 (n * 2)) bytes_needed (int bufsize);
     let (newbuf, h) = try_realloc buf n1 bytes_needed h;
     case newbuf of
       Some b \<Rightarrow> Some (Some (b, nat n1), h)
     | None \<Rightarrow> do {
         n2 \<leftarrow> grow (\<lambda>n. int32 (n + 8192)) bytes_needed (int bufsize);
         let (newbuf, h) = try_realloc buf n2 bytes_needed h;
         Some (map_option (\<lambda>b. (b, nat n2)) newbuf, h) } }"

definition pqCheckOutBufferSpace :: "formatter \<Rightarrow> nat \<Rightarrow> PGconn \<Rightarrow> heap \<Rightarrow> (bool \<times> PGconn \<times> heap) option" where
  "pqCheckOutBufferSpace vsn bytes_needed conn h =
    (if bytes_needed \<le> outBufSize conn then Some (True, conn, h)
     else do {
       (r, h) \<leftarrow> enlarge_buffer (outBuffer conn) (outBufSize conn) bytes_needed h;
       case r of
         Some (b, n) \<Rightarrow> Some (True, conn\<lparr>outBuffer := b, outBufSize := n\<rparr>, h)
       | None \<Rightarrow> do {
           (conn, h) \<leftarrow> print_error vsn ''cannot allocate memory for output buffer'' conn h;
           Some (False, conn, h) } })"

text \<open>Moving the unconsumed data to the front of the input buffer.\<close>

definition left_justify :: "PGconn \<Rightarrow> PGconn option" where
  "left_justify conn =
    (if inStart conn < inEnd conn then
       (if inStart conn > 0 then
          (if inEnd conn \<le> length (inBuffer conn)
           then Some (conn\<lparr>
             inBuffer := take (inEnd conn - inStart conn) (drop (inStart conn) (inBuffer conn))
               @ drop (inEnd conn - inStart conn) (inBuffer conn),
             inEnd := inEnd conn - inStart conn,
             inCursor := inCursor conn - inStart conn,
             inStart := 0\<rparr>)
           else None)
        else Some conn)
     else Some (conn\<lparr>inStart := 0, inCursor := 0, inEnd := 0\<rparr>))"

definition pqCheckInBufferSpace :: "formatter \<Rightarrow> nat \<Rightarrow> PGconn \<Rightarrow> heap \<Rightarrow> (bool \<times> PGconn \<times> heap) option" where
  "pqCheckInBufferSpace vsn bytes_needed conn h =
    (if bytes_needed \<le> inBufSize conn then Some (True, conn, h)
     else do {
       let bytes_needed = size_sub bytes_needed (inStart conn);
       conn \<leftarrow> left_justify conn;
       if bytes_needed \<le> inBufSize conn then Some (True, conn, h)
       else do {
         (r, h) \<leftarrow> enlarge_buffer (inBuffer conn) (inBufSize conn) bytes_needed h;
         case r of
           Some (b, n) \<Rightarrow> Some (True, conn\<lparr>inBuffer := b, inBufSize := n\<rparr>, h)
         | None \<Rightarrow> do {
             (conn, h) \<leftarrow> print_error vsn ''cannot allocate memory for input buffer'' conn h;
             Some (False, conn, h) } } })"

section \<open>Reading values\<close>

definition pqGetc :: "PGconn \<Rightarrow> (byte option \<times> PGconn) option" where
  "pqGetc conn =
    (if inCursor conn \<ge> inEnd conn then Some (None, conn)
     else do {
       c \<leftarrow> peek (inBuffer conn) (inCursor conn);
       Some (Some c, conn\<lparr>inCursor := inCursor conn + 1\<rparr>) })"

text \<open>The search loop of \<open>pqGets_internal\<close>.\<close>

function find_nul :: "byte list \<Rightarrow> nat \<Rightarrow> nat \<Rightarrow> nat option" where
  "find_nul buf cursor stop =
    (if cursor < stop
     then (case peek buf cursor of
             None \<Rightarrow> None
           | Some c \<Rightarrow> if c \<noteq> 0 then find_nul buf (cursor + 1) stop else Some cursor)
     else Some cursor)"
  by pat_completeness auto
termination by (relation "measure (\<lambda>(buf, cursor, stop). stop - cursor)") auto

declare find_nul.simps [simp del]

text \<open>The result of the first component: whether a string was found, and the string buffer.\<close>

definition pqGets_internal ::
  "PQExpBuffer \<Rightarrow> PGconn \<Rightarrow> bool \<Rightarrow> heap \<Rightarrow> (bool \<times> PQExpBuffer \<times> PGconn \<times> heap) option" where
  "pqGets_internal buf conn resetbuffer h = do {
     cursor \<leftarrow> find_nul (inBuffer conn) (inCursor conn) (inEnd conn);
     if cursor \<ge> inEnd conn then Some (False, buf, conn, h)
     else do {
       let slen = cursor - inCursor conn;
       (buf, h) \<leftarrow> (if resetbuffer then resetPQExpBuffer buf h else Some (buf, h));
       (buf, h) \<leftarrow> appendBinaryPQExpBuffer buf (take slen (drop (inCursor conn) (inBuffer conn))) h;
       Some (True, buf, conn\<lparr>inCursor := cursor + 1\<rparr>, h) } }"

definition pqGets :: "PQExpBuffer \<Rightarrow> PGconn \<Rightarrow> heap \<Rightarrow> (bool \<times> PQExpBuffer \<times> PGconn \<times> heap) option" where
  "pqGets buf conn h = pqGets_internal buf conn True h"

definition pqGets_append :: "PQExpBuffer \<Rightarrow> PGconn \<Rightarrow> heap \<Rightarrow> (bool \<times> PQExpBuffer \<times> PGconn \<times> heap) option" where
  "pqGets_append buf conn h = pqGets_internal buf conn False h"

text \<open>The cast \<open>(size_t) (conn->inEnd - conn->inCursor)\<close>.\<close>

definition in_avail :: "PGconn \<Rightarrow> nat" where
  "in_avail conn = nat ((int (inEnd conn) - int (inCursor conn)) mod 2 ^ 32)"

text \<open>The caller's array is not modelled: the result is the bytes that are copied into it.\<close>

definition pqGetnchar :: "nat \<Rightarrow> PGconn \<Rightarrow> (byte list option \<times> PGconn) option" where
  "pqGetnchar len conn =
    (if len > in_avail conn then Some (None, conn)
     else if inCursor conn + len \<le> length (inBuffer conn)
       then Some (Some (take len (drop (inCursor conn) (inBuffer conn))), conn\<lparr>inCursor := inCursor conn + len\<rparr>)
       else None)"

definition pqSkipnchar :: "nat \<Rightarrow> PGconn \<Rightarrow> bool \<times> PGconn" where
  "pqSkipnchar len conn =
    (if len > in_avail conn then (False, conn) else (True, conn\<lparr>inCursor := inCursor conn + len\<rparr>))"

text \<open>\<open>ntohs\<close> and \<open>ntohl\<close> of bytes, \<open>htons\<close> and \<open>htonl\<close> to bytes; the host order does not matter.\<close>

definition ntohs :: "byte list \<Rightarrow> nat" where
  "ntohs bs = unat (bs ! 0) * 256 + unat (bs ! 1)"

definition ntohl :: "byte list \<Rightarrow> nat" where
  "ntohl bs = unat (bs ! 0) * 2 ^ 24 + unat (bs ! 1) * 2 ^ 16 + unat (bs ! 2) * 256 + unat (bs ! 3)"

definition htons :: "nat \<Rightarrow> byte list" where
  "htons n = [word_of_nat (n div 256), word_of_nat n]"

definition htonl :: "nat \<Rightarrow> byte list" where
  "htonl n = [word_of_nat (n div 2 ^ 24), word_of_nat (n div 2 ^ 16), word_of_nat (n div 256), word_of_nat n]"

definition pqGetInt :: "nat \<Rightarrow> PGconn \<Rightarrow> (int option \<times> PGconn) option" where
  "pqGetInt bytes conn =
    (if bytes = 2 then
       (if inCursor conn + 2 > inEnd conn then Some (None, conn)
        else if inCursor conn + 2 \<le> length (inBuffer conn)
          then Some (Some (int (ntohs (take 2 (drop (inCursor conn) (inBuffer conn))))),
                 conn\<lparr>inCursor := inCursor conn + 2\<rparr>)
          else None)
     else if bytes = 4 then
       (if inCursor conn + 4 > inEnd conn then Some (None, conn)
        else if inCursor conn + 4 \<le> length (inBuffer conn)
          then Some (Some (int32 (int (ntohl (take 4 (drop (inCursor conn) (inBuffer conn)))))),
                 conn\<lparr>inCursor := inCursor conn + 4\<rparr>)
          else None)
     else Some (None, conn))"

section \<open>Building messages\<close>

definition pqPutMsgStart :: "formatter \<Rightarrow> byte \<Rightarrow> bool \<Rightarrow> PGconn \<Rightarrow> heap \<Rightarrow> (bool \<times> PGconn \<times> heap) option" where
  "pqPutMsgStart vsn msg_type force_len conn h = do {
     let endPos = (if msg_type \<noteq> 0 then outCount conn + 1 else outCount conn);
     let lenPos = (if force_len \<or> PG_PROTOCOL_MAJOR (pversion conn) \<ge> 3 then int endPos else -1);
     let endPos = (if force_len \<or> PG_PROTOCOL_MAJOR (pversion conn) \<ge> 3 then endPos + 4 else endPos);
     (ok, conn, h) \<leftarrow> pqCheckOutBufferSpace vsn endPos conn h;
     if \<not> ok then Some (False, conn, h)
     else do {
       buf \<leftarrow> (if msg_type \<noteq> 0 then poke (outBuffer conn) (outCount conn) msg_type else Some (outBuffer conn));
       Some (True, conn\<lparr>outBuffer := buf, outMsgStart := lenPos, outMsgEnd := endPos\<rparr>, h) } }"

definition pqPutMsgBytes :: "formatter \<Rightarrow> byte list \<Rightarrow> PGconn \<Rightarrow> heap \<Rightarrow> (bool \<times> PGconn \<times> heap) option" where
  "pqPutMsgBytes vsn bs conn h = do {
     (ok, conn, h) \<leftarrow> pqCheckOutBufferSpace vsn (size_t (outMsgEnd conn + length bs)) conn h;
     if \<not> ok then Some (False, conn, h)
     else do {
       buf \<leftarrow> blit (outBuffer conn) (outMsgEnd conn) bs;
       Some (True, conn\<lparr>outBuffer := buf, outMsgEnd := outMsgEnd conn + length bs\<rparr>, h) } }"

definition pqPutc :: "formatter \<Rightarrow> byte \<Rightarrow> PGconn \<Rightarrow> heap \<Rightarrow> (bool \<times> PGconn \<times> heap) option" where
  "pqPutc vsn c conn h = pqPutMsgBytes vsn [c] conn h"

definition pqPuts :: "formatter \<Rightarrow> byte list \<Rightarrow> PGconn \<Rightarrow> heap \<Rightarrow> (bool \<times> PGconn \<times> heap) option" where
  "pqPuts vsn s conn h = do {
     n \<leftarrow> strlen s;
     pqPutMsgBytes vsn (take (n + 1) s) conn h }"

definition pqPutnchar :: "formatter \<Rightarrow> byte list \<Rightarrow> PGconn \<Rightarrow> heap \<Rightarrow> (bool \<times> PGconn \<times> heap) option" where
  "pqPutnchar vsn s conn h = pqPutMsgBytes vsn s conn h"

text \<open>The value is a C \<open>int\<close>; the casts to \<open>uint16\<close> and \<open>uint32\<close> reduce it.\<close>

definition pqPutInt :: "formatter \<Rightarrow> int \<Rightarrow> nat \<Rightarrow> PGconn \<Rightarrow> heap \<Rightarrow> (bool \<times> PGconn \<times> heap) option" where
  "pqPutInt vsn v bytes conn h =
    (if bytes = 2 then pqPutMsgBytes vsn (htons (nat (v mod 2 ^ 16))) conn h
     else if bytes = 4 then pqPutMsgBytes vsn (htonl (nat (v mod 2 ^ 32))) conn h
     else Some (False, conn, h))"

text \<open>
  The part of \<open>pqPutMsgEnd\<close> that completes the message; the rest of the function sends full blocks.
\<close>

definition finish_msg :: "PGconn \<Rightarrow> PGconn option" where
  "finish_msg conn = do {
     buf \<leftarrow> (if outMsgStart conn \<ge> 0
       then blit (outBuffer conn) (nat (outMsgStart conn)) (htonl (nat ((int (outMsgEnd conn) - outMsgStart conn) mod 2 ^ 32)))
       else Some (outBuffer conn));
     Some (conn\<lparr>outBuffer := buf, outCount := outMsgEnd conn\<rparr>) }"

section \<open>Invariant\<close>

text \<open>Offsets are ordered and inside their buffers, and the sizes are those of the blocks.\<close>

definition conn_inv :: "PGconn \<Rightarrow> bool" where
  "conn_inv conn \<longleftrightarrow> length (inBuffer conn) = inBufSize conn \<and> inBufSize conn \<le> INT_MAX
     \<and> inStart conn \<le> inCursor conn \<and> inCursor conn \<le> inEnd conn \<and> inEnd conn \<le> inBufSize conn
     \<and> length (outBuffer conn) = outBufSize conn \<and> outBufSize conn \<le> INT_MAX
     \<and> outCount conn \<le> outBufSize conn \<and> eb_inv (errorMessage conn)"

text \<open>The data received and not consumed, the part of it that has not been read, and the data to send.\<close>

definition in_data :: "PGconn \<Rightarrow> byte list" where
  "in_data conn = take (inEnd conn - inStart conn) (drop (inStart conn) (inBuffer conn))"

definition in_unread :: "PGconn \<Rightarrow> byte list" where
  "in_unread conn = take (inEnd conn - inCursor conn) (drop (inCursor conn) (inBuffer conn))"

definition out_data :: "PGconn \<Rightarrow> byte list" where
  "out_data conn = take (outCount conn) (outBuffer conn)"

section \<open>Growth\<close>

lemma int32_id: "-(2 ^ 31) \<le> x \<Longrightarrow> x < 2 ^ 31 \<Longrightarrow> int32 x = x"
  by (simp add: int32_def)

lemma int32_over: "2 ^ 31 \<le> x \<Longrightarrow> x < 2 ^ 32 \<Longrightarrow> int32 x < 0"
proof -
  assume x: "2 ^ 31 \<le> x" "x < 2 ^ 32"
  have "(x + 2 ^ 31) mod 2 ^ 32 = (x - 2 ^ 31) mod 2 ^ 32"
    using mod_add_self2 [of "x - 2 ^ 31" "2 ^ 32"] by (simp add: algebra_simps)
  also have "\<dots> = x - 2 ^ 31" using x by (intro mod_pos_pos_trivial) auto
  finally show ?thesis using x by (simp add: int32_def)
qed

text \<open>A step function that increases its argument or leaves the positive numbers.\<close>

locale size_step =
  fixes f :: "int \<Rightarrow> int"
  assumes step: "0 \<le> n \<Longrightarrow> n \<le> int INT_MAX \<Longrightarrow> f n \<le> 0 \<or> (n < f n \<and> f n \<le> int INT_MAX)"
begin

lemma grow_result:
  assumes "0 \<le> n" "n \<le> int INT_MAX"
  shows "\<exists>m. grow f needed n = Some m \<and> (m \<le> 0 \<or> (n < m \<and> m \<le> int INT_MAX \<and> needed \<le> nat m))"
  using assms
proof (induction "nat (int INT_MAX - n)" arbitrary: n rule: less_induct)
  case less
  show ?case
  proof (cases "f n > 0 \<and> needed > nat (f n)")
    case True
    then have s: "n < f n" "f n \<le> int INT_MAX" using step [OF less.prems] by auto
    then obtain m where "grow f needed (f n) = Some m"
      "m \<le> 0 \<or> (f n < m \<and> m \<le> int INT_MAX \<and> needed \<le> nat m)"
      using less.hyps [of "f n"] less.prems True by auto
    then show ?thesis using True s by (subst grow.simps) auto
  next
    case False
    then show ?thesis using step [OF less.prems] by (subst grow.simps) auto
  qed
qed

end

interpretation doubling: size_step "\<lambda>n. int32 (n * 2)"
proof
  fix n :: int assume n: "0 \<le> n" "n \<le> int INT_MAX"
  show "int32 (n * 2) \<le> 0 \<or> (n < int32 (n * 2) \<and> int32 (n * 2) \<le> int INT_MAX)"
  proof (cases "n * 2 < 2 ^ 31")
    case True
    then have e: "int32 (n * 2) = n * 2" using n by (intro int32_id) auto
    show ?thesis unfolding e using n True by (cases "n = 0") (simp_all add: INT_MAX_eq)
  next
    case False
    then have "int32 (n * 2) < 0" using n by (intro int32_over) (auto simp: INT_MAX_eq)
    then show ?thesis by simp
  qed
qed

lemma step_8k: "0 \<le> n \<Longrightarrow> n + 8192 \<le> int INT_MAX \<Longrightarrow> int32 (n + 8192) = n + 8192"
  by (intro int32_id) (auto simp: INT_MAX_eq)

interpretation by_8k: size_step "\<lambda>n. int32 (n + 8192)"
proof
  fix n :: int assume n: "0 \<le> n" "n \<le> int INT_MAX"
  show "int32 (n + 8192) \<le> 0 \<or> (n < int32 (n + 8192) \<and> int32 (n + 8192) \<le> int INT_MAX)"
  proof (cases "n + 8192 \<le> int INT_MAX")
    case True
    then show ?thesis using step_8k [OF n(1)] by simp
  next
    case False
    then have "int32 (n + 8192) < 0" using n by (intro int32_over) (auto simp: INT_MAX_eq)
    then show ?thesis by simp
  qed
qed

lemma grow_8k:
  assumes "0 \<le> n" "n \<le> int INT_MAX" "n < int needed" "needed + 8192 \<le> INT_MAX"
  shows "\<exists>m. grow (\<lambda>n. int32 (n + 8192)) needed n = Some m \<and> 0 < m"
  using assms
proof (induction "nat (int INT_MAX - n)" arbitrary: n rule: less_induct)
  case less
  have e: "int32 (n + 8192) = n + 8192" using less.prems by (intro step_8k) auto
  show ?case
  proof (cases "int32 (n + 8192) > 0 \<and> needed > nat (int32 (n + 8192))")
    case True
    then have "\<exists>m. grow (\<lambda>n. int32 (n + 8192)) needed (n + 8192) = Some m \<and> 0 < m"
      using less.prems by (intro less.hyps) (auto simp: e)
    then show ?thesis using True by (subst grow.simps) (simp add: e)
  next
    case False
    then show ?thesis using less.prems by (subst grow.simps) (auto simp: e)
  qed
qed

lemma try_realloc_result:
  assumes "length buf = bufsize" "bufsize < needed" "n \<le> int INT_MAX"
  shows "(\<exists>h'. try_realloc buf n needed h = (None, h') \<and>
      (\<forall>k. plenty (Suc k) h \<longrightarrow> h' = h \<and> \<not> (n > 0 \<and> needed \<le> nat n))) \<or>
    (\<exists>X. try_realloc buf n needed h = (Some (buf @ X), snd (next_answer h)) \<and> fst (next_answer h)
      \<and> length (buf @ X) = nat n \<and> needed \<le> nat n)"
proof (cases "n > 0 \<and> needed \<le> nat n \<and> fst (next_answer h)")
  case True
  then have "try_realloc buf n needed h = (Some (buf @ fresh h (nat n - bufsize)), snd (next_answer h))"
    using assms by (simp add: try_realloc_def realloc_eq)
  moreover have "length (buf @ fresh h (nat n - bufsize)) = nat n" using True assms by simp
  ultimately show ?thesis using True by blast
next
  case False
  then show ?thesis using plenty_next(1) [of _ h] by (auto simp: try_realloc_def realloc_eq)
qed

text \<open>What may be relied on: the block is extended to a size that is enough and fits an \<open>int\<close>.\<close>

definition enlarged :: "byte list \<Rightarrow> nat \<Rightarrow> heap \<Rightarrow> (byte list \<times> nat) option \<Rightarrow> heap \<Rightarrow> bool" where
  "enlarged buf needed h r h' \<longleftrightarrow>
    (\<forall>b n. r = Some (b, n) \<longrightarrow> (\<exists>X. b = buf @ X) \<and> length b = n \<and> needed \<le> n \<and> n \<le> INT_MAX) \<and>
    (\<forall>k. plenty (Suc k) h \<and> needed + 8192 \<le> INT_MAX \<longrightarrow> r \<noteq> None \<and> plenty k h')"

lemma enlarge_buffer_result:
  assumes "length buf = bufsize" "bufsize \<le> INT_MAX" "bufsize < needed"
  shows "\<exists>r h'. enlarge_buffer buf bufsize needed h = Some (r, h') \<and> enlarged buf needed h r h'"
proof -
  have n: "0 \<le> int bufsize" "int bufsize \<le> int INT_MAX" using assms(2) by simp_all
  obtain n1 where n1: "grow (\<lambda>n. int32 (n * 2)) needed (int bufsize) = Some n1"
    "n1 \<le> 0 \<or> (int bufsize < n1 \<and> n1 \<le> int INT_MAX \<and> needed \<le> nat n1)"
    using doubling.grow_result [OF n] by blast
  obtain n2 where n2: "grow (\<lambda>n. int32 (n + 8192)) needed (int bufsize) = Some n2"
    "n2 \<le> 0 \<or> (int bufsize < n2 \<and> n2 \<le> int INT_MAX \<and> needed \<le> nat n2)"
    using by_8k.grow_result [OF n] by blast
  have pos2: "0 < n2" if "needed + 8192 \<le> INT_MAX"
    using grow_8k [OF n, of needed] n2(1) assms(3) that by auto
  have b1: "n1 \<le> int INT_MAX" and b2: "n2 \<le> int INT_MAX" using n1(2) n2(2) by auto
  have second: "\<exists>r h'. (let (newbuf, h2) = try_realloc buf n2 needed h in
        Some (map_option (\<lambda>b. (b, nat n2)) newbuf, h2)) = Some (r, h') \<and>
    (\<forall>b n. r = Some (b, n) \<longrightarrow> (\<exists>X. b = buf @ X) \<and> length b = n \<and> needed \<le> n \<and> n \<le> INT_MAX) \<and>
    (\<forall>k. plenty (Suc k) h \<and> needed + 8192 \<le> INT_MAX \<longrightarrow> r \<noteq> None \<and> plenty k h')" for h
    using try_realloc_result [OF assms(1,3) b2, of h]
  proof (elim disjE exE conjE)
    fix h' assume *: "try_realloc buf n2 needed h = (None, h')"
      "\<forall>k. plenty (Suc k) h \<longrightarrow> h' = h \<and> \<not> (n2 > 0 \<and> needed \<le> nat n2)"
    have "\<not> plenty (Suc k) h" if "needed + 8192 \<le> INT_MAX" for k
      using *(2) pos2 [OF that] n2(2) by auto
    then show ?thesis using *(1) by auto
  next
    fix X assume "try_realloc buf n2 needed h = (Some (buf @ X), snd (next_answer h))" "length (buf @ X) = nat n2" "needed \<le> nat n2"
    then show ?thesis using b2 plenty_next(2) [of _ h] by auto
  qed
  have e: "enlarge_buffer buf bufsize needed h = (let (newbuf, h) = try_realloc buf n1 needed h in
     case newbuf of
       Some b \<Rightarrow> Some (Some (b, nat n1), h)
     | None \<Rightarrow> (let (newbuf, h2) = try_realloc buf n2 needed h in
        Some (map_option (\<lambda>b. (b, nat n2)) newbuf, h2)))"
    unfolding enlarge_buffer_def n1(1) n2(1) bind.bind_lunit by (rule refl)
  from try_realloc_result [OF assms(1,3) b1, of h] show ?thesis
  proof (elim disjE exE conjE)
    fix X assume "try_realloc buf n1 needed h = (Some (buf @ X), snd (next_answer h))" "length (buf @ X) = nat n1" "needed \<le> nat n1"
    then show ?thesis unfolding e enlarged_def using b1 plenty_next(2) [of _ h] by auto
  next
    fix h' assume *: "try_realloc buf n1 needed h = (None, h')"
      "\<forall>k. plenty (Suc k) h \<longrightarrow> h' = h \<and> \<not> (n1 > 0 \<and> needed \<le> nat n1)"
    then show ?thesis unfolding e enlarged_def using second [of h'] by auto
  qed
qed

text \<open>
  The output buffer grows at its end and nothing else of the connection changes but the error
  message; with memory and below the size limit it always grows.
\<close>

lemma check_out_result:
  assumes inv: "conn_inv conn" and fmt: "formatter_ok vsn"
  shows "\<exists>ok X e h'. pqCheckOutBufferSpace vsn needed conn h
      = Some (ok, conn\<lparr>outBuffer := outBuffer conn @ X, outBufSize := outBufSize conn + length X, errorMessage := e\<rparr>, h')
    \<and> eb_inv e \<and> outBufSize conn + length X \<le> INT_MAX
    \<and> (ok \<longrightarrow> needed \<le> outBufSize conn + length X \<and> e = errorMessage conn) \<and> (\<not> ok \<longrightarrow> X = [])
    \<and> (\<forall>k. plenty (Suc k) h \<and> needed + 8192 \<le> INT_MAX \<longrightarrow> ok \<and> plenty k h')"
proof -
  have c: "length (outBuffer conn) = outBufSize conn" "outBufSize conn \<le> INT_MAX" "eb_inv (errorMessage conn)"
    using inv by (simp_all add: conn_inv_def)
  have same: "conn\<lparr>outBuffer := outBuffer conn @ [], outBufSize := outBufSize conn + length ([] :: byte list), errorMessage := errorMessage conn\<rparr> = conn"
    by simp
  show ?thesis
  proof (cases "needed \<le> outBufSize conn")
    case True
    have "plenty k h" if "plenty (Suc k) h" for k using plenty_mono [OF that, of k] by simp
    then show ?thesis using True c
      by (intro exI [of _ True] exI [of _ "[]"] exI [of _ "errorMessage conn"] exI [of _ h])
        (simp add: pqCheckOutBufferSpace_def)
  next
    case False
    then have lt: "outBufSize conn < needed" by simp
    obtain r h1 where r: "enlarge_buffer (outBuffer conn) (outBufSize conn) needed h = Some (r, h1)"
      "enlarged (outBuffer conn) (needed) h r h1"
      using enlarge_buffer_result [OF c(1,2) lt, of h] by blast
    note r = r(1) r(2)[unfolded enlarged_def, THEN conjunct1] r(2)[unfolded enlarged_def, THEN conjunct2]
    show ?thesis
    proof (cases r)
      case None
      obtain e h2 where e: "print_error vsn ''cannot allocate memory for output buffer'' conn h1 = Some (conn\<lparr>errorMessage := e\<rparr>, h2)" "eb_inv e"
        using print_error_result [OF fmt c(3)] by blast
      then have "pqCheckOutBufferSpace vsn needed conn h = Some (False, conn\<lparr>errorMessage := e\<rparr>, h2)"
        using False r(1) None by (simp add: pqCheckOutBufferSpace_def)
      then show ?thesis using e(2) r(3) None c
        by (intro exI [of _ False] exI [of _ "[]"] exI [of _ e] exI [of _ h2]) simp
    next
      case (Some bn)
      then obtain X where X: "r = Some (outBuffer conn @ X, outBufSize conn + length X)"
        "needed \<le> outBufSize conn + length X" "outBufSize conn + length X \<le> INT_MAX"
        using r(2) c(1) by (cases bn) auto
      then have "pqCheckOutBufferSpace vsn needed conn h
          = Some (True, conn\<lparr>outBuffer := outBuffer conn @ X, outBufSize := outBufSize conn + length X\<rparr>, h1)"
        using False r(1) by (simp add: pqCheckOutBufferSpace_def)
      then show ?thesis using X r(3) c
        by (intro exI [of _ True] exI [of _ X] exI [of _ "errorMessage conn"] exI [of _ h1]) simp
    qed
  qed
qed

text \<open>Left-justifying keeps the data and the distance of the cursor from its start.\<close>

lemma left_justify_result:
  assumes "conn_inv conn"
  shows "\<exists>buf. left_justify conn = Some (conn\<lparr>inBuffer := buf, inStart := 0,
      inCursor := inCursor conn - inStart conn, inEnd := inEnd conn - inStart conn\<rparr>)
    \<and> length buf = inBufSize conn \<and> take (inEnd conn - inStart conn) buf = in_data conn"
proof -
  have c: "length (inBuffer conn) = inBufSize conn" "inStart conn \<le> inCursor conn" "inCursor conn \<le> inEnd conn"
    "inEnd conn \<le> inBufSize conn"
    using assms by (simp_all add: conn_inv_def)
  consider "inStart conn < inEnd conn" "inStart conn > 0" | "inStart conn < inEnd conn" "inStart conn = 0"
    | "inStart conn = inEnd conn" "inCursor conn = inStart conn" using c by linarith
  then show ?thesis
  proof cases
    case 1
    let ?buf = "take (inEnd conn - inStart conn) (drop (inStart conn) (inBuffer conn)) @ drop (inEnd conn - inStart conn) (inBuffer conn)"
    have "left_justify conn = Some (conn\<lparr>inBuffer := ?buf, inStart := 0,
      inCursor := inCursor conn - inStart conn, inEnd := inEnd conn - inStart conn\<rparr>)"
      using 1 c by (simp add: left_justify_def)
    moreover have "length ?buf = inBufSize conn" "take (inEnd conn - inStart conn) ?buf = in_data conn"
      using 1 c by (simp_all add: in_data_def)
    ultimately show ?thesis by blast
  next
    case 2
    then have "left_justify conn = Some (conn\<lparr>inBuffer := inBuffer conn, inStart := 0,
      inCursor := inCursor conn - inStart conn, inEnd := inEnd conn - inStart conn\<rparr>)"
      by (simp add: left_justify_def)
    then show ?thesis using 2 c by (intro exI [of _ "inBuffer conn"]) (simp add: in_data_def)
  next
    case 3
    then have "left_justify conn = Some (conn\<lparr>inBuffer := inBuffer conn, inStart := 0,
      inCursor := inCursor conn - inStart conn, inEnd := inEnd conn - inStart conn\<rparr>)"
      by (simp add: left_justify_def)
    then show ?thesis using 3 c by (intro exI [of _ "inBuffer conn"]) (simp add: in_data_def)
  qed
qed

text \<open>
  What the callers of \<open>pqCheckInBufferSpace\<close> may rely on: the data stays, the cursor keeps its
  distance from the start, and after success there is the room that was asked for.
\<close>

definition in_kept :: "PGconn \<Rightarrow> PGconn \<Rightarrow> bool" where
  "in_kept conn conn' \<longleftrightarrow> conn_inv conn' \<and> in_data conn' = in_data conn
     \<and> inCursor conn' - inStart conn' = inCursor conn - inStart conn \<and> inStart conn' \<le> inStart conn
     \<and> (\<exists>b n s c x e. conn' = conn\<lparr>inBuffer := b, inBufSize := n, inStart := s, inCursor := c, inEnd := x, errorMessage := e\<rparr>)"

lemma in_kept_refl: "conn_inv conn \<Longrightarrow> in_kept conn conn"
  unfolding in_kept_def
  by (intro conjI refl order_refl exI [of _ "inBuffer conn"] exI [of _ "inBufSize conn"] exI [of _ "inStart conn"]
      exI [of _ "inCursor conn"] exI [of _ "inEnd conn"] exI [of _ "errorMessage conn"]) simp_all

lemma left_justify_kept:
  assumes "conn_inv conn"
  shows "\<exists>conn'. left_justify conn = Some conn' \<and> in_kept conn conn' \<and> inStart conn' = 0
    \<and> inEnd conn' = inEnd conn - inStart conn \<and> inBufSize conn' = inBufSize conn"
proof -
  obtain buf where b: "left_justify conn = Some (conn\<lparr>inBuffer := buf, inStart := 0,
      inCursor := inCursor conn - inStart conn, inEnd := inEnd conn - inStart conn\<rparr>)"
    "length buf = inBufSize conn" "take (inEnd conn - inStart conn) buf = in_data conn"
    using left_justify_result [OF assms] by blast
  let ?c = "conn\<lparr>inBuffer := buf, inStart := 0, inCursor := inCursor conn - inStart conn, inEnd := inEnd conn - inStart conn\<rparr>"
  have "conn_inv ?c" using assms b(2) by (auto simp: conn_inv_def)
  moreover have "in_data ?c = in_data conn" using b(3) by (simp add: in_data_def)
  moreover have "?c = conn\<lparr>inBuffer := buf, inBufSize := inBufSize conn, inStart := 0,
      inCursor := inCursor conn - inStart conn, inEnd := inEnd conn - inStart conn, errorMessage := errorMessage conn\<rparr>"
    by simp
  then have "\<exists>b n s c x e. ?c = conn\<lparr>inBuffer := b, inBufSize := n, inStart := s, inCursor := c, inEnd := x, errorMessage := e\<rparr>"
    by (intro exI)
  ultimately have "in_kept conn ?c" by (simp add: in_kept_def)
  then show ?thesis using b(1) by simp
qed

lemma in_kept_grow:
  assumes "in_kept conn conn1" "length (inBuffer conn1 @ X) = n" "n \<le> INT_MAX" "inBufSize conn1 \<le> n"
  shows "in_kept conn (conn1\<lparr>inBuffer := inBuffer conn1 @ X, inBufSize := n\<rparr>)"
proof -
  have i: "conn_inv conn1" "in_data conn1 = in_data conn" using assms(1) by (simp_all add: in_kept_def)
  let ?c = "conn1\<lparr>inBuffer := inBuffer conn1 @ X, inBufSize := n\<rparr>"
  have "conn_inv ?c" using i(1) assms(2-) by (auto simp: conn_inv_def)
  moreover have "in_data ?c = in_data conn" using i by (simp add: in_data_def conn_inv_def)
  moreover obtain b m s c x e where "conn1 = conn\<lparr>inBuffer := b, inBufSize := m, inStart := s, inCursor := c, inEnd := x, errorMessage := e\<rparr>"
    using assms(1) unfolding in_kept_def by blast
  then have "\<exists>b n s c x e. ?c = conn\<lparr>inBuffer := b, inBufSize := n, inStart := s, inCursor := c, inEnd := x, errorMessage := e\<rparr>"
    by (intro exI [of _ "inBuffer conn1 @ X"] exI [of _ n] exI [of _ s] exI [of _ c] exI [of _ x] exI [of _ e]) simp
  ultimately show ?thesis using assms(1) unfolding in_kept_def by simp
qed

lemma in_kept_error:
  assumes "in_kept conn conn1" "eb_inv e"
  shows "in_kept conn (conn1\<lparr>errorMessage := e\<rparr>)"
proof -
  obtain b m s c x e' where "conn1 = conn\<lparr>inBuffer := b, inBufSize := m, inStart := s, inCursor := c, inEnd := x, errorMessage := e'\<rparr>"
    using assms(1) unfolding in_kept_def by blast
  then have "\<exists>b n s c x e''. conn1\<lparr>errorMessage := e\<rparr> = conn\<lparr>inBuffer := b, inBufSize := n, inStart := s, inCursor := c, inEnd := x, errorMessage := e''\<rparr>"
    by (intro exI [of _ b] exI [of _ m] exI [of _ s] exI [of _ c] exI [of _ x] exI [of _ e]) simp
  then show ?thesis using assms unfolding in_kept_def by (simp add: conn_inv_def in_data_def)
qed

lemma check_in_result:
  assumes inv: "conn_inv conn" and fmt: "formatter_ok vsn" and st: "inStart conn \<le> needed" "needed < 2 ^ 32"
  shows "\<exists>ok conn' h'. pqCheckInBufferSpace vsn needed conn h = Some (ok, conn', h') \<and> in_kept conn conn'
    \<and> (ok \<longrightarrow> inStart conn' + (needed - inStart conn) \<le> inBufSize conn')
    \<and> (\<not> ok \<longrightarrow> inBufSize conn' = inBufSize conn)
    \<and> (\<forall>k. plenty (Suc k) h \<and> needed + 8192 \<le> INT_MAX \<longrightarrow> ok \<and> plenty k h')"
proof -
  have pl: "plenty k h" if "plenty (Suc k) h" for k using plenty_mono [OF that, of k] by simp
  show ?thesis
  proof (cases "needed \<le> inBufSize conn")
    case True
    then show ?thesis using in_kept_refl [OF inv] pl st
      by (intro exI [of _ True] exI [of _ conn] exI [of _ h]) (simp add: pqCheckInBufferSpace_def)
  next
    case False
    have sub: "size_sub needed (inStart conn) = needed - inStart conn" using st by (intro size_sub_id) auto
    obtain conn1 where c1: "left_justify conn = Some conn1" "in_kept conn conn1" "inStart conn1 = 0" "inBufSize conn1 = inBufSize conn"
      using left_justify_kept [OF inv] by blast
    have i1: "length (inBuffer conn1) = inBufSize conn1" "inBufSize conn1 \<le> INT_MAX" "eb_inv (errorMessage conn1)"
      using c1(2) by (simp_all add: in_kept_def conn_inv_def)
    show ?thesis
    proof (cases "needed - inStart conn \<le> inBufSize conn1")
      case True
      then show ?thesis using False c1 pl
        by (intro exI [of _ True] exI [of _ conn1] exI [of _ h]) (simp add: pqCheckInBufferSpace_def sub Let_def)
    next
      case grow: False
      then have lt: "inBufSize conn1 < needed - inStart conn" by simp
      obtain r h1 where r: "enlarge_buffer (inBuffer conn1) (inBufSize conn1) (needed - inStart conn) h = Some (r, h1)"
        "enlarged (inBuffer conn1) (needed - inStart conn) h r h1"
      using enlarge_buffer_result [OF i1(1,2) lt, of h] by blast
      note r = r(1) r(2)[unfolded enlarged_def, THEN conjunct1] r(2)[unfolded enlarged_def, THEN conjunct2]
      show ?thesis
      proof (cases r)
        case None
        obtain e h2 where e: "print_error vsn ''cannot allocate memory for input buffer'' conn1 h1 = Some (conn1\<lparr>errorMessage := e\<rparr>, h2)" "eb_inv e"
          using print_error_result [OF fmt i1(3)] by blast
        have "pqCheckInBufferSpace vsn needed conn h = Some (False, conn1\<lparr>errorMessage := e\<rparr>, h2)"
          using False grow c1(1) r(1) None e(1) by (simp add: pqCheckInBufferSpace_def sub Let_def)
        moreover have "\<not> (plenty (Suc k) h \<and> needed + 8192 \<le> INT_MAX)" for k using r(3) None by auto
        ultimately show ?thesis using in_kept_error [OF c1(2) e(2)] c1(4) by auto
      next
        case (Some bn)
        then obtain X n where X: "r = Some (inBuffer conn1 @ X, n)" "length (inBuffer conn1 @ X) = n"
          "needed - inStart conn \<le> n" "n \<le> INT_MAX"
          using r(2) by (cases bn) auto
        have "pqCheckInBufferSpace vsn needed conn h = Some (True, conn1\<lparr>inBuffer := inBuffer conn1 @ X, inBufSize := n\<rparr>, h1)"
          using False grow c1(1) r(1) X(1) by (simp add: pqCheckInBufferSpace_def sub Let_def)
        moreover have "in_kept conn (conn1\<lparr>inBuffer := inBuffer conn1 @ X, inBufSize := n\<rparr>)"
          using in_kept_grow [OF c1(2) X(2,4)] i1(1) X(2) by simp
        moreover have "plenty k h1" if "plenty (Suc k) h \<and> needed + 8192 \<le> INT_MAX" for k using r(3) that by auto
        ultimately show ?thesis using c1(3) X(3) by auto
      qed
    qed
  qed
qed

section \<open>Messages\<close>

text \<open>
  A message under construction: behind the data \<open>out\<close> that waits to be sent are the type byte, if
  any, the space of the length word, if any, and the body so far.
\<close>

definition building :: "PGconn \<Rightarrow> byte list \<Rightarrow> byte list \<Rightarrow> bool \<Rightarrow> byte list \<Rightarrow> bool" where
  "building conn out ty has_len body \<longleftrightarrow> (\<exists>len_word rest.
     outBuffer conn = out @ ty @ len_word @ body @ rest \<and> length len_word = (if has_len then 4 else 0)
     \<and> outCount conn = length out \<and> outMsgStart conn = (if has_len then int (length out + length ty) else -1)
     \<and> outMsgEnd conn = length out + length ty + length len_word + length body)"

text \<open>What \<open>pqCheckOutBufferSpace\<close> leaves as it is.\<close>

definition only_out :: "PGconn \<Rightarrow> PGconn \<Rightarrow> bool" where
  "only_out conn conn' \<longleftrightarrow> inBuffer conn' = inBuffer conn \<and> inBufSize conn' = inBufSize conn \<and> inStart conn' = inStart conn
     \<and> inCursor conn' = inCursor conn \<and> inEnd conn' = inEnd conn \<and> pversion conn' = pversion conn \<and> sock conn' = sock conn
     \<and> nonblocking conn' = nonblocking conn \<and> status conn' = status conn"

lemma only_out_refl [simp]: "only_out conn conn"
  by (simp add: only_out_def)

lemma only_out_trans: "only_out a b \<Longrightarrow> only_out b c \<Longrightarrow> only_out a c"
  by (simp add: only_out_def)

text \<open>The three outcomes that all operations of this section share.\<close>

definition put_ok :: "nat \<Rightarrow> PGconn \<Rightarrow> heap \<Rightarrow> (PGconn \<Rightarrow> bool) \<Rightarrow> (bool \<times> PGconn \<times> heap) option \<Rightarrow> bool" where
  "put_ok needed conn h Q R \<longleftrightarrow> (\<exists>ok conn' h'. R = Some (ok, conn', h') \<and> conn_inv conn' \<and> only_out conn conn'
     \<and> out_data conn' = out_data conn \<and> (ok \<longrightarrow> Q conn')
     \<and> (\<forall>k. plenty (Suc k) h \<and> needed + 8192 \<le> INT_MAX \<longrightarrow> ok \<and> plenty k h'))"

lemma check_out_inv:
  assumes "conn_inv conn" "eb_inv e" "outBufSize conn + length X \<le> INT_MAX"
  shows "conn_inv (conn\<lparr>outBuffer := outBuffer conn @ X, outBufSize := outBufSize conn + length X, errorMessage := e\<rparr>)"
    "out_data (conn\<lparr>outBuffer := outBuffer conn @ X, outBufSize := outBufSize conn + length X, errorMessage := e\<rparr>) = out_data conn"
    "only_out conn (conn\<lparr>outBuffer := outBuffer conn @ X, outBufSize := outBufSize conn + length X, errorMessage := e\<rparr>)"
  using assms by (auto simp: conn_inv_def out_data_def only_out_def)

lemma put_start_result:
  assumes inv: "conn_inv conn" and fmt: "formatter_ok vsn"
    and L: "has_len = (force \<or> PG_PROTOCOL_MAJOR (pversion conn) \<ge> 3)"
  shows "put_ok (outCount conn + 5) conn h
    (\<lambda>conn'. building conn' (out_data conn) (if ty \<noteq> 0 then [ty] else []) has_len []) (pqPutMsgStart vsn ty force conn h)"
proof -
  let ?ty = "if ty \<noteq> 0 then [ty] else []"
  define e where "e = outCount conn + length ?ty + (if has_len then 4 else 0)"
  define lp where "lp = (if has_len then int (outCount conn + length ?ty) else -1)"
  have le: "e \<le> outCount conn + 5" by (simp add: e_def)
  have e1: "(if has_len then (if ty \<noteq> 0 then outCount conn + 1 else outCount conn) + 4
      else (if ty \<noteq> 0 then outCount conn + 1 else outCount conn)) = e"
    and e2: "(if has_len then int (if ty \<noteq> 0 then outCount conn + 1 else outCount conn) else - 1) = lp"
    by (simp_all add: e_def lp_def)
  have start: "pqPutMsgStart vsn ty force conn h = do {
     (ok, conn, h) \<leftarrow> pqCheckOutBufferSpace vsn e conn h;
     if \<not> ok then Some (False, conn, h)
     else do {
       buf \<leftarrow> (if ty \<noteq> 0 then poke (outBuffer conn) (outCount conn) ty else Some (outBuffer conn));
       Some (True, conn\<lparr>outBuffer := buf, outMsgStart := lp, outMsgEnd := e\<rparr>, h) } }"
    unfolding pqPutMsgStart_def Let_def L [symmetric] e1 e2 by (rule refl)
  obtain ok X em h' where r: "pqCheckOutBufferSpace vsn e conn h
      = Some (ok, conn\<lparr>outBuffer := outBuffer conn @ X, outBufSize := outBufSize conn + length X, errorMessage := em\<rparr>, h')"
    "eb_inv em" "outBufSize conn + length X \<le> INT_MAX" "ok \<Longrightarrow> e \<le> outBufSize conn + length X"
    "\<And>k. plenty (Suc k) h \<Longrightarrow> e + 8192 \<le> INT_MAX \<Longrightarrow> ok \<and> plenty k h'"
    using check_out_result [OF inv fmt, of e h] by blast
  let ?c = "conn\<lparr>outBuffer := outBuffer conn @ X, outBufSize := outBufSize conn + length X, errorMessage := em\<rparr>"
  note ci = check_out_inv [OF inv r(2,3)]
  have pl: "\<forall>k. plenty (Suc k) h \<and> outCount conn + 5 + 8192 \<le> INT_MAX \<longrightarrow> ok \<and> plenty k h'"
    using r(5) le by auto
  show ?thesis
  proof (cases ok)
    case False
    then have "pqPutMsgStart vsn ty force conn h = Some (False, ?c, h')" unfolding start r(1) by simp
    then show ?thesis unfolding put_ok_def using ci pl False by blast
  next
    case True
    define B where "B = out_data conn @ ?ty @ drop (outCount conn + length ?ty) (outBuffer conn @ X)"
    have oc: "outCount conn \<le> length (outBuffer conn)" "length (outBuffer conn) = outBufSize conn" using inv by (simp_all add: conn_inv_def)
    have room: "e \<le> length (outBuffer conn @ X)" using r(4) True oc by simp
    have od: "out_data conn = take (outCount conn) (outBuffer conn @ X)" "length (out_data conn) = outCount conn"
      using oc by (simp_all add: out_data_def)
    have buf: "(if ty \<noteq> 0 then poke (outBuffer conn @ X) (outCount conn) ty else Some (outBuffer conn @ X)) = Some B"
    proof (cases "ty = 0")
      case True
      then show ?thesis using append_take_drop_id [of "outCount conn" "outBuffer conn @ X"] by (simp add: B_def od(1) del: take_append drop_append)
    next
      case False
      have "outCount conn < length (outBuffer conn @ X)" using room False by (simp add: e_def)
      then show ?thesis using False
        by (simp add: poke_def B_def od(1) upd_conv_take_nth_drop del: take_append drop_append length_append)
    qed
    have buf': "(if ty \<noteq> 0 then poke (outBuffer ?c) (outCount ?c) ty else Some (outBuffer ?c)) = Some B"
    proof -
      have "outBuffer ?c = outBuffer conn @ X" "outCount ?c = outCount conn" by simp_all
      then show ?thesis using buf by (simp only:)
    qed
    let ?c2 = "?c\<lparr>outBuffer := B, outMsgStart := lp, outMsgEnd := e\<rparr>"
    have lB: "length B = length (outBuffer conn @ X)" using room od(2) by (simp add: B_def e_def)
    have res: "pqPutMsgStart vsn ty force conn h = Some (True, ?c2, h')"
      unfolding start r(1) bind.bind_lunit prod.case buf' using True by simp
    have inv2: "conn_inv ?c2" using ci(1) lB by (simp add: conn_inv_def)
    have out2: "out_data ?c2 = out_data conn" using od(2) by (simp add: out_data_def B_def)
    define w where "w = take (if has_len then 4 else 0) (drop (outCount conn + length ?ty) (outBuffer conn @ X))"
    define z where "z = drop (if has_len then 4 else 0) (drop (outCount conn + length ?ty) (outBuffer conn @ X))"
    have wz: "w @ z = drop (outCount conn + length ?ty) (outBuffer conn @ X)"
      by (simp only: w_def z_def append_take_drop_id)
    have "building ?c2 (out_data conn) ?ty has_len []"
      unfolding building_def
    proof (intro exI conjI)
      show "outBuffer ?c2 = out_data conn @ ?ty @ w @ [] @ z" by (simp add: B_def wz del: drop_append)
      show "length w = (if has_len then 4 else 0)" using room by (simp add: w_def e_def)
      then show "outMsgEnd ?c2 = length (out_data conn) + length ?ty + length w + length ([] :: byte list)"
        using od(2) by (simp add: e_def)
    qed (use od(2) in \<open>simp_all add: lp_def\<close>)
    then show ?thesis unfolding put_ok_def using res inv2 out2 pl True ci(3) by (fastforce simp: only_out_def)
  qed
qed

lemma msg_bytes_result:
  assumes inv: "conn_inv conn" and fmt: "formatter_ok vsn" and b: "building conn out ty L body"
    and small: "length out + length ty + 4 + length body + length bs < 2 ^ 32"
  shows "put_ok (length out + length ty + 4 + length body + length bs) conn h
    (\<lambda>conn'. building conn' out ty L (body @ bs)) (pqPutMsgBytes vsn bs conn h)"
proof -
  obtain w rest where b1: "outBuffer conn = out @ ty @ w @ body @ rest" "length w = (if L then 4 else 0)"
     "outCount conn = length out" "outMsgStart conn = (if L then int (length out + length ty) else -1)"
     "outMsgEnd conn = length out + length ty + length w + length body"
    using b unfolding building_def by blast
  define e where "e = outMsgEnd conn + length bs"
  have le: "e \<le> length out + length ty + 4 + length body + length bs" by (simp add: e_def b1(2,5))
  then have sz: "size_t e = e" using small by (intro size_t_id) linarith
  obtain ok X em h' where r: "pqCheckOutBufferSpace vsn e conn h
      = Some (ok, conn\<lparr>outBuffer := outBuffer conn @ X, outBufSize := outBufSize conn + length X, errorMessage := em\<rparr>, h')"
    "eb_inv em" "outBufSize conn + length X \<le> INT_MAX" "ok \<Longrightarrow> e \<le> outBufSize conn + length X"
    "\<And>k. plenty (Suc k) h \<Longrightarrow> e + 8192 \<le> INT_MAX \<Longrightarrow> ok \<and> plenty k h'"
    using check_out_result [OF inv fmt, of e h] by blast
  let ?c = "conn\<lparr>outBuffer := outBuffer conn @ X, outBufSize := outBufSize conn + length X, errorMessage := em\<rparr>"
  note ci = check_out_inv [OF inv r(2,3)]
  have pl: "\<forall>k. plenty (Suc k) h \<and> length out + length ty + 4 + length body + length bs + 8192 \<le> INT_MAX \<longrightarrow> ok \<and> plenty k h'"
    using r(5) le by auto
  have ob: "length (outBuffer conn) = outBufSize conn" using inv by (simp add: conn_inv_def)
  show ?thesis
  proof (cases ok)
    case False
    then have "pqPutMsgBytes vsn bs conn h = Some (False, ?c, h')"
      unfolding pqPutMsgBytes_def e_def [symmetric] sz r(1) by simp
    then show ?thesis unfolding put_ok_def using ci pl False by blast
  next
    case True
    define P where "P = out @ ty @ w @ body"
    have lP: "length P = outMsgEnd conn" by (simp add: P_def b1(5))
    have OB: "outBuffer conn @ X = P @ rest @ X" by (simp add: P_def b1(1))
    have room: "length bs \<le> length (rest @ X)"
      using r(4) [OF True] ob arg_cong [OF OB, of length] by (simp add: e_def lP)
    define B where "B = P @ bs @ drop (length bs) (rest @ X)"
    have bl: "blit (outBuffer conn @ X) (outMsgEnd conn) bs = Some B"
      unfolding OB using room by (simp add: blit_def lP [symmetric] B_def)
    let ?c2 = "?c\<lparr>outBuffer := B, outMsgEnd := e\<rparr>"
    have res: "pqPutMsgBytes vsn bs conn h = Some (True, ?c2, h')"
      unfolding pqPutMsgBytes_def e_def [symmetric] sz r(1) using True bl by (simp add: e_def)
    have lB: "length B = length (outBuffer conn @ X)" unfolding OB B_def using room by simp
    have inv2: "conn_inv ?c2" using ci(1) lB by (simp add: conn_inv_def)
    have out2: "out_data ?c2 = out_data conn" by (simp add: out_data_def B_def P_def b1(1,3))
    have "building ?c2 out ty L (body @ bs)"
      unfolding building_def
    proof (intro exI conjI)
      show "outBuffer ?c2 = out @ ty @ w @ (body @ bs) @ drop (length bs) (rest @ X)" by (simp add: B_def P_def)
    qed (simp_all add: b1(2-5) e_def)
    moreover have "only_out conn ?c2" using ci(3) by (simp add: only_out_def)
    ultimately show ?thesis unfolding put_ok_def using res inv2 out2 pl True by blast
  qed
qed

lemma htonl_length [simp]: "length (htonl n) = 4"
  by (simp add: htonl_def)

text \<open>Finishing makes the message part of the data to send, with its length in front of the body.\<close>

lemma finish_msg_result:
  assumes inv: "conn_inv conn" and b: "building conn out ty L body"
  shows "\<exists>buf. finish_msg conn = Some (conn\<lparr>outBuffer := buf, outCount := outMsgEnd conn\<rparr>)
    \<and> conn_inv (conn\<lparr>outBuffer := buf, outCount := outMsgEnd conn\<rparr>)
    \<and> take (outMsgEnd conn) buf = out @ ty @ (if L then htonl (4 + length body) else []) @ body"
proof -
  obtain w rest where b1: "outBuffer conn = out @ ty @ w @ body @ rest" "length w = (if L then 4 else 0)"
     "outCount conn = length out" "outMsgStart conn = (if L then int (length out + length ty) else -1)"
     "outMsgEnd conn = length out + length ty + length w + length body"
    using b unfolding building_def by blast
  define W where "W = (if L then htonl (4 + length body) else [])"
  define buf where "buf = out @ ty @ W @ body @ rest"
  have lw: "length W = length w" by (simp add: W_def b1(2))
  have ob: "length (outBuffer conn) = outBufSize conn" "outBufSize conn \<le> INT_MAX" using inv by (simp_all add: conn_inv_def)
  have fin: "finish_msg conn = Some (conn\<lparr>outBuffer := buf, outCount := outMsgEnd conn\<rparr>)"
  proof (cases L)
    case True
    have "4 + length body < 2 ^ 32" using ob b1(1) by (simp add: INT_MAX_eq)
    then have n: "nat ((int (outMsgEnd conn) - outMsgStart conn) mod 2 ^ 32) = 4 + length body"
      using True b1(2,4,5) by (simp add: nat_mod_as_int zmod_trivial_iff)
    have s: "outMsgStart conn = int (length (out @ ty))" using True b1(4) by simp
    have "blit (outBuffer conn) (nat (outMsgStart conn)) (htonl (4 + length body)) = Some buf"
      unfolding s b1(1) using True b1(2) by (simp add: blit_def buf_def W_def)
    then show ?thesis using s unfolding finish_msg_def n by simp
  next
    case False
    then show ?thesis using b1 by (simp add: finish_msg_def buf_def W_def)
  qed
  have "length buf = length (outBuffer conn)" by (simp add: buf_def b1(1) lw)
  then have "conn_inv (conn\<lparr>outBuffer := buf, outCount := outMsgEnd conn\<rparr>)"
    using inv b1(1,5) ob(1) by (auto simp: conn_inv_def)
  moreover have "take (outMsgEnd conn) buf = out @ ty @ W @ body" by (simp add: buf_def b1(5) lw)
  ultimately show ?thesis using fin unfolding W_def by blast
qed

section \<open>Reading\<close>

lemma unread_Cons: "in_unread conn = c # r \<Longrightarrow> conn_inv conn \<Longrightarrow>
    inCursor conn < inEnd conn \<and> inBuffer conn ! inCursor conn = c \<and> in_unread (conn\<lparr>inCursor := inCursor conn + 1\<rparr>) = r"
proof -
  assume u: "in_unread conn = c # r" and i: "conn_inv conn"
  have "0 < inEnd conn - inCursor conn" using arg_cong [OF u, of length] by (auto simp: in_unread_def)
  then have lt: "inCursor conn < inEnd conn" "inCursor conn < length (inBuffer conn)" using i by (simp_all add: conn_inv_def)
  have d: "inEnd conn - inCursor conn = Suc (inEnd conn - Suc (inCursor conn))" using lt by simp
  have "in_unread conn = inBuffer conn ! inCursor conn # take (inEnd conn - Suc (inCursor conn)) (drop (Suc (inCursor conn)) (inBuffer conn))"
    using lt by (simp add: in_unread_def d Cons_nth_drop_Suc [symmetric])
  then show ?thesis using u lt by (simp add: in_unread_def)
qed

lemma unread_append:
  assumes "in_unread conn = s @ r" "conn_inv conn"
  shows "inCursor conn + length s \<le> inEnd conn" "take (length s) (drop (inCursor conn) (inBuffer conn)) = s"
    "in_unread (conn\<lparr>inCursor := inCursor conn + length s\<rparr>) = r"
    "conn_inv (conn\<lparr>inCursor := inCursor conn + length s\<rparr>)"
proof -
  have i: "length (inBuffer conn) = inBufSize conn" "inCursor conn \<le> inEnd conn" "inEnd conn \<le> inBufSize conn" "inStart conn \<le> inCursor conn"
    using assms(2) by (simp_all add: conn_inv_def)
  have l: "inEnd conn - inCursor conn = length s + length r" using arg_cong [OF assms(1), of length] i by (simp add: in_unread_def)
  then show e: "inCursor conn + length s \<le> inEnd conn" using i(2) by linarith
  have "take (length s) (in_unread conn) = s" by (simp add: assms(1))
  then show "take (length s) (drop (inCursor conn) (inBuffer conn)) = s" using l by (simp add: in_unread_def min_absorb1)
  have "drop (length s) (in_unread conn) = r" by (simp add: assms(1))
  then show "in_unread (conn\<lparr>inCursor := inCursor conn + length s\<rparr>) = r"
    by (simp add: in_unread_def drop_take add.commute)
  show "conn_inv (conn\<lparr>inCursor := inCursor conn + length s\<rparr>)" using assms(2) e by (simp add: conn_inv_def)
qed

lemma unat_of_nat_byte: "unat (word_of_nat n :: byte) = n mod 256"
  by (simp add: unsigned_of_nat take_bit_eq_mod)

lemma ntohs_htons: "n < 2 ^ 16 \<Longrightarrow> ntohs (htons n) = n"
  by (simp add: ntohs_def htons_def unat_of_nat_byte)

lemma ntohl_htonl:
  assumes n: "n < 2 ^ 32"
  shows "ntohl (htonl n) = n"
proof -
  have a: "n div 16777216 mod 256 = n div 16777216" using n by simp
  have b: "n div 65536 = n div 16777216 * 256 + n div 65536 mod 256"
    using div_mult_mod_eq [of "n div 65536" 256] by (simp add: div_mult2_eq [symmetric])
  have c: "n div 256 = n div 65536 * 256 + n div 256 mod 256"
    using div_mult_mod_eq [of "n div 256" 256] by (simp add: div_mult2_eq [symmetric])
  have d: "n = n div 256 * 256 + n mod 256" by simp
  have "ntohl (htonl n) = n div 16777216 mod 256 * 16777216 + n div 65536 mod 256 * 65536 + n div 256 mod 256 * 256 + n mod 256"
    by (simp add: ntohl_def htonl_def unat_of_nat_byte)
  then show ?thesis using a b c d by linarith
qed

lemma htons_length [simp]: "length (htons n) = 2"
  by (simp add: htons_def)

lemma in_avail_eq: "conn_inv conn \<Longrightarrow> in_avail conn = inEnd conn - inCursor conn"
proof -
  assume i: "conn_inv conn"
  then have le: "inCursor conn \<le> inEnd conn" "inEnd conn < 2 ^ 32" by (auto simp: conn_inv_def INT_MAX_eq)
  have d: "int (inEnd conn) - int (inCursor conn) = int (inEnd conn - inCursor conn)" using le(1) by (simp add: of_nat_diff)
  show ?thesis unfolding in_avail_def d using le by (simp add: zmod_trivial_iff)
qed

lemma find_nul_result:
  "i + length s < stop \<Longrightarrow> stop \<le> length buf \<Longrightarrow> take (length s) (drop i buf) = s \<Longrightarrow> 0 \<notin> set s \<Longrightarrow> buf ! (i + length s) = 0
    \<Longrightarrow> find_nul buf i stop = Some (i + length s)"
proof (induction s arbitrary: i)
  case Nil
  then show ?case by (subst find_nul.simps) (simp add: peek_in_bounds)
next
  case (Cons c s)
  have d: "drop i buf = buf ! i # drop (Suc i) buf" using Cons.prems(1,2) by (simp add: Cons_nth_drop_Suc)
  have c: "buf ! i = c" "take (length s) (drop (Suc i) buf) = s" using Cons.prems(3) unfolding d by simp_all
  have "find_nul buf (Suc i) stop = Some (Suc i + length s)"
    by (rule Cons.IH) (use Cons.prems c in auto)
  moreover have "peek buf i = Some c" using Cons.prems(1,2) c(1) by (simp add: peek_in_bounds)
  ultimately show ?case using Cons.prems(1,4) by (subst find_nul.simps) simp
qed

lemma gets_result:
  assumes u: "in_unread conn = s @ 0 # r" and i: "conn_inv conn" and s: "0 \<notin> set s" and b: "eb_inv b"
  shows "\<exists>b' h'. pqGets (Some b) conn h = Some (True, Some b', conn\<lparr>inCursor := inCursor conn + length (s @ [0])\<rparr>, h')
    \<and> eb_inv b' \<and> (eb_text b' = None \<or> eb_text b' = Some s)
    \<and> (\<forall>k. plenty (Suc (Suc k)) h \<longrightarrow> eb_text b' = Some s \<and> plenty k h')"
proof -
  have u': "in_unread conn = (s @ [0]) @ r" using u by simp
  note ap = unread_append [OF u' i]
  have bnd: "inCursor conn + length s < inEnd conn" "inEnd conn \<le> length (inBuffer conn)" "length s < INT_MAX"
    using ap(1) i by (auto simp: conn_inv_def)
  have tk: "take (length s) (drop (inCursor conn) (inBuffer conn)) = s"
    using arg_cong [OF ap(2), of "take (length s)"] by (simp add: min_def)
  have "(s @ [0]) ! length s = take (length (s @ [0])) (drop (inCursor conn) (inBuffer conn)) ! length s" unfolding ap(2) ..
  then have z: "inBuffer conn ! (inCursor conn + length s) = 0" using bnd by simp
  have f: "find_nul (inBuffer conn) (inCursor conn) (inEnd conn) = Some (inCursor conn + length s)"
    by (rule find_nul_result [OF bnd(1,2) tk s z])
  obtain b1 h1 where b1: "resetPQExpBuffer (Some b) h = Some (Some b1, h1)" "eb_inv b1"
    "eb_text b1 = None \<or> eb_text b1 = Some []" "\<forall>k. plenty (Suc k) h \<longrightarrow> eb_text b1 = Some [] \<and> plenty k h1"
    using reset_result [OF b, of h] by blast
  obtain b2 h2 where b2: "appendBinaryPQExpBuffer (Some b1) s h1 = Some (Some b2, h2)" "eb_inv b2"
    "eb_text b2 = None \<or> eb_text b2 = map_option (\<lambda>t. t @ s) (eb_text b1)"
    "\<forall>t k. eb_text b1 = Some t \<and> length t + length s < INT_MAX \<and> plenty (Suc k) h1 \<longrightarrow> eb_text b2 = Some (t @ s) \<and> plenty k h2"
    using append_binary_result [OF b1(2), of s h1] by blast
  have "pqGets (Some b) conn h = Some (True, Some b2, conn\<lparr>inCursor := inCursor conn + length (s @ [0])\<rparr>, h2)"
    unfolding pqGets_def pqGets_internal_def f bind.bind_lunit if_True b1(1) prod.case using bnd(1) b2(1) tk by simp
  moreover have "eb_text b2 = None \<or> eb_text b2 = Some s" using b2(3) b1(3) by auto
  moreover have "eb_text b2 = Some s \<and> plenty k h2" if "plenty (Suc (Suc k)) h" for k
    using b1(4) b2(4) that bnd(3) by fastforce
  ultimately show ?thesis using b2(2) by blast
qed

section \<open>Fields of a message\<close>

text \<open>The values that the protocol code puts into a message and gets out of one.\<close>

datatype field = FChar byte | FInt2 int | FInt4 int | FStr "byte list" | FBytes "byte list"

datatype kind = KChar | KInt2 | KInt4 | KStr | KBytes nat

fun kind_of :: "field \<Rightarrow> kind" where
  "kind_of (FChar c) = KChar"
| "kind_of (FInt2 v) = KInt2"
| "kind_of (FInt4 v) = KInt4"
| "kind_of (FStr s) = KStr"
| "kind_of (FBytes s) = KBytes (length s)"

text \<open>The ranges in which a value can be put and got back; a 2-byte integer is read without sign.\<close>

fun good_field :: "field \<Rightarrow> bool" where
  "good_field (FInt2 v) = (0 \<le> v \<and> v < 2 ^ 16)"
| "good_field (FInt4 v) = (- (2 ^ 31) \<le> v \<and> v < 2 ^ 31)"
| "good_field (FStr s) = (0 \<notin> set s)"
| "good_field _ = True"

fun enc_field :: "field \<Rightarrow> byte list" where
  "enc_field (FChar c) = [c]"
| "enc_field (FInt2 v) = htons (nat (v mod 2 ^ 16))"
| "enc_field (FInt4 v) = htonl (nat (v mod 2 ^ 32))"
| "enc_field (FStr s) = s @ [0]"
| "enc_field (FBytes s) = s"

definition enc_fields :: "field list \<Rightarrow> byte list" where
  "enc_fields fs = concat (map enc_field fs)"

fun put_field :: "formatter \<Rightarrow> field \<Rightarrow> PGconn \<Rightarrow> heap \<Rightarrow> (bool \<times> PGconn \<times> heap) option" where
  "put_field vsn (FChar c) conn h = pqPutc vsn c conn h"
| "put_field vsn (FInt2 v) conn h = pqPutInt vsn v 2 conn h"
| "put_field vsn (FInt4 v) conn h = pqPutInt vsn v 4 conn h"
| "put_field vsn (FStr s) conn h = pqPuts vsn (s @ [0]) conn h"
| "put_field vsn (FBytes s) conn h = pqPutnchar vsn s conn h"

fun put_fields :: "formatter \<Rightarrow> field list \<Rightarrow> PGconn \<Rightarrow> heap \<Rightarrow> (bool \<times> PGconn \<times> heap) option" where
  "put_fields vsn [] conn h = Some (True, conn, h)"
| "put_fields vsn (f # fs) conn h = do {
     (ok, conn, h) \<leftarrow> put_field vsn f conn h;
     if \<not> ok then Some (False, conn, h) else put_fields vsn fs conn h }"

text \<open>Building a whole message, up to the point where it may be sent.\<close>

definition put_message :: "formatter \<Rightarrow> byte \<Rightarrow> bool \<Rightarrow> field list \<Rightarrow> PGconn \<Rightarrow> heap \<Rightarrow> (bool \<times> PGconn \<times> heap) option" where
  "put_message vsn ty force fs conn h = do {
     (ok, conn, h) \<leftarrow> pqPutMsgStart vsn ty force conn h;
     if \<not> ok then Some (False, conn, h)
     else do {
       (ok, conn, h) \<leftarrow> put_fields vsn fs conn h;
       if \<not> ok then Some (False, conn, h)
       else do { conn \<leftarrow> finish_msg conn; Some (True, conn, h) } } }"

text \<open>A string is read through a buffer; of a broken one the callers see the empty string.\<close>

definition buffer_str :: "PQExpBuffer \<Rightarrow> byte list" where
  "buffer_str buf = (case buf of None \<Rightarrow> [] | Some b \<Rightarrow> (case eb_text b of None \<Rightarrow> [] | Some t \<Rightarrow> t))"

fun get_field :: "kind \<Rightarrow> PQExpBuffer \<Rightarrow> PGconn \<Rightarrow> heap \<Rightarrow> (field option \<times> PQExpBuffer \<times> PGconn \<times> heap) option" where
  "get_field KChar buf conn h = do { (c, conn) \<leftarrow> pqGetc conn; Some (map_option FChar c, buf, conn, h) }"
| "get_field KInt2 buf conn h = do { (v, conn) \<leftarrow> pqGetInt 2 conn; Some (map_option FInt2 v, buf, conn, h) }"
| "get_field KInt4 buf conn h = do { (v, conn) \<leftarrow> pqGetInt 4 conn; Some (map_option FInt4 v, buf, conn, h) }"
| "get_field KStr buf conn h = do {
     (ok, buf, conn, h) \<leftarrow> pqGets buf conn h;
     Some (if ok then Some (FStr (buffer_str buf)) else None, buf, conn, h) }"
| "get_field (KBytes n) buf conn h = do { (s, conn) \<leftarrow> pqGetnchar n conn; Some (map_option FBytes s, buf, conn, h) }"

fun get_fields :: "kind list \<Rightarrow> PQExpBuffer \<Rightarrow> PGconn \<Rightarrow> heap \<Rightarrow> (field list option \<times> PQExpBuffer \<times> PGconn \<times> heap) option" where
  "get_fields [] buf conn h = Some (Some [], buf, conn, h)"
| "get_fields (k # ks) buf conn h = do {
     (f, buf, conn, h) \<leftarrow> get_field k buf conn h;
     case f of
       None \<Rightarrow> Some (None, buf, conn, h)
     | Some f \<Rightarrow> do {
         (fs, buf, conn, h) \<leftarrow> get_fields ks buf conn h;
         Some (map_option (\<lambda>fs. f # fs) fs, buf, conn, h) } }"


section \<open>Messages are built and read field by field\<close>

lemma enc_fields_simps [simp]: "enc_fields [] = []" "enc_fields (f # fs) = enc_field f @ enc_fields fs"
  by (simp_all add: enc_fields_def)

lemma put_field_bytes: "good_field f \<Longrightarrow> put_field vsn f conn h = pqPutMsgBytes vsn (enc_field f) conn h"
  by (cases f) (simp_all add: pqPutc_def pqPutInt_def pqPuts_def pqPutnchar_def strlen_append)

lemma put_fields_result:
  assumes "conn_inv conn" "formatter_ok vsn" "building conn out ty L body" "list_all good_field fs"
    "length out + length ty + 4 + length body + length (enc_fields fs) + 8192 \<le> INT_MAX"
  shows "\<exists>ok conn' h'. put_fields vsn fs conn h = Some (ok, conn', h') \<and> conn_inv conn' \<and> only_out conn conn'
     \<and> out_data conn' = out_data conn \<and> (ok \<longrightarrow> building conn' out ty L (body @ enc_fields fs))
     \<and> (\<forall>k. plenty (length fs + k) h \<longrightarrow> ok \<and> plenty k h')"
  using assms(1,3-)
proof (induction fs arbitrary: conn body h)
  case Nil
  then show ?case by (intro exI [of _ True] exI [of _ conn] exI [of _ h]) simp
next
  case (Cons f fs)
  have g: "good_field f" "list_all good_field fs" using Cons.prems(3) by simp_all
  have small: "length out + length ty + 4 + length body + length (enc_field f) < 2 ^ 32"
    using Cons.prems(4) by (simp add: INT_MAX_eq)
  obtain ok conn1 h1 where r: "put_field vsn f conn h = Some (ok, conn1, h1)" "conn_inv conn1" "only_out conn conn1"
    "out_data conn1 = out_data conn" "ok \<Longrightarrow> building conn1 out ty L (body @ enc_field f)"
    "\<And>k. plenty (Suc k) h \<Longrightarrow> ok \<and> plenty k h1"
    using msg_bytes_result [OF Cons.prems(1) assms(2) Cons.prems(2) small, of h] Cons.prems(4)
    unfolding put_ok_def put_field_bytes [OF g(1)] by auto
  show ?case
  proof (cases ok)
    case False
    then show ?thesis using r by (intro exI [of _ False] exI [of _ conn1] exI [of _ h1]) auto
  next
    case True
    have len: "length out + length ty + 4 + length (body @ enc_field f) + length (enc_fields fs) + 8192 \<le> INT_MAX"
      using Cons.prems(4) by simp
    obtain ok2 conn2 h2 where r2: "put_fields vsn fs conn1 h1 = Some (ok2, conn2, h2)" "conn_inv conn2" "only_out conn1 conn2"
      "out_data conn2 = out_data conn1" "ok2 \<Longrightarrow> building conn2 out ty L ((body @ enc_field f) @ enc_fields fs)"
      "\<And>k. plenty (length fs + k) h1 \<Longrightarrow> ok2 \<and> plenty k h2"
      using Cons.IH [OF r(2) r(5) [OF True] g(2) len, of h1] by blast
    have "put_fields vsn (f # fs) conn h = Some (ok2, conn2, h2)" using r(1) r2(1) True by simp
    then show ?thesis using r r2 only_out_trans [OF r(3) r2(3)]
      by (intro exI [of _ ok2] exI [of _ conn2] exI [of _ h2]) auto
  qed
qed

text \<open>The bytes of a message on the wire: its type, its length and its fields.\<close>

definition wire_message :: "byte \<Rightarrow> bool \<Rightarrow> field list \<Rightarrow> byte list" where
  "wire_message ty has_len fs = (if ty \<noteq> 0 then [ty] else [])
     @ (if has_len then htonl (4 + length (enc_fields fs)) else []) @ enc_fields fs"


lemma put_message_result:
  assumes inv: "conn_inv conn" and fmt: "formatter_ok vsn" and good: "list_all good_field fs"
    and room: "outCount conn + 5 + length (enc_fields fs) + 8192 \<le> INT_MAX"
    and L: "has_len = (force \<or> PG_PROTOCOL_MAJOR (pversion conn) \<ge> 3)"
  shows "\<exists>ok conn' h'. put_message vsn ty force fs conn h = Some (ok, conn', h') \<and> conn_inv conn' \<and> only_out conn conn'
    \<and> out_data conn' = out_data conn @ (if ok then wire_message ty has_len fs else [])
    \<and> (\<forall>k. plenty (Suc (length fs + k)) h \<longrightarrow> ok \<and> plenty k h')"
proof -
  let ?ty = "if ty \<noteq> 0 then [ty] else []"
  have od: "length (out_data conn) = outCount conn" using inv by (simp add: out_data_def conn_inv_def)
  obtain ok conn1 h1 where s: "pqPutMsgStart vsn ty force conn h = Some (ok, conn1, h1)" "conn_inv conn1" "only_out conn conn1"
    "out_data conn1 = out_data conn" "ok \<Longrightarrow> building conn1 (out_data conn) ?ty has_len []"
    "\<And>k. plenty (Suc k) h \<Longrightarrow> ok \<and> plenty k h1"
    using put_start_result [OF inv fmt L, of h ty] room unfolding put_ok_def by auto
  show ?thesis
  proof (cases ok)
    case False
    then have "put_message vsn ty force fs conn h = Some (False, conn1, h1)" by (simp add: put_message_def s(1))
    then show ?thesis using s False by (intro exI [of _ False] exI [of _ conn1] exI [of _ h1]) auto
  next
    case True
    have len: "length (out_data conn) + length ?ty + 4 + length ([] :: byte list) + length (enc_fields fs) + 8192 \<le> INT_MAX"
      using room by (simp add: od)
    obtain ok2 conn2 h2 where r: "put_fields vsn fs conn1 h1 = Some (ok2, conn2, h2)" "conn_inv conn2" "only_out conn1 conn2"
      "out_data conn2 = out_data conn1" "ok2 \<Longrightarrow> building conn2 (out_data conn) ?ty has_len ([] @ enc_fields fs)"
      "\<And>k. plenty (length fs + k) h1 \<Longrightarrow> ok2 \<and> plenty k h2"
      using put_fields_result [OF s(2) fmt s(5) [OF True] good len, of h1] by blast
    note oo = only_out_trans [OF s(3) r(3)]
    show ?thesis
    proof (cases ok2)
      case False
      then have "put_message vsn ty force fs conn h = Some (False, conn2, h2)" using True by (simp add: put_message_def s(1) r(1))
      then show ?thesis using s r oo False by (intro exI [of _ False] exI [of _ conn2] exI [of _ h2]) auto
    next
      case ok2: True
      obtain buf where b: "finish_msg conn2 = Some (conn2\<lparr>outBuffer := buf, outCount := outMsgEnd conn2\<rparr>)"
        "conn_inv (conn2\<lparr>outBuffer := buf, outCount := outMsgEnd conn2\<rparr>)"
        "take (outMsgEnd conn2) buf = out_data conn @ ?ty @ (if has_len then htonl (4 + length (enc_fields fs)) else []) @ enc_fields fs"
        using finish_msg_result [OF r(2) r(5) [OF ok2]] by auto
      let ?c = "conn2\<lparr>outBuffer := buf, outCount := outMsgEnd conn2\<rparr>"
      have "put_message vsn ty force fs conn h = Some (True, ?c, h2)"
        using True ok2 by (simp add: put_message_def s(1) r(1) b(1))
      moreover have "out_data ?c = out_data conn @ wire_message ty has_len fs"
        by (simp add: out_data_def [of ?c] b(3) wire_message_def)
      moreover have "only_out conn ?c" using oo by (simp add: only_out_def)
      ultimately show ?thesis using b(2) s(6) r(6) by (intro exI [of _ True] exI [of _ ?c] exI [of _ h2]) auto
    qed
  qed
qed

text \<open>
  C9: A message put together with \<open>pqPutMsgStart\<close>, one put function per field, and the completing
  part of \<open>pqPutMsgEnd\<close> either adds to the data to send exactly its type byte, its length word and
  its encoded fields, or, when memory runs out, adds nothing; the data already waiting is never
  touched, the invariant is kept, and with memory the message is always built.
\<close>

theorem pqPutMsg_appends_message:
  assumes "conn_inv conn" "formatter_ok vsn" "list_all good_field fs"
    "outCount conn + 5 + length (enc_fields fs) + 8192 \<le> INT_MAX"
  shows "\<exists>ok conn' h'. put_message vsn ty force fs conn h = Some (ok, conn', h') \<and> conn_inv conn' \<and> only_out conn conn'
    \<and> out_data conn' = out_data conn
        @ (if ok then wire_message ty (force \<or> PG_PROTOCOL_MAJOR (pversion conn) \<ge> 3) fs else [])
    \<and> (ok \<or> \<not> plenty (Suc (length fs)) h)"
proof -
  obtain ok conn' h' where r: "put_message vsn ty force fs conn h = Some (ok, conn', h')" "conn_inv conn'" "only_out conn conn'"
    "out_data conn' = out_data conn @ (if ok then wire_message ty (force \<or> PG_PROTOCOL_MAJOR (pversion conn) \<ge> 3) fs else [])"
    "\<And>k. plenty (Suc (length fs + k)) h \<Longrightarrow> ok \<and> plenty k h'"
    using put_message_result [OF assms refl, where ty = ty and h = h] by blast
  show ?thesis using r r(5) [of 0] by (intro exI [of _ ok] exI [of _ conn'] exI [of _ h']) auto
qed

text \<open>With the 16 bytes of the example buffer the message fits without another allocation.\<close>

lemma test_conn_inv [simp]: "conn_inv test_conn"
  by (simp add: conn_inv_def test_conn_def two_bytes INT_MAX_eq)

theorem pqPutMsg_appends_message_witness:
  "\<exists>ok conn' h'. put_message plain_formatter 81 False [FInt2 7, FStr [83, 49]] test_conn \<lparr>answers = [True, True, True], junk = \<lambda>i. 0\<rparr>
      = Some (ok, conn', h') \<and> out_data conn' = [81, 0, 0, 0, 9, 0, 7, 83, 49, 0]"
proof -
  let ?fs = "[FInt2 7, FStr [83, 49]]"
  have l: "length (enc_fields ?fs) = 5" by simp
  have p: "plenty (Suc (length ?fs)) \<lparr>answers = [True, True, True], junk = \<lambda>i. 0\<rparr>" by (simp add: plenty_def less_Suc_eq)
  have "list_all good_field ?fs" "outCount test_conn + 5 + length (enc_fields ?fs) + 8192 \<le> INT_MAX"
    unfolding l by (simp_all add: test_conn_def INT_MAX_eq)
  from pqPutMsg_appends_message [OF test_conn_inv plain_formatter_ok this, of 81 False] p
  obtain ok conn' h' where r: "put_message plain_formatter 81 False ?fs test_conn \<lparr>answers = [True, True, True], junk = \<lambda>i. 0\<rparr> = Some (ok, conn', h')"
    "out_data conn' = out_data test_conn @ wire_message 81 (False \<or> PG_PROTOCOL_MAJOR (pversion test_conn) \<ge> 3) ?fs"
    by fastforce
  moreover have "out_data conn' = [81, 0, 0, 0, 9, 0, 7, 83, 49, 0]"
    unfolding r(2) by (simp add: out_data_def test_conn_def wire_message_def PG_PROTOCOL_MAJOR_def htonl_def htons_def)
  ultimately show ?thesis by blast
qed


lemma get_int2_result:
  assumes "in_unread conn = htons (nat (v mod 2 ^ 16)) @ r" "conn_inv conn" "0 \<le> v" "v < 2 ^ 16"
  shows "pqGetInt 2 conn = Some (Some v, conn\<lparr>inCursor := inCursor conn + 2\<rparr>)"
proof -
  note ap = unread_append [OF assms(1,2), unfolded htons_length]
  have l: "inEnd conn \<le> length (inBuffer conn)" using assms(2) by (simp add: conn_inv_def)
  have n: "ntohs (take 2 (drop (inCursor conn) (inBuffer conn))) = nat v"
    unfolding ap(2) using assms(3,4) by (simp add: ntohs_htons)
  show ?thesis unfolding pqGetInt_def n using ap(1) l assms(3) by simp
qed

lemma int32_mod: "- (2 ^ 31) \<le> v \<Longrightarrow> v < 2 ^ 31 \<Longrightarrow> int32 (v mod 2 ^ 32) = v"
proof -
  assume v: "- (2 ^ 31) \<le> v" "v < 2 ^ 31"
  have "int32 (v mod 2 ^ 32) = int32 v" unfolding int32_def by (simp only: mod_add_left_eq)
  then show ?thesis using int32_id [OF v] by simp
qed

lemma get_int4_result:
  assumes "in_unread conn = htonl (nat (v mod 2 ^ 32)) @ r" "conn_inv conn" "- (2 ^ 31) \<le> v" "v < 2 ^ 31"
  shows "pqGetInt 4 conn = Some (Some v, conn\<lparr>inCursor := inCursor conn + 4\<rparr>)"
proof -
  note ap = unread_append [OF assms(1,2), unfolded htonl_length]
  have l: "inEnd conn \<le> length (inBuffer conn)" using assms(2) by (simp add: conn_inv_def)
  have p: "0 \<le> v mod 2 ^ 32" "v mod 2 ^ 32 < 2 ^ 32" by simp_all
  have n: "int (ntohl (take 4 (drop (inCursor conn) (inBuffer conn)))) = v mod 2 ^ 32"
    unfolding ap(2) using ntohl_htonl [of "nat (v mod 2 ^ 32)"] p by simp
  show ?thesis unfolding pqGetInt_def n using ap(1) l int32_mod [OF assms(3,4)] by simp
qed

lemma get_nchar_result:
  assumes "in_unread conn = s @ r" "conn_inv conn"
  shows "pqGetnchar (length s) conn = Some (Some s, conn\<lparr>inCursor := inCursor conn + length s\<rparr>)"
proof -
  note ap = unread_append [OF assms]
  have "length s \<le> in_avail conn" "inEnd conn \<le> length (inBuffer conn)"
    using ap(1) assms(2) by (simp_all add: in_avail_eq) (simp add: conn_inv_def)
  then show ?thesis using ap(1,2) by (simp add: pqGetnchar_def)
qed

lemma getc_result:
  assumes "in_unread conn = c # r" "conn_inv conn"
  shows "pqGetc conn = Some (Some c, conn\<lparr>inCursor := inCursor conn + 1\<rparr>)"
proof -
  have "inCursor conn < length (inBuffer conn)" using unread_Cons [OF assms] assms(2) by (simp add: conn_inv_def)
  then show ?thesis using unread_Cons [OF assms] by (simp add: pqGetc_def peek_in_bounds)
qed

lemma buffer_str_Some [simp]: "eb_text b = Some t \<Longrightarrow> buffer_str (Some b) = t"
  by (simp add: buffer_str_def)

lemma get_field_result:
  assumes u: "in_unread conn = enc_field f @ r" and i: "conn_inv conn" and g: "good_field f" and b: "eb_inv b"
  shows "\<exists>f' b' h'. get_field (kind_of f) (Some b) conn h
      = Some (Some f', Some b', conn\<lparr>inCursor := inCursor conn + length (enc_field f)\<rparr>, h') \<and> eb_inv b'
    \<and> (\<forall>k. plenty (Suc (Suc k)) h \<longrightarrow> f' = f \<and> plenty k h')"
proof -
  have same: "plenty k h" if "plenty (Suc (Suc k)) h" for k using plenty_mono [OF that] by simp
  show ?thesis
  proof (cases f)
    case (FStr s)
    have "in_unread conn = s @ 0 # r" "0 \<notin> set s" using u g FStr by simp_all
    then obtain b' h' where r: "pqGets (Some b) conn h = Some (True, Some b', conn\<lparr>inCursor := inCursor conn + length (s @ [0])\<rparr>, h')"
      "eb_inv b'" "\<And>k. plenty (Suc (Suc k)) h \<Longrightarrow> eb_text b' = Some s \<and> plenty k h'"
      using gets_result [OF _ i _ b, of s r h] by blast
    then show ?thesis unfolding FStr
      by (intro exI [of _ "FStr (buffer_str (Some b'))"] exI [of _ b'] exI [of _ h']) auto
  next
    case (FChar c)
    then show ?thesis using getc_result [of conn c r] u i b same by (auto intro!: exI)
  next
    case (FInt2 v)
    then show ?thesis using get_int2_result [of conn v r] u i g b same by (auto intro!: exI)
  next
    case (FInt4 v)
    then show ?thesis using get_int4_result [of conn v r] u i g b same by (auto intro!: exI)
  next
    case (FBytes s)
    then show ?thesis using get_nchar_result [of conn s r] u i b same by (auto intro!: exI)
  qed
qed


lemma get_fields_result:
  assumes "in_unread conn = enc_fields fs @ r" "conn_inv conn" "list_all good_field fs" "eb_inv b"
  shows "\<exists>fs' b' h'. get_fields (map kind_of fs) (Some b) conn h
      = Some (Some fs', Some b', conn\<lparr>inCursor := inCursor conn + length (enc_fields fs)\<rparr>, h') \<and> eb_inv b'
    \<and> (plenty (2 * length fs) h \<longrightarrow> fs' = fs)"
  using assms
proof (induction fs arbitrary: conn b h)
  case Nil
  then show ?case by simp
next
  case (Cons f fs)
  have u: "in_unread conn = enc_field f @ enc_fields fs @ r" "good_field f" using Cons.prems by simp_all
  obtain f1 b1 h1 where f: "get_field (kind_of f) (Some b) conn h
      = Some (Some f1, Some b1, conn\<lparr>inCursor := inCursor conn + length (enc_field f)\<rparr>, h1)" "eb_inv b1"
    "\<And>k. plenty (Suc (Suc k)) h \<Longrightarrow> f1 = f \<and> plenty k h1"
    using get_field_result [OF u(1) Cons.prems(2) u(2) Cons.prems(4), of h] by blast
  let ?c = "conn\<lparr>inCursor := inCursor conn + length (enc_field f)\<rparr>"
  have g: "list_all good_field fs" using Cons.prems(3) by simp
  obtain fs2 b2 h2 where r: "get_fields (map kind_of fs) (Some b1) ?c h1
      = Some (Some fs2, Some b2, ?c\<lparr>inCursor := inCursor ?c + length (enc_fields fs)\<rparr>, h2)" "eb_inv b2"
    "plenty (2 * length fs) h1 \<Longrightarrow> fs2 = fs"
    using Cons.IH [OF unread_append(3,4) [OF u(1) Cons.prems(2)] g f(2), of h1] by blast
  have "get_fields (map kind_of (f # fs)) (Some b) conn h
      = Some (Some (f1 # fs2), Some b2, conn\<lparr>inCursor := inCursor conn + length (enc_fields (f # fs))\<rparr>, h2)"
    using f(1) r(1) by (simp add: add.assoc)
  moreover have "f1 # fs2 = f # fs" if "plenty (2 * length (f # fs)) h"
    using f(3) [of "2 * length fs"] r(3) that by simp
  ultimately show ?case using r(2) by blast
qed

text \<open>
  C10: Reading a message field by field gives back the fields it was built from: when the unread
  input begins with the encoding of some fields, the get functions for their kinds succeed, consume
  exactly that encoding, leave the rest unread and the invariant intact, and with memory for the
  strings they return exactly the fields.
\<close>

theorem pqGet_fields_roundtrip:
  assumes "in_unread conn = enc_fields fs @ rest" "conn_inv conn" "list_all good_field fs" "eb_inv b"
  shows "\<exists>fs' b' conn' h'. get_fields (map kind_of fs) (Some b) conn h = Some (Some fs', Some b', conn', h')
    \<and> in_unread conn' = rest \<and> conn_inv conn' \<and> inCursor conn' = inCursor conn + length (enc_fields fs)
    \<and> (fs' = fs \<or> \<not> plenty (2 * length fs) h)"
proof -
  obtain fs' b' h' where r: "get_fields (map kind_of fs) (Some b) conn h
      = Some (Some fs', Some b', conn\<lparr>inCursor := inCursor conn + length (enc_fields fs)\<rparr>, h')"
    "plenty (2 * length fs) h \<Longrightarrow> fs' = fs"
    using get_fields_result [OF assms, of h] by blast
  then show ?thesis using unread_append(3,4) [OF assms(1,2)]
    by (intro exI [of _ fs'] exI [of _ "Some b'"] exI [of _ b'] exI [of _ h']
      exI [of _ "conn\<lparr>inCursor := inCursor conn + length (enc_fields fs)\<rparr>"]) auto
qed

definition test_input :: PGconn where
  "test_input = test_conn\<lparr>inBuffer := [84, 0, 0, 0, 6, 255, 255, 255, 254, 97, 98, 0, 7, 0, 0, 0], inStart := 0, inCursor := 1, inEnd := 13\<rparr>"

theorem pqGet_fields_roundtrip_witness:
  "\<exists>b' conn' h'. get_fields [KInt4, KInt4, KStr] (Some two_bytes) test_input \<lparr>answers = replicate 6 True, junk = \<lambda>i. 0\<rparr>
      = Some (Some [FInt4 6, FInt4 (-2), FStr [97, 98]], Some b', conn', h') \<and> in_unread conn' = [7]"
proof -
  let ?fs = "[FInt4 6, FInt4 (-2), FStr [97, 98]]"
  have u: "in_unread test_input = enc_fields ?fs @ [7]"
    by (simp add: in_unread_def test_input_def test_conn_def htonl_def)
  have i: "conn_inv test_input" by (simp add: conn_inv_def test_input_def test_conn_def two_bytes INT_MAX_eq)
  have p: "plenty (2 * length ?fs) \<lparr>answers = replicate 6 True, junk = \<lambda>i. 0\<rparr>" by (simp add: plenty_def)
  have b: "eb_inv two_bytes" "list_all good_field ?fs" by (simp_all add: two_bytes)
  show ?thesis using pqGet_fields_roundtrip [OF u i b(2,1), of "\<lparr>answers = replicate 6 True, junk = \<lambda>i. 0\<rparr>"] p by auto
qed


text \<open>
  C15: Making room in the input buffer never loses input: the data received and not consumed stays
  the same, the read position keeps its distance from the start of that data, only the fields of the
  input buffer (and the error message) change, and the invariant is kept. A success leaves room for
  the bytes asked for behind the start of the data, and away from the size limit the only way to
  fail is to run out of memory.
\<close>

theorem pqCheckInBufferSpace_keeps_data:
  assumes "conn_inv conn" "formatter_ok vsn" "inStart conn \<le> needed" "needed + 8192 \<le> INT_MAX"
  shows "\<exists>ok conn' h'. pqCheckInBufferSpace vsn needed conn h = Some (ok, conn', h') \<and> in_kept conn conn'
    \<and> (if ok then inStart conn' + (needed - inStart conn) \<le> inBufSize conn' else \<not> plenty 1 h)"
proof -
  have "needed < 2 ^ 32" using assms(4) by (simp add: INT_MAX_eq)
  from check_in_result [OF assms(1-3) this, of h] obtain ok conn' h'
    where r: "pqCheckInBufferSpace vsn needed conn h = Some (ok, conn', h')" "in_kept conn conn'"
    "ok \<Longrightarrow> inStart conn' + (needed - inStart conn) \<le> inBufSize conn'"
    "\<And>k. plenty (Suc k) h \<and> needed + 8192 \<le> INT_MAX \<Longrightarrow> ok"
    by blast
  show ?thesis using r(1-3) r(4) [of 0] assms(4) by (intro exI [of _ ok] exI [of _ conn'] exI [of _ h']) auto
qed

theorem pqCheckInBufferSpace_keeps_data_witness:
  "\<exists>conn' h'. pqCheckInBufferSpace plain_formatter 40 test_input \<lparr>answers = [True], junk = \<lambda>i. 0\<rparr>
      = Some (True, conn', h') \<and> in_data conn' = [84, 0, 0, 0, 6, 255, 255, 255, 254, 97, 98, 0, 7] \<and> 40 \<le> inBufSize conn'"
proof -
  have i: "conn_inv test_input" "inStart test_input \<le> 40" "(40 :: nat) + 8192 \<le> INT_MAX"
    by (simp_all add: conn_inv_def test_input_def test_conn_def two_bytes INT_MAX_eq)
  have d: "in_data test_input = [84, 0, 0, 0, 6, 255, 255, 255, 254, 97, 98, 0, 7]" "inStart test_input = 0"
    by (simp_all add: in_data_def test_input_def test_conn_def)
  have p: "plenty 1 \<lparr>answers = [True], junk = \<lambda>i. 0\<rparr>" by (simp add: plenty_def)
  obtain ok conn' h' where r: "pqCheckInBufferSpace plain_formatter 40 test_input \<lparr>answers = [True], junk = \<lambda>i. 0\<rparr> = Some (ok, conn', h')"
    "in_kept test_input conn'" "if ok then inStart conn' + (40 - inStart test_input) \<le> inBufSize conn' else \<not> plenty 1 \<lparr>answers = [True], junk = \<lambda>i. 0\<rparr>"
    using pqCheckInBufferSpace_keeps_data [OF i(1) plain_formatter_ok i(2,3), of "\<lparr>answers = [True], junk = \<lambda>i. 0\<rparr>"] by blast
  have ok: ok using r(3) p by (cases ok) auto
  then show ?thesis using r d by (auto simp: in_kept_def)
qed

end
