(* ===== verification/Conn_IO.thy ===== *)
theory Conn_IO
  imports Conn_Buffer
begin

text \<open>
  The second half of \<open>fe-misc.c\<close>, sending and receiving, with the raw reads and writes of
  \<open>fe-secure.c\<close> and \<open>pqDropConnection\<close> of \<open>fe-connect.c\<close>, in the Win32 build without SSL of the
  project: \<open>select\<close> and not \<open>poll\<close>, \<open>EAGAIN\<close> the same code as \<open>EWOULDBLOCK\<close>, no \<open>SIGPIPE\<close>.
\<close>

section \<open>The network\<close>

datatype sock_error = EINTR | EAGAIN | ECONNRESET | EPIPE | Other_error int

text \<open>
  The answers of the calls \<open>recv\<close>, \<open>send\<close>, \<open>select\<close> and \<open>time\<close>, one stream for each call: an error
  number, or how much the call is ready to do. Every network behaviour is a choice of these
  streams. \<open>incoming\<close> holds the bytes of the server that have not been received yet, \<open>wire\<close> the
  bytes that the kernel has accepted, and \<open>closed\<close> the sockets that have been closed.
\<close>

record net =
  recvs :: "nat \<Rightarrow> sock_error + nat"
  sends :: "nat \<Rightarrow> sock_error + nat"
  selects :: "nat \<Rightarrow> sock_error + nat"
  clock :: "nat \<Rightarrow> int"
  incoming :: "byte list"
  wire :: "byte list"
  closed :: "int list"

text \<open>What the functions of this theory work on.\<close>

record session =
  conn :: PGconn
  net :: net
  mem :: heap

definition tail :: "(nat \<Rightarrow> 'a) \<Rightarrow> nat \<Rightarrow> 'a" where
  "tail f = (\<lambda>i. f (Suc i))"

definition os_recv :: "nat \<Rightarrow> net \<Rightarrow> (sock_error + byte list) \<times> net" where
  "os_recv len n = (let n' = n\<lparr>recvs := tail (recvs n)\<rparr> in
     case recvs n 0 of
       Inl e \<Rightarrow> (Inl e, n')
     | Inr k \<Rightarrow> (Inr (take (min k len) (incoming n)), n'\<lparr>incoming := drop (min k len) (incoming n)\<rparr>))"

definition os_send :: "byte list \<Rightarrow> net \<Rightarrow> (sock_error + nat) \<times> net" where
  "os_send bs n = (let n' = n\<lparr>sends := tail (sends n)\<rparr> in
     case sends n 0 of
       Inl e \<Rightarrow> (Inl e, n')
     | Inr k \<Rightarrow> (Inr (min k (length bs)), n'\<lparr>wire := wire n @ take k bs\<rparr>))"

text \<open>A \<open>select\<close> with no time limit does not report that the time is over.\<close>

definition os_select :: "int option \<Rightarrow> net \<Rightarrow> (sock_error + nat) \<times> net" where
  "os_select timeout n = (let n' = n\<lparr>selects := tail (selects n)\<rparr> in
     (case selects n 0 of
        Inl e \<Rightarrow> Inl e
      | Inr k \<Rightarrow> Inr (if k = 0 \<and> timeout = None then 1 else k), n'))"

definition os_time :: "net \<Rightarrow> int \<times> net" where
  "os_time n = (clock n 0, n\<lparr>clock := tail (clock n)\<rparr>)"

definition report :: "formatter \<Rightarrow> string \<Rightarrow> session \<Rightarrow> session option" where
  "report vsn fmt s = do {
     (c, h) \<leftarrow> print_error vsn fmt (conn s) (mem s);
     Some (s\<lparr>conn := c, mem := h\<rparr>) }"

section \<open>Raw reads and writes\<close>

text \<open>
  The target of the read is the input buffer from \<open>off\<close> on. The result is the error number for -1,
  and the number of bytes otherwise.
\<close>

definition server_closed :: string where
  "server_closed = ''server closed the connection unexpectedly\<newline>''
     @ CHR 0x09 # ''This probably means the server terminated abnormally\<newline>''
     @ CHR 0x09 # ''before or while processing the request.\<newline>''"

definition pqsecure_raw_read :: "formatter \<Rightarrow> nat \<Rightarrow> nat \<Rightarrow> session \<Rightarrow> ((sock_error + nat) \<times> session) option" where
  "pqsecure_raw_read vsn off len s = (
     let (n, w) = os_recv len (net s); s = s\<lparr>net := w\<rparr> in
     case n of
       Inl e \<Rightarrow> do {
         s \<leftarrow> (if e = EAGAIN \<or> e = EINTR then Some s
           else if e = ECONNRESET then report vsn server_closed s
           else report vsn ''could not receive data from server: %s'' s);
         Some (Inl e, s) }
     | Inr bs \<Rightarrow> do {
         buf \<leftarrow> blit (inBuffer (conn s)) off bs;
         Some (Inr (length bs), s\<lparr>conn := (conn s)\<lparr>inBuffer := buf\<rparr>\<rparr>) })"

definition pqsecure_read :: "formatter \<Rightarrow> nat \<Rightarrow> nat \<Rightarrow> session \<Rightarrow> ((sock_error + nat) \<times> session) option" where
  "pqsecure_read vsn off len s = pqsecure_raw_read vsn off len s"

text \<open>The source of the write is the output buffer from \<open>ptr\<close> on.\<close>

definition pqsecure_raw_write :: "formatter \<Rightarrow> nat \<Rightarrow> nat \<Rightarrow> session \<Rightarrow> ((sock_error + nat) \<times> session) option" where
  "pqsecure_raw_write vsn ptr len s =
     (if ptr + len > length (outBuffer (conn s)) then None
      else let (n, w) = os_send (take len (drop ptr (outBuffer (conn s)))) (net s); s = s\<lparr>net := w\<rparr> in
        case n of
          Inl e \<Rightarrow> do {
            s \<leftarrow> (if e = EAGAIN \<or> e = EINTR then Some s
              else if e = EPIPE \<or> e = ECONNRESET then report vsn server_closed s
              else report vsn ''could not send data to server: %s'' s);
            Some (Inl e, s) }
        | Inr k \<Rightarrow> Some (Inr k, s))"

definition pqsecure_write :: "formatter \<Rightarrow> nat \<Rightarrow> nat \<Rightarrow> session \<Rightarrow> ((sock_error + nat) \<times> session) option" where
  "pqsecure_write vsn ptr len s = pqsecure_raw_write vsn ptr len s"

definition pqDropConnection :: "bool \<Rightarrow> session \<Rightarrow> session" where
  "pqDropConnection flushInput s = (
     let s = (if sock (conn s) \<noteq> PGINVALID_SOCKET
              then s\<lparr>net := (net s)\<lparr>closed := sock (conn s) # closed (net s)\<rparr>\<rparr> else s);
         c = (conn s)\<lparr>sock := PGINVALID_SOCKET\<rparr>;
         c = (if flushInput then c\<lparr>inStart := 0, inCursor := 0, inEnd := 0\<rparr> else c)
     in s\<lparr>conn := c\<lparr>outCount := 0\<rparr>\<rparr>)"

section \<open>Waiting\<close>

text \<open>The two's-complement time -1 stands for no time limit.\<close>

definition pqSocketPoll :: "bool \<Rightarrow> bool \<Rightarrow> int \<Rightarrow> net \<Rightarrow> (sock_error + nat) \<times> net" where
  "pqSocketPoll forRead forWrite end_time n =
    (if \<not> forRead \<and> \<not> forWrite then (Inr 0, n)
     else if end_time = -1 then os_select None n
     else let (now, n) = os_time n in
       os_select (Some (if end_time > now then end_time - now else 0)) n)"

text \<open>The loop that repeats the call as long as it is interrupted.\<close>

partial_function (option) poll_loop :: "bool \<Rightarrow> bool \<Rightarrow> int \<Rightarrow> net \<Rightarrow> ((sock_error + nat) \<times> net) option" where
  "poll_loop forRead forWrite end_time n =
    (if fst (pqSocketPoll forRead forWrite end_time n) = Inl EINTR
     then poll_loop forRead forWrite end_time (snd (pqSocketPoll forRead forWrite end_time n))
     else Some (pqSocketPoll forRead forWrite end_time n))"

definition pqSocketCheck :: "formatter \<Rightarrow> bool \<Rightarrow> bool \<Rightarrow> int \<Rightarrow> session \<Rightarrow> (int \<times> session) option" where
  "pqSocketCheck vsn forRead forWrite end_time s =
    (if sock (conn s) = PGINVALID_SOCKET then do {
       s \<leftarrow> report vsn ''invalid socket'' s;
       Some (-1, s) }
     else do {
       (r, n) \<leftarrow> poll_loop forRead forWrite end_time (net s);
       let s = s\<lparr>net := n\<rparr>;
       case r of
         Inl e \<Rightarrow> do { s \<leftarrow> report vsn ''select() failed: %s'' s; Some (-1, s) }
       | Inr k \<Rightarrow> Some (int k, s) })"

definition pqReadReady :: "formatter \<Rightarrow> session \<Rightarrow> (int \<times> session) option" where
  "pqReadReady vsn s = pqSocketCheck vsn True False 0 s"

definition pqWriteReady :: "formatter \<Rightarrow> session \<Rightarrow> (int \<times> session) option" where
  "pqWriteReady vsn s = pqSocketCheck vsn False True 0 s"

text \<open>The result is \<open>True\<close> for 0 and \<open>False\<close> for \<open>EOF\<close>.\<close>

definition pqWaitTimed :: "formatter \<Rightarrow> bool \<Rightarrow> bool \<Rightarrow> int \<Rightarrow> session \<Rightarrow> (bool \<times> session) option" where
  "pqWaitTimed vsn forRead forWrite finish_time s = do {
     (result, s) \<leftarrow> pqSocketCheck vsn forRead forWrite finish_time s;
     if result < 0 then Some (False, s)
     else if result = 0 then do { s \<leftarrow> report vsn ''timeout expired'' s; Some (False, s) }
     else Some (True, s) }"

definition pqWait :: "formatter \<Rightarrow> bool \<Rightarrow> bool \<Rightarrow> session \<Rightarrow> (bool \<times> session) option" where
  "pqWait vsn forRead forWrite s = pqWaitTimed vsn forRead forWrite (-1) s"

section \<open>Reading from the server\<close>

text \<open>How a read loop ends: with a result of \<open>pqReadData\<close>, with a read of no bytes, or at a label.\<close>

datatype read_exit = Returned int | Zero_read | Definitely_failed

text \<open>The loop at the label \<open>retry3\<close>.\<close>

partial_function (option) read_loop :: "formatter \<Rightarrow> bool \<Rightarrow> session \<Rightarrow> (read_exit \<times> session) option" where
  "read_loop vsn someread s = do {
     (nread, s) \<leftarrow> pqsecure_read vsn (inEnd (conn s)) (inBufSize (conn s) - inEnd (conn s)) s;
     case nread of
       Inl e \<Rightarrow>
         if e = EINTR then read_loop vsn someread s
         else if e = EAGAIN then Some (Returned (if someread then 1 else 0), s)
         else if e = ECONNRESET then Some (Definitely_failed, s)
         else Some (Returned (-1), s)
     | Inr n \<Rightarrow>
         if n > 0 then
           (if inEnd (conn s) + n > 32768 \<and> inBufSize (conn s) - (inEnd (conn s) + n) \<ge> 8192
            then read_loop vsn True (s\<lparr>conn := (conn s)\<lparr>inEnd := inEnd (conn s) + n\<rparr>\<rparr>)
            else Some (Returned 1, s\<lparr>conn := (conn s)\<lparr>inEnd := inEnd (conn s) + n\<rparr>\<rparr>))
         else if someread then Some (Returned 1, s) else Some (Zero_read, s) }"

text \<open>The loop at the label \<open>retry4\<close>.\<close>

partial_function (option) reread_loop :: "formatter \<Rightarrow> session \<Rightarrow> (read_exit \<times> session) option" where
  "reread_loop vsn s = do {
     (nread, s) \<leftarrow> pqsecure_read vsn (inEnd (conn s)) (inBufSize (conn s) - inEnd (conn s)) s;
     case nread of
       Inl e \<Rightarrow>
         if e = EINTR then reread_loop vsn s
         else if e = EAGAIN then Some (Returned 0, s)
         else if e = ECONNRESET then Some (Definitely_failed, s)
         else Some (Returned (-1), s)
     | Inr n \<Rightarrow>
         if n > 0 then Some (Returned 1, s\<lparr>conn := (conn s)\<lparr>inEnd := inEnd (conn s) + n\<rparr>\<rparr>)
         else Some (Zero_read, s) }"

text \<open>The labels \<open>definitelyFailed\<close> and \<open>definitelyEOF\<close>.\<close>

definition definitely_failed :: "session \<Rightarrow> (int \<times> session) option" where
  "definitely_failed s = (let s = pqDropConnection False s in
     Some (-1, s\<lparr>conn := (conn s)\<lparr>status := CONNECTION_BAD\<rparr>\<rparr>))"

definition definitely_eof :: "formatter \<Rightarrow> session \<Rightarrow> (int \<times> session) option" where
  "definitely_eof vsn s = do {
     s \<leftarrow> report vsn server_closed s;
     definitely_failed s }"

definition make_room :: "formatter \<Rightarrow> session \<Rightarrow> (bool \<times> session) option" where
  "make_room vsn s =
    (if inBufSize (conn s) - inEnd (conn s) < 8192 then do {
       (ok, c, h) \<leftarrow> pqCheckInBufferSpace vsn (size_t (inEnd (conn s) + 8192)) (conn s) (mem s);
       Some (ok \<or> inBufSize c - inEnd c \<ge> 100, s\<lparr>conn := c, mem := h\<rparr>) }
     else Some (True, s))"

definition pqReadData :: "formatter \<Rightarrow> session \<Rightarrow> (int \<times> session) option" where
  "pqReadData vsn s =
    (if sock (conn s) = PGINVALID_SOCKET then do {
       s \<leftarrow> report vsn ''connection not open'' s;
       Some (-1, s) }
     else do {
       c \<leftarrow> left_justify (conn s);
       (ok, s) \<leftarrow> make_room vsn (s\<lparr>conn := c\<rparr>);
       if \<not> ok then Some (-1, s)
       else do {
         (x, s) \<leftarrow> read_loop vsn False s;
         case x of
           Returned r \<Rightarrow> Some (r, s)
         | Definitely_failed \<Rightarrow> definitely_failed s
         | Zero_read \<Rightarrow> do {
             (r, s) \<leftarrow> pqReadReady vsn s;
             if r = 0 then Some (0, s)
             else if r \<noteq> 1 then definitely_eof vsn s
             else do {
               (x, s) \<leftarrow> reread_loop vsn s;
               case x of
                 Returned r \<Rightarrow> Some (r, s)
               | Definitely_failed \<Rightarrow> definitely_failed s
               | Zero_read \<Rightarrow> definitely_eof vsn s } } } })"

section \<open>Sending to the server\<close>

text \<open>How the loop of \<open>pqSendSome\<close> ends: it returns at once, or goes on behind the loop.\<close>

datatype send_exit = Return_now int | Behind_loop int nat nat

text \<open>
  The loop of \<open>pqSendSome\<close>; \<open>ptr\<close> is an offset into the output buffer. A \<open>break\<close> or the end of the
  loop gives the result, the offset and the number of remaining bytes.
\<close>

partial_function (option) send_loop ::
  "formatter \<Rightarrow> nat \<Rightarrow> nat \<Rightarrow> nat \<Rightarrow> session \<Rightarrow> (send_exit \<times> session) option" where
  "send_loop vsn ptr len remaining s =
    (if len = 0 then Some (Behind_loop 0 ptr remaining, s)
     else do {
       (sent, s) \<leftarrow> pqsecure_write vsn ptr (min len 65536) s;
       if sent = Inl EINTR then send_loop vsn ptr len remaining s
       else if \<not> isl sent \<or> sent = Inl EAGAIN then do {
         let k = (case sent of Inl e \<Rightarrow> 0 | Inr k \<Rightarrow> k);
         if len - k > 0 then do {
           (r, s) \<leftarrow> pqReadData vsn s;
           if r < 0 then Some (Behind_loop (-1) (ptr + k) (remaining - k), s)
           else if nonblocking (conn s) then Some (Behind_loop 1 (ptr + k) (remaining - k), s)
           else do {
             (ok, s) \<leftarrow> pqWait vsn True True s;
             if \<not> ok then Some (Behind_loop (-1) (ptr + k) (remaining - k), s)
             else send_loop vsn (ptr + k) (len - k) (remaining - k) s } }
         else send_loop vsn (ptr + k) (len - k) (remaining - k) s }
       else Some (Return_now (-1), s\<lparr>conn := (conn s)\<lparr>outCount := 0\<rparr>\<rparr>) })"

text \<open>Moving the rest to the front of the output buffer.\<close>

definition shift_out :: "nat \<Rightarrow> nat \<Rightarrow> session \<Rightarrow> session option" where
  "shift_out ptr remaining s = do {
     buf \<leftarrow> (if remaining > 0 then
         (if ptr + remaining \<le> length (outBuffer (conn s))
          then blit (outBuffer (conn s)) 0 (take remaining (drop ptr (outBuffer (conn s)))) else None)
       else Some (outBuffer (conn s)));
     Some (s\<lparr>conn := (conn s)\<lparr>outBuffer := buf, outCount := remaining\<rparr>\<rparr>) }"

definition pqSendSome :: "formatter \<Rightarrow> nat \<Rightarrow> session \<Rightarrow> (int \<times> session) option" where
  "pqSendSome vsn len s =
    (if sock (conn s) = PGINVALID_SOCKET then do {
       s \<leftarrow> report vsn ''connection not open'' s;
       Some (-1, s\<lparr>conn := (conn s)\<lparr>outCount := 0\<rparr>\<rparr>) }
     else do {
       (x, s) \<leftarrow> send_loop vsn 0 len (outCount (conn s)) s;
       case x of
         Return_now r \<Rightarrow> Some (r, s)
       | Behind_loop r ptr remaining \<Rightarrow> do { s \<leftarrow> shift_out ptr remaining s; Some (r, s) } })"

definition pqFlush :: "formatter \<Rightarrow> session \<Rightarrow> (int \<times> session) option" where
  "pqFlush vsn s = (if outCount (conn s) > 0 then pqSendSome vsn (outCount (conn s)) s else Some (0, s))"

definition pqPutMsgEnd :: "formatter \<Rightarrow> session \<Rightarrow> (bool \<times> session) option" where
  "pqPutMsgEnd vsn s = do {
     c \<leftarrow> finish_msg (conn s);
     let s = s\<lparr>conn := c\<rparr>;
     if outCount c \<ge> 8192 then do {
       (r, s) \<leftarrow> pqSendSome vsn (outCount c - outCount c mod 8192) s;
       Some (r \<ge> 0, s) }
     else Some (True, s) }"


section \<open>What an operation moves\<close>

text \<open>
  A stream of answers in which the call is not interrupted for ever, and one in which sending also
  makes progress again and again (or fails for good).
\<close>

definition fair :: "(nat \<Rightarrow> sock_error + nat) \<Rightarrow> bool" where
  "fair f \<longleftrightarrow> (\<forall>i. \<exists>j. f (i + j) \<noteq> Inl EINTR)"

definition progress :: "sock_error + nat \<Rightarrow> bool" where
  "progress a = (case a of Inl e \<Rightarrow> e \<noteq> EINTR \<and> e \<noteq> EAGAIN | Inr k \<Rightarrow> 0 < k)"

definition fair_send :: "(nat \<Rightarrow> sock_error + nat) \<Rightarrow> bool" where
  "fair_send f \<longleftrightarrow> (\<forall>i. \<exists>j. progress (f (i + j)))"

definition later :: "(nat \<Rightarrow> 'a) \<Rightarrow> (nat \<Rightarrow> 'a) \<Rightarrow> bool" where
  "later f g \<longleftrightarrow> (\<exists>k. g = (\<lambda>i. f (k + i)))"

lemma later_refl [simp]: "later f f"
  unfolding later_def by (rule exI [of _ 0]) simp

lemma later_trans: "later f g \<Longrightarrow> later g h \<Longrightarrow> later f h"
  unfolding later_def by (auto simp: add.assoc [symmetric])

lemma later_tail [simp]: "later f (tail f)"
  unfolding later_def tail_def by (rule exI [of _ 1]) simp

lemma later_fair: "later f g \<Longrightarrow> fair f \<Longrightarrow> fair g"
  unfolding later_def fair_def by (auto simp: add.assoc [symmetric])

lemma later_fair_send: "later f g \<Longrightarrow> fair_send f \<Longrightarrow> fair_send g"
  unfolding later_def fair_send_def by (auto simp: add.assoc [symmetric])

text \<open>
  The bytes \<open>bs\<close> have moved from the server into the unconsumed input, the bytes \<open>out\<close> have been
  given to the kernel, and nothing else that matters has changed.
\<close>

definition moved :: "session \<Rightarrow> session \<Rightarrow> byte list \<Rightarrow> byte list \<Rightarrow> bool" where
  "moved s s' bs out \<longleftrightarrow> conn_inv (conn s')
     \<and> in_data (conn s') = in_data (conn s) @ bs \<and> incoming (net s) = bs @ incoming (net s')
     \<and> inCursor (conn s') - inStart (conn s') = inCursor (conn s) - inStart (conn s)
     \<and> wire (net s') = wire (net s) @ out \<and> outBuffer (conn s') = outBuffer (conn s)
     \<and> outBufSize (conn s') = outBufSize (conn s) \<and> nonblocking (conn s') = nonblocking (conn s)
     \<and> pversion (conn s') = pversion (conn s)
     \<and> later (recvs (net s)) (recvs (net s')) \<and> later (selects (net s)) (selects (net s'))
     \<and> later (sends (net s)) (sends (net s'))"

definition same_link :: "session \<Rightarrow> session \<Rightarrow> bool" where
  "same_link s s' \<longleftrightarrow> outCount (conn s') = outCount (conn s) \<and> sock (conn s') = sock (conn s)
     \<and> status (conn s') = status (conn s) \<and> closed (net s') = closed (net s)"

definition same_sends :: "session \<Rightarrow> session \<Rightarrow> bool" where
  "same_sends s s' \<longleftrightarrow> sends (net s') = sends (net s)"

lemma moved_refl: "conn_inv (conn s) \<Longrightarrow> moved s s [] []"
  by (simp add: moved_def)

lemma moved_trans: "moved a b x y \<Longrightarrow> moved b c x' y' \<Longrightarrow> moved a c (x @ x') (y @ y')"
  unfolding moved_def using later_trans [of "recvs (net a)" "recvs (net b)" "recvs (net c)"]
    later_trans [of "selects (net a)" "selects (net b)" "selects (net c)"]
    later_trans [of "sends (net a)" "sends (net b)" "sends (net c)"] by simp

lemma moved_inv: "moved s s' bs out \<Longrightarrow> conn_inv (conn s')"
  by (simp add: moved_def)

lemma moved_fair: "moved s s' bs out \<Longrightarrow> fair (recvs (net s)) \<Longrightarrow> fair (recvs (net s'))"
  "moved s s' bs out \<Longrightarrow> fair (selects (net s)) \<Longrightarrow> fair (selects (net s'))"
  "moved s s' bs out \<Longrightarrow> fair_send (sends (net s)) \<Longrightarrow> fair_send (sends (net s'))"
  by (auto simp: moved_def intro: later_fair later_fair_send)

lemma same_refl [simp]: "same_link s s" "same_sends s s"
  by (simp_all add: same_link_def same_sends_def)

lemma same_link_trans: "same_link a b \<Longrightarrow> same_link b c \<Longrightarrow> same_link a c"
  by (simp add: same_link_def)

lemma same_sends_trans: "same_sends a b \<Longrightarrow> same_sends b c \<Longrightarrow> same_sends a c"
  by (simp add: same_sends_def)

text \<open>An operation that moves nothing and always returns.\<close>

definition quiet :: "session \<Rightarrow> ('a \<times> session) option \<Rightarrow> ('a \<Rightarrow> bool) \<Rightarrow> bool" where
  "quiet s R P \<longleftrightarrow> (\<exists>r s'. R = Some (r, s') \<and> moved s s' [] [] \<and> same_link s s' \<and> same_sends s s' \<and> P r)"

section \<open>Reports and waiting\<close>

lemma report_result:
  assumes "conn_inv (conn s)" "formatter_ok vsn"
  shows "\<exists>s'. report vsn fmt s = Some s' \<and> moved s s' [] [] \<and> same_link s s' \<and> same_sends s s'
    \<and> recvs (net s') = recvs (net s) \<and> inBufSize (conn s') = inBufSize (conn s) \<and> inEnd (conn s') = inEnd (conn s)"
proof -
  have e: "eb_inv (errorMessage (conn s))" using assms(1) by (simp add: conn_inv_def)
  obtain e h where "print_error vsn fmt (conn s) (mem s) = Some ((conn s)\<lparr>errorMessage := e\<rparr>, h)" "eb_inv e"
    using print_error_result [OF assms(2) e] by blast
  then show ?thesis using assms(1)
    by (simp add: report_def moved_def same_link_def same_sends_def conn_inv_def in_data_def)
qed

lemma poll_loop_result:
  assumes "fair (selects n)"
  shows "\<exists>r f c. poll_loop rd wr t n = Some (r, n\<lparr>selects := f, clock := c\<rparr>) \<and> later (selects n) f \<and> r \<noteq> Inl EINTR"
proof -
  have poll: "\<exists>f c. snd (pqSocketPoll rd wr t n) = n\<lparr>selects := f, clock := c\<rparr> \<and> later (selects n) f
      \<and> (fst (pqSocketPoll rd wr t n) = Inl EINTR \<longrightarrow> f = tail (selects n) \<and> selects n 0 = Inl EINTR)" for n
  proof (cases "\<not> rd \<and> \<not> wr")
    case True
    then show ?thesis by (intro exI [of _ "selects n"] exI [of _ "clock n"]) (simp add: pqSocketPoll_def)
  next
    case False
    then have "pqSocketPoll rd wr t n = (if t = -1 then os_select None n
        else os_select (Some (if t > clock n 0 then t - clock n 0 else 0)) (n\<lparr>clock := tail (clock n)\<rparr>))"
      unfolding pqSocketPoll_def os_time_def by (auto simp add: Let_def)
    then show ?thesis
      by (intro exI [of _ "tail (selects n)"] exI [of _ "if t = -1 then clock n else tail (clock n)"])
        (auto simp: os_select_def Let_def split: sum.splits if_splits)
  qed
  obtain j where "selects n j \<noteq> Inl EINTR" using assms unfolding fair_def by (metis add_0)
  then show ?thesis
  proof (induction j arbitrary: n)
    case 0
    then have ne: "fst (pqSocketPoll rd wr t n) \<noteq> Inl EINTR" using poll [of n] by auto
    then have "poll_loop rd wr t n = Some (fst (pqSocketPoll rd wr t n), snd (pqSocketPoll rd wr t n))"
      by (subst poll_loop.simps) simp
    then show ?case using poll [of n] ne by metis
  next
    case (Suc j)
    show ?case
    proof (cases "fst (pqSocketPoll rd wr t n) = Inl EINTR")
      case True
      then obtain f c where f: "snd (pqSocketPoll rd wr t n) = n\<lparr>selects := f, clock := c\<rparr>" "f = tail (selects n)"
        using poll [of n] by auto
      have "selects (n\<lparr>selects := f, clock := c\<rparr>) j \<noteq> Inl EINTR" using Suc.prems by (simp add: f(2) tail_def)
      from Suc.IH [OF this] obtain r f' c' where r: "poll_loop rd wr t (n\<lparr>selects := f, clock := c\<rparr>) = Some (r, n\<lparr>selects := f', clock := c'\<rparr>)"
        "later f f'" "r \<noteq> Inl EINTR" by auto
      then have "poll_loop rd wr t n = Some (r, n\<lparr>selects := f', clock := c'\<rparr>)" using True f(1) by (subst poll_loop.simps) simp
      then show ?thesis using r(2,3) later_trans [OF later_tail r(2)[unfolded f(2)]] by blast
    next
      case False
      then have "poll_loop rd wr t n = Some (fst (pqSocketPoll rd wr t n), snd (pqSocketPoll rd wr t n))"
        by (subst poll_loop.simps) simp
      then show ?thesis using poll [of n] False by metis
    qed
  qed
qed

lemma socket_check_result:
  assumes inv: "conn_inv (conn s)" and fmt: "formatter_ok vsn" and fair: "fair (selects (net s))"
  shows "quiet s (pqSocketCheck vsn rd wr t s) (\<lambda>r. -1 \<le> r)"
proof (cases "sock (conn s) = PGINVALID_SOCKET")
  case True
  then show ?thesis using report_result [OF inv fmt, of "''invalid socket''"]
    by (auto simp: pqSocketCheck_def quiet_def)
next
  case False
  obtain r f c where p: "poll_loop rd wr t (net s) = Some (r, (net s)\<lparr>selects := f, clock := c\<rparr>)" "later (selects (net s)) f"
    using poll_loop_result [OF fair] by blast
  let ?s = "s\<lparr>net := (net s)\<lparr>selects := f, clock := c\<rparr>\<rparr>"
  have m: "moved s ?s [] []" "same_link s ?s" "same_sends s ?s" "conn_inv (conn ?s)"
    using inv p(2) by (simp_all add: moved_def same_link_def same_sends_def)
  show ?thesis
  proof (cases r)
    case (Inl e)
    obtain s' where s': "report vsn ''select() failed: %s'' ?s = Some s'" "moved ?s s' [] []" "same_link ?s s'" "same_sends ?s s'"
      using report_result [OF m(4) fmt] by blast
    have "pqSocketCheck vsn rd wr t s = Some (-1, s')" using False p(1) Inl s'(1) by (simp add: pqSocketCheck_def)
    then show ?thesis unfolding quiet_def
      using moved_trans [OF m(1) s'(2)] same_link_trans [OF m(2) s'(3)] same_sends_trans [OF m(3) s'(4)] by auto
  next
    case (Inr k)
    have "pqSocketCheck vsn rd wr t s = Some (int k, ?s)" using False p(1) Inr by (simp add: pqSocketCheck_def)
    then show ?thesis unfolding quiet_def using m by auto
  qed
qed

lemma wait_result:
  assumes inv: "conn_inv (conn s)" and fmt: "formatter_ok vsn" and fair: "fair (selects (net s))"
  shows "quiet s (pqWaitTimed vsn rd wr t s) (\<lambda>r. True)"
proof -
  obtain r s1 where r: "pqSocketCheck vsn rd wr t s = Some (r, s1)" "moved s s1 [] []" "same_link s s1" "same_sends s s1"
    using socket_check_result [OF assms] unfolding quiet_def by blast
  obtain s2 where s2: "report vsn ''timeout expired'' s1 = Some s2" "moved s1 s2 [] []" "same_link s1 s2" "same_sends s1 s2"
    using report_result [OF moved_inv [OF r(2)] fmt] by blast
  show ?thesis
    using r s2 moved_trans [OF r(2) s2(2)] same_link_trans [OF r(3) s2(3)] same_sends_trans [OF r(4) s2(4)]
    by (auto simp: pqWaitTimed_def quiet_def)
qed


section \<open>Reading\<close>

text \<open>One call of \<open>recv\<close> into the free part of the input buffer.\<close>

definition advance :: "nat \<Rightarrow> session \<Rightarrow> session" where
  "advance n s = s\<lparr>conn := (conn s)\<lparr>inEnd := inEnd (conn s) + n\<rparr>\<rparr>"

lemma advance_0 [simp]: "advance 0 s = s"
  by (simp add: advance_def)

lemma raw_read_data:
  assumes inv: "conn_inv (conn s)" and bs: "length bs \<le> inBufSize (conn s) - inEnd (conn s)"
    and i: "incoming (net s) = bs @ inc"
  shows "\<exists>buf. blit (inBuffer (conn s)) (inEnd (conn s)) bs = Some buf
    \<and> moved s (advance (length bs) (s\<lparr>conn := (conn s)\<lparr>inBuffer := buf\<rparr>, net := (net s)\<lparr>recvs := tail (recvs (net s)), incoming := inc\<rparr>\<rparr>)) bs []"
proof -
  have c: "length (inBuffer (conn s)) = inBufSize (conn s)" "inStart (conn s) \<le> inCursor (conn s)"
    "inCursor (conn s) \<le> inEnd (conn s)" "inEnd (conn s) \<le> inBufSize (conn s)"
    using inv by (simp_all add: conn_inv_def)
  define buf where "buf = take (inEnd (conn s)) (inBuffer (conn s)) @ bs @ drop (inEnd (conn s) + length bs) (inBuffer (conn s))"
  have b: "blit (inBuffer (conn s)) (inEnd (conn s)) bs = Some buf" using bs c by (simp add: blit_def buf_def)
  have l: "length buf = inBufSize (conn s)" using bs c by (simp add: buf_def)
  have d: "take (inEnd (conn s) + length bs - inStart (conn s)) (drop (inStart (conn s)) buf) = in_data (conn s) @ bs"
  proof -
    have "take (inEnd (conn s) + length bs) buf = take (inEnd (conn s)) (inBuffer (conn s)) @ bs"
      using c by (simp add: buf_def)
    then have "drop (inStart (conn s)) (take (inEnd (conn s) + length bs) buf)
        = drop (inStart (conn s)) (take (inEnd (conn s)) (inBuffer (conn s))) @ bs" using c by simp
    then show ?thesis by (simp add: drop_take in_data_def)
  qed
  have "conn_inv ((conn s)\<lparr>inBuffer := buf, inEnd := inEnd (conn s) + length bs\<rparr>)" using inv l bs c by (simp add: conn_inv_def)
  then show ?thesis using b d i by (intro exI [of _ buf]) (simp add: moved_def advance_def in_data_def)
qed

lemma raw_read_result:
  assumes inv: "conn_inv (conn s)" and fmt: "formatter_ok vsn"
  shows "\<exists>x s'. pqsecure_read vsn (inEnd (conn s)) (inBufSize (conn s) - inEnd (conn s)) s = Some (x, s')
    \<and> inBufSize (conn s') = inBufSize (conn s) \<and> inEnd (conn s') = inEnd (conn s)
    \<and> recvs (net s') = tail (recvs (net s)) \<and> same_link s s' \<and> same_sends s s'
    \<and> (case x of Inl e \<Rightarrow> recvs (net s) 0 = Inl e \<and> moved s s' [] []
       | Inr n \<Rightarrow> recvs (net s) 0 \<noteq> Inl EINTR \<and> n \<le> inBufSize (conn s) - inEnd (conn s)
           \<and> (\<exists>bs. length bs = n \<and> moved s (advance n s') bs []))"
proof (cases "recvs (net s) 0")
  case (Inl e)
  let ?s = "s\<lparr>net := (net s)\<lparr>recvs := tail (recvs (net s))\<rparr>\<rparr>"
  have m: "conn_inv (conn ?s)" "moved s ?s [] []" "same_link s ?s" "same_sends s ?s"
    using inv by (simp_all add: moved_def same_link_def same_sends_def)
  have q: "\<exists>s'. report vsn f ?s = Some s' \<and> moved s s' [] [] \<and> same_link s s' \<and> same_sends s s'
    \<and> recvs (net s') = tail (recvs (net s)) \<and> inBufSize (conn s') = inBufSize (conn s) \<and> inEnd (conn s') = inEnd (conn s)" for f
  proof -
    obtain s' where "report vsn f ?s = Some s'" "moved ?s s' [] []" "same_link ?s s'" "same_sends ?s s'"
      "recvs (net s') = recvs (net ?s)" "inBufSize (conn s') = inBufSize (conn ?s)" "inEnd (conn s') = inEnd (conn ?s)"
      using report_result [OF m(1) fmt] by blast
    then show ?thesis using moved_trans [OF m(2)] same_link_trans [OF m(3)] same_sends_trans [OF m(4)] by fastforce
  qed
  show ?thesis
    using Inl m q [of server_closed] q [of "''could not receive data from server: %s''"]
    by (auto simp: pqsecure_read_def pqsecure_raw_read_def os_recv_def Let_def)
next
  case (Inr k)
  define bs where "bs = take (min k (inBufSize (conn s) - inEnd (conn s))) (incoming (net s))"
  have l: "length bs \<le> inBufSize (conn s) - inEnd (conn s)" by (simp add: bs_def)
  have i: "incoming (net s) = bs @ drop (min k (inBufSize (conn s) - inEnd (conn s))) (incoming (net s))"
    by (simp add: bs_def)
  obtain buf where b: "blit (inBuffer (conn s)) (inEnd (conn s)) bs = Some buf"
    "moved s (advance (length bs) (s\<lparr>conn := (conn s)\<lparr>inBuffer := buf\<rparr>, net := (net s)\<lparr>recvs := tail (recvs (net s)),
       incoming := drop (min k (inBufSize (conn s) - inEnd (conn s))) (incoming (net s))\<rparr>\<rparr>)) bs []"
    using raw_read_data [OF inv l i] by blast
  let ?s = "s\<lparr>conn := (conn s)\<lparr>inBuffer := buf\<rparr>, net := (net s)\<lparr>recvs := tail (recvs (net s)),
       incoming := drop (min k (inBufSize (conn s) - inEnd (conn s))) (incoming (net s))\<rparr>\<rparr>"
  have "pqsecure_read vsn (inEnd (conn s)) (inBufSize (conn s) - inEnd (conn s)) s = Some (Inr (length bs), ?s)"
    using b(1) Inr by (simp add: pqsecure_read_def pqsecure_raw_read_def os_recv_def Let_def bs_def)
  then show ?thesis using b(2) l Inr by (intro exI [of _ "Inr (length bs)"] exI [of _ ?s]) (auto simp: same_link_def same_sends_def)
qed


text \<open>How a loop may end when \<open>bs\<close> has been read in it, and before it something if \<open>someread\<close>.\<close>

fun exit_ok :: "bool \<Rightarrow> byte list \<Rightarrow> read_exit \<Rightarrow> bool" where
  "exit_ok someread bs (Returned r) = (r = -1 \<or> r = (if someread \<or> bs \<noteq> [] then 1 else 0))"
| "exit_ok someread bs Zero_read = (\<not> someread \<and> bs = [])"
| "exit_ok someread bs Definitely_failed = True"

definition read_end :: "session \<Rightarrow> bool \<Rightarrow> (read_exit \<times> session) option \<Rightarrow> bool" where
  "read_end s someread R \<longleftrightarrow> (\<exists>x s' bs. R = Some (x, s') \<and> moved s s' bs [] \<and> same_link s s' \<and> same_sends s s'
     \<and> exit_ok someread bs x)"

lemma read_endI:
  "R = Some (x, s') \<Longrightarrow> moved s s' bs [] \<Longrightarrow> same_link s s' \<Longrightarrow> same_sends s s' \<Longrightarrow> exit_ok someread bs x \<Longrightarrow> read_end s someread R"
  unfolding read_end_def by blast

lemma read_end_step:
  assumes "moved s s1 bs []" "same_link s s1" "same_sends s s1" "read_end s1 (someread \<or> bs \<noteq> []) R"
  shows "read_end s someread R"
proof -
  obtain x s2 bs2 where r: "R = Some (x, s2)" "moved s1 s2 bs2 []" "same_link s1 s2" "same_sends s1 s2"
    "exit_ok (someread \<or> bs \<noteq> []) bs2 x"
    using assms(4) unfolding read_end_def by blast
  have "exit_ok someread (bs @ bs2) x" using r(5) by (cases x) auto
  then show ?thesis using moved_trans [OF assms(1) r(2)] same_link_trans [OF assms(2) r(3)] same_sends_trans [OF assms(3) r(4)] r(1)
    by (intro read_endI [where x = x and s' = s2 and bs = "bs @ bs2"]) auto
qed

lemma advance_same: "same_link s s1 \<Longrightarrow> same_link s (advance n s1)" "same_sends s s1 \<Longrightarrow> same_sends s (advance n s1)"
  by (simp_all add: advance_def same_link_def same_sends_def)

definition in_room :: "session \<Rightarrow> nat" where
  "in_room s = inBufSize (conn s) - inEnd (conn s)"

text \<open>One round of the loop, when what follows an interrupted call and a successful one is known.\<close>

lemma read_loop_step:
  assumes inv: "conn_inv (conn s)" and fmt: "formatter_ok vsn" and fair: "fair (recvs (net s))"
    and smaller: "\<And>s'. in_room s' < in_room s \<Longrightarrow> conn_inv (conn s') \<Longrightarrow> fair (recvs (net s'))
      \<Longrightarrow> read_end s' True (read_loop vsn True s')"
    and again: "\<And>s'. recvs (net s) 0 = Inl EINTR \<Longrightarrow> in_room s' = in_room s \<Longrightarrow> recvs (net s') = tail (recvs (net s))
      \<Longrightarrow> conn_inv (conn s') \<Longrightarrow> fair (recvs (net s')) \<Longrightarrow> read_end s' someread (read_loop vsn someread s')"
  shows "read_end s someread (read_loop vsn someread s)"
proof -
  obtain x s1 where r: "pqsecure_read vsn (inEnd (conn s)) (inBufSize (conn s) - inEnd (conn s)) s = Some (x, s1)"
    "inBufSize (conn s1) = inBufSize (conn s)" "inEnd (conn s1) = inEnd (conn s)"
    "recvs (net s1) = tail (recvs (net s))" "same_link s s1" "same_sends s s1"
    and x: "case x of Inl e \<Rightarrow> recvs (net s) 0 = Inl e \<and> moved s s1 [] []
       | Inr n \<Rightarrow> recvs (net s) 0 \<noteq> Inl EINTR \<and> n \<le> inBufSize (conn s) - inEnd (conn s)
           \<and> (\<exists>bs. length bs = n \<and> moved s (advance n s1) bs [])"
    using raw_read_result [OF inv fmt] by blast
  note loop = read_loop.simps [of vsn someread s, unfolded r(1) bind.bind_lunit prod.case]
  show ?thesis
  proof (cases x)
    case (Inl e)
    then have m: "recvs (net s) 0 = Inl e" "moved s s1 [] []" using x by simp_all
    show ?thesis
    proof (cases "e = EINTR")
      case True
      have "read_end s1 someread (read_loop vsn someread s1)"
        using m(1) True r(2-4) moved_inv [OF m(2)] moved_fair(1) [OF m(2) fair] by (intro again) (simp_all add: in_room_def)
      then show ?thesis using read_end_step [OF m(2) r(5,6), of someread] Inl True by (simp add: loop)
    next
      case False
      have "\<exists>y. read_loop vsn someread s = Some (y, s1) \<and> exit_ok someread [] y" using False Inl by (simp add: loop)
      then show ?thesis using m(2) r(5,6) unfolding read_end_def by blast
    qed
  next
    case (Inr n)
    then obtain bs where m: "n \<le> in_room s" "length bs = n" "moved s (advance n s1) bs []"
      using x by (auto simp: in_room_def)
    note sm = advance_same(1) [OF r(5), of n] advance_same(2) [OF r(6), of n]
    show ?thesis
    proof (cases "n > 0 \<and> inEnd (conn s1) + n > 32768 \<and> inBufSize (conn s1) - (inEnd (conn s1) + n) \<ge> 8192")
      case True
      then have lt: "in_room (advance n s1) < in_room s"
        using m(1) r(2,3) by (simp add: in_room_def advance_def) linarith
      have "read_end (advance n s1) True (read_loop vsn True (advance n s1))"
        using lt moved_inv [OF m(3)] moved_fair(1) [OF m(3) fair] by (rule smaller)
      moreover have "read_loop vsn someread s = read_loop vsn True (advance n s1)"
        using True Inr by (simp add: loop advance_def)
      ultimately show ?thesis using read_end_step [OF m(3) sm, of someread] True m(2) by auto
    next
      case False
      have "\<exists>y. read_loop vsn someread s = Some (y, advance n s1) \<and> exit_ok someread bs y"
        using False Inr m(2) by (cases "n = 0") (auto simp: loop advance_def)
      then show ?thesis using m(3) sm unfolding read_end_def by blast
    qed
  qed
qed

lemma read_loop_room:
  assumes fmt: "formatter_ok vsn"
    and smaller: "\<And>t. in_room t < R \<Longrightarrow> conn_inv (conn t) \<Longrightarrow> fair (recvs (net t)) \<Longrightarrow> read_end t True (read_loop vsn True t)"
  shows "recvs (net s) j \<noteq> Inl EINTR \<Longrightarrow> in_room s = R \<Longrightarrow> conn_inv (conn s) \<Longrightarrow> fair (recvs (net s))
    \<Longrightarrow> read_end s someread (read_loop vsn someread s)"
proof (induction j arbitrary: s)
  case 0
  show ?case
    by (rule read_loop_step [OF 0(3) fmt 0(4)]) (use 0(1,2) smaller in auto)
next
  case (Suc j)
  show ?case
  proof (rule read_loop_step [OF Suc.prems(3) fmt Suc.prems(4)])
    show "read_end t True (read_loop vsn True t)" if "in_room t < in_room s" "conn_inv (conn t)" "fair (recvs (net t))" for t
      using smaller that Suc.prems(2) by simp
    show "read_end t someread (read_loop vsn someread t)"
      if t: "recvs (net s) 0 = Inl EINTR" "in_room t = in_room s" "recvs (net t) = tail (recvs (net s))"
        "conn_inv (conn t)" "fair (recvs (net t))" for t
      by (rule Suc.IH) (use t Suc.prems(1,2) in \<open>simp_all add: tail_def\<close>)
  qed
qed

lemma fair_first: "fair f \<Longrightarrow> \<exists>j. f j \<noteq> Inl EINTR"
  unfolding fair_def by (metis add_0)

lemma read_loop_result:
  assumes fmt: "formatter_ok vsn"
  shows "conn_inv (conn s) \<Longrightarrow> fair (recvs (net s)) \<Longrightarrow> read_end s someread (read_loop vsn someread s)"
proof (induction "in_room s" arbitrary: s someread rule: less_induct)
  case less
  obtain j where j: "recvs (net s) j \<noteq> Inl EINTR" using fair_first [OF less.prems(2)] by blast
  show ?case by (rule read_loop_room [OF fmt less.hyps j refl less.prems])
qed


lemma reread_loop_result:
  assumes fmt: "formatter_ok vsn"
  shows "conn_inv (conn s) \<Longrightarrow> fair (recvs (net s)) \<Longrightarrow> read_end s False (reread_loop vsn s)"
proof -
  assume inv: "conn_inv (conn s)" and fair: "fair (recvs (net s))"
  obtain j where "recvs (net s) j \<noteq> Inl EINTR" using fair_first [OF fair] by blast
  then show ?thesis using inv fair
  proof (induction j arbitrary: s)
    case (0 s)
    obtain x s1 where r: "pqsecure_read vsn (inEnd (conn s)) (inBufSize (conn s) - inEnd (conn s)) s = Some (x, s1)"
      "same_link s s1" "same_sends s s1"
      and x: "case x of Inl e \<Rightarrow> recvs (net s) 0 = Inl e \<and> moved s s1 [] []
         | Inr n \<Rightarrow> recvs (net s) 0 \<noteq> Inl EINTR \<and> n \<le> inBufSize (conn s) - inEnd (conn s)
             \<and> (\<exists>bs. length bs = n \<and> moved s (advance n s1) bs [])"
      using raw_read_result [OF 0(2) fmt] by blast
    note loop = reread_loop.simps [of vsn s, unfolded r(1) bind.bind_lunit prod.case]
    show ?case
    proof (cases x)
      case (Inl e)
      have "\<exists>y. reread_loop vsn s = Some (y, s1) \<and> exit_ok False [] y" using 0(1) x Inl by (simp add: loop)
      then show ?thesis using x Inl r(2,3) unfolding read_end_def by fastforce
    next
      case (Inr n)
      then obtain bs where m: "length bs = n" "moved s (advance n s1) bs []" using x by auto
      have "\<exists>y. reread_loop vsn s = Some (y, advance n s1) \<and> exit_ok False bs y"
        using Inr m(1) by (cases "n = 0") (auto simp: loop advance_def)
      then show ?thesis using m(2) advance_same [of s s1 n] r(2,3) unfolding read_end_def by blast
    qed
  next
    case (Suc j s)
    obtain x s1 where r: "pqsecure_read vsn (inEnd (conn s)) (inBufSize (conn s) - inEnd (conn s)) s = Some (x, s1)"
      "recvs (net s1) = tail (recvs (net s))" "same_link s s1" "same_sends s s1"
      and x: "case x of Inl e \<Rightarrow> recvs (net s) 0 = Inl e \<and> moved s s1 [] []
         | Inr n \<Rightarrow> recvs (net s) 0 \<noteq> Inl EINTR \<and> n \<le> inBufSize (conn s) - inEnd (conn s)
             \<and> (\<exists>bs. length bs = n \<and> moved s (advance n s1) bs [])"
      using raw_read_result [OF Suc.prems(2) fmt] by blast
    note loop = reread_loop.simps [of vsn s, unfolded r(1) bind.bind_lunit prod.case]
    show ?case
    proof (cases x)
      case (Inl e)
      then have m: "moved s s1 [] []" using x by simp
      show ?thesis
      proof (cases "e = EINTR")
        case True
        have "recvs (net s1) j \<noteq> Inl EINTR" using Suc.prems(1) r(2) by (simp add: tail_def)
        from Suc.IH [OF this moved_inv [OF m] moved_fair(1) [OF m Suc.prems(3)]]
        show ?thesis using read_end_step [OF m r(3,4), of False] Inl True by (simp add: loop)
      next
        case False
        have "\<exists>y. reread_loop vsn s = Some (y, s1) \<and> exit_ok False [] y" using False Inl by (simp add: loop)
        then show ?thesis using m r(3,4) unfolding read_end_def by blast
      qed
    next
      case (Inr n)
      then obtain bs where m: "length bs = n" "moved s (advance n s1) bs []" using x by auto
      have "\<exists>y. reread_loop vsn s = Some (y, advance n s1) \<and> exit_ok False bs y"
        using Inr m(1) by (cases "n = 0") (auto simp: loop advance_def)
      then show ?thesis using m(2) advance_same [of s s1 n] r(3,4) unfolding read_end_def by blast
    qed
  qed
qed

lemma in_kept_moved:
  assumes "in_kept (conn s) c"
  shows "moved s (s\<lparr>conn := c, mem := h\<rparr>) [] []" "same_link s (s\<lparr>conn := c, mem := h\<rparr>)" "same_sends s (s\<lparr>conn := c, mem := h\<rparr>)"
proof -
  obtain b n st cu x e where c: "c = (conn s)\<lparr>inBuffer := b, inBufSize := n, inStart := st, inCursor := cu, inEnd := x, errorMessage := e\<rparr>"
    using assms unfolding in_kept_def by blast
  have k: "conn_inv c" "in_data c = in_data (conn s)" "inCursor c - inStart c = inCursor (conn s) - inStart (conn s)"
    using assms by (simp_all add: in_kept_def)
  have f: "outBuffer c = outBuffer (conn s)" "outBufSize c = outBufSize (conn s)" "nonblocking c = nonblocking (conn s)"
    "pversion c = pversion (conn s)" "outCount c = outCount (conn s)" "sock c = sock (conn s)" "status c = status (conn s)"
    by (simp_all add: c)
  show "moved s (s\<lparr>conn := c, mem := h\<rparr>) [] []" "same_link s (s\<lparr>conn := c, mem := h\<rparr>)" "same_sends s (s\<lparr>conn := c, mem := h\<rparr>)"
    using k f by (simp_all add: moved_def same_link_def same_sends_def)
qed

lemma make_room_result:
  assumes inv: "conn_inv (conn s)" and fmt: "formatter_ok vsn"
  shows "quiet s (make_room vsn s) (\<lambda>r. True)"
proof (cases "inBufSize (conn s) - inEnd (conn s) < 8192")
  case True
  have b: "inStart (conn s) \<le> inEnd (conn s) + 8192" "inEnd (conn s) + 8192 < 2 ^ 32"
    using inv by (auto simp: conn_inv_def INT_MAX_eq)
  obtain ok c h where r: "pqCheckInBufferSpace vsn (inEnd (conn s) + 8192) (conn s) (mem s) = Some (ok, c, h)" "in_kept (conn s) c"
    using check_in_result [OF inv fmt b] by blast
  have "make_room vsn s = Some (ok \<or> inBufSize c - inEnd c \<ge> 100, s\<lparr>conn := c, mem := h\<rparr>)"
    using True b(2) r(1) by (simp add: make_room_def size_t_id)
  then show ?thesis unfolding quiet_def using in_kept_moved [OF r(2)] by blast
next
  case False
  then show ?thesis using moved_refl [OF inv] by (auto simp: make_room_def quiet_def)
qed


text \<open>A connection that has been given up.\<close>

definition dropped :: "session \<Rightarrow> bool" where
  "dropped s \<longleftrightarrow> sock (conn s) = PGINVALID_SOCKET \<and> outCount (conn s) = 0 \<and> status (conn s) = CONNECTION_BAD"

definition read_result :: "session \<Rightarrow> (int \<times> session) option \<Rightarrow> bool" where
  "read_result s R \<longleftrightarrow> (\<exists>r s' bs. R = Some (r, s') \<and> moved s s' bs []
     \<and> (r = (if bs = [] then 0 else 1) \<and> same_link s s' \<and> same_sends s s'
        \<or> r = -1 \<and> (same_link s s' \<or> dropped s')))"

lemma read_result_ok:
  "R = Some (r, s') \<Longrightarrow> moved s s' bs [] \<Longrightarrow> same_link s s' \<Longrightarrow> same_sends s s' \<Longrightarrow> r = -1 \<or> r = (if bs = [] then 0 else 1)
    \<Longrightarrow> read_result s R"
  unfolding read_result_def by blast

lemma failed_result:
  assumes "moved s s1 bs []"
  shows "read_result s (definitely_failed s1)"
proof -
  let ?t = "pqDropConnection False s1"
  let ?s = "?t\<lparr>conn := (conn ?t)\<lparr>status := CONNECTION_BAD\<rparr>\<rparr>"
  have e: "definitely_failed s1 = Some (-1, ?s)" by (simp add: definitely_failed_def Let_def)
  have m: "moved s ?s bs []" using assms by (auto simp: moved_def pqDropConnection_def Let_def conn_inv_def in_data_def)
  have d: "dropped ?s" by (simp add: dropped_def pqDropConnection_def Let_def)
  show ?thesis unfolding read_result_def e using m d by blast
qed

lemma eof_result:
  assumes "moved s s1 bs []" "formatter_ok vsn"
  shows "read_result s (definitely_eof vsn s1)"
proof -
  obtain s2 where "report vsn server_closed s1 = Some s2" "moved s1 s2 [] []"
    using report_result [OF moved_inv [OF assms(1)] assms(2)] by blast
  then show ?thesis using failed_result [of s s2 bs] moved_trans [OF assms(1), of s2 "[]" "[]"]
    by (simp add: definitely_eof_def)
qed

lemma exit_Returned: "exit_ok False bs (Returned r) \<Longrightarrow> r = -1 \<or> r = (if bs = [] then 0 else 1)"
  by auto

text \<open>The part behind the first read loop, when it has read nothing.\<close>

lemma after_zero_read:
  assumes m: "moved s s1 [] []" "same_link s s1" "same_sends s s1" and fmt: "formatter_ok vsn"
    and fair: "fair (recvs (net s))" "fair (selects (net s))"
  shows "read_result s (do {
             (r, s) \<leftarrow> pqReadReady vsn s1;
             if r = 0 then Some (0, s)
             else if r \<noteq> 1 then definitely_eof vsn s
             else do {
               (x, s) \<leftarrow> reread_loop vsn s;
               case x of
                 Returned r \<Rightarrow> Some (r, s)
               | Definitely_failed \<Rightarrow> definitely_failed s
               | Zero_read \<Rightarrow> definitely_eof vsn s } })"
proof -
  obtain r s2 where r: "pqReadReady vsn s1 = Some (r, s2)" "moved s1 s2 [] []" "same_link s1 s2" "same_sends s1 s2"
    using socket_check_result [OF moved_inv [OF m(1)] fmt moved_fair(2) [OF m(1) fair(2)]]
    unfolding pqReadReady_def quiet_def by blast
  have m2: "moved s s2 [] []" "same_link s s2" "same_sends s s2"
    using moved_trans [OF m(1) r(2)] same_link_trans [OF m(2) r(3)] same_sends_trans [OF m(3) r(4)] by simp_all
  obtain x s3 bs where x: "reread_loop vsn s2 = Some (x, s3)" "moved s2 s3 bs []" "same_link s2 s3" "same_sends s2 s3" "exit_ok False bs x"
    using reread_loop_result [OF fmt moved_inv [OF m2(1)] moved_fair(1) [OF m2(1) fair(1)]] unfolding read_end_def by blast
  have m3: "moved s s3 bs []" "same_link s s3" "same_sends s s3"
    using moved_trans [OF m2(1) x(2)] same_link_trans [OF m2(2) x(3)] same_sends_trans [OF m2(3) x(4)] by simp_all
  consider "r = 0" | "r \<noteq> 0" "r \<noteq> 1" | "r = 1" by blast
  then show ?thesis
  proof cases
    case 1
    then show ?thesis using read_result_ok [OF _ m2] by (simp add: r(1))
  next
    case 2
    then show ?thesis using eof_result [OF m2(1) fmt] by (simp add: r(1))
  next
    case 3
    then show ?thesis using x(5) failed_result [OF m3(1)] eof_result [OF m3(1) fmt]
      by (cases x) (auto simp: r(1) x(1) simp del: exit_ok.simps intro!: read_result_ok [OF refl m3] exit_Returned)
  qed
qed

lemma pqReadData_result:
  assumes inv: "conn_inv (conn s)" and fmt: "formatter_ok vsn" and fair: "fair (recvs (net s))" "fair (selects (net s))"
  shows "read_result s (pqReadData vsn s)"
proof (cases "sock (conn s) = PGINVALID_SOCKET")
  case True
  obtain s1 where r: "report vsn ''connection not open'' s = Some s1" "moved s s1 [] []" "same_link s s1" "same_sends s s1"
    using report_result [OF inv fmt] by blast
  have "pqReadData vsn s = Some (-1, s1)" using True r(1) by (simp add: pqReadData_def)
  then show ?thesis by (rule read_result_ok [OF _ r(2-4)]) simp
next
  case False
  obtain c where c: "left_justify (conn s) = Some c" "in_kept (conn s) c" using left_justify_kept [OF inv] by blast
  let ?s = "s\<lparr>conn := c\<rparr>"
  have m0: "moved s ?s [] []" "same_link s ?s" "same_sends s ?s"
    using in_kept_moved [OF c(2), of "mem s"] by simp_all
  obtain ok s1 where r: "make_room vsn ?s = Some (ok, s1)" "moved ?s s1 [] []" "same_link ?s s1" "same_sends ?s s1"
    using make_room_result [OF moved_inv [OF m0(1)] fmt] unfolding quiet_def by blast
  have m1: "moved s s1 [] []" "same_link s s1" "same_sends s s1"
    using moved_trans [OF m0(1) r(2)] same_link_trans [OF m0(2) r(3)] same_sends_trans [OF m0(3) r(4)] by simp_all
  obtain x s2 bs where x: "read_loop vsn False s1 = Some (x, s2)" "moved s1 s2 bs []" "same_link s1 s2" "same_sends s1 s2" "exit_ok False bs x"
    using read_loop_result [OF fmt moved_inv [OF m1(1)] moved_fair(1) [OF m1(1) fair(1)]] unfolding read_end_def by blast
  have m2: "moved s s2 bs []" "same_link s s2" "same_sends s s2"
    using moved_trans [OF m1(1) x(2)] same_link_trans [OF m1(2) x(3)] same_sends_trans [OF m1(3) x(4)] by simp_all
  show ?thesis
  proof (cases ok)
    case False
    then have "pqReadData vsn s = Some (-1, s1)" using \<open>sock (conn s) \<noteq> PGINVALID_SOCKET\<close> c(1) r(1) by (simp add: pqReadData_def)
    then show ?thesis by (rule read_result_ok [OF _ m1]) simp
  next
    case ok: True
    note body = pqReadData_def [of vsn s, unfolded c(1) bind.bind_lunit r(1) prod.case x(1)]
    show ?thesis
    proof (cases x)
      case (Returned k)
      then show ?thesis using False ok x(5) read_result_ok [OF refl m2 exit_Returned] by (simp add: body del: exit_ok.simps)
    next
      case Definitely_failed
      then show ?thesis using False ok failed_result [OF m2(1)] by (simp add: body)
    next
      case Zero_read
      then have "bs = []" using x(5) by simp
      then show ?thesis using Zero_read False ok after_zero_read [OF _ m2(2,3) fmt fair] m2(1) by (simp add: body)
    qed
  qed
qed

text \<open>
  C3: \<open>pqReadData\<close> returns on every network that does not interrupt its calls for ever. It loses
  and duplicates nothing: what the server has sent is moved, in order, behind the input that was
  there, and the read position keeps its place. The result is 1 exactly when at least one byte has
  been read and 0 when none has; after -1 the connection is as before, or its socket is closed, its
  status is bad, and the data already received is still there. The output is not touched.
\<close>

theorem pqReadData_moves_input:
  assumes "conn_inv (conn s)" "formatter_ok vsn" "fair (recvs (net s))" "fair (selects (net s))"
  shows "\<exists>r s' bs. pqReadData vsn s = Some (r, s') \<and> conn_inv (conn s')
    \<and> in_data (conn s') = in_data (conn s) @ bs \<and> incoming (net s) = bs @ incoming (net s')
    \<and> inCursor (conn s') - inStart (conn s') = inCursor (conn s) - inStart (conn s)
    \<and> wire (net s') = wire (net s) \<and> outBuffer (conn s') = outBuffer (conn s)
    \<and> (r = (if bs = [] then 0 else 1) \<and> same_link s s' \<or> r = -1 \<and> (same_link s s' \<or> dropped s'))"
proof -
  obtain r s' bs where "pqReadData vsn s = Some (r, s')" "moved s s' bs []"
    "r = (if bs = [] then 0 else 1) \<and> same_link s s' \<and> same_sends s s' \<or> r = -1 \<and> (same_link s s' \<or> dropped s')"
    using pqReadData_result [OF assms] unfolding read_result_def by blast
  then show ?thesis unfolding moved_def
    by (intro exI [of _ r] exI [of _ s'] exI [of _ bs] conjI) auto
qed


section \<open>Sending\<close>

definition fair_net :: "session \<Rightarrow> bool" where
  "fair_net s \<longleftrightarrow> fair (recvs (net s)) \<and> fair (selects (net s)) \<and> fair_send (sends (net s))"

lemma moved_fair_net: "moved s s' bs out \<Longrightarrow> fair_net s \<Longrightarrow> fair_net s'"
  using moved_fair by (auto simp: fair_net_def)

lemma raw_write_result:
  assumes inv: "conn_inv (conn s)" and fmt: "formatter_ok vsn" and b: "ptr + n \<le> length (outBuffer (conn s))"
  shows "\<exists>x s'. pqsecure_write vsn ptr n s = Some (x, s') \<and> same_link s s' \<and> sends (net s') = tail (sends (net s))
    \<and> (case x of Inl e \<Rightarrow> sends (net s) 0 = Inl e \<and> moved s s' [] []
       | Inr k \<Rightarrow> k \<le> n \<and> (0 < n \<and> progress (sends (net s) 0) \<longrightarrow> 0 < k) \<and> moved s s' [] (take k (drop ptr (outBuffer (conn s)))))"
proof (cases "sends (net s) 0")
  case (Inl e)
  let ?s = "s\<lparr>net := (net s)\<lparr>sends := tail (sends (net s))\<rparr>\<rparr>"
  have m: "conn_inv (conn ?s)" "moved s ?s [] []" "same_link s ?s" "sends (net ?s) = tail (sends (net s))"
    using inv by (simp_all add: moved_def same_link_def)
  have q: "\<exists>s'. report vsn f ?s = Some s' \<and> moved s s' [] [] \<and> same_link s s' \<and> sends (net s') = tail (sends (net s))" for f
  proof -
    obtain s' where "report vsn f ?s = Some s'" "moved ?s s' [] []" "same_link ?s s'" "same_sends ?s s'"
      using report_result [OF m(1) fmt] by blast
    then show ?thesis using moved_trans [OF m(2)] same_link_trans [OF m(3)] by (fastforce simp: same_sends_def)
  qed
  show ?thesis
    using Inl b m q [of server_closed] q [of "''could not send data to server: %s''"]
    by (auto simp: pqsecure_write_def pqsecure_raw_write_def os_send_def Let_def)
next
  case (Inr k)
  let ?bs = "take n (drop ptr (outBuffer (conn s)))"
  let ?s = "s\<lparr>net := (net s)\<lparr>sends := tail (sends (net s)), wire := wire (net s) @ take k ?bs\<rparr>\<rparr>"
  have l: "length ?bs = n" using b by simp
  have "pqsecure_write vsn ptr n s = Some (Inr (min k n), ?s)"
    using Inr b by (simp add: pqsecure_write_def pqsecure_raw_write_def os_send_def Let_def)
  moreover have "take k ?bs = take (min k n) (drop ptr (outBuffer (conn s)))" by simp
  then have "moved s ?s [] (take (min k n) (drop ptr (outBuffer (conn s))))"
    using inv by (simp add: moved_def del: take_take)
  ultimately show ?thesis using Inr
    by (intro exI [of _ "Inr (min k n)"] exI [of _ ?s]) (simp add: same_link_def progress_def)
qed

text \<open>How the loop ends when \<open>k\<close> of \<open>len\<close> bytes have been sent.\<close>

fun send_exit_ok :: "session \<Rightarrow> nat \<Rightarrow> nat \<Rightarrow> nat \<Rightarrow> nat \<Rightarrow> session \<Rightarrow> send_exit \<Rightarrow> bool" where
  "send_exit_ok s ptr len remaining k s' (Return_now r) = (r = -1 \<and> outCount (conn s') = 0 \<and> k < len)"
| "send_exit_ok s ptr len remaining k s' (Behind_loop r p rem) = (p = ptr + k \<and> rem = remaining - k
     \<and> (r = 0 \<and> k = len \<and> same_link s s' \<or> r = 1 \<and> k < len \<and> nonblocking (conn s) \<and> same_link s s' \<or> r = -1 \<and> k < len))"

definition send_end :: "session \<Rightarrow> nat \<Rightarrow> nat \<Rightarrow> nat \<Rightarrow> (send_exit \<times> session) option \<Rightarrow> bool" where
  "send_end s ptr len remaining R \<longleftrightarrow> (\<exists>x s' bs k. R = Some (x, s') \<and> k \<le> len
     \<and> moved s s' bs (take k (drop ptr (outBuffer (conn s)))) \<and> send_exit_ok s ptr len remaining k s' x)"

lemma send_endI:
  "R = Some (x, s') \<Longrightarrow> k \<le> len \<Longrightarrow> moved s s' bs (take k (drop ptr (outBuffer (conn s))))
    \<Longrightarrow> send_exit_ok s ptr len remaining k s' x \<Longrightarrow> send_end s ptr len remaining R"
  unfolding send_end_def by blast

lemma send_end_step:
  assumes m: "moved s s1 bs (take k (drop ptr (outBuffer (conn s))))" "same_link s s1" and k: "k \<le> len"
    and e: "send_end s1 (ptr + k) (len - k) (remaining - k) R"
  shows "send_end s ptr len remaining R"
proof -
  have o: "outBuffer (conn s1) = outBuffer (conn s)" "nonblocking (conn s1) = nonblocking (conn s)" using m(1) by (simp_all add: moved_def)
  obtain x s2 bs2 k2 where r: "R = Some (x, s2)" "k2 \<le> len - k" "moved s1 s2 bs2 (take k2 (drop (ptr + k) (outBuffer (conn s))))"
    "send_exit_ok s1 (ptr + k) (len - k) (remaining - k) k2 s2 x"
    using e unfolding send_end_def o by blast
  have t: "take k (drop ptr (outBuffer (conn s))) @ take k2 (drop (ptr + k) (outBuffer (conn s)))
      = take (k + k2) (drop ptr (outBuffer (conn s)))"
    by (simp add: take_add add.commute)
  have "send_exit_ok s ptr len remaining (k + k2) s2 x"
    using r(2,4) k o(2) same_link_trans [OF m(2), of s2] by (cases x) auto
  then show ?thesis using moved_trans [OF m(1) r(3)] r(1,2) k unfolding t by (intro send_endI [of R x s2 "k + k2"]) auto
qed


text \<open>The part of a round behind the call of \<open>pqsecure_write\<close>.\<close>

definition after_send :: "formatter \<Rightarrow> nat \<Rightarrow> nat \<Rightarrow> nat \<Rightarrow> session \<Rightarrow> (send_exit \<times> session) option" where
  "after_send vsn ptr len remaining s =
    (if len > 0 then do {
       (r, s) \<leftarrow> pqReadData vsn s;
       if r < 0 then Some (Behind_loop (-1) ptr remaining, s)
       else if nonblocking (conn s) then Some (Behind_loop 1 ptr remaining, s)
       else do {
         (ok, s) \<leftarrow> pqWait vsn True True s;
         if \<not> ok then Some (Behind_loop (-1) ptr remaining, s) else send_loop vsn ptr len remaining s } }
     else send_loop vsn ptr len remaining s)"

lemma send_loop_unfold:
  assumes "0 < len" "pqsecure_write vsn ptr (min len 65536) s = Some (x, s1)"
  shows "send_loop vsn ptr len remaining s =
    (case x of
       Inl e \<Rightarrow> if e = EINTR then send_loop vsn ptr len remaining s1
         else if e = EAGAIN then after_send vsn ptr len remaining s1
         else Some (Return_now (-1), s1\<lparr>conn := (conn s1)\<lparr>outCount := 0\<rparr>\<rparr>)
     | Inr k \<Rightarrow> after_send vsn (ptr + k) (len - k) (remaining - k) s1)"
proof (cases x)
  case (Inl e)
  then show ?thesis
    unfolding after_send_def send_loop.simps [of vsn ptr len remaining s] assms(2) bind.bind_lunit prod.case Inl Let_def
      sum.case add_0_right diff_zero
    using assms(1) by simp
next
  case (Inr k)
  then show ?thesis unfolding after_send_def send_loop.simps [of vsn ptr len remaining s] assms(2) bind.bind_lunit prod.case
    using assms(1) by simp
qed

lemma after_send_result:
  assumes inv: "conn_inv (conn s)" and fmt: "formatter_ok vsn" and fair: "fair_net s"
    and loop: "\<And>s' bs. moved s s' bs [] \<Longrightarrow> same_link s s' \<Longrightarrow> same_sends s s'
      \<Longrightarrow> send_end s' ptr len remaining (send_loop vsn ptr len remaining s')"
  shows "send_end s ptr len remaining (after_send vsn ptr len remaining s)"
proof (cases "len > 0")
  case False
  then show ?thesis using loop [OF moved_refl [OF inv] same_refl] by (simp add: after_send_def)
next
  case True
  have f: "fair (recvs (net s))" "fair (selects (net s))" using fair by (simp_all add: fair_net_def)
  obtain r s1 bs where r: "pqReadData vsn s = Some (r, s1)" "moved s s1 bs []"
    "r = (if bs = [] then 0 else 1) \<and> same_link s s1 \<and> same_sends s s1 \<or> r = -1"
    using pqReadData_result [OF inv fmt f] unfolding read_result_def by blast
  note m1 = r(2) [folded take_0 [of "drop ptr (outBuffer (conn s))"]]
  have nb: "nonblocking (conn s1) = nonblocking (conn s)" using r(2) by (simp add: moved_def)
  show ?thesis
  proof (cases "r < 0")
    case neg: True
    show ?thesis
      by (rule send_endI [where x = "Behind_loop (-1) ptr remaining", OF _ _ m1]) (use True neg r(1) in \<open>simp_all add: after_send_def\<close>)
  next
    case False
    then have l: "same_link s s1" "same_sends s s1" using r(3) by auto
    show ?thesis
    proof (cases "nonblocking (conn s)")
      case nbT: True
      show ?thesis
        by (rule send_endI [where x = "Behind_loop 1 ptr remaining", OF _ _ m1]) (use True False nbT nb r(1) l in \<open>simp_all add: after_send_def\<close>)
    next
      case nbF: False
      obtain ok s2 where w: "pqWait vsn True True s1 = Some (ok, s2)" "moved s1 s2 [] []" "same_link s1 s2" "same_sends s1 s2"
        using wait_result [OF moved_inv [OF r(2)] fmt moved_fair(2) [OF r(2) f(2)]] unfolding pqWait_def quiet_def by blast
      have m2: "moved s s2 bs []" "same_link s s2" "same_sends s s2"
        using moved_trans [OF r(2) w(2)] same_link_trans [OF l(1) w(3)] same_sends_trans [OF l(2) w(4)] by simp_all
      note m2' = m2(1) [folded take_0 [of "drop ptr (outBuffer (conn s))"]]
      show ?thesis
      proof (cases ok)
        case okT: True
        have "after_send vsn ptr len remaining s = send_loop vsn ptr len remaining s2"
          using True False nbF nb r(1) w(1) okT by (simp add: after_send_def)
        then show ?thesis using send_end_step [OF m2' m2(2), of len remaining] loop [OF m2] by simp
      next
        case okF: False
        show ?thesis
          by (rule send_endI [where x = "Behind_loop (-1) ptr remaining", OF _ _ m2']) (use True False nbF nb r(1) w(1) okF in \<open>simp_all add: after_send_def\<close>)
      qed
    qed
  qed
qed

text \<open>One round of the loop, when the rounds that follow are known to end.\<close>

definition can_send :: "formatter \<Rightarrow> nat \<Rightarrow> nat \<Rightarrow> session \<Rightarrow> bool" where
  "can_send vsn ptr len s \<longleftrightarrow> conn_inv (conn s) \<and> fair_net s \<and> ptr + len \<le> length (outBuffer (conn s))"

lemma can_send_moved: "moved s s' bs out \<Longrightarrow> can_send vsn ptr len s \<Longrightarrow> ptr + len \<le> ptr' + len' \<Longrightarrow> ptr' + len' \<le> ptr + len \<Longrightarrow> can_send vsn ptr' len' s'"
  using moved_fair_net [of s s' bs out] by (simp add: can_send_def moved_def)

lemma send_loop_step:
  assumes c: "can_send vsn ptr len s" and fmt: "formatter_ok vsn"
    and smaller: "\<And>s' p l r. l < len \<Longrightarrow> can_send vsn p l s' \<Longrightarrow> send_end s' p l r (send_loop vsn p l r s')"
    and again: "\<And>s' r. \<not> progress (sends (net s) 0) \<Longrightarrow> sends (net s') = tail (sends (net s)) \<Longrightarrow> can_send vsn ptr len s'
      \<Longrightarrow> send_end s' ptr len r (send_loop vsn ptr len r s')"
  shows "send_end s ptr len remaining (send_loop vsn ptr len remaining s)"
proof (cases "len = 0")
  case True
  have inv: "conn_inv (conn s)" using c by (simp add: can_send_def)
  show ?thesis
    by (rule send_endI [where x = "Behind_loop 0 ptr remaining", OF _ _ moved_refl [OF inv, folded take_0 [of "drop ptr (outBuffer (conn s))"]]])
      (use True in \<open>simp_all add: send_loop.simps [of vsn ptr 0]\<close>)
next
  case False
  then have pos: "0 < len" by simp
  have cs: "conn_inv (conn s)" "ptr + min len 65536 \<le> length (outBuffer (conn s))" using c by (auto simp: can_send_def)
  obtain x s1 where r: "pqsecure_write vsn ptr (min len 65536) s = Some (x, s1)" "same_link s s1" "sends (net s1) = tail (sends (net s))"
    and x: "case x of Inl e \<Rightarrow> sends (net s) 0 = Inl e \<and> moved s s1 [] []
       | Inr k \<Rightarrow> k \<le> min len 65536 \<and> (0 < min len 65536 \<and> progress (sends (net s) 0) \<longrightarrow> 0 < k)
           \<and> moved s s1 [] (take k (drop ptr (outBuffer (conn s))))"
    using raw_write_result [OF cs(1) fmt cs(2)] by blast
  note loop = send_loop_unfold [OF pos r(1), of remaining]
  have after: "send_end s1 (ptr + k) (len - k) (remaining - k) (after_send vsn (ptr + k) (len - k) (remaining - k) s1)"
    if k: "k \<le> len" "moved s s1 [] out" "k = 0 \<longrightarrow> \<not> progress (sends (net s) 0)" for k out
  proof (rule after_send_result [OF moved_inv [OF k(2)] fmt moved_fair_net [OF k(2)]])
    show "fair_net s" using c by (simp add: can_send_def)
    fix s2 bs assume m: "moved s1 s2 bs []" "same_sends s1 s2"
    have c2: "can_send vsn (ptr + k) (len - k) s2" using can_send_moved [OF moved_trans [OF k(2) m(1)] c] k(1) by simp
    show "send_end s2 (ptr + k) (len - k) (remaining - k) (send_loop vsn (ptr + k) (len - k) (remaining - k) s2)"
    proof (cases "k = 0")
      case True
      then show ?thesis using again [of s2 remaining] k(3) m(2) r(3) c2 by (simp add: same_sends_def)
    next
      case False
      then show ?thesis using smaller [OF _ c2] k(1) pos by simp
    qed
  qed
  show ?thesis
  proof (cases x)
    case (Inl e)
    then have m: "sends (net s) 0 = Inl e" "moved s s1 [] []" using x by simp_all
    note m' = m(2) [folded take_0 [of "drop ptr (outBuffer (conn s))"]]
    consider "e = EINTR" | "e = EAGAIN" | "e \<noteq> EINTR" "e \<noteq> EAGAIN" by blast
    then show ?thesis
    proof cases
      case 1
      have "send_end s1 ptr len remaining (send_loop vsn ptr len remaining s1)"
        using m(1) 1 r(3) can_send_moved [OF m(2) c] by (intro again) (simp_all add: progress_def)
      then show ?thesis using send_end_step [OF m' r(2), of len remaining] Inl 1 by (simp add: loop)
    next
      case 2
      then show ?thesis using send_end_step [OF m' r(2), of len remaining] Inl after [of 0, OF _ m(2)] m(1)
        by (simp add: loop progress_def)
    next
      case 3
      have "moved s (s1\<lparr>conn := (conn s1)\<lparr>outCount := 0\<rparr>\<rparr>) [] (take 0 (drop ptr (outBuffer (conn s))))"
        using m(2) by (auto simp: moved_def conn_inv_def in_data_def)
      then show ?thesis by (rule send_endI [rotated 2]) (use 3 Inl pos in \<open>simp_all add: loop\<close>)
    qed
  next
    case (Inr k)
    then have m: "k \<le> len" "progress (sends (net s) 0) \<longrightarrow> 0 < k" "moved s s1 [] (take k (drop ptr (outBuffer (conn s))))"
      using x pos by auto
    have "send_end s1 (ptr + k) (len - k) (remaining - k) (after_send vsn (ptr + k) (len - k) (remaining - k) s1)"
      using after [OF m(1,3)] m(2) by auto
    then show ?thesis using send_end_step [OF m(3) r(2) m(1)] Inr by (simp add: loop)
  qed
qed


lemma send_loop_room:
  assumes fmt: "formatter_ok vsn"
    and smaller: "\<And>s' p l r. l < len \<Longrightarrow> can_send vsn p l s' \<Longrightarrow> send_end s' p l r (send_loop vsn p l r s')"
  shows "progress (sends (net s) j) \<Longrightarrow> can_send vsn ptr len s \<Longrightarrow> send_end s ptr len remaining (send_loop vsn ptr len remaining s)"
proof (induction j arbitrary: s remaining)
  case 0
  show ?case by (rule send_loop_step [OF 0(2) fmt smaller]) (use 0(1) in auto)
next
  case (Suc j)
  show ?case
    by (rule send_loop_step [OF Suc.prems(2) fmt smaller]) (use Suc.prems(1) in \<open>auto intro!: Suc.IH simp: tail_def\<close>)
qed

lemma send_loop_result:
  assumes fmt: "formatter_ok vsn"
  shows "can_send vsn ptr len s \<Longrightarrow> send_end s ptr len remaining (send_loop vsn ptr len remaining s)"
proof (induction len arbitrary: ptr s remaining rule: less_induct)
  case (less len)
  have "fair_send (sends (net s))" using less.prems by (simp add: can_send_def fair_net_def)
  then obtain j where j: "progress (sends (net s) j)" unfolding fair_send_def by (metis add_0)
  show ?case by (rule send_loop_room [OF fmt less.IH j less.prems])
qed

lemma shift_out_result:
  assumes inv: "conn_inv (conn s)" and b: "ptr + remaining \<le> length (outBuffer (conn s))"
  shows "\<exists>s'. shift_out ptr remaining s = Some s' \<and> conn_inv (conn s') \<and> out_data (conn s') = take remaining (drop ptr (outBuffer (conn s)))
    \<and> net s' = net s \<and> in_data (conn s') = in_data (conn s) \<and> inCursor (conn s') - inStart (conn s') = inCursor (conn s) - inStart (conn s)
    \<and> sock (conn s') = sock (conn s) \<and> status (conn s') = status (conn s) \<and> pversion (conn s') = pversion (conn s)"
proof -
  define new where "new = take remaining (drop ptr (outBuffer (conn s)))"
  have l: "length new = remaining" using b by (simp add: new_def)
  define buf where "buf = new @ drop remaining (outBuffer (conn s))"
  have lb: "length buf = length (outBuffer (conn s))" using b by (simp add: buf_def l)
  have "shift_out ptr remaining s = Some (s\<lparr>conn := (conn s)\<lparr>outBuffer := buf, outCount := remaining\<rparr>\<rparr>)"
    using b l by (cases "remaining = 0") (simp_all add: shift_out_def blit_def buf_def new_def [symmetric])
  moreover have "take remaining buf = new" using l by (simp add: buf_def)
  moreover have "conn_inv ((conn s)\<lparr>outBuffer := buf, outCount := remaining\<rparr>)" using inv b lb by (simp add: conn_inv_def)
  ultimately show ?thesis by (simp add: out_data_def in_data_def new_def)
qed

text \<open>What a caller may rely on: the network accepted the first \<open>k\<close> waiting bytes.\<close>

definition sent_some :: "session \<Rightarrow> nat \<Rightarrow> int \<Rightarrow> session \<Rightarrow> bool" where
  "sent_some s len r s' \<longleftrightarrow> conn_inv (conn s') \<and> fair_net s' \<and> pversion (conn s') = pversion (conn s)
     \<and> (\<exists>bs. in_data (conn s') = in_data (conn s) @ bs \<and> incoming (net s) = bs @ incoming (net s'))
     \<and> inCursor (conn s') - inStart (conn s') = inCursor (conn s) - inStart (conn s)
     \<and> (\<exists>k \<le> len. wire (net s') = wire (net s) @ take k (out_data (conn s))
         \<and> (r = 0 \<and> k = len \<and> out_data (conn s') = drop k (out_data (conn s))
            \<or> r = 1 \<and> k < len \<and> nonblocking (conn s) \<and> out_data (conn s') = drop k (out_data (conn s))
            \<or> r = -1 \<and> out_data (conn s') \<in> {drop k (out_data (conn s)), []}))
     \<and> (0 \<le> r \<longrightarrow> sock (conn s') = sock (conn s) \<and> status (conn s') = status (conn s))"


lemma moved_sent:
  assumes m: "moved s s1 bs (take k (drop 0 (outBuffer (conn s))))" and f: "fair_net s" and k: "k \<le> len" "len \<le> outCount (conn s)"
    and c: "conn_inv (conn s')" "in_data (conn s') = in_data (conn s1)" "net s' = net s1" "pversion (conn s') = pversion (conn s1)"
      "inCursor (conn s') - inStart (conn s') = inCursor (conn s1) - inStart (conn s1)"
    and r: "r = 0 \<and> k = len \<and> out_data (conn s') = drop k (out_data (conn s))
            \<or> r = 1 \<and> k < len \<and> nonblocking (conn s) \<and> out_data (conn s') = drop k (out_data (conn s))
            \<or> r = -1 \<and> out_data (conn s') \<in> {drop k (out_data (conn s)), []}"
      "0 \<le> r \<Longrightarrow> sock (conn s') = sock (conn s) \<and> status (conn s') = status (conn s)"
  shows "sent_some s len r s'"
proof -
  have w: "take k (outBuffer (conn s)) = take k (out_data (conn s))" using k by (simp add: out_data_def)
  have "fair_net s'" using moved_fair_net [OF m f] c(3) by (simp add: fair_net_def)
  moreover have "wire (net s') = wire (net s) @ take k (out_data (conn s))" using m c(3) w by (simp add: moved_def)
  moreover have "pversion (conn s') = pversion (conn s)" "inCursor (conn s') - inStart (conn s') = inCursor (conn s) - inStart (conn s)"
    "in_data (conn s') = in_data (conn s) @ bs" "incoming (net s) = bs @ incoming (net s')"
    using m c(2-5) by (simp_all add: moved_def)
  ultimately show ?thesis unfolding sent_some_def using c(1) k(1) r by blast
qed

lemma pqSendSome_result:
  assumes inv: "conn_inv (conn s)" and fmt: "formatter_ok vsn" and fair: "fair_net s" and len: "len \<le> outCount (conn s)"
  shows "\<exists>r s'. pqSendSome vsn len s = Some (r, s') \<and> sent_some s len r s'"
proof (cases "sock (conn s) = PGINVALID_SOCKET")
  case True
  obtain s1 where q: "report vsn ''connection not open'' s = Some s1" "moved s s1 [] []"
    using report_result [OF inv fmt] by blast
  let ?s = "s1\<lparr>conn := (conn s1)\<lparr>outCount := 0\<rparr>\<rparr>"
  have c: "conn_inv (conn ?s)" "in_data (conn ?s) = in_data (conn s1)" "net ?s = net s1" "out_data (conn ?s) = []"
    using moved_inv [OF q(2)] by (simp_all add: conn_inv_def in_data_def out_data_def)
  have "pqSendSome vsn len s = Some (-1, ?s)" using True q(1) by (simp add: pqSendSome_def)
  moreover have "sent_some s len (-1) ?s"
    by (rule moved_sent [where k = 0, OF _ fair _ len c(1-3)]) (use q(2) c(4) in auto)
  ultimately show ?thesis by blast
next
  case False
  have oc: "outCount (conn s) \<le> length (outBuffer (conn s))" using inv by (simp add: conn_inv_def)
  have "can_send vsn 0 len s" using inv fair len oc by (simp add: can_send_def)
  from send_loop_result [OF fmt this, of "outCount (conn s)"]
  obtain x s1 bs k where x: "send_loop vsn 0 len (outCount (conn s)) s = Some (x, s1)" "k \<le> len"
    "moved s s1 bs (take k (drop 0 (outBuffer (conn s))))" "send_exit_ok s 0 len (outCount (conn s)) k s1 x"
    unfolding send_end_def by blast
  note i1 = moved_inv [OF x(3)]
  note body = pqSendSome_def [of vsn len s, unfolded x(1) bind.bind_lunit prod.case]
  have ob: "outBuffer (conn s1) = outBuffer (conn s)" using x(3) by (simp add: moved_def)
  show ?thesis
  proof (cases x)
    case (Return_now r)
    then have "r = -1" "out_data (conn s1) = []" using x(4) by (simp_all add: out_data_def)
    then have "sent_some s len r s1" by (intro moved_sent [OF x(3) fair x(2) len i1 refl refl refl refl]) auto
    then show ?thesis using False Return_now by (simp add: body)
  next
    case (Behind_loop r p rem)
    have p: "p = k" "rem = outCount (conn s) - k" using x(4) Behind_loop by simp_all
    have b: "p + rem \<le> length (outBuffer (conn s1))" using p oc ob x(2) len by simp
    obtain s2 where s2: "shift_out p rem s1 = Some s2" "conn_inv (conn s2)"
      "out_data (conn s2) = take rem (drop p (outBuffer (conn s1)))" "net s2 = net s1" "in_data (conn s2) = in_data (conn s1)"
      "inCursor (conn s2) - inStart (conn s2) = inCursor (conn s1) - inStart (conn s1)"
      "sock (conn s2) = sock (conn s1)" "status (conn s2) = status (conn s1)" "pversion (conn s2) = pversion (conn s1)"
      using shift_out_result [OF i1 b] by blast
    have o: "out_data (conn s2) = drop k (out_data (conn s))"
      using s2(3) p ob by (simp add: out_data_def drop_take)
    have "sent_some s len r s2"
      by (rule moved_sent [OF x(3) fair x(2) len s2(2,5,4,9,6)])
        (use x(4) Behind_loop s2(7,8) o in \<open>auto simp: same_link_def\<close>)
    then show ?thesis using False Behind_loop s2(1) by (simp add: body)
  qed
qed


section \<open>Packets and polling\<close>

definition pqPacketSend :: "formatter \<Rightarrow> byte \<Rightarrow> byte list \<Rightarrow> session \<Rightarrow> (bool \<times> session) option" where
  "pqPacketSend vsn pack_type buf s = do {
     (ok, c, h) \<leftarrow> pqPutMsgStart vsn pack_type True (conn s) (mem s);
     let s = s\<lparr>conn := c, mem := h\<rparr>;
     if \<not> ok then Some (False, s)
     else do {
       (ok, c, h) \<leftarrow> pqPutnchar vsn buf (conn s) (mem s);
       let s = s\<lparr>conn := c, mem := h\<rparr>;
       if \<not> ok then Some (False, s)
       else do {
         (ok, s) \<leftarrow> pqPutMsgEnd vsn s;
         if \<not> ok then Some (False, s)
         else do {
           (r, s) \<leftarrow> pqFlush vsn s;
           Some (r = 0, s) } } } }"

definition PQconsumeInput :: "formatter \<Rightarrow> session \<Rightarrow> (int \<times> session) option" where
  "PQconsumeInput vsn s = do {
     (r, s) \<leftarrow> (if nonblocking (conn s) then pqFlush vsn s else Some (0, s));
     if r < 0 then Some (0, s)
     else do {
       (r, s) \<leftarrow> pqReadData vsn s;
       Some (if r < 0 then 0 else 1, s) } }"

text \<open>\<open>P\<close> was waiting to be sent; some of it has been sent, and after a success the rest still waits.\<close>

definition drains :: "session \<Rightarrow> byte list \<Rightarrow> bool \<Rightarrow> session \<Rightarrow> bool" where
  "drains s P ok s' \<longleftrightarrow> conn_inv (conn s') \<and> fair_net s'
     \<and> (\<exists>bs. in_data (conn s') = in_data (conn s) @ bs \<and> incoming (net s) = bs @ incoming (net s'))
     \<and> (\<exists>k. wire (net s') = wire (net s) @ take k P \<and> (ok \<longrightarrow> out_data (conn s') = drop k P))"

lemma sent_drains: "sent_some s len r s' \<Longrightarrow> drains s (out_data (conn s)) (0 \<le> r) s'"
  unfolding sent_some_def drains_def by (elim conjE exE) auto

lemma drains_trans:
  assumes "drains s P True s1" "drains s1 (out_data (conn s1)) ok s2"
  shows "drains s P ok s2"
proof -
  obtain k bs where a: "wire (net s1) = wire (net s) @ take k P" "out_data (conn s1) = drop k P"
    "in_data (conn s1) = in_data (conn s) @ bs" "incoming (net s) = bs @ incoming (net s1)"
    using assms(1) unfolding drains_def by blast
  obtain k2 bs2 where b: "conn_inv (conn s2)" "fair_net s2" "wire (net s2) = wire (net s1) @ take k2 (drop k P)"
    "ok \<longrightarrow> out_data (conn s2) = drop k2 (drop k P)" "in_data (conn s2) = in_data (conn s1) @ bs2"
    "incoming (net s1) = bs2 @ incoming (net s2)"
    using assms(2) unfolding drains_def a(2) by blast
  have "wire (net s2) = wire (net s) @ take (k + k2) P" "ok \<longrightarrow> out_data (conn s2) = drop (k + k2) P"
    using a(1) b(3) by (simp add: take_add) (use b(4) in \<open>simp add: add.commute\<close>)
  then show ?thesis unfolding drains_def using a b by (metis append.assoc)
qed

lemma drains_refl: "conn_inv (conn s) \<Longrightarrow> fair_net s \<Longrightarrow> drains s (out_data (conn s)) ok s"
  unfolding drains_def by (intro conjI exI [of _ "[]"] exI [of _ 0]) simp_all

lemma outCount_length: "conn_inv (conn s) \<Longrightarrow> length (out_data (conn s)) = outCount (conn s)"
  by (simp add: conn_inv_def out_data_def)

lemma pqFlush_result:
  assumes inv: "conn_inv (conn s)" and fmt: "formatter_ok vsn" and fair: "fair_net s"
  shows "\<exists>r s'. pqFlush vsn s = Some (r, s') \<and> drains s (out_data (conn s)) (0 \<le> r) s' \<and> (r = 0 \<longrightarrow> out_data (conn s') = [])
    \<and> (nonblocking (conn s) \<or> r = 0 \<or> r = -1)"
proof (cases "outCount (conn s) > 0")
  case True
  obtain r s' where r: "pqSendSome vsn (outCount (conn s)) s = Some (r, s')" "sent_some s (outCount (conn s)) r s'"
    using pqSendSome_result [OF inv fmt fair order_refl] by blast
  have "r = 0 \<longrightarrow> out_data (conn s') = []" "nonblocking (conn s) \<or> r = 0 \<or> r = -1"
    using r(2) outCount_length [OF inv] unfolding sent_some_def by auto
  then show ?thesis using True r(1) sent_drains [OF r(2)] by (simp add: pqFlush_def)
next
  case False
  then show ?thesis using drains_refl [OF inv fair] by (simp add: pqFlush_def out_data_def)
qed

lemma pqPutMsgEnd_result:
  assumes inv: "conn_inv (conn s)" and fmt: "formatter_ok vsn" and fair: "fair_net s" and b: "building (conn s) out ty L body"
  shows "\<exists>ok s'. pqPutMsgEnd vsn s = Some (ok, s') \<and> drains s (out @ ty @ (if L then htonl (4 + length body) else []) @ body) ok s'"
proof -
  let ?P = "out @ ty @ (if L then htonl (4 + length body) else []) @ body"
  obtain buf where f: "finish_msg (conn s) = Some ((conn s)\<lparr>outBuffer := buf, outCount := outMsgEnd (conn s)\<rparr>)"
    "conn_inv ((conn s)\<lparr>outBuffer := buf, outCount := outMsgEnd (conn s)\<rparr>)" "take (outMsgEnd (conn s)) buf = ?P"
    using finish_msg_result [OF inv b] by blast
  let ?s = "s\<lparr>conn := (conn s)\<lparr>outBuffer := buf, outCount := outMsgEnd (conn s)\<rparr>\<rparr>"
  have o: "out_data (conn ?s) = ?P" using f(3) by (simp add: out_data_def)
  have i: "conn_inv (conn ?s)" "fair_net ?s" using f(2) fair by (simp_all add: fair_net_def)
  have d: "drains s ?P ok s' \<longleftrightarrow> drains ?s (out_data (conn ?s)) ok s'" for ok s'
    unfolding o by (simp add: drains_def in_data_def)
  note body = pqPutMsgEnd_def [of vsn s, unfolded f(1) bind.bind_lunit Let_def]
  show ?thesis
  proof (cases "outCount (conn ?s) \<ge> 8192")
    case True
    have le: "outCount (conn ?s) - outCount (conn ?s) mod 8192 \<le> outCount (conn ?s)" by (rule diff_le_self)
    obtain r s' where r: "pqSendSome vsn (outCount (conn ?s) - outCount (conn ?s) mod 8192) ?s = Some (r, s')"
      "sent_some ?s (outCount (conn ?s) - outCount (conn ?s) mod 8192) r s'"
      using pqSendSome_result [OF i(1) fmt i(2) le] by blast
    then have "pqPutMsgEnd vsn s = Some (r \<ge> 0, s')" using True by (simp add: body)
    then show ?thesis using sent_drains [OF r(2)] unfolding d by blast
  next
    case False
    then have "pqPutMsgEnd vsn s = Some (True, ?s)" by (simp add: body)
    then show ?thesis using drains_refl [OF i] unfolding d by blast
  qed
qed


lemma packet_result:
  assumes inv: "conn_inv (conn s)" and fmt: "formatter_ok vsn" and fair: "fair_net s"
    and room: "outCount (conn s) + 5 + length bs + 8192 \<le> INT_MAX"
  shows "\<exists>ok s'. pqPacketSend vsn ty bs s = Some (ok, s')
    \<and> drains s (out_data (conn s) @ wire_message ty True [FBytes bs]) ok s' \<and> (ok \<longrightarrow> out_data (conn s') = [])"
proof -
  let ?ty = "if ty \<noteq> 0 then [ty] else []"
  let ?P = "out_data (conn s) @ wire_message ty True [FBytes bs]"
  have od: "length (out_data (conn s)) = outCount (conn s)" by (rule outCount_length [OF inv])
  have unsent: "drains s ?P False (s\<lparr>conn := c, mem := h\<rparr>)" if "conn_inv c" "only_out (conn s) c" for c h
    using that fair unfolding drains_def
    by (intro conjI exI [of _ "[]"] exI [of _ 0]) (simp_all add: fair_net_def in_data_def only_out_def)
  obtain ok c1 h1 where p: "pqPutMsgStart vsn ty True (conn s) (mem s) = Some (ok, c1, h1)" "conn_inv c1" "only_out (conn s) c1"
    "ok \<Longrightarrow> building c1 (out_data (conn s)) ?ty True []"
    using put_start_result [OF inv fmt refl, of "mem s" ty True] unfolding put_ok_def by auto
  show ?thesis
  proof (cases ok)
    case False
    then show ?thesis using p(1) unsent [OF p(2,3)] by (auto simp: pqPacketSend_def)
  next
    case True
    have small: "length (out_data (conn s)) + length ?ty + 4 + length ([] :: byte list) + length bs < 2 ^ 32"
      using room od by (simp add: INT_MAX_eq)
    obtain ok2 c2 h2 where q: "pqPutMsgBytes vsn bs c1 h1 = Some (ok2, c2, h2)" "conn_inv c2" "only_out c1 c2"
      "ok2 \<Longrightarrow> building c2 (out_data (conn s)) ?ty True bs"
      using msg_bytes_result [OF p(2) fmt p(4) [OF True] small, of h1] unfolding put_ok_def by auto
    note oo = only_out_trans [OF p(3) q(3)]
    show ?thesis
    proof (cases ok2)
      case False
      then show ?thesis using True p(1) q(1) unsent [OF q(2) oo] by (auto simp: pqPacketSend_def pqPutnchar_def)
    next
      case ok2: True
      let ?s = "s\<lparr>conn := c2, mem := h2\<rparr>"
      have i: "conn_inv (conn ?s)" "fair_net ?s" "building (conn ?s) (out_data (conn s)) ?ty True bs"
        using q(2) q(4) [OF ok2] fair by (simp_all add: fair_net_def)
      have P: "out_data (conn s) @ ?ty @ (if True then htonl (4 + length bs) else []) @ bs = ?P" by (simp add: wire_message_def)
      obtain ok3 s3 where e: "pqPutMsgEnd vsn ?s = Some (ok3, s3)" "drains ?s ?P ok3 s3"
        using pqPutMsgEnd_result [OF i(1) fmt i(2,3)] unfolding P by blast
      have d3: "drains s ?P ok3 s3" using e(2) oo by (simp add: drains_def in_data_def only_out_def)
      show ?thesis
      proof (cases ok3)
        case False
        then show ?thesis using True ok2 p(1) q(1) e(1) d3 by (auto simp: pqPacketSend_def pqPutnchar_def)
      next
        case ok3: True
        have i3: "conn_inv (conn s3)" "fair_net s3" using d3 by (simp_all add: drains_def)
        obtain r s4 where f: "pqFlush vsn s3 = Some (r, s4)" "drains s3 (out_data (conn s3)) (0 \<le> r) s4" "r = 0 \<longrightarrow> out_data (conn s4) = []"
          using pqFlush_result [OF i3(1) fmt i3(2)] by blast
        have weaken: "drains s ?P (0 \<le> r) s4 \<Longrightarrow> drains s ?P (r = 0) s4" by (auto simp: drains_def)
        show ?thesis using True ok2 ok3 p(1) q(1) e(1) f(1,3) weaken [OF drains_trans [OF d3[unfolded eqTrueI [OF ok3]] f(2)]]
          by (simp add: pqPacketSend_def pqPutnchar_def)
      qed
    qed
  qed
qed

text \<open>
  C2: \<open>pqSendSome\<close> returns for every allocator and every network that does not interrupt or block its
  calls for ever. The kernel gets the first \<open>k\<close> of the bytes asked for, in order and once each, and
  exactly the rest stays in the output buffer: with result 0 all of them were sent, result 1 is only
  given on a non-blocking connection, and after -1 the rest is kept or thrown away. What it reads
  meanwhile is added to the input, and nothing of the input is lost.
\<close>

theorem pqSendSome_conserves:
  assumes "conn_inv (conn s)" "formatter_ok vsn" "fair_net s" "len \<le> outCount (conn s)"
  shows "\<exists>r s' k bs. pqSendSome vsn len s = Some (r, s') \<and> conn_inv (conn s') \<and> k \<le> len
    \<and> wire (net s') = wire (net s) @ take k (out_data (conn s))
    \<and> (r = 0 \<and> k = len \<and> out_data (conn s') = drop k (out_data (conn s))
       \<or> r = 1 \<and> k < len \<and> nonblocking (conn s) \<and> out_data (conn s') = drop k (out_data (conn s))
       \<or> r = -1 \<and> out_data (conn s') \<in> {drop k (out_data (conn s)), []})
    \<and> in_data (conn s') = in_data (conn s) @ bs \<and> incoming (net s) = bs @ incoming (net s')"
proof -
  obtain r s' where r: "pqSendSome vsn len s = Some (r, s')" "sent_some s len r s'"
    using pqSendSome_result [OF assms] by blast
  show ?thesis using r(1) r(2)[unfolded sent_some_def] by blast
qed

text \<open>
  C14: \<open>pqPacketSend\<close> returns on every such network, and when it reports success the kernel has taken
  everything that was waiting before, followed by the type, the length and the body of the packet,
  each byte once and in order, and nothing is left to send. Whatever it reports, the bytes on the
  wire are a prefix of these.
\<close>

theorem pqPacketSend_delivers:
  assumes "conn_inv (conn s)" "formatter_ok vsn" "fair_net s" "outCount (conn s) + 5 + length bs + 8192 \<le> INT_MAX"
  shows "\<exists>ok s' k. pqPacketSend vsn ty bs s = Some (ok, s') \<and> conn_inv (conn s')
    \<and> wire (net s') = wire (net s) @ take k (out_data (conn s) @ (if ty \<noteq> 0 then [ty] else []) @ htonl (4 + length bs) @ bs)
    \<and> (ok \<longrightarrow> wire (net s') = wire (net s) @ out_data (conn s) @ (if ty \<noteq> 0 then [ty] else []) @ htonl (4 + length bs) @ bs
        \<and> out_data (conn s') = [])"
proof -
  let ?P = "out_data (conn s) @ (if ty \<noteq> 0 then [ty] else []) @ htonl (4 + length bs) @ bs"
  have P: "out_data (conn s) @ wire_message ty True [FBytes bs] = ?P" by (simp add: wire_message_def)
  obtain ok s' where r: "pqPacketSend vsn ty bs s = Some (ok, s')" "drains s ?P ok s'" "ok \<longrightarrow> out_data (conn s') = []"
    using packet_result [OF assms, of ty] unfolding P by blast
  then obtain k where k: "conn_inv (conn s')" "wire (net s') = wire (net s) @ take k ?P" "ok \<longrightarrow> out_data (conn s') = drop k ?P"
    unfolding drains_def by blast
  have "take k ?P = ?P" if ok
  proof (rule take_all)
    have "drop k ?P = []" using that k(3) r(3) by simp
    then show "length ?P \<le> k" by (simp only: drop_eq_Nil)
  qed
  then show ?thesis using r(1,3) k(1,2) by (intro exI [of _ ok] exI [of _ s'] exI [of _ k] conjI impI) auto
qed


section \<open>Examples\<close>

definition test_session :: session where
  "test_session = \<lparr>
     conn = test_conn\<lparr>outBuffer := [81, 82, 83, 0, 0, 0, 0, 0, 0, 0, 0, 0, 0, 0, 0, 0], outCount := 3\<rparr>,
     net = \<lparr>recvs = (\<lambda>i. Inr 4), sends = (\<lambda>i. Inr 2), selects = (\<lambda>i. Inr 1), clock = (\<lambda>i. 0),
       incoming = [90, 0, 0, 0, 5, 73], wire = [], closed = []\<rparr>,
     mem = \<lparr>answers = replicate 6 True, junk = \<lambda>i. 0\<rparr>\<rparr>"

lemma test_session_ok [simp]: "conn_inv (conn test_session)" "fair_net test_session" "outCount (conn test_session) = 3"
    "out_data (conn test_session) = [81, 82, 83]" "wire (net test_session) = []" "nonblocking (conn test_session) = False"
  by (simp_all add: test_session_def conn_inv_def test_conn_def two_bytes INT_MAX_eq fair_net_def fair_def fair_send_def
      progress_def out_data_def)

lemma test_session_fair [simp]: "fair (recvs (net test_session))" "fair (selects (net test_session))"
  using test_session_ok(2) by (simp_all add: fair_net_def)

theorem pqReadData_moves_input_witness:
  "\<exists>r s' bs. pqReadData plain_formatter test_session = Some (r, s') \<and> conn_inv (conn s')
    \<and> in_data (conn s') = in_data (conn test_session) @ bs \<and> [90, 0, 0, 0, 5, 73] = bs @ incoming (net s')"
proof -
  have i: "incoming (net test_session) = [90, 0, 0, 0, 5, 73]" by (simp add: test_session_def)
  show ?thesis
    using pqReadData_moves_input [OF test_session_ok(1) plain_formatter_ok test_session_fair] unfolding i by blast
qed

theorem pqSendSome_conserves_witness:
  "\<exists>r s' k. pqSendSome plain_formatter 3 test_session = Some (r, s') \<and> wire (net s') = take k [81, 82, 83]
    \<and> (r = 0 \<and> out_data (conn s') = [] \<or> r = -1)"
proof -
  have len: "3 \<le> outCount (conn test_session)" by simp
  obtain r s' k bs where r: "pqSendSome plain_formatter 3 test_session = Some (r, s')" "k \<le> 3"
    "wire (net s') = wire (net test_session) @ take k (out_data (conn test_session))"
    "r = 0 \<and> k = 3 \<and> out_data (conn s') = drop k (out_data (conn test_session))
       \<or> r = 1 \<and> k < 3 \<and> nonblocking (conn test_session) \<and> out_data (conn s') = drop k (out_data (conn test_session))
       \<or> r = -1 \<and> out_data (conn s') \<in> {drop k (out_data (conn test_session)), []}"
    using pqSendSome_conserves [OF test_session_ok(1) plain_formatter_ok test_session_ok(2) len] by blast
  have "r = 0 \<and> out_data (conn s') = [] \<or> r = -1" using r(4) by auto
  then show ?thesis using r(1,3) by (intro exI [of _ r] exI [of _ s'] exI [of _ k]) simp
qed

theorem pqPacketSend_delivers_witness:
  "\<exists>ok s' k. pqPacketSend plain_formatter 88 [1, 2] test_session = Some (ok, s')
    \<and> wire (net s') = take k [81, 82, 83, 88, 0, 0, 0, 6, 1, 2]"
proof -
  have room: "outCount (conn test_session) + 5 + length [1 :: byte, 2] + 8192 \<le> INT_MAX" by (simp add: INT_MAX_eq)
  have e: "out_data (conn test_session) @ (if (88 :: byte) \<noteq> 0 then [88] else []) @ htonl (4 + length [1 :: byte, 2]) @ [1, 2]
      = [81, 82, 83, 88, 0, 0, 0, 6, 1, 2]" by (simp add: htonl_def)
  show ?thesis
    using pqPacketSend_delivers [OF test_session_ok(1) plain_formatter_ok test_session_ok(2) room, of 88] unfolding e
    by (fastforce simp del: take_Suc_Cons)
qed

text \<open>A connection that is reset is dropped by \<open>pqReadData\<close>, if there is memory for the input.\<close>

lemma read_reset:
  assumes inv: "conn_inv (conn s)" and fmt: "formatter_ok vsn" and up: "sock (conn s) \<noteq> PGINVALID_SOCKET"
    and mem: "plenty 1 (mem s)" "inEnd (conn s) + 16384 \<le> INT_MAX" and r: "recvs (net s) 0 = Inl ECONNRESET"
  shows "\<exists>s'. pqReadData vsn s = Some (-1, s') \<and> moved s s' [] [] \<and> dropped s'"
proof -
  obtain c where c: "left_justify (conn s) = Some c" "in_kept (conn s) c" "inBufSize c = inBufSize (conn s)"
    "inEnd c \<le> inEnd (conn s)"
    using left_justify_result [OF inv] left_justify_kept [OF inv] by fastforce
  let ?s = "s\<lparr>conn := c\<rparr>"
  have m0: "moved s ?s [] []" "same_link s ?s" using in_kept_moved [OF c(2), of "mem s"] by simp_all
  have i0: "conn_inv (conn ?s)" using moved_inv [OF m0(1)] .
  have room: "\<exists>s1. make_room vsn ?s = Some (True, s1) \<and> moved ?s s1 [] [] \<and> recvs (net s1) = recvs (net s)"
  proof (cases "inBufSize c - inEnd c < 8192")
    case True
    have b: "inStart (conn ?s) \<le> inEnd c + 8192" "inEnd c + 8192 < 2 ^ 32"
      using i0 by (auto simp: conn_inv_def INT_MAX_eq)
    obtain ok c1 h where k: "pqCheckInBufferSpace vsn (inEnd c + 8192) (conn ?s) (mem ?s) = Some (ok, c1, h)" "in_kept (conn ?s) c1"
      "\<And>k. plenty (Suc k) (mem ?s) \<and> inEnd c + 8192 + 8192 \<le> INT_MAX \<Longrightarrow> ok"
      using check_in_result [OF i0 fmt b] by blast
    have ok: ok using k(3) [of 0] mem c(4) by simp
    have "make_room vsn ?s = Some (True, ?s\<lparr>conn := c1, mem := h\<rparr>)"
      using True b(2) k(1) ok by (simp add: make_room_def size_t_id)
    then show ?thesis using in_kept_moved(1) [OF k(2)] by (intro exI [of _ "?s\<lparr>conn := c1, mem := h\<rparr>"]) simp
  next
    case False
    then show ?thesis using moved_refl [OF i0] by (intro exI [of _ ?s]) (simp add: make_room_def)
  qed
  then obtain s1 where s1: "make_room vsn ?s = Some (True, s1)" "moved ?s s1 [] []" "recvs (net s1) = recvs (net s)" by blast
  have m1: "moved s s1 [] []" using moved_trans [OF m0(1) s1(2)] by simp
  let ?s2 = "s1\<lparr>net := (net s1)\<lparr>recvs := tail (recvs (net s1))\<rparr>\<rparr>"
  have m2: "moved s1 ?s2 [] []" "conn_inv (conn ?s2)" using moved_inv [OF m1] by (simp_all add: moved_def)
  obtain s3 where s3: "report vsn server_closed ?s2 = Some s3" "moved ?s2 s3 [] []" using report_result [OF m2(2) fmt] by blast
  have m3: "moved s s3 [] []" using moved_trans [OF moved_trans [OF m1 m2(1)] s3(2)] by simp
  have "read_loop vsn False s1 = Some (Definitely_failed, s3)"
    using r s1(3) s3(1) by (subst read_loop.simps) (simp add: pqsecure_read_def pqsecure_raw_read_def os_recv_def)
  then have e: "pqReadData vsn s = definitely_failed s3"
    using up c(1) s1(1) by (simp add: pqReadData_def)
  let ?t = "pqDropConnection False s3"
  have "definitely_failed s3 = Some (-1, ?t\<lparr>conn := (conn ?t)\<lparr>status := CONNECTION_BAD\<rparr>\<rparr>)" by (simp add: definitely_failed_def Let_def)
  moreover have "dropped (?t\<lparr>conn := (conn ?t)\<lparr>status := CONNECTION_BAD\<rparr>\<rparr>)" by (simp add: dropped_def pqDropConnection_def Let_def)
  moreover have "moved s (?t\<lparr>conn := (conn ?t)\<lparr>status := CONNECTION_BAD\<rparr>\<rparr>) [] []"
    using m3 by (auto simp: moved_def pqDropConnection_def Let_def conn_inv_def in_data_def)
  ultimately show ?thesis unfolding e by blast
qed

text \<open>
  C35: When the connection breaks while \<open>pqSendSome\<close> is reading, \<open>pqDropConnection\<close> discards the data
  that waits to be sent, but \<open>pqSendSome\<close> restores it from its own copy of the count: it fails and
  leaves a closed and bad connection on which all of that data still waits.
\<close>

theorem pqSendSome_restores_dropped_output:
  assumes inv: "conn_inv (conn s)" and fmt: "formatter_ok vsn" and up: "sock (conn s) \<noteq> PGINVALID_SOCKET"
    and mem: "plenty 1 (mem s)" "inEnd (conn s) + 16384 \<le> INT_MAX" and len: "0 < len" "len \<le> outCount (conn s)"
    and r: "sends (net s) 0 = Inl EAGAIN" "recvs (net s) 0 = Inl ECONNRESET"
  shows "\<exists>s'. pqSendSome vsn len s = Some (-1, s') \<and> sock (conn s') = PGINVALID_SOCKET \<and> status (conn s') = CONNECTION_BAD
    \<and> out_data (conn s') = out_data (conn s)"
proof -
  let ?s = "s\<lparr>net := (net s)\<lparr>sends := tail (sends (net s))\<rparr>\<rparr>"
  have oc: "outCount (conn s) \<le> length (outBuffer (conn s))" using inv by (simp add: conn_inv_def)
  have w: "pqsecure_write vsn 0 (min len 65536) s = Some (Inl EAGAIN, ?s)"
    using r(1) oc len by (simp add: pqsecure_write_def pqsecure_raw_write_def os_send_def)
  obtain s1 where s1: "pqReadData vsn ?s = Some (-1, s1)" "moved ?s s1 [] []" "dropped s1"
    using read_reset [of ?s vsn] inv fmt up mem r(2) by auto
  have ob: "outBuffer (conn s1) = outBuffer (conn s)" using s1(2) by (simp add: moved_def)
  have "send_loop vsn 0 len (outCount (conn s)) s = Some (Behind_loop (-1) 0 (outCount (conn s)), s1)"
    using send_loop_unfold [OF len(1) w] len(1) s1(1) by (simp add: after_send_def)
  moreover obtain s2 where "shift_out 0 (outCount (conn s)) s1 = Some s2" "out_data (conn s2) = take (outCount (conn s)) (outBuffer (conn s))"
    "sock (conn s2) = sock (conn s1)" "status (conn s2) = status (conn s1)"
    using shift_out_result [OF moved_inv [OF s1(2)], of 0 "outCount (conn s)"] oc unfolding ob by auto
  ultimately show ?thesis using up s1(3) by (simp add: pqSendSome_def dropped_def out_data_def)
qed

theorem pqSendSome_restores_dropped_output_witness:
  "\<exists>s'. pqSendSome plain_formatter 3 (test_session\<lparr>net := (net test_session)\<lparr>sends := \<lambda>i. Inl EAGAIN, recvs := \<lambda>i. Inl ECONNRESET\<rparr>\<rparr>)
     = Some (-1, s') \<and> sock (conn s') = PGINVALID_SOCKET \<and> status (conn s') = CONNECTION_BAD \<and> out_data (conn s') = [81, 82, 83]"
proof -
  let ?s = "test_session\<lparr>net := (net test_session)\<lparr>sends := \<lambda>i. Inl EAGAIN, recvs := \<lambda>i. Inl ECONNRESET\<rparr>\<rparr>"
  have "sock (conn ?s) \<noteq> PGINVALID_SOCKET" "plenty 1 (mem ?s)" "inEnd (conn ?s) + 16384 \<le> INT_MAX" "(0 :: nat) < 3" "3 \<le> outCount (conn ?s)"
    "sends (net ?s) 0 = Inl EAGAIN" "recvs (net ?s) 0 = Inl ECONNRESET" "conn_inv (conn ?s)"
    by (simp_all add: test_session_def test_conn_def PGINVALID_SOCKET_def plenty_def INT_MAX_eq conn_inv_def two_bytes)
  from pqSendSome_restores_dropped_output [OF this(8) plain_formatter_ok this(1-7)] show ?thesis by simp
qed

end
