(* ===== verification/Result_Space.thy ===== *)
theory Result_Space
  imports PG_Conn
begin

text \<open>
  The result object \<open>PGresult\<close> of \<open>libpq-int.h\<close> and its space management, \<open>pqResultAlloc\<close> of
  \<open>fe-exec.c\<close>. Pointers into the blocks of a result are pairs of a block number and an offset; the
  blocks are numbered in the order of their allocation, and \<open>chain\<close> is the list that starts at
  \<open>curBlock\<close>. Sizes are those of the Win32 build.
\<close>

section \<open>Results\<close>

datatype ExecStatusType =
    PGRES_EMPTY_QUERY
  | PGRES_COMMAND_OK
  | PGRES_TUPLES_OK
  | PGRES_COPY_OUT
  | PGRES_COPY_IN
  | PGRES_BAD_RESPONSE
  | PGRES_NONFATAL_ERROR
  | PGRES_FATAL_ERROR
  | PGRES_COPY_BOTH
  | PGRES_SINGLE_TUPLE

text \<open>\<open>Foreign\<close> is a string that belongs to a caller, with what can be read at it.\<close>

datatype ptr = NULL | Null_field | In_block nat nat | Foreign "byte list"

record PGresAttDesc =
  att_name :: ptr
  tableid :: nat
  columnid :: int
  att_format :: int
  typid :: nat
  typlen :: int
  atttypmod :: int

record PGresAttValue =
  att_len :: int
  att_value :: ptr

text \<open>
  The tuple array is the list of its valid entries, with the number of entries that fit into its
  block in \<open>tuples_room\<close>; it is a null pointer as long as this number is 0. Event procedures and
  notice hooks, code of the application, are left out.
\<close>

record PGresult =
  ntups :: nat
  numAttributes :: nat
  attDescs :: "PGresAttDesc list option"
  tuples :: "PGresAttValue list list"
  tuples_room :: nat
  tupArrSize :: int
  numParameters :: nat
  paramDescs :: "nat list option"
  resultStatus :: ExecStatusType
  cmdStatus :: "byte list"
  binary_tuples :: bool
  result_encoding :: int
  errMsg :: ptr
  errFields :: "(byte \<times> ptr) list"
  errQuery :: ptr
  blocks :: "byte list list"
  chain :: "nat list"
  curOffset :: nat
  spaceLeft :: int

text \<open>A result as \<open>PQmakeEmptyPGresult\<close> initialises it.\<close>

definition empty_result :: "ExecStatusType \<Rightarrow> int \<Rightarrow> PGresult" where
  "empty_result st enc = \<lparr>
     ntups = 0, numAttributes = 0, attDescs = None, tuples = [], tuples_room = 0, tupArrSize = 0,
     numParameters = 0, paramDescs = None, resultStatus = st, cmdStatus = [0], binary_tuples = False,
     result_encoding = enc, errMsg = NULL, errFields = [], errQuery = NULL, blocks = [], chain = [], curOffset = 0,
     spaceLeft = 0\<rparr>"

definition NULL_LEN :: int where "NULL_LEN = -1"

definition sizeof_PGresult_data :: nat where "sizeof_PGresult_data = 4"
definition sizeof_PGresAttValue :: nat where "sizeof_PGresAttValue = 8"
definition sizeof_PGresAttDesc :: nat where "sizeof_PGresAttDesc = 28"
definition sizeof_PGresParamDesc :: nat where "sizeof_PGresParamDesc = 4"

definition PGRESULT_DATA_BLOCKSIZE :: nat where "PGRESULT_DATA_BLOCKSIZE = 2048"
definition PGRESULT_ALIGN_BOUNDARY :: nat where "PGRESULT_ALIGN_BOUNDARY = 8"
definition PGRESULT_BLOCK_OVERHEAD :: nat where
  "PGRESULT_BLOCK_OVERHEAD = max sizeof_PGresult_data PGRESULT_ALIGN_BOUNDARY"
definition PGRESULT_SEP_ALLOC_THRESHOLD :: nat where
  "PGRESULT_SEP_ALLOC_THRESHOLD = PGRESULT_DATA_BLOCKSIZE div 2"

lemmas result_sizes = NULL_LEN_def sizeof_PGresult_data_def sizeof_PGresAttValue_def sizeof_PGresAttDesc_def sizeof_PGresParamDesc_def
  PGRESULT_DATA_BLOCKSIZE_def PGRESULT_ALIGN_BOUNDARY_def PGRESULT_BLOCK_OVERHEAD_def PGRESULT_SEP_ALLOC_THRESHOLD_def

section \<open>Allocation\<close>

text \<open>The conversion of an \<open>int\<close> to \<open>size_t\<close>.\<close>

definition size_of_int :: "int \<Rightarrow> nat" where
  "size_of_int i = nat (i mod 2 ^ 32)"

definition align_result :: "PGresult \<Rightarrow> PGresult" where
  "align_result res = (let offset = curOffset res mod PGRESULT_ALIGN_BOUNDARY in
     if offset \<noteq> 0
     then res\<lparr>curOffset := curOffset res + (PGRESULT_ALIGN_BOUNDARY - offset),
              spaceLeft := spaceLeft res - int (PGRESULT_ALIGN_BOUNDARY - offset)\<rparr>
     else res)"

text \<open>A block of its own, behind the active block of the chain.\<close>

definition separate_block :: "PGresult \<Rightarrow> nat \<Rightarrow> heap \<Rightarrow> ptr \<times> PGresult \<times> heap" where
  "separate_block res nBytes h =
    (case malloc (size_t (nBytes + PGRESULT_BLOCK_OVERHEAD)) h of
       (None, h) \<Rightarrow> (NULL, res, h)
     | (Some block, h) \<Rightarrow>
         let b = length (blocks res); res = res\<lparr>blocks := blocks res @ [block]\<rparr> in
         (In_block b PGRESULT_BLOCK_OVERHEAD,
          (case chain res of
             [] \<Rightarrow> res\<lparr>chain := [b], spaceLeft := 0\<rparr>
           | c # rest \<Rightarrow> res\<lparr>chain := c # b # rest\<rparr>), h))"

definition new_block :: "PGresult \<Rightarrow> nat \<Rightarrow> bool \<Rightarrow> heap \<Rightarrow> ptr \<times> PGresult \<times> heap" where
  "new_block res nBytes isBinary h =
    (case malloc PGRESULT_DATA_BLOCKSIZE h of
       (None, h) \<Rightarrow> (NULL, res, h)
     | (Some block, h) \<Rightarrow>
         let start = (if isBinary then PGRESULT_BLOCK_OVERHEAD else sizeof_PGresult_data);
             b = length (blocks res) in
         (In_block b start,
          res\<lparr>blocks := blocks res @ [block], chain := b # chain res, curOffset := start + nBytes,
              spaceLeft := int PGRESULT_DATA_BLOCKSIZE - int start - int nBytes\<rparr>, h))"

definition result_alloc :: "PGresult \<Rightarrow> nat \<Rightarrow> bool \<Rightarrow> heap \<Rightarrow> (ptr \<times> PGresult \<times> heap) option" where
  "result_alloc res nBytes isBinary h =
    (if nBytes = 0 then Some (Null_field, res, h)
     else let res = (if isBinary then align_result res else res) in
       if nBytes \<le> size_of_int (spaceLeft res) then
         (case chain res of
            [] \<Rightarrow> None
          | b # _ \<Rightarrow> Some (In_block b (curOffset res),
              res\<lparr>curOffset := curOffset res + nBytes, spaceLeft := spaceLeft res - int nBytes\<rparr>, h))
       else if nBytes \<ge> PGRESULT_SEP_ALLOC_THRESHOLD then Some (separate_block res nBytes h)
       else Some (new_block res nBytes isBinary h))"

definition pqResultAlloc :: "PGresult option \<Rightarrow> nat \<Rightarrow> bool \<Rightarrow> heap \<Rightarrow> (ptr \<times> PGresult option \<times> heap) option" where
  "pqResultAlloc res nBytes isBinary h =
    (case res of
       None \<Rightarrow> Some (NULL, None, h)
     | Some r \<Rightarrow> map_option (\<lambda>(p, r, h). (p, Some r, h)) (result_alloc r nBytes isBinary h))"

definition PQresultAlloc :: "PGresult option \<Rightarrow> nat \<Rightarrow> heap \<Rightarrow> (ptr \<times> PGresult option \<times> heap) option" where
  "PQresultAlloc res nBytes h = pqResultAlloc res nBytes True h"

section \<open>Invariant of the space\<close>

text \<open>
  The chain lists every block once, and either there is no active standard block, or the active one
  is split into a used part and the space that is left.
\<close>

definition space_inv :: "PGresult \<Rightarrow> bool" where
  "space_inv res \<longleftrightarrow> distinct (chain res) \<and> set (chain res) = {..<length (blocks res)}
     \<and> (curOffset res = 0 \<and> spaceLeft res = 0
        \<or> (\<exists>b rest. chain res = b # rest \<and> length (blocks res ! b) = PGRESULT_DATA_BLOCKSIZE
            \<and> 0 < curOffset res \<and> 0 \<le> spaceLeft res \<and> int (curOffset res) + spaceLeft res = int PGRESULT_DATA_BLOCKSIZE))"

text \<open>The part of a block that has been given out.\<close>

definition used :: "PGresult \<Rightarrow> nat \<Rightarrow> nat" where
  "used res b = (if chain res \<noteq> [] \<and> b = hd (chain res) \<and> curOffset res \<noteq> 0 then curOffset res else length (blocks res ! b))"

text \<open>An object that has been given out, and one that overlaps with none of the earlier ones.\<close>

fun owned :: "PGresult \<Rightarrow> ptr \<Rightarrow> nat \<Rightarrow> bool" where
  "owned res (In_block b off) n = (b < length (blocks res) \<and> off + n \<le> used res b)"
| "owned res p n = False"

fun unused :: "PGresult \<Rightarrow> ptr \<Rightarrow> bool" where
  "unused res (In_block b off) = (length (blocks res) \<le> b \<or> used res b \<le> off)"
| "unused res p = False"

fun aligned :: "ptr \<Rightarrow> bool" where
  "aligned (In_block b off) = (off mod PGRESULT_ALIGN_BOUNDARY = 0)"
| "aligned p = False"

text \<open>What allocation does not touch.\<close>

definition space_kept :: "PGresult \<Rightarrow> PGresult \<Rightarrow> bool" where
  "space_kept res res' \<longleftrightarrow>
     (\<exists>bl ch co sl. res' = res\<lparr>blocks := blocks res @ bl, chain := ch, curOffset := co, spaceLeft := sl\<rparr>)
     \<and> (\<forall>b < length (blocks res). used res b \<le> used res' b)"

lemma space_kept_refl [simp]: "space_kept res res"
  unfolding space_kept_def by (intro conjI exI [of _ "[]"] exI [of _ "chain res"] exI [of _ "curOffset res"] exI [of _ "spaceLeft res"]) simp_all

lemma space_kept_trans:
  assumes "space_kept a b" "space_kept b c"
  shows "space_kept a c"
proof -
  obtain bl ch co sl where b: "b = a\<lparr>blocks := blocks a @ bl, chain := ch, curOffset := co, spaceLeft := sl\<rparr>"
    "\<forall>i < length (blocks a). used a i \<le> used b i"
    using assms(1) unfolding space_kept_def by blast
  obtain bl' ch' co' sl' where c: "c = b\<lparr>blocks := blocks b @ bl', chain := ch', curOffset := co', spaceLeft := sl'\<rparr>"
    "\<forall>i < length (blocks b). used b i \<le> used c i"
    using assms(2) unfolding space_kept_def by blast
  have "c = a\<lparr>blocks := blocks a @ bl @ bl', chain := ch', curOffset := co', spaceLeft := sl'\<rparr>" by (simp add: b(1) c(1))
  moreover have "used a i \<le> used c i" if "i < length (blocks a)" for i
  proof -
    have "i < length (blocks b)" using that b(1) by simp
    then show ?thesis using b(2) c(2) that le_trans by blast
  qed
  ultimately show ?thesis unfolding space_kept_def by blast
qed

lemma used_le: "space_inv res \<Longrightarrow> b < length (blocks res) \<Longrightarrow> used res b \<le> length (blocks res ! b)"
proof (cases "chain res \<noteq> [] \<and> b = hd (chain res) \<and> curOffset res \<noteq> 0")
  case True
  assume "space_inv res"
  then obtain c rest where "chain res = c # rest" "length (blocks res ! c) = PGRESULT_DATA_BLOCKSIZE" "0 \<le> spaceLeft res"
    "int (curOffset res) + spaceLeft res = int PGRESULT_DATA_BLOCKSIZE"
    using True unfolding space_inv_def by blast
  then show ?thesis using True by (simp add: used_def)
qed (auto simp: used_def)

lemma size_of_int_id: "0 \<le> i \<Longrightarrow> i < 2 ^ 32 \<Longrightarrow> size_of_int i = nat i"
  by (simp add: size_of_int_def)

lemma align_inv:
  assumes "space_inv res"
  shows "space_inv (align_result res)" "space_kept res (align_result res)" "curOffset (align_result res) mod 8 = 0"
    "chain (align_result res) = chain res" "blocks (align_result res) = blocks res"
proof -
  show "chain (align_result res) = chain res" "blocks (align_result res) = blocks res" by (simp_all add: align_result_def Let_def)
  define q r where "q = curOffset res div 8" and "r = curOffset res mod 8"
  have c: "curOffset res = 8 * q + r" "r < 8" by (simp_all add: q_def r_def)
  have a: "align_result res = (if r \<noteq> 0 then res\<lparr>curOffset := 8 * (q + 1), spaceLeft := spaceLeft res - int (8 - r)\<rparr> else res)"
    using c by (simp add: align_result_def Let_def result_sizes r_def [symmetric])
  show "curOffset (align_result res) mod 8 = 0" using c by (simp add: a)
  have left: "int (8 - r) \<le> spaceLeft res" if "int (curOffset res) + spaceLeft res = 2048" "0 \<le> spaceLeft res" "r \<noteq> 0"
  proof -
    have "8 * q + r \<le> 2048" using that c by linarith
    then have "q < 256" using that(3) by simp
    then show ?thesis using that c by linarith
  qed
  show "space_inv (align_result res)"
  proof (cases "r = 0")
    case True
    then show ?thesis using assms by (simp add: a)
  next
    case False
    then obtain b rest where b: "chain res = b # rest" "length (blocks res ! b) = 2048" "0 < curOffset res"
      "int (curOffset res) + spaceLeft res = 2048" "0 \<le> spaceLeft res"
      using assms c by (auto simp: space_inv_def result_sizes)
    then show ?thesis using left False c assms by (simp add: a space_inv_def result_sizes)
  qed
  show "space_kept res (align_result res)"
    unfolding space_kept_def
    by (intro conjI exI [of _ "[]"] exI [of _ "chain res"] exI [of _ "curOffset (align_result res)"] exI [of _ "spaceLeft (align_result res)"])
      (auto simp: align_result_def Let_def used_def)
qed


section \<open>Allocated objects do not overlap\<close>

text \<open>What an allocation that follows an invariant state guarantees.\<close>

definition alloc_ok :: "PGresult \<Rightarrow> nat \<Rightarrow> bool \<Rightarrow> heap \<Rightarrow> (ptr \<times> PGresult \<times> heap) \<Rightarrow> bool" where
  "alloc_ok res n bin h R = (case R of (p, res', h') \<Rightarrow> space_inv res' \<and> space_kept res res'
     \<and> (p = NULL \<or> owned res' p n \<and> unused res p \<and> (bin \<longrightarrow> aligned p))
     \<and> (\<forall>k. plenty (Suc k) h \<longrightarrow> p \<noteq> NULL \<and> plenty k h'))"

lemma space_cases:
  assumes "space_inv res"
  obtains (idle) "curOffset res = 0" "spaceLeft res = 0" "distinct (chain res)" "set (chain res) = {..<length (blocks res)}"
  | (active) b rest where "chain res = b # rest" "length (blocks res ! b) = 2048" "0 < curOffset res" "0 \<le> spaceLeft res"
      "int (curOffset res) + spaceLeft res = 2048" "distinct (chain res)" "set (chain res) = {..<length (blocks res)}"
  using assms unfolding space_inv_def result_sizes by auto

lemma separate_block_ok:
  assumes inv: "space_inv res" and n: "1024 \<le> n" "n + 8 < 2 ^ 32"
  shows "alloc_ok res n bin h (separate_block res n h)"
proof -
  have sz: "size_t (n + 8) = n + 8" using n(2) by (simp add: size_t_id)
  show ?thesis
  proof (cases "fst (next_answer h)")
    case False
    then have "separate_block res n h = (NULL, res, snd (next_answer h))" by (simp add: separate_block_def malloc_eq)
    then show ?thesis using inv False plenty_next(1) [of _ h] by (auto simp: alloc_ok_def)
  next
    case True
    define B where "B = fresh h (n + 8)"
    have lB: "length B = n + 8" by (simp add: B_def)
    have pl: "\<forall>k. plenty (Suc k) h \<longrightarrow> plenty k (snd (next_answer h))" using plenty_next(2) by blast
    let ?b = "length (blocks res)"
    let ?ch = "case chain res of [] \<Rightarrow> [?b] | c # rest \<Rightarrow> c # ?b # rest"
    let ?r = "res\<lparr>blocks := blocks res @ [B], chain := ?ch, spaceLeft := (if chain res = [] then 0 else spaceLeft res)\<rparr>"
    have e: "separate_block res n h = (In_block ?b 8, ?r, snd (next_answer h))"
      using True by (cases "chain res") (simp_all add: separate_block_def malloc_eq sz B_def result_sizes Let_def)
    have nth: "(blocks res @ [B]) ! i = blocks res ! i" if "i < ?b" for i using that by (simp add: nth_append)
    have nb: "?b \<notin> set (chain res)" "set (chain res) = {..<?b}" "distinct (chain res)" using inv by (simp_all add: space_inv_def)
    have "distinct ?ch" "set ?ch = insert ?b (set (chain res))" using nb(1,3)
      by (cases "chain res"; force)+
    then have ch: "distinct ?ch" "set ?ch = {..<length (blocks ?r)}" by (simp_all add: nb(2) lessThan_Suc)
    have s: "space_inv ?r \<and> used ?r ?b = n + 8 \<and> (\<forall>i < ?b. used res i \<le> used ?r i)"
      using inv
    proof (cases rule: space_cases)
      case idle
      have u: "used ?r i = length (blocks ?r ! i)" "used res i = length (blocks res ! i)" for i
        using idle(1) by (simp_all add: used_def)
      have "space_inv ?r" unfolding space_inv_def using idle(1,2) ch by simp
      then show ?thesis unfolding u using nth by (simp add: lB)
    next
      case (active b rest)
      have lt: "b < ?b" "?b \<noteq> b" using active(1,7) by auto
      have u: "used ?r i = (if i = b then curOffset res else length (blocks ?r ! i))"
        "used res i = (if i = b then curOffset res else length (blocks res ! i))" for i
        using active(1,3) by (simp_all add: used_def)
      have "space_inv ?r"
        unfolding space_inv_def using active(1-5) nth [OF lt(1)] ch by (simp add: result_sizes)
      then show ?thesis unfolding u using nth lt by (simp add: lB)
    qed
    have "space_kept res ?r" unfolding space_kept_def
      using s by (intro conjI exI [of _ "[B]"] exI [of _ ?ch] exI [of _ "curOffset res"] exI [of _ "if chain res = [] then 0 else spaceLeft res"]) simp_all
    then show ?thesis using s pl by (simp add: e alloc_ok_def result_sizes)
  qed
qed


lemma new_block_ok:
  assumes inv: "space_inv res" and n: "0 < n" "n < 1024"
  shows "alloc_ok res n bin h (new_block res n bin h)"
proof (cases "fst (next_answer h)")
  case False
  then have "new_block res n bin h = (NULL, res, snd (next_answer h))" by (simp add: new_block_def malloc_eq)
  then show ?thesis using inv False plenty_next(1) [of _ h] by (auto simp: alloc_ok_def)
next
  case True
  define B where "B = fresh h 2048"
  have lB: "length B = 2048" by (simp add: B_def)
  have pl: "\<forall>k. plenty (Suc k) h \<longrightarrow> plenty k (snd (next_answer h))" using plenty_next(2) by blast
  define st :: nat where "st = (if bin then 8 else 4)"
  have st: "0 < st" "st \<le> 8" by (simp_all add: st_def)
  let ?b = "length (blocks res)"
  let ?r = "res\<lparr>blocks := blocks res @ [B], chain := ?b # chain res, curOffset := st + n, spaceLeft := 2048 - int st - int n\<rparr>"
  have e: "new_block res n bin h = (In_block ?b st, ?r, snd (next_answer h))"
    using True by (simp add: new_block_def malloc_eq B_def result_sizes st_def Let_def)
  have nb: "?b \<notin> set (chain res)" "set (chain res) = {..<?b}" "distinct (chain res)" using inv by (simp_all add: space_inv_def)
  have "space_inv ?r"
    unfolding space_inv_def using n st nb by (simp add: result_sizes lB lessThan_Suc)
  moreover have u: "used ?r ?b = st + n" using st by (simp add: used_def)
  moreover have "used res i \<le> used ?r i" if "i < ?b" for i
    using used_le [OF inv that] that by (simp add: used_def nth_append)
  then have "space_kept res ?r" unfolding space_kept_def
    by (intro conjI exI [of _ "[B]"] exI [of _ "?b # chain res"] exI [of _ "st + n"] exI [of _ "2048 - int st - int n"]) simp_all
  moreover have "bin \<longrightarrow> aligned (In_block ?b st)" by (simp add: st_def result_sizes)
  ultimately show ?thesis using pl by (simp add: e alloc_ok_def)
qed

lemma alloc_ok_trans:
  assumes "space_kept res res1" "blocks res1 = blocks res" "alloc_ok res1 n bin h R"
  shows "alloc_ok res n bin h R"
proof -
  obtain p res2 h2 where R: "R = (p, res2, h2)" by (cases R)
  have u: "unused res1 p \<Longrightarrow> unused res p"
  proof (cases p)
    case (In_block b off)
    assume "unused res1 p"
    moreover have "b < length (blocks res) \<Longrightarrow> used res b \<le> used res1 b" using assms(1) by (simp add: space_kept_def)
    ultimately show ?thesis using In_block assms(2) by (cases "b < length (blocks res)") auto
  qed simp_all
  show ?thesis using assms(3) space_kept_trans [OF assms(1)] u unfolding R alloc_ok_def prod.case by blast
qed

lemma result_alloc_ok:
  assumes inv: "space_inv res" and n: "0 < n" "n + 8 < 2 ^ 32"
  shows "\<exists>R. result_alloc res n bin h = Some R \<and> alloc_ok res n bin h R"
proof -
  define r where "r = (if bin then align_result res else res)"
  have r: "space_inv r" "space_kept res r" "blocks r = blocks res" "bin \<longrightarrow> curOffset r mod 8 = 0"
    using align_inv [OF inv] inv by (simp_all add: r_def)
  have e: "result_alloc res n bin h =
    (if n \<le> size_of_int (spaceLeft r) then
         (case chain r of
            [] \<Rightarrow> None
          | b # _ \<Rightarrow> Some (In_block b (curOffset r),
              r\<lparr>curOffset := curOffset r + n, spaceLeft := spaceLeft r - int n\<rparr>, h))
       else if n \<ge> PGRESULT_SEP_ALLOC_THRESHOLD then Some (separate_block r n h)
       else Some (new_block r n bin h))"
    using n(1) unfolding result_alloc_def Let_def r_def [symmetric] by simp
  have T: "PGRESULT_SEP_ALLOC_THRESHOLD = 1024" by (simp add: result_sizes)
  have fits: ?thesis if fit: "n \<le> size_of_int (spaceLeft r)"
    using r(1)
  proof (cases rule: space_cases)
    case idle
    then show ?thesis using fit n(1) by (simp add: size_of_int_def)
  next
    case (active b rest)
    have fit': "int n \<le> spaceLeft r" using fit active(3-5) by (simp add: size_of_int_id)
    let ?r = "r\<lparr>curOffset := curOffset r + n, spaceLeft := spaceLeft r - int n\<rparr>"
    have u: "used r i \<le> used ?r i" "used ?r b = curOffset r + n" "used r b = curOffset r" for i
      using active(1,3) by (simp_all add: used_def)
    have "space_inv ?r" unfolding space_inv_def using active fit' by (simp add: result_sizes)
    moreover have "space_kept r ?r" unfolding space_kept_def
      using u(1) by (intro conjI exI [of _ "[]"] exI [of _ "chain r"] exI [of _ "curOffset r + n"] exI [of _ "spaceLeft r - int n"]) simp_all
    moreover have "b < length (blocks r)" using active(1,7) by auto
    moreover have "plenty k h" if "plenty (Suc k) h" for k using plenty_mono [OF that, of k] by simp
    ultimately have "alloc_ok r n bin h (In_block b (curOffset r), ?r, h)"
      using u(2,3) r(4) by (simp add: alloc_ok_def result_sizes)
    then show ?thesis using fit active(1) alloc_ok_trans [OF r(2,3)] by (simp add: e)
  qed
  show ?thesis
  proof (cases "n \<le> size_of_int (spaceLeft r)")
    case True
    then show ?thesis by (rule fits)
  next
    case False
    then show ?thesis
      using separate_block_ok [OF r(1) _ n(2), of bin h] new_block_ok [OF r(1) n(1), of bin h] alloc_ok_trans [OF r(2,3)]
      by (cases "n \<ge> 1024") (simp_all add: e T)
  qed
qed

text \<open>A sequence of requests, each a size and whether alignment is needed.\<close>

fun alloc_all :: "PGresult \<Rightarrow> (nat \<times> bool) list \<Rightarrow> heap \<Rightarrow> (ptr list \<times> PGresult \<times> heap) option" where
  "alloc_all res [] h = Some ([], res, h)"
| "alloc_all res ((n, bin) # reqs) h = do {
     (p, res, h) \<leftarrow> result_alloc res n bin h;
     (ps, res, h) \<leftarrow> alloc_all res reqs h;
     Some (p # ps, res, h) }"

fun disjoint_objects :: "ptr \<times> nat \<Rightarrow> ptr \<times> nat \<Rightarrow> bool" where
  "disjoint_objects (In_block b off, n) (In_block b' off', n') = (b \<noteq> b' \<or> off + n \<le> off' \<or> off' + n' \<le> off)"
| "disjoint_objects _ _ = True"

lemma owned_kept: "owned res p n \<Longrightarrow> space_kept res res' \<Longrightarrow> owned res' p n"
proof (cases p)
  case (In_block b off)
  assume o: "owned res p n" and k: "space_kept res res'"
  have "b < length (blocks res)" "off + n \<le> used res b" using o In_block by simp_all
  moreover have "length (blocks res) \<le> length (blocks res')" using k unfolding space_kept_def by auto
  ultimately show ?thesis using k In_block le_trans unfolding space_kept_def by auto
qed simp_all

lemma owned_unused: "owned res p n \<Longrightarrow> unused res q \<Longrightarrow> disjoint_objects (p, n) (q, m) \<and> disjoint_objects (q, m) (p, n)"
  by (cases p; cases q) auto


fun inside :: "PGresult \<Rightarrow> ptr \<Rightarrow> nat \<Rightarrow> bool" where
  "inside res (In_block b off) n = (b < length (blocks res) \<and> off + n \<le> length (blocks res ! b))"
| "inside res p n = False"

lemma owned_inside: "space_inv res \<Longrightarrow> owned res p n \<Longrightarrow> inside res p n"
  using used_le [of res] by (cases p) (auto intro: le_trans)

lemma unused_kept: "unused res' p \<Longrightarrow> space_kept res res' \<Longrightarrow> unused res p"
proof (cases p)
  case (In_block b off)
  assume u: "unused res' p" and k: "space_kept res res'"
  have "length (blocks res) \<le> length (blocks res')" using k unfolding space_kept_def by auto
  then show ?thesis using u k In_block le_trans unfolding space_kept_def by (cases "b < length (blocks res)") auto
qed simp_all

lemma alloc_all_result:
  assumes "space_inv res" "list_all (\<lambda>(n, bin). 0 < n \<and> n + 8 < 2 ^ 32) reqs"
  shows "\<exists>ps res' h'. alloc_all res reqs h = Some (ps, res', h') \<and> space_inv res' \<and> space_kept res res'
    \<and> list_all2 (\<lambda>p (n, bin). p = NULL \<or> owned res' p n \<and> unused res p \<and> (bin \<longrightarrow> aligned p)) ps reqs
    \<and> sorted_wrt disjoint_objects (zip ps (map fst reqs))
    \<and> (\<forall>k. plenty (length reqs + k) h \<longrightarrow> NULL \<notin> set ps \<and> plenty k h')"
  using assms
proof (induction reqs arbitrary: res h)
  case Nil
  then show ?case by simp
next
  case (Cons r reqs)
  obtain n bin where r: "r = (n, bin)" by (cases r)
  have n: "0 < n" "n + 8 < 2 ^ 32" "list_all (\<lambda>(n, bin). 0 < n \<and> n + 8 < 2 ^ 32) reqs"
    using Cons.prems(2) r by simp_all
  obtain p res1 h1 where a: "result_alloc res n bin h = Some (p, res1, h1)" "space_inv res1" "space_kept res res1"
    "p = NULL \<or> owned res1 p n \<and> unused res p \<and> (bin \<longrightarrow> aligned p)" "\<And>k. plenty (Suc k) h \<Longrightarrow> p \<noteq> NULL \<and> plenty k h1"
    using result_alloc_ok [OF Cons.prems(1) n(1,2), of bin h] unfolding alloc_ok_def by auto
  obtain ps res2 h2 where b: "alloc_all res1 reqs h1 = Some (ps, res2, h2)" "space_inv res2" "space_kept res1 res2"
    "list_all2 (\<lambda>p (n, bin). p = NULL \<or> owned res2 p n \<and> unused res1 p \<and> (bin \<longrightarrow> aligned p)) ps reqs"
    "sorted_wrt disjoint_objects (zip ps (map fst reqs))"
    "\<And>k. plenty (length reqs + k) h1 \<Longrightarrow> NULL \<notin> set ps \<and> plenty k h2"
    using Cons.IH [OF a(2) n(3), of h1] by blast
  have "disjoint_objects (p, n) x" if x: "x \<in> set (zip ps (map fst reqs))" for x
  proof -
    obtain i where i: "i < length ps" "i < length reqs" "x = (ps ! i, fst (reqs ! i))" using x by (auto simp: set_zip)
    have "ps ! i = NULL \<or> unused res1 (ps ! i)" using list_all2_nthD [OF b(4) i(1)] by (auto split: prod.splits)
    then show ?thesis using a(4) owned_unused [of res1 p n "ps ! i"] i(3) by (cases p) auto
  qed
  moreover have "list_all2 (\<lambda>p (n, bin). p = NULL \<or> owned res2 p n \<and> unused res p \<and> (bin \<longrightarrow> aligned p)) ps reqs"
    by (rule list_all2_mono [OF b(4)]) (use unused_kept [OF _ a(3)] in auto)
  ultimately show ?case using a b space_kept_trans [OF a(3) b(3)] owned_kept [OF _ b(3), of p n] by (auto simp: r)
qed

text \<open>
  C36: The space of a result is handed out without overlap. Every sequence of requests to
  \<open>pqResultAlloc\<close> returns; each object lies inside of one of the blocks that were got from
  \<open>malloc\<close>, is aligned if that was asked for, and shares no byte with the others or with what was
  handed out before; requests fail only when \<open>malloc\<close> does. The chain of blocks, which \<open>PQclear\<close>
  frees, lists every block exactly once.
\<close>

theorem pqResultAlloc_disjoint:
  assumes "space_inv res" "list_all (\<lambda>(n, bin). 0 < n \<and> n + 8 < 2 ^ 32) reqs"
  shows "\<exists>ps res' h'. alloc_all res reqs h = Some (ps, res', h')
    \<and> list_all2 (\<lambda>p (n, bin). p = NULL \<or> inside res' p n \<and> unused res p \<and> (bin \<longrightarrow> aligned p)) ps reqs
    \<and> sorted_wrt disjoint_objects (zip ps (map fst reqs))
    \<and> distinct (chain res') \<and> set (chain res') = {..<length (blocks res')}
    \<and> (plenty (length reqs) h \<longrightarrow> NULL \<notin> set ps)"
proof -
  obtain ps res' h' where r: "alloc_all res reqs h = Some (ps, res', h')" "space_inv res'"
    "list_all2 (\<lambda>p (n, bin). p = NULL \<or> owned res' p n \<and> unused res p \<and> (bin \<longrightarrow> aligned p)) ps reqs"
    "sorted_wrt disjoint_objects (zip ps (map fst reqs))" "\<And>k. plenty (length reqs + k) h \<Longrightarrow> NULL \<notin> set ps"
    using alloc_all_result [OF assms] by blast
  have "list_all2 (\<lambda>p (n, bin). p = NULL \<or> inside res' p n \<and> unused res p \<and> (bin \<longrightarrow> aligned p)) ps reqs"
    by (rule list_all2_mono [OF r(3)]) (use owned_inside [OF r(2)] in auto)
  then show ?thesis using r(1,2,4) r(5) [of 0] by (auto simp: space_inv_def)
qed

text \<open>Three objects in a new result: a small aligned one, a string and a large one.\<close>

theorem pqResultAlloc_disjoint_witness:
  "\<exists>ps res' h'. alloc_all (empty_result PGRES_TUPLES_OK 6) [(24, True), (3, False), (5000, True)] \<lparr>answers = [True, True, True], junk = \<lambda>i. 0\<rparr>
      = Some (ps, res', h')
    \<and> sorted_wrt disjoint_objects (zip ps [24, 3, 5000]) \<and> NULL \<notin> set ps"
proof -
  let ?h = "\<lparr>answers = [True, True, True], junk = \<lambda>i. 0\<rparr>"
  let ?reqs = "[(24, True), (3, False), (5000, True)] :: (nat \<times> bool) list"
  have i: "space_inv (empty_result PGRES_TUPLES_OK 6)" by (simp add: space_inv_def empty_result_def)
  have r: "list_all (\<lambda>(n, bin). 0 < n \<and> n + 8 < 2 ^ 32) ?reqs" by simp
  have p: "plenty (length ?reqs) ?h" by (simp add: plenty_def less_Suc_eq)
  have m: "map fst ?reqs = [24, 3, 5000]" by simp
  obtain ps res' h' where a: "alloc_all (empty_result PGRES_TUPLES_OK 6) ?reqs ?h = Some (ps, res', h')"
    "sorted_wrt disjoint_objects (zip ps (map fst ?reqs))" "plenty (length ?reqs) ?h \<longrightarrow> NULL \<notin> set ps"
    using pqResultAlloc_disjoint [OF i r, of ?h] by blast
  have "NULL \<notin> set ps" using a(3) p by (rule mp)
  then show ?thesis using a(1) a(2)[unfolded m] by blast
qed

end
