(* ===== verification/Result.thy ===== *)
theory Result
  imports Result_Space Conn_Buffer
begin

unbundle bit_operations_syntax

text \<open>
  Building, changing, copying and reading a \<open>PGresult\<close>: the functions of \<open>fe-exec.c\<close> between
  \<open>PQmakeEmptyPGresult\<close> and \<open>pqSaveMessageField\<close>, and the access functions. A result that a
  function may get as a null pointer is an option. Event procedures and notices, which call back
  into the application, are left out.
\<close>

section \<open>Memory of a result\<close>

text \<open>What can be read at a pointer, and a write into a block.\<close>

definition read_at :: "PGresult \<Rightarrow> ptr \<Rightarrow> byte list option" where
  "read_at res p = (case p of
     NULL \<Rightarrow> None
   | Null_field \<Rightarrow> Some [0]
   | Foreign s \<Rightarrow> Some s
   | In_block b off \<Rightarrow> if b < length (blocks res) then Some (drop off (blocks res ! b)) else None)"

definition write_at :: "PGresult \<Rightarrow> ptr \<Rightarrow> byte list \<Rightarrow> PGresult option" where
  "write_at res p bs = (case p of
     In_block b off \<Rightarrow>
       if b < length (blocks res)
       then do { new \<leftarrow> blit (blocks res ! b) off bs; Some (res\<lparr>blocks := (blocks res)[b := new]\<rparr>) }
       else None
   | _ \<Rightarrow> None)"

section \<open>Strings and error messages\<close>

definition pqResultStrdup :: "PGresult \<Rightarrow> byte list \<Rightarrow> heap \<Rightarrow> (ptr \<times> PGresult \<times> heap) option" where
  "pqResultStrdup res str h = do {
     n \<leftarrow> strlen str;
     (space, res, h) \<leftarrow> result_alloc res (size_t (n + 1)) False h;
     if space = NULL then Some (NULL, res, h)
     else do { res \<leftarrow> write_at res space (take (n + 1) str); Some (space, res, h) } }"

text \<open>The test of \<open>*msg\<close> reads its first byte.\<close>

definition pqSetResultError :: "PGresult \<Rightarrow> byte list option \<Rightarrow> heap \<Rightarrow> (PGresult \<times> heap) option" where
  "pqSetResultError res msg h =
    (case msg of
       None \<Rightarrow> Some (res\<lparr>errMsg := NULL\<rparr>, h)
     | Some m \<Rightarrow> do {
         c \<leftarrow> peek m 0;
         if c \<noteq> 0 then do {
           (p, res, h) \<leftarrow> pqResultStrdup res m h;
           Some (res\<lparr>errMsg := p\<rparr>, h) }
         else Some (res\<lparr>errMsg := NULL\<rparr>, h) })"

text \<open>The data of a string buffer; that of a broken one is an empty string.\<close>

definition buffer_data :: "PQExpBufferData \<Rightarrow> byte list" where
  "buffer_data b = (case eb_data b of None \<Rightarrow> [0] | Some d \<Rightarrow> d)"

definition pqCatenateResultError :: "PGresult \<Rightarrow> byte list option \<Rightarrow> heap \<Rightarrow> (PGresult \<times> heap) option" where
  "pqCatenateResultError res msg h =
    (case msg of
       None \<Rightarrow> Some (res, h)
     | Some m \<Rightarrow> do {
         (b, h) \<leftarrow> initPQExpBuffer h;
         (b, h) \<leftarrow> (if errMsg res \<noteq> NULL
           then do { old \<leftarrow> read_at res (errMsg res); appendPQExpBufferStr (Some b) old h }
           else Some (Some b, h));
         (b, h) \<leftarrow> appendPQExpBufferStr b m h;
         b \<leftarrow> b;
         pqSetResultError res (Some (buffer_data b)) h })"

section \<open>Making a result\<close>

fun error_status :: "ExecStatusType \<Rightarrow> bool" where
  "error_status PGRES_EMPTY_QUERY = False"
| "error_status PGRES_COMMAND_OK = False"
| "error_status PGRES_TUPLES_OK = False"
| "error_status PGRES_COPY_OUT = False"
| "error_status PGRES_COPY_IN = False"
| "error_status PGRES_COPY_BOTH = False"
| "error_status PGRES_SINGLE_TUPLE = False"
| "error_status _ = True"

text \<open>The memory of the structure itself counts as one request.\<close>

definition PQmakeEmptyPGresult :: "PGconn option \<Rightarrow> ExecStatusType \<Rightarrow> heap \<Rightarrow> (PGresult option \<times> heap) option" where
  "PQmakeEmptyPGresult conn st h = (
     let (ok, h) = next_answer h in
     if \<not> ok then Some (None, h)
     else case conn of
       None \<Rightarrow> Some (Some (empty_result st 0), h)
     | Some c \<Rightarrow>
         if error_status st then do {
           (res, h) \<leftarrow> pqSetResultError (empty_result st (client_encoding c)) (Some (buffer_data (errorMessage c))) h;
           Some (Some res, h) }
         else Some (Some (empty_result st (client_encoding c)), h))"

text \<open>The loop of \<open>PQsetResultAttrs\<close> over the given attribute numbers.\<close>

fun set_attrs :: "nat list \<Rightarrow> PGresult \<Rightarrow> heap \<Rightarrow> (bool \<times> PGresult \<times> heap) option" where
  "set_attrs [] res h = Some (True, res, h)"
| "set_attrs (i # is) res h = do {
     descs \<leftarrow> attDescs res;
     d \<leftarrow> (if i < length descs then Some (descs ! i) else None);
     (p, res, h) \<leftarrow> (if att_name d \<noteq> NULL
       then do { str \<leftarrow> read_at res (att_name d); pqResultStrdup res str h }
       else Some (Null_field, res, h));
     let res = res\<lparr>attDescs := Some (descs[i := d\<lparr>att_name := p\<rparr>])\<rparr>;
     if p = NULL then Some (False, res, h)
     else set_attrs is (if att_format d = 0 then res\<lparr>binary_tuples := False\<rparr> else res) h }"

definition PQsetResultAttrs :: "PGresult option \<Rightarrow> int \<Rightarrow> PGresAttDesc list option \<Rightarrow> heap
    \<Rightarrow> (bool \<times> PGresult option \<times> heap) option" where
  "PQsetResultAttrs res n descs h =
    (case res of
       None \<Rightarrow> Some (False, None, h)
     | Some r \<Rightarrow>
         if numAttributes r > 0 then Some (False, Some r, h)
         else case descs of
           None \<Rightarrow> Some (True, Some r, h)
         | Some ds \<Rightarrow>
             if n \<le> 0 then Some (True, Some r, h)
             else do {
               (p, r, h) \<leftarrow> result_alloc r (size_of_int (n * int sizeof_PGresAttDesc)) True h;
               if p = NULL then Some (False, Some (r\<lparr>attDescs := None\<rparr>), h)
               else if length ds < nat n then None
               else do {
                 (ok, r, h) \<leftarrow> set_attrs [0..<nat n]
                   (r\<lparr>attDescs := Some (take (nat n) ds), numAttributes := nat n, binary_tuples := True\<rparr>) h;
                 Some (ok, Some r, h) } })"

text \<open>A pointer has 4 bytes; the product is computed in \<open>size_t\<close>.\<close>

definition pqAddTuple :: "PGresult \<Rightarrow> PGresAttValue list \<Rightarrow> heap \<Rightarrow> (bool \<times> PGresult \<times> heap) option" where
  "pqAddTuple res tup h = do {
     (ok, res, h) \<leftarrow>
       (if int (ntups res) \<ge> tupArrSize res then do {
          let newSize = (if tupArrSize res > 0 then int32 (tupArrSize res * 2) else 128);
          let (ok, h) = next_answer h;
          if ok then Some (True, res\<lparr>tupArrSize := newSize, tuples_room := size_of_int (newSize * 4) div 4\<rparr>, h)
          else Some (False, res, h) }
        else Some (True, res, h));
     if \<not> ok then Some (False, res, h)
     else if ntups res < tuples_room res
       then Some (True, res\<lparr>tuples := take (ntups res) (tuples res) @ [tup], ntups := ntups res + 1\<rparr>, h)
       else None }"

section \<open>Values\<close>

text \<open>The notices of these checks are left out.\<close>

definition check_field_number :: "PGresult option \<Rightarrow> int \<Rightarrow> bool" where
  "check_field_number res f = (case res of None \<Rightarrow> False
     | Some r \<Rightarrow> \<not> (f < 0 \<or> f \<ge> int (numAttributes r)))"

definition check_tuple_field_number :: "PGresult option \<Rightarrow> int \<Rightarrow> int \<Rightarrow> bool" where
  "check_tuple_field_number res t f = (case res of None \<Rightarrow> False
     | Some r \<Rightarrow> \<not> (t < 0 \<or> t \<ge> int (ntups r)) \<and> \<not> (f < 0 \<or> f \<ge> int (numAttributes r)))"

definition check_param_number :: "PGresult option \<Rightarrow> int \<Rightarrow> bool" where
  "check_param_number res p = (case res of None \<Rightarrow> False
     | Some r \<Rightarrow> \<not> (p < 0 \<or> p \<ge> int (numParameters r)))"

definition null_value :: PGresAttValue where
  "null_value = \<lparr>att_len = NULL_LEN, att_value = Null_field\<rparr>"

text \<open>Storing one value at its place, \<open>attval\<close> in the source.\<close>

definition put_attval :: "nat \<Rightarrow> nat \<Rightarrow> (PGresAttValue \<Rightarrow> PGresAttValue) \<Rightarrow> PGresult \<Rightarrow> PGresult" where
  "put_attval t f g res = res\<lparr>tuples := (tuples res)[t := ((tuples res ! t)[f := g (tuples res ! t ! f)])]\<rparr>"

definition store_value :: "PGresult \<Rightarrow> nat \<Rightarrow> nat \<Rightarrow> byte list option \<Rightarrow> int \<Rightarrow> heap \<Rightarrow> (bool \<times> PGresult \<times> heap) option" where
  "store_value res t f value len h =
    (case (if len = NULL_LEN then None else value) of
       None \<Rightarrow> Some (True, put_attval t f (\<lambda>_. null_value) res, h)
     | Some v \<Rightarrow>
         if len \<le> 0 then Some (True, put_attval t f (\<lambda>_. \<lparr>att_len = 0, att_value = Null_field\<rparr>) res, h)
         else do {
           (p, res, h) \<leftarrow> result_alloc res (size_of_int (int32 (len + 1))) True h;
           if p = NULL then Some (False, put_attval t f (\<lambda>a. a\<lparr>att_value := NULL\<rparr>) res, h)
           else if length v < nat len then None
           else do {
             res \<leftarrow> write_at res p (take (nat len) v @ [0]);
             Some (True, put_attval t f (\<lambda>_. \<lparr>att_len = len, att_value = p\<rparr>) res, h) } })"

definition PQsetvalue :: "PGresult option \<Rightarrow> int \<Rightarrow> int \<Rightarrow> byte list option \<Rightarrow> int \<Rightarrow> heap
    \<Rightarrow> (bool \<times> PGresult option \<times> heap) option" where
  "PQsetvalue res tup_num field_num value len h =
    (case res of
       None \<Rightarrow> Some (False, None, h)
     | Some r \<Rightarrow>
         if \<not> check_field_number res field_num then Some (False, res, h)
         else if tup_num < 0 \<or> tup_num > int (ntups r) then Some (False, res, h)
         else do {
           (ok, r, h) \<leftarrow>
             (if tup_num = int (ntups r) then do {
                (p, r, h) \<leftarrow> result_alloc r (size_t (numAttributes r * sizeof_PGresAttValue)) True h;
                if p = NULL then Some (False, r, h)
                else pqAddTuple r (replicate (numAttributes r) null_value) h }
              else Some (True, r, h));
           if \<not> ok then Some (False, Some r, h)
           else do {
             (ok, r, h) \<leftarrow> store_value r (nat tup_num) (nat field_num) value len h;
             Some (ok, Some r, h) } })"

section \<open>Copying\<close>

definition PG_COPYRES_ATTRS :: int where "PG_COPYRES_ATTRS = 0x01"
definition PG_COPYRES_TUPLES :: int where "PG_COPYRES_TUPLES = 0x02"

text \<open>The pairs of tuple and field numbers in the order of the two loops.\<close>

fun copy_values :: "PGresult \<Rightarrow> (nat \<times> nat) list \<Rightarrow> PGresult option \<Rightarrow> heap \<Rightarrow> (bool \<times> PGresult option \<times> heap) option" where
  "copy_values src [] dest h = Some (True, dest, h)"
| "copy_values src ((t, f) # tfs) dest h = do {
     let a = tuples src ! t ! f;
     (ok, dest, h) \<leftarrow> PQsetvalue dest (int t) (int f) (read_at src (att_value a)) (att_len a) h;
     if \<not> ok then Some (False, dest, h) else copy_values src tfs dest h }"

text \<open>The names of the source as the destination can read them.\<close>

definition foreign_desc :: "PGresult \<Rightarrow> PGresAttDesc \<Rightarrow> PGresAttDesc" where
  "foreign_desc src d = d\<lparr>att_name := (case read_at src (att_name d) of None \<Rightarrow> NULL | Some s \<Rightarrow> Foreign s)\<rparr>"

definition PQcopyResult :: "PGresult option \<Rightarrow> int \<Rightarrow> heap \<Rightarrow> (PGresult option \<times> heap) option" where
  "PQcopyResult src flags h =
    (case src of
       None \<Rightarrow> Some (None, h)
     | Some s \<Rightarrow> do {
         (dest, h) \<leftarrow> PQmakeEmptyPGresult None PGRES_TUPLES_OK h;
         case dest of
           None \<Rightarrow> Some (None, h)
         | Some d \<Rightarrow> do {
             let dest = Some (d\<lparr>result_encoding := result_encoding s, cmdStatus := cmdStatus s\<rparr>);
             (ok, dest, h) \<leftarrow>
               (if flags AND (PG_COPYRES_ATTRS OR PG_COPYRES_TUPLES) \<noteq> 0
                then PQsetResultAttrs dest (int (numAttributes s)) (map_option (map (foreign_desc s)) (attDescs s)) h
                else Some (True, dest, h));
             if \<not> ok then Some (None, h)
             else do {
               (ok, dest, h) \<leftarrow>
                 (if flags AND PG_COPYRES_TUPLES \<noteq> 0
                  then copy_values s (List.product [0..<ntups s] [0..<numAttributes s]) dest h
                  else Some (True, dest, h));
               if \<not> ok then Some (None, h) else Some (dest, h) } } })"


section \<open>Freeing\<close>

text \<open>The blocks of memory that are given back, in order; the loop follows the chain of blocks.\<close>

datatype freed = Block nat | Tuple_array | Result_struct

definition PQclear :: "PGresult option \<Rightarrow> freed list" where
  "PQclear res = (case res of None \<Rightarrow> []
     | Some r \<Rightarrow> map Block (chain r) @ (if tuples_room r > 0 then [Tuple_array] else []) @ [Result_struct])"

section \<open>Access functions\<close>

definition PQresultStatus :: "PGresult option \<Rightarrow> ExecStatusType" where
  "PQresultStatus res = (case res of None \<Rightarrow> PGRES_FATAL_ERROR | Some r \<Rightarrow> resultStatus r)"

text \<open>The string at the pointer that is returned.\<close>

definition PQresultErrorMessage :: "PGresult option \<Rightarrow> byte list option" where
  "PQresultErrorMessage res = (case res of None \<Rightarrow> Some [0]
     | Some r \<Rightarrow> if errMsg r = NULL then Some [0] else read_at r (errMsg r))"

fun find_field :: "(byte \<times> ptr) list \<Rightarrow> byte \<Rightarrow> ptr" where
  "find_field [] code = NULL"
| "find_field ((c, p) # fs) code = (if c = code then p else find_field fs code)"

definition PQresultErrorField :: "PGresult option \<Rightarrow> byte \<Rightarrow> ptr" where
  "PQresultErrorField res fieldcode = (case res of None \<Rightarrow> NULL | Some r \<Rightarrow> find_field (errFields r) fieldcode)"

text \<open>The structure \<open>PGMessageField\<close> has 5 bytes in front of its contents.\<close>

definition pqSaveMessageField :: "PGresult \<Rightarrow> byte \<Rightarrow> byte list \<Rightarrow> heap \<Rightarrow> (PGresult \<times> heap) option" where
  "pqSaveMessageField res code msg h = do {
     n \<leftarrow> strlen msg;
     (p, res, h) \<leftarrow> result_alloc res (size_t (5 + n + 1)) True h;
     case p of
       In_block b off \<Rightarrow> do {
         res \<leftarrow> write_at res (In_block b (off + 5)) (take (n + 1) msg);
         Some (res\<lparr>errFields := (code, In_block b (off + 5)) # errFields res\<rparr>, h) }
     | _ \<Rightarrow> Some (res, h) }"

definition PQntuples :: "PGresult option \<Rightarrow> int" where
  "PQntuples res = (case res of None \<Rightarrow> 0 | Some r \<Rightarrow> int (ntups r))"

definition PQnfields :: "PGresult option \<Rightarrow> int" where
  "PQnfields res = (case res of None \<Rightarrow> 0 | Some r \<Rightarrow> int (numAttributes r))"

definition PQbinaryTuples :: "PGresult option \<Rightarrow> bool" where
  "PQbinaryTuples res = (case res of None \<Rightarrow> False | Some r \<Rightarrow> binary_tuples r)"

text \<open>An attribute of a column, or the value that stands for none.\<close>

definition attr :: "(PGresAttDesc \<Rightarrow> 'a) \<Rightarrow> 'a \<Rightarrow> PGresult option \<Rightarrow> int \<Rightarrow> 'a option" where
  "attr g none res field_num =
    (if \<not> check_field_number res field_num then Some none
     else case res of None \<Rightarrow> None
       | Some r \<Rightarrow> (case attDescs r of None \<Rightarrow> Some none
           | Some ds \<Rightarrow> if nat field_num < length ds then Some (g (ds ! nat field_num)) else None))"

definition PQfname :: "PGresult option \<Rightarrow> int \<Rightarrow> ptr option" where "PQfname = attr att_name NULL"
definition PQftable :: "PGresult option \<Rightarrow> int \<Rightarrow> nat option" where "PQftable = attr tableid 0"
definition PQftablecol :: "PGresult option \<Rightarrow> int \<Rightarrow> int option" where "PQftablecol = attr columnid 0"
definition PQfformat :: "PGresult option \<Rightarrow> int \<Rightarrow> int option" where "PQfformat = attr att_format 0"
definition PQftype :: "PGresult option \<Rightarrow> int \<Rightarrow> nat option" where "PQftype = attr typid 0"
definition PQfsize :: "PGresult option \<Rightarrow> int \<Rightarrow> int option" where "PQfsize = attr typlen 0"
definition PQfmod :: "PGresult option \<Rightarrow> int \<Rightarrow> int option" where "PQfmod = attr atttypmod 0"

definition attval_at :: "PGresult \<Rightarrow> int \<Rightarrow> int \<Rightarrow> PGresAttValue option" where
  "attval_at r t f =
    (if nat t < length (tuples r) \<and> nat f < length (tuples r ! nat t) then Some (tuples r ! nat t ! nat f) else None)"

definition PQgetvalue :: "PGresult option \<Rightarrow> int \<Rightarrow> int \<Rightarrow> ptr option" where
  "PQgetvalue res tup_num field_num =
    (if \<not> check_tuple_field_number res tup_num field_num then Some NULL
     else do { r \<leftarrow> res; a \<leftarrow> attval_at r tup_num field_num; Some (att_value a) })"

definition PQgetlength :: "PGresult option \<Rightarrow> int \<Rightarrow> int \<Rightarrow> int option" where
  "PQgetlength res tup_num field_num =
    (if \<not> check_tuple_field_number res tup_num field_num then Some 0
     else do { r \<leftarrow> res; a \<leftarrow> attval_at r tup_num field_num; Some (if att_len a \<noteq> NULL_LEN then att_len a else 0) })"

definition PQgetisnull :: "PGresult option \<Rightarrow> int \<Rightarrow> int \<Rightarrow> bool option" where
  "PQgetisnull res tup_num field_num =
    (if \<not> check_tuple_field_number res tup_num field_num then Some True
     else do { r \<leftarrow> res; a \<leftarrow> attval_at r tup_num field_num; Some (att_len a = NULL_LEN) })"

definition PQnparams :: "PGresult option \<Rightarrow> int" where
  "PQnparams res = (case res of None \<Rightarrow> 0 | Some r \<Rightarrow> int (numParameters r))"

definition PQparamtype :: "PGresult option \<Rightarrow> int \<Rightarrow> nat option" where
  "PQparamtype res param_num =
    (if \<not> check_param_number res param_num then Some 0
     else do { r \<leftarrow> res;
       case paramDescs r of None \<Rightarrow> Some 0
       | Some ps \<Rightarrow> if nat param_num < length ps then Some (ps ! nat param_num) else None })"

section \<open>Column numbers by name\<close>

text \<open>\<open>isupper\<close> and \<open>tolower\<close> of the C library, in the locale of the program.\<close>

record ctype =
  isupper :: "byte \<Rightarrow> bool"
  tolower :: "byte \<Rightarrow> byte"

definition pg_tolower :: "ctype \<Rightarrow> byte \<Rightarrow> byte" where
  "pg_tolower ct ch =
    (if 65 \<le> ch \<and> ch \<le> 90 then ch + 32
     else if IS_HIGHBIT_SET ch \<and> isupper ct ch then tolower ct ch
     else ch)"

text \<open>\<open>char\<close> is signed, so a byte with the high bit never equals the \<open>unsigned char\<close> it is folded to.\<close>

fun all_lower :: "ctype \<Rightarrow> byte list \<Rightarrow> bool option" where
  "all_lower ct [] = None"
| "all_lower ct (c # cs) =
    (if c = 0 then Some True
     else if c = 34 \<or> IS_HIGHBIT_SET c \<or> c \<noteq> pg_tolower ct c then Some False
     else all_lower ct cs)"

text \<open>The loop that removes quotes; the result is written over the copy, which it never overtakes.\<close>

fun fold_name :: "ctype \<Rightarrow> bool \<Rightarrow> byte list \<Rightarrow> byte list option" where
  "fold_name ct in_quotes [] = None"
| "fold_name ct in_quotes (c # cs) =
    (if c = 0 then Some []
     else if in_quotes then
       (if c = 34 then
          (case cs of
             [] \<Rightarrow> None
           | d # ds \<Rightarrow> if d = 34 then map_option (\<lambda>r. 34 # r) (fold_name ct True ds) else fold_name ct False cs)
        else map_option (\<lambda>r. c # r) (fold_name ct True cs))
     else if c = 34 then fold_name ct True cs
     else map_option (\<lambda>r. pg_tolower ct c # r) (fold_name ct False cs))"

text \<open>The first attribute, of those from \<open>i\<close> on, whose name equals the given string.\<close>

fun find_column :: "PGresult \<Rightarrow> byte list \<Rightarrow> PGresAttDesc list \<Rightarrow> nat \<Rightarrow> int option" where
  "find_column r s [] i = Some (-1)"
| "find_column r s (d # ds) i = do {
     nm \<leftarrow> read_at r (att_name d);
     n \<leftarrow> strlen nm;
     if take n nm = s then Some (int i) else find_column r s ds (i + 1) }"

definition PQfnumber :: "ctype \<Rightarrow> PGresult option \<Rightarrow> byte list option \<Rightarrow> heap \<Rightarrow> (int \<times> heap) option" where
  "PQfnumber ct res field_name h =
    (case res of
       None \<Rightarrow> Some (-1, h)
     | Some r \<Rightarrow> (case field_name of
         None \<Rightarrow> Some (-1, h)
       | Some fname \<Rightarrow> do {
           c \<leftarrow> peek fname 0;
           if c = 0 then Some (-1, h)
           else case attDescs r of
             None \<Rightarrow> Some (-1, h)
           | Some ds \<Rightarrow>
               if length ds < numAttributes r then None
               else do {
                 low \<leftarrow> all_lower ct fname;
                 n \<leftarrow> strlen fname;
                 i \<leftarrow> (if low then find_column r (take n fname) (take (numAttributes r) ds) 0 else Some (-1));
                 if low \<and> i \<ge> 0 then Some (i, h)
                 else do {
                   let (ok, h) = next_answer h;
                   if \<not> ok then Some (-1, h)
                   else do {
                     field_case \<leftarrow> fold_name ct False fname;
                     i \<leftarrow> find_column r field_case (take (numAttributes r) ds) 0;
                     Some (i, h) } } } }))"

section \<open>Command tags\<close>

definition starts_with :: "byte list \<Rightarrow> string \<Rightarrow> bool" where
  "starts_with s p \<longleftrightarrow> take (length p) (c_string s) = map of_char p"

definition is_digit :: "byte \<Rightarrow> bool" where
  "is_digit c \<longleftrightarrow> 48 \<le> c \<and> c \<le> 57"

text \<open>The result is a copy of at most 23 digits.\<close>

definition PQoidStatus :: "PGresult option \<Rightarrow> byte list" where
  "PQoidStatus res = (case res of None \<Rightarrow> []
     | Some r \<Rightarrow> if \<not> starts_with (cmdStatus r) ''INSERT '' then []
         else take 23 (takeWhile is_digit (drop 7 (c_string (cmdStatus r)))))"

text \<open>\<open>strtoul\<close> of a string of digits, in a \<open>long\<close> of 32 bits: the largest number when it overflows.\<close>

definition strtoul10 :: "byte list \<Rightarrow> nat" where
  "strtoul10 ds = min (2 ^ 32 - 1) (foldl (\<lambda>v d. v * 10 + (unat d - 48)) 0 ds)"

definition PQoidValue :: "PGresult option \<Rightarrow> nat" where
  "PQoidValue res = (case res of None \<Rightarrow> 0
     | Some r \<Rightarrow>
         let s = drop 7 (c_string (cmdStatus r)); ds = takeWhile is_digit s; rest = dropWhile is_digit s in
         if \<not> starts_with (cmdStatus r) ''INSERT '' \<or> ds = [] then 0
         else if rest = [] \<or> hd rest = 32 then strtoul10 ds else 0)"

definition check_count :: "byte list \<Rightarrow> byte list" where
  "check_count p = (if p \<noteq> [] \<and> list_all is_digit p then p else [])"

definition PQcmdTuples :: "PGresult option \<Rightarrow> byte list" where
  "PQcmdTuples res = (case res of None \<Rightarrow> []
     | Some r \<Rightarrow>
         let s = cmdStatus r; t = c_string s in
         if starts_with s ''INSERT '' then
           (let p = dropWhile (\<lambda>c. c \<noteq> 32) (drop 7 t) in if p = [] then [] else check_count (drop 1 p))
         else if starts_with s ''SELECT '' \<or> starts_with s ''DELETE '' \<or> starts_with s ''UPDATE '' then check_count (drop 7 t)
         else if starts_with s ''FETCH '' then check_count (drop 6 t)
         else if starts_with s ''MOVE '' \<or> starts_with s ''COPY '' then check_count (drop 5 t)
         else [])"


section \<open>Objects in the space of a result\<close>

text \<open>The bytes \<open>bs\<close> are stored at \<open>p\<close>, in space that has been given out.\<close>

fun holds :: "PGresult \<Rightarrow> ptr \<Rightarrow> byte list \<Rightarrow> bool" where
  "holds res (In_block b off) bs = (owned res (In_block b off) (length bs) \<and> take (length bs) (drop off (blocks res ! b)) = bs)"
| "holds res p bs = False"

text \<open>Only the space of the result has changed, and every object in it is still there.\<close>

definition grown :: "PGresult \<Rightarrow> PGresult \<Rightarrow> bool" where
  "grown res res' \<longleftrightarrow> (\<exists>bl ch co sl. res' = res\<lparr>blocks := bl, chain := ch, curOffset := co, spaceLeft := sl\<rparr>)
     \<and> (\<forall>p bs. holds res p bs \<longrightarrow> holds res' p bs)"

lemma grown_refl [simp]: "grown res res"
  unfolding grown_def
  by (intro conjI exI [of _ "blocks res"] exI [of _ "chain res"] exI [of _ "curOffset res"] exI [of _ "spaceLeft res"]) simp_all

lemma grown_trans: "grown a b \<Longrightarrow> grown b c \<Longrightarrow> grown a c"
  unfolding grown_def by (elim conjE exE) auto

lemma grown_fields:
  assumes "grown res res'"
  shows "ntups res' = ntups res" "numAttributes res' = numAttributes res" "attDescs res' = attDescs res" "tuples res' = tuples res"
    "tuples_room res' = tuples_room res" "tupArrSize res' = tupArrSize res" "resultStatus res' = resultStatus res"
  using assms unfolding grown_def by auto

lemma grown_more:
  assumes "grown r r'"
  shows "errMsg r' = errMsg r" "errFields r' = errFields r" "errQuery r' = errQuery r" "cmdStatus r' = cmdStatus r"
    "result_encoding r' = result_encoding r" "numParameters r' = numParameters r" "paramDescs r' = paramDescs r"
    "binary_tuples r' = binary_tuples r"
  using assms unfolding grown_def by auto

lemma grown_holds: "grown res res' \<Longrightarrow> holds res p bs \<Longrightarrow> holds res' p bs"
  by (simp add: grown_def)

lemma kept_grown: "space_kept res res' \<Longrightarrow> grown res res'"
proof -
  assume k: "space_kept res res'"
  then obtain bl ch co sl where r: "res' = res\<lparr>blocks := blocks res @ bl, chain := ch, curOffset := co, spaceLeft := sl\<rparr>"
    unfolding space_kept_def by blast
  have "holds res' p bs" if "holds res p bs" for p bs
  proof (cases p)
    case (In_block b off)
    have o: "owned res p (length bs)" using that In_block by simp
    have "owned res' p (length bs)" "b < length (blocks res)" using owned_kept [OF o k] o In_block by simp_all
    moreover have "blocks res' ! b = blocks res ! b" using \<open>b < length (blocks res)\<close> by (simp add: r nth_append)
    ultimately show ?thesis using that In_block by simp
  qed (use that in simp_all)
  then show ?thesis unfolding grown_def using r by blast
qed

text \<open>Allocating space and filling it.\<close>

lemma alloc_write:
  assumes inv: "space_inv res" and n: "bs \<noteq> []" "length bs + 8 < 2 ^ 32"
  shows "\<exists>p res1 h1. result_alloc res (length bs) bin h = Some (p, res1, h1)
    \<and> (p = NULL \<and> space_inv res1 \<and> grown res res1
       \<or> p \<noteq> NULL \<and> (\<exists>res2. write_at res1 p bs = Some res2 \<and> space_inv res2 \<and> grown res res2 \<and> holds res2 p bs))
    \<and> (\<forall>k. plenty (Suc k) h \<longrightarrow> p \<noteq> NULL \<and> plenty k h1)"
proof -
  obtain p res1 h1 where a: "result_alloc res (length bs) bin h = Some (p, res1, h1)" "space_inv res1" "space_kept res res1"
    "p = NULL \<or> owned res1 p (length bs) \<and> unused res p" "\<And>k. plenty (Suc k) h \<Longrightarrow> p \<noteq> NULL \<and> plenty k h1"
    using result_alloc_ok [OF inv _ n(2), of bin h] n(1) unfolding alloc_ok_def by auto
  show ?thesis
  proof (cases "p = NULL")
    case True
    then show ?thesis using a kept_grown [OF a(3)] by blast
  next
    case False
    then have o: "owned res1 p (length bs)" "unused res p" using a(4) by simp_all
    then obtain b off where p: "p = In_block b off" "b < length (blocks res1)" "off + length bs \<le> used res1 b" by (cases p) auto
    have l: "off + length bs \<le> length (blocks res1 ! b)" using p used_le [OF a(2), of b] by simp
    define B where "B = take off (blocks res1 ! b) @ bs @ drop (off + length bs) (blocks res1 ! b)"
    have bl: "blit (blocks res1 ! b) off bs = Some B" using l by (simp add: blit_def B_def)
    have lB: "length B = length (blocks res1 ! b)" using l by (simp add: B_def)
    let ?r = "res1\<lparr>blocks := (blocks res1)[b := B]\<rparr>"
    have w: "write_at res1 p bs = Some ?r" using p bl by (simp add: write_at_def)
    have len: "length (blocks ?r ! i) = length (blocks res1 ! i)" for i using lB p(2) by (cases "i = b") simp_all
    have us: "used ?r i = used res1 i" for i using len by (simp add: used_def)
    have inv2: "space_inv ?r" using a(2) len unfolding space_inv_def by simp
    have hp: "holds ?r p bs" using p us l by (simp add: B_def)
    have old: "holds ?r q v" if h: "holds res q v" for q v
    proof -
      obtain b' off' where q: "q = In_block b' off'" "b' < length (blocks res)" "off' + length v \<le> used res b'" using h by (cases q) auto
      have h1: "holds res1 q v" by (rule grown_holds [OF kept_grown [OF a(3)] h])
      have "take (length v) (drop off' (blocks ?r ! b')) = v"
      proof (cases "b' = b")
        case True
        then have "off' + length v \<le> off" using q o(2) p(1) by auto
        then have "take (length v) (drop off' B) = take (length v) (drop off' (blocks res1 ! b))" using l by (simp add: B_def take_drop)
        then show ?thesis using True h1 q(1) p(2) by simp
      qed (use h1 q(1) in simp)
      then show ?thesis using h1 q(1) us by simp
    qed
    obtain bl ch co sl where "res1 = res\<lparr>blocks := blocks res @ bl, chain := ch, curOffset := co, spaceLeft := sl\<rparr>"
      using a(3) unfolding space_kept_def by blast
    then have "?r = res\<lparr>blocks := (blocks res1)[b := B], chain := ch, curOffset := co, spaceLeft := sl\<rparr>" by simp
    then have "grown res ?r" unfolding grown_def using old by blast
    then show ?thesis using a(1,5) False w inv2 hp by blast
  qed
qed


section \<open>The table that a result represents\<close>

text \<open>\<open>Broken\<close> is a field that was left without a value when memory ran out.\<close>

datatype cell = Null | Value "byte list" | Broken

fun value_is :: "PGresult \<Rightarrow> PGresAttValue \<Rightarrow> cell \<Rightarrow> bool" where
  "value_is res a Null = (a = null_value)"
| "value_is res a (Value v) = (att_len a = int (length v)
     \<and> (holds res (att_value a) (v @ [0]) \<or> v = [] \<and> att_value a = Null_field))"
| "value_is res a Broken = (att_value a = NULL)"

text \<open>The array of tuples has room for the tuples, and for all that fit a size of 32 bits.\<close>

definition array_ok :: "PGresult \<Rightarrow> bool" where
  "array_ok res \<longleftrightarrow> 0 \<le> tupArrSize res \<and> tupArrSize res < 2 ^ 30 \<and> tuples_room res = nat (tupArrSize res)
     \<and> ntups res \<le> tuples_room res"

definition represents :: "PGresult \<Rightarrow> cell list list \<Rightarrow> bool" where
  "represents res T \<longleftrightarrow> space_inv res \<and> array_ok res \<and> length (tuples res) = ntups res
     \<and> list_all (\<lambda>row. length row = numAttributes res) (tuples res)
     \<and> list_all2 (list_all2 (value_is res)) (tuples res) T"

lemma value_is_grown: "grown res res' \<Longrightarrow> value_is res a c \<Longrightarrow> value_is res' a c"
  by (cases c) (auto simp: grown_holds split: if_splits)

lemma table_grown:
  assumes "grown res res'" "list_all2 (list_all2 (value_is res)) rows T"
  shows "list_all2 (list_all2 (value_is res')) rows T"
  by (rule list_all2_mono [OF assms(2)]) (auto elim!: list_all2_mono intro: value_is_grown [OF assms(1)])

lemma represents_grown:
  assumes r: "represents res T" and g: "grown res res'" and inv: "space_inv res'"
  shows "represents res' T"
  using assms table_grown [OF g, of "tuples res" T] grown_fields [OF g] by (simp add: represents_def array_ok_def)

lemma represents_sizes:
  assumes "represents res T"
  shows "length T = ntups res" "t < length T \<Longrightarrow> length (T ! t) = numAttributes res"
    "t < length T \<Longrightarrow> f < numAttributes res \<Longrightarrow> value_is res (tuples res ! t ! f) (T ! t ! f)"
proof -
  have t: "length (tuples res) = ntups res" "list_all (\<lambda>row. length row = numAttributes res) (tuples res)"
    "list_all2 (list_all2 (value_is res)) (tuples res) T"
    using assms by (simp_all add: represents_def)
  show l: "length T = ntups res" using list_all2_lengthD [OF t(3)] t(1) by simp
  assume lt: "t < length T"
  have row: "list_all2 (value_is res) (tuples res ! t) (T ! t)" using list_all2_nthD [OF t(3), of t] lt l t(1) by simp
  have n: "length (tuples res ! t) = numAttributes res" using t(1,2) lt l by (simp add: list_all_length)
  show "length (T ! t) = numAttributes res" using list_all2_lengthD [OF row] n by simp
  show "f < numAttributes res \<Longrightarrow> value_is res (tuples res ! t ! f) (T ! t ! f)" using list_all2_nthD [OF row, of f] n by simp
qed

section \<open>Setting a value\<close>

text \<open>The table with one more cell set; setting a cell of the row behind the last one adds a row.\<close>

definition set_cell :: "cell list list \<Rightarrow> nat \<Rightarrow> nat \<Rightarrow> nat \<Rightarrow> cell \<Rightarrow> cell list list" where
  "set_cell T n t f c = (let T' = (if t = length T then T @ [replicate n Null] else T) in T'[t := (T' ! t)[f := c]])"

definition cell_of :: "byte list option \<Rightarrow> int \<Rightarrow> cell" where
  "cell_of v len = (case v of None \<Rightarrow> Null | Some bs \<Rightarrow> if len = NULL_LEN then Null else Value (take (nat len) bs))"

lemma put_attval_represents:
  assumes r: "represents res T" and t: "t < length T" and f: "f < numAttributes res"
    and v: "value_is res (g (tuples res ! t ! f)) c"
  shows "represents (put_attval t f g res) (T[t := (T ! t)[f := c]])"
proof -
  let ?r = "put_attval t f g res"
  have d: "holds ?r p bs = holds res p bs" for p bs by (cases p) (simp_all add: put_attval_def used_def)
  have vi: "value_is ?r a x = value_is res a x" for a x by (cases x) (simp_all add: d)
  have s: "space_inv ?r = space_inv res" by (simp add: space_inv_def put_attval_def)
  have l: "length (tuples res) = ntups res" "list_all (\<lambda>row. length row = numAttributes res) (tuples res)"
    "list_all2 (list_all2 (value_is res)) (tuples res) T" "length T = ntups res"
    using r represents_sizes(1) [OF r] by (simp_all add: represents_def)
  have row: "list_all2 (value_is res) (tuples res ! t) (T ! t)" using list_all2_nthD [OF l(3), of t] t l by simp
  have "list_all2 (list_all2 (value_is res)) ((tuples res)[t := (tuples res ! t)[f := g (tuples res ! t ! f)]]) (T[t := (T ! t)[f := c]])"
    by (intro list_all2_update_cong l(3) row v)
  moreover have "list_all (\<lambda>row. length row = numAttributes res) ((tuples res)[t := (tuples res ! t)[f := g (tuples res ! t ! f)]])"
    using l(1,2) t l(4) by (auto simp: list_all_length nth_list_update)
  moreover have "value_is ?r = value_is res" using vi by (intro ext) simp
  ultimately show ?thesis using r s by (simp add: represents_def put_attval_def array_ok_def)
qed

lemma store_value_result:
  assumes r: "represents res T" and t: "t < length T" and f: "f < numAttributes res"
    and len: "len < int INT_MAX" "case value of None \<Rightarrow> True | Some v \<Rightarrow> len \<le> int (length v)"
  shows "\<exists>ok res' h'. store_value res t f value len h = Some (ok, res', h')
    \<and> represents res' (T[t := (T ! t)[f := (if ok then cell_of value len else Broken)]])
    \<and> numAttributes res' = numAttributes res \<and> attDescs res' = attDescs res
    \<and> (\<forall>p bs. holds res p bs \<longrightarrow> holds res' p bs)
    \<and> (\<forall>k. plenty (Suc k) h \<longrightarrow> ok \<and> plenty k h')"
proof -
  have pm: "plenty k h" if "plenty (Suc k) h" for k using plenty_mono [OF that, of k] by simp
  have pf: "holds (put_attval t f g x) p bs = holds x p bs" "numAttributes (put_attval t f g x) = numAttributes x"
    "attDescs (put_attval t f g x) = attDescs x" for g x p bs
    by (cases p) (simp_all add: put_attval_def used_def)
  have direct: ?thesis if "store_value res t f value len h = Some (True, put_attval t f (\<lambda>_. a) res, h)" "value_is res a (cell_of value len)" for a
    using that put_attval_represents [OF r t f, of "\<lambda>_. a" "cell_of value len"] pf pm
    by (intro exI [of _ True] exI [of _ "put_attval t f (\<lambda>_. a) res"] exI [of _ h]) simp
  consider "(if len = NULL_LEN then None else value) = None" | v where "value = Some v" "len \<noteq> NULL_LEN" "len \<le> 0"
    | v where "value = Some v" "0 < len"
    by (cases "value"; cases "len = NULL_LEN"; cases "len \<le> 0") (auto simp: NULL_LEN_def)
  then show ?thesis
  proof cases
    case 1
    have e: "store_value res t f value len h = Some (True, put_attval t f (\<lambda>_. null_value) res, h)"
      unfolding store_value_def 1 by simp
    have "cell_of value len = Null" using 1 by (auto simp: cell_of_def split: option.splits if_splits)
    then show ?thesis by (intro direct [OF e]) simp
  next
    case 2
    have e: "store_value res t f value len h = Some (True, put_attval t f (\<lambda>_. \<lparr>att_len = 0, att_value = Null_field\<rparr>) res, h)"
      using 2 by (simp add: store_value_def)
    show ?thesis using 2 by (intro direct [OF e]) (simp add: cell_of_def)
  next
    case 3
    have nl: "len \<noteq> NULL_LEN" "\<not> len \<le> 0" "\<not> length v < nat len" using 3 len(2) by (auto simp: NULL_LEN_def)
    let ?bs = "take (nat len) v @ [0]"
    have l: "length (take (nat len) v) = nat len" using nl(3) by simp
    have sz: "size_of_int (int32 (len + 1)) = length ?bs"
      using 3 len(1) l by (simp add: int32_id size_of_int_id INT_MAX_eq nat_add_distrib)
    have small: "length ?bs + 8 < 2 ^ 32" using len(1) l by (simp add: INT_MAX_eq)
    obtain p res1 h1 where a: "result_alloc res (length ?bs) True h = Some (p, res1, h1)"
      "p = NULL \<and> space_inv res1 \<and> grown res res1
       \<or> p \<noteq> NULL \<and> (\<exists>res2. write_at res1 p ?bs = Some res2 \<and> space_inv res2 \<and> grown res res2 \<and> holds res2 p ?bs)"
      "\<forall>k. plenty (Suc k) h \<longrightarrow> p \<noteq> NULL \<and> plenty k h1"
      using alloc_write [OF r[unfolded represents_def, THEN conjunct1] _ small, of True h] by blast
    show ?thesis
    proof (cases "p = NULL")
      case True
      then have g: "grown res res1" "space_inv res1" using a(2) by simp_all
      note r1 = represents_grown [OF r g]
      have e: "store_value res t f value len h = Some (False, put_attval t f (\<lambda>x. x\<lparr>att_value := NULL\<rparr>) res1, h1)"
        using 3 nl True a(1) by (simp add: store_value_def sz)
      have "represents (put_attval t f (\<lambda>x. x\<lparr>att_value := NULL\<rparr>) res1) (T[t := (T ! t)[f := Broken]])"
        by (rule put_attval_represents [OF r1 t]) (use f grown_fields [OF g(1)] in simp_all)
      then show ?thesis using e a(3) True pf grown_fields [OF g(1)] grown_holds [OF g(1)]
        by (intro exI [of _ False] exI [of _ "put_attval t f (\<lambda>x. x\<lparr>att_value := NULL\<rparr>) res1"] exI [of _ h1]) simp
    next
      case False
      then obtain res2 where w: "write_at res1 p ?bs = Some res2" "space_inv res2" "grown res res2" "holds res2 p ?bs"
        using a(2) by blast
      note r2 = represents_grown [OF r w(3,2)]
      let ?a = "\<lparr>att_len = len, att_value = p\<rparr>"
      have e: "store_value res t f value len h = Some (True, put_attval t f (\<lambda>_. ?a) res2, h1)"
        using 3 nl False a(1) w(1) by (simp add: store_value_def sz)
      have c: "cell_of value len = Value (take (nat len) v)" using 3 nl by (simp add: cell_of_def)
      have "take (nat len) v \<noteq> []" using l 3 by auto
      then have "value_is res2 ?a (cell_of value len)" unfolding c using w(4) l 3(2) by simp
      then have "represents (put_attval t f (\<lambda>_. ?a) res2) (T[t := (T ! t)[f := cell_of value len]])"
        by (intro put_attval_represents [OF r2 t]) (use f grown_fields [OF w(3)] in simp_all)
      then show ?thesis using e a(3) False pf grown_fields [OF w(3)] grown_holds [OF w(3)]
        by (intro exI [of _ True] exI [of _ "put_attval t f (\<lambda>_. ?a) res2"] exI [of _ h1]) simp
    qed
  qed
qed


text \<open>Only the array of tuples is changed.\<close>

definition only_tuples :: "PGresult \<Rightarrow> PGresult \<Rightarrow> bool" where
  "only_tuples res res' \<longleftrightarrow> (\<exists>tu n s rm. res' = res\<lparr>tuples := tu, ntups := n, tupArrSize := s, tuples_room := rm\<rparr>)"

lemma only_tuples_fields:
  assumes "only_tuples res res'"
  shows "numAttributes res' = numAttributes res" "attDescs res' = attDescs res" "resultStatus res' = resultStatus res"
    "errMsg res' = errMsg res" "errFields res' = errFields res" "errQuery res' = errQuery res" "cmdStatus res' = cmdStatus res"
    "result_encoding res' = result_encoding res" "numParameters res' = numParameters res" "paramDescs res' = paramDescs res"
    "holds res' p bs = holds res p bs" "space_inv res' = space_inv res"
proof -
  obtain tu n s rm where r: "res' = res\<lparr>tuples := tu, ntups := n, tupArrSize := s, tuples_room := rm\<rparr>"
    using assms unfolding only_tuples_def by blast
  show "numAttributes res' = numAttributes res" "attDescs res' = attDescs res" "resultStatus res' = resultStatus res"
    "errMsg res' = errMsg res" "errFields res' = errFields res" "errQuery res' = errQuery res" "cmdStatus res' = cmdStatus res"
    "result_encoding res' = result_encoding res" "numParameters res' = numParameters res" "paramDescs res' = paramDescs res"
    unfolding r by simp_all
  show "holds res' p bs = holds res p bs" unfolding r by (cases p) (simp_all add: used_def)
  show "space_inv res' = space_inv res" unfolding r by (simp add: space_inv_def)
qed

lemma add_tuple_result:
  assumes r: "represents res T" and small: "ntups res < 2 ^ 29"
    and row: "length row = numAttributes res" "list_all2 (value_is res) row cs"
  shows "\<exists>ok res' h'. pqAddTuple res row h = Some (ok, res', h')
    \<and> represents res' (if ok then T @ [cs] else T) \<and> only_tuples res res' \<and> ntups res' \<le> ntups res + 1
    \<and> (\<forall>k. plenty (Suc k) h \<longrightarrow> ok \<and> plenty k h')"
proof -
  have a: "0 \<le> tupArrSize res" "tupArrSize res < 2 ^ 30" "tuples_room res = nat (tupArrSize res)" "ntups res \<le> tuples_room res"
    "length (tuples res) = ntups res"
    using r by (simp_all add: represents_def array_ok_def)
  have add: "represents (x\<lparr>tuples := take (ntups x) (tuples x) @ [row], ntups := ntups x + 1\<rparr>) (T @ [cs])"
    if x: "x = res\<lparr>tupArrSize := s, tuples_room := nat s\<rparr>" "0 \<le> s" "s < 2 ^ 30" "ntups res < nat s" for x s
  proof -
    let ?y = "x\<lparr>tuples := take (ntups x) (tuples x) @ [row], ntups := ntups x + 1\<rparr>"
    have h: "holds ?y p bs = holds res p bs" for p bs by (cases p) (simp_all add: x(1) used_def)
    have "value_is ?y q c = value_is res q c" for q c by (cases c) (simp_all only: value_is.simps h)
    then have v: "value_is ?y = value_is res" by (intro ext) simp
    have s: "space_inv ?y = space_inv res" by (simp add: space_inv_def x(1))
    have t: "list_all2 (list_all2 (value_is res)) (tuples res) T" "list_all (\<lambda>row. length row = numAttributes res) (tuples res)"
      using r by (simp_all add: represents_def)
    have "list_all2 (list_all2 (value_is res)) (tuples res @ [row]) (T @ [cs])"
      using t(1) row(2) by (simp add: list_all2_appendI)
    then show ?thesis using r x s v t(2) a(5) row(1) by (simp add: represents_def array_ok_def)
  qed
  have only: "only_tuples res (res\<lparr>tupArrSize := s, tuples_room := rm, tuples := tu, ntups := n\<rparr>)" for s rm tu n
    unfolding only_tuples_def by (rule exI [of _ tu], rule exI [of _ n], rule exI [of _ s], rule exI [of _ rm]) simp
  have pm: "plenty k h" if "plenty (Suc k) h" for k using plenty_mono [OF that, of k] by simp
  show ?thesis
  proof (cases "int (ntups res) \<ge> tupArrSize res")
    case False
    then have x: "res = res\<lparr>tupArrSize := tupArrSize res, tuples_room := nat (tupArrSize res)\<rparr>" "ntups res < nat (tupArrSize res)"
      using a by simp_all
    let ?y = "res\<lparr>tuples := take (ntups res) (tuples res) @ [row], ntups := ntups res + 1\<rparr>"
    have e: "pqAddTuple res row h = Some (True, ?y, h)" using False x(2) a(3) by (simp add: pqAddTuple_def)
    have "only_tuples res ?y" using only [where s = "tupArrSize res" and rm = "tuples_room res" and tu = "tuples ?y" and n = "ntups ?y"] by simp
    then show ?thesis using e add [OF x(1) a(1,2) x(2)] pm by (intro exI [of _ True] exI [of _ ?y] exI [of _ h]) simp
  next
    case True
    define s where "s = (if tupArrSize res > 0 then int32 (tupArrSize res * 2) else 128)"
    have "tupArrSize res < 2 ^ 29" using True small by simp
    then have s: "0 \<le> s" "s < 2 ^ 30" "ntups res < nat s" and sz: "size_of_int (s * 4) div 4 = nat s"
      using a True by (auto simp: s_def int32_id size_of_int_id nat_mult_distrib)
    show ?thesis
    proof (cases "fst (next_answer h)")
      case False
      have e: "pqAddTuple res row h = Some (False, res, snd (next_answer h))"
        using True False by (simp add: pqAddTuple_def split_beta Let_def)
      have o: "only_tuples res res" using only [where s = "tupArrSize res" and rm = "tuples_room res" and tu = "tuples res" and n = "ntups res"] by simp
      have "\<not> plenty (Suc k) h" for k using False plenty_next(1) by blast
      then show ?thesis using e r o by (intro exI [of _ False] exI [of _ res] exI [of _ "snd (next_answer h)"]) simp
    next
      case okT: True
      define x where "x = res\<lparr>tupArrSize := s, tuples_room := nat s\<rparr>"
      let ?y = "x\<lparr>tuples := take (ntups x) (tuples x) @ [row], ntups := ntups x + 1\<rparr>"
      have e: "pqAddTuple res row h = Some (True, ?y, snd (next_answer h))"
        using True okT s(3) by (simp add: pqAddTuple_def split_beta Let_def s_def [symmetric] sz x_def)
      have "only_tuples res ?y" using only [where s = s and rm = "nat s" and tu = "tuples ?y" and n = "ntups ?y"] by (simp add: x_def)
      then show ?thesis using e add [OF x_def s] plenty_next(2) [of _ h]
        by (intro exI [of _ True] exI [of _ ?y] exI [of _ "snd (next_answer h)"]) (simp add: x_def)
    qed
  qed
qed

lemma setvalue_result:
  assumes r: "represents res T" and t: "t \<le> ntups res" and f: "f < numAttributes res"
    and len: "len < int INT_MAX" "case value of None \<Rightarrow> True | Some v \<Rightarrow> len \<le> int (length v)"
    and small: "ntups res < 2 ^ 29" "numAttributes res < 2 ^ 28"
  shows "\<exists>ok res' h'. PQsetvalue (Some res) (int t) (int f) value len h = Some (ok, Some res', h')
    \<and> (\<exists>T'. represents res' T' \<and> (if ok then T' = set_cell T (numAttributes res) t f (cell_of value len)
          else T' = T \<or> T' = set_cell T (numAttributes res) t f Broken))
    \<and> numAttributes res' = numAttributes res \<and> attDescs res' = attDescs res
    \<and> (\<forall>p bs. holds res p bs \<longrightarrow> holds res' p bs)
    \<and> (\<forall>k. plenty (Suc (Suc (Suc k))) h \<longrightarrow> ok \<and> plenty k h')"
proof -
  have lT: "length T = ntups res" by (rule represents_sizes(1) [OF r])
  have ck: "check_field_number (Some res) (int f)" "\<not> (int t < 0 \<or> int t > int (ntups res))" using f t by (simp_all add: check_field_number_def)
  show ?thesis
  proof (cases "t = ntups res")
    case False
    then have lt: "t < length T" using t lT by simp
    obtain ok res' h' where s: "store_value res t f value len h = Some (ok, res', h')"
      "represents res' (T[t := (T ! t)[f := (if ok then cell_of value len else Broken)]])"
      "numAttributes res' = numAttributes res" "attDescs res' = attDescs res" "\<forall>p bs. holds res p bs \<longrightarrow> holds res' p bs"
      "\<And>k. plenty (Suc k) h \<Longrightarrow> ok \<and> plenty k h'"
      using store_value_result [OF r lt f len, of h] by blast
    have e: "PQsetvalue (Some res) (int t) (int f) value len h = Some (ok, Some res', h')"
      using ck False s(1) by (simp add: PQsetvalue_def)
    have "plenty (Suc (Suc (Suc k))) h \<Longrightarrow> ok \<and> plenty k h'" for k using s(6) [of k] plenty_mono [of "Suc (Suc (Suc k))" h "Suc k"] by simp
    then show ?thesis using e s(2-5) lt
      by (intro exI [of _ ok] exI [of _ res'] exI [of _ h'] conjI exI [of _ "T[t := (T ! t)[f := (if ok then cell_of value len else Broken)]]"])
        (simp_all add: set_cell_def)
  next
    case True
    have n0: "numAttributes res * sizeof_PGresAttValue \<noteq> 0" "numAttributes res * sizeof_PGresAttValue + 8 < 2 ^ 32"
      "size_t (numAttributes res * sizeof_PGresAttValue) = numAttributes res * sizeof_PGresAttValue"
      using f small(2) by (simp_all add: result_sizes size_t_id)
    obtain p res1 h1 where a: "result_alloc res (numAttributes res * sizeof_PGresAttValue) True h = Some (p, res1, h1)"
      "space_inv res1" "space_kept res res1" "\<And>k. plenty (Suc k) h \<Longrightarrow> p \<noteq> NULL \<and> plenty k h1"
      using result_alloc_ok [OF r[unfolded represents_def, THEN conjunct1] _ n0(2), of True h] n0(1) unfolding alloc_ok_def by auto
    note g = kept_grown [OF a(3)]
    note r1 = represents_grown [OF r g a(2)]
    note gf = grown_fields [OF g]
    show ?thesis
    proof (cases "p = NULL")
      case pN: True
      have e: "PQsetvalue (Some res) (int t) (int f) value len h = Some (False, Some res1, h1)"
        using ck True a(1) pN by (simp add: PQsetvalue_def n0(3))
      have "\<not> plenty (Suc (Suc (Suc k))) h" for k using a(4) [of "Suc (Suc k)"] pN by auto
      then show ?thesis using e r1 gf grown_holds [OF g]
        by (intro exI [of _ False] exI [of _ res1] exI [of _ h1] conjI exI [of _ T]) simp_all
    next
      case pS: False
      have sm: "ntups res1 < 2 ^ 29" using small(1) gf by simp
      let ?row = "replicate (numAttributes res1) null_value"
      have "list_all2 (value_is res1) ?row (replicate (numAttributes res1) Null)" by (simp add: list_all2_conv_all_nth)
      from add_tuple_result [OF r1 sm _ this, of h1] obtain ok2 res2 h2 where b0: "pqAddTuple res1 ?row h1 = Some (ok2, res2, h2)"
        "represents res2 (if ok2 then T @ [replicate (numAttributes res1) Null] else T)" "only_tuples res1 res2"
        "\<And>k. plenty (Suc k) h1 \<Longrightarrow> ok2 \<and> plenty k h2"
        by auto
      have "\<forall>p bs. holds res1 p bs \<longrightarrow> holds res2 p bs" using only_tuples_fields(11) [OF b0(3)] by simp
      note b = b0(1,2) only_tuples_fields(1,2) [OF b0(3)] this b0(4)
      show ?thesis
      proof (cases ok2)
        case False
        have e: "PQsetvalue (Some res) (int t) (int f) value len h = Some (False, Some res2, h2)"
          using ck True a(1) pS b(1) False by (simp add: PQsetvalue_def n0(3))
        have "\<not> plenty (Suc (Suc (Suc k))) h" for k using a(4) [of "Suc (Suc k)"] b(6) [of "Suc k"] False by auto
        then show ?thesis using e b(2-5) gf grown_holds [OF g] False
          by (intro exI [of _ False] exI [of _ res2] exI [of _ h2] conjI exI [of _ T]) simp_all
      next
        case ok2: True
        let ?T = "T @ [replicate (numAttributes res) Null]"
        have r2: "represents res2 ?T" "t < length ?T" "f < numAttributes res2" using b(2,3) ok2 gf True lT f by simp_all
        obtain ok res' h' where s: "store_value res2 t f value len h2 = Some (ok, res', h')"
          "represents res' (?T[t := (?T ! t)[f := (if ok then cell_of value len else Broken)]])"
          "numAttributes res' = numAttributes res2" "attDescs res' = attDescs res2" "\<forall>p bs. holds res2 p bs \<longrightarrow> holds res' p bs"
          "\<And>k. plenty (Suc k) h2 \<Longrightarrow> ok \<and> plenty k h'"
          using store_value_result [OF r2 len, of h2] by blast
        have e: "PQsetvalue (Some res) (int t) (int f) value len h = Some (ok, Some res', h')"
          using ck True a(1) pS b(1) ok2 s(1) by (simp add: PQsetvalue_def n0(3))
        have "plenty (Suc (Suc (Suc k))) h \<Longrightarrow> ok \<and> plenty k h'" for k using a(4) [of "Suc (Suc k)"] b(6) [of "Suc k"] s(6) [of k] by auto
        moreover have "?T[t := (?T ! t)[f := c]] = set_cell T (numAttributes res) t f c" for c using True lT by (simp add: set_cell_def Let_def)
        ultimately show ?thesis using e s(2-5) b(3-5) gf grown_holds [OF g]
          by (intro exI [of _ ok] exI [of _ res'] exI [of _ h'] conjI exI [of _ "?T[t := (?T ! t)[f := (if ok then cell_of value len else Broken)]]"])
            simp_all
      qed
    qed
  qed
qed


lemma holds_read: "holds res p (v @ [0]) \<Longrightarrow> \<exists>rest. read_at res p = Some (v @ 0 # rest)"
proof (cases p)
  case (In_block b off)
  assume h: "holds res p (v @ [0])"
  let ?s = "drop off (blocks res ! b)"
  have "?s = take (length (v @ [0])) ?s @ drop (length (v @ [0])) ?s" by (rule append_take_drop_id [symmetric])
  also have "take (length (v @ [0])) ?s = v @ [0]" using h In_block by simp
  finally have "?s = v @ 0 # drop (length (v @ [0])) ?s" by simp
  then show ?thesis using h In_block by (auto simp: read_at_def)
qed simp_all

text \<open>
  C37: \<open>PQsetvalue\<close> refines the update of a table. For a tuple number up to the number of tuples and a
  field number in range it returns, and when it reports success the result represents the table in
  which exactly the given cell has the given value, where the cell of the tuple behind the last one
  adds a tuple of nulls first; no other value is disturbed. It only fails for lack of memory, and
  then at most that cell is left without a value.
\<close>

theorem PQsetvalue_refines:
  assumes "represents res T" "t \<le> ntups res" "f < numAttributes res" "len < int INT_MAX"
    "case value of None \<Rightarrow> True | Some v \<Rightarrow> len \<le> int (length v)" "ntups res < 2 ^ 29" "numAttributes res < 2 ^ 28"
  shows "\<exists>ok res' h' T'. PQsetvalue (Some res) (int t) (int f) value len h = Some (ok, Some res', h')
    \<and> represents res' T'
    \<and> (if ok then T' = set_cell T (numAttributes res) t f (cell_of value len)
       else \<not> plenty 3 h \<and> (T' = T \<or> T' = set_cell T (numAttributes res) t f Broken))"
proof -
  obtain ok res' h' T' where "PQsetvalue (Some res) (int t) (int f) value len h = Some (ok, Some res', h')" "represents res' T'"
    "if ok then T' = set_cell T (numAttributes res) t f (cell_of value len)
     else T' = T \<or> T' = set_cell T (numAttributes res) t f Broken"
    "\<And>k. plenty (Suc (Suc (Suc k))) h \<Longrightarrow> ok"
    using setvalue_result [OF assms, of h] by blast
  moreover from this(4) [of 0] have "\<not> ok \<Longrightarrow> \<not> plenty 3 h" by (auto simp: numeral_3_eq_3)
  ultimately show ?thesis by (intro exI [of _ ok] exI [of _ res'] exI [of _ h'] exI [of _ T']) (auto split: if_splits)
qed

text \<open>
  C38: The access functions read the table: for a cell in range \<open>PQgetisnull\<close> says whether it is null,
  \<open>PQgetlength\<close> is the length of its value, and the pointer from \<open>PQgetvalue\<close> points to exactly its
  bytes, followed by a NUL byte; a null reads as the empty string.
\<close>

theorem PQgetvalue_reads_table:
  assumes "represents res T" "t < ntups res" "f < numAttributes res" "T ! t ! f \<noteq> Broken"
  shows "PQgetisnull (Some res) (int t) (int f) = Some (T ! t ! f = Null)
    \<and> PQgetlength (Some res) (int t) (int f) = Some (case T ! t ! f of Value v \<Rightarrow> int (length v) | _ \<Rightarrow> 0)
    \<and> (\<exists>p rest. PQgetvalue (Some res) (int t) (int f) = Some p
        \<and> read_at res p = Some ((case T ! t ! f of Value v \<Rightarrow> v | _ \<Rightarrow> []) @ 0 # rest))"
proof -
  have ck: "check_tuple_field_number (Some res) (int t) (int f)" using assms(2,3) by (simp add: check_tuple_field_number_def)
  have lT: "t < length T" using represents_sizes(1) [OF assms(1)] assms(2) by simp
  let ?a = "tuples res ! t ! f"
  have v: "value_is res ?a (T ! t ! f)" by (rule represents_sizes(3) [OF assms(1) lT assms(3)])
  have "t < length (tuples res)" "length (tuples res ! t) = numAttributes res"
    using assms(1,2) by (simp_all add: represents_def list_all_length)
  then have at: "attval_at res (int t) (int f) = Some ?a" using assms(3) by (simp add: attval_at_def)
  have n: "read_at res Null_field = Some ([] @ 0 # [])" by (simp add: read_at_def)
  show ?thesis
  proof (cases "T ! t ! f")
    case Null
    then have "?a = null_value" using v by simp
    then show ?thesis using ck at n Null
      by (simp add: PQgetisnull_def PQgetlength_def PQgetvalue_def null_value_def)
  next
    case (Value x)
    have l: "att_len ?a = int (length x)" "att_len ?a \<noteq> NULL_LEN" using v Value by (simp_all add: NULL_LEN_def)
    have "\<exists>rest. read_at res (att_value ?a) = Some (x @ 0 # rest)"
      using v Value holds_read [of res "att_value ?a" x] n by auto
    then show ?thesis using ck at l Value by (simp add: PQgetisnull_def PQgetlength_def PQgetvalue_def)
  qed (use assms(4) in simp)
qed

section \<open>Copying a result\<close>

text \<open>The name of a column, as a string that can be read at its pointer.\<close>

definition name_is :: "PGresult \<Rightarrow> PGresAttDesc \<Rightarrow> byte list \<Rightarrow> bool" where
  "name_is res d s \<longleftrightarrow> 0 \<notin> set s \<and> (att_name d = Null_field \<and> s = [] \<or> holds res (att_name d) (s @ [0])
     \<or> (\<exists>rest. att_name d = Foreign (s @ 0 # rest)))"

definition named :: "PGresult \<Rightarrow> byte list list \<Rightarrow> bool" where
  "named res N \<longleftrightarrow> (\<exists>ds. attDescs res = Some ds \<and> length ds = numAttributes res \<and> list_all2 (name_is res) ds N)"

lemma name_read: "name_is res d s \<Longrightarrow> \<exists>rest. read_at res (att_name d) = Some (s @ 0 # rest)"
  using holds_read [of res "att_name d" s] by (auto simp: name_is_def read_at_def)

lemma strdup_result:
  assumes inv: "space_inv res" and s: "0 \<notin> set s" "length s + 9 < 2 ^ 32"
  shows "\<exists>p res' h'. pqResultStrdup res (s @ 0 # rest) h = Some (p, res', h') \<and> space_inv res' \<and> grown res res'
    \<and> (p = NULL \<or> holds res' p (s @ [0])) \<and> (\<forall>k. plenty (Suc k) h \<longrightarrow> p \<noteq> NULL \<and> plenty k h')"
proof -
  have l: "size_t (length s + 1) = length (s @ [0])" using s(2) by (simp add: size_t_id)
  have small: "s @ [0] \<noteq> []" "length (s @ [0]) + 8 < 2 ^ 32" using s(2) by simp_all
  obtain p res1 h1 where a: "result_alloc res (length (s @ [0])) False h = Some (p, res1, h1)"
    "p = NULL \<and> space_inv res1 \<and> grown res res1
     \<or> p \<noteq> NULL \<and> (\<exists>res2. write_at res1 p (s @ [0]) = Some res2 \<and> space_inv res2 \<and> grown res res2 \<and> holds res2 p (s @ [0]))"
    "\<forall>k. plenty (Suc k) h \<longrightarrow> p \<noteq> NULL \<and> plenty k h1"
    using alloc_write [OF inv small, of False h] by blast
  have t: "take (length s + 1) (s @ 0 # rest) = s @ [0]" by simp
  note e = pqResultStrdup_def [of res "s @ 0 # rest" h, unfolded strlen_append [OF s(1)] bind.bind_lunit l a(1) prod.case t]
  show ?thesis
  proof (cases "p = NULL")
    case True
    then show ?thesis using a(2,3) by (intro exI [of _ NULL] exI [of _ res1] exI [of _ h1]) (simp add: e)
  next
    case False
    then obtain res2 where w: "write_at res1 p (s @ [0]) = Some res2" "space_inv res2" "grown res res2" "holds res2 p (s @ [0])"
      using a(2) by blast
    then show ?thesis using a(3) False by (intro exI [of _ p] exI [of _ res2] exI [of _ h1]) (simp add: e)
  qed
qed


text \<open>Fields that say nothing about the table and its memory.\<close>

lemma holds_fields [simp]:
  "holds (res\<lparr>attDescs := d\<rparr>) p bs = holds res p bs" "holds (res\<lparr>binary_tuples := b\<rparr>) p bs = holds res p bs"
  "holds (res\<lparr>errMsg := e\<rparr>) p bs = holds res p bs" "holds (res\<lparr>errFields := f\<rparr>) p bs = holds res p bs"
  "holds (res\<lparr>errQuery := e\<rparr>) p bs = holds res p bs" "holds (res\<lparr>resultStatus := st\<rparr>) p bs = holds res p bs"
  "holds (res\<lparr>cmdStatus := s\<rparr>) p bs = holds res p bs" "holds (res\<lparr>numParameters := n\<rparr>) p bs = holds res p bs"
  "holds (res\<lparr>paramDescs := pd\<rparr>) p bs = holds res p bs" "holds (res\<lparr>numAttributes := n\<rparr>) p bs = holds res p bs"
  "holds (res\<lparr>result_encoding := i\<rparr>) p bs = holds res p bs"
  by (cases p; simp add: used_def)+

lemma represents_cong:
  assumes "\<And>p bs. holds res' p bs = holds res p bs" "space_inv res' = space_inv res" "ntups res' = ntups res"
    "numAttributes res' = numAttributes res" "tuples res' = tuples res" "tuples_room res' = tuples_room res" "tupArrSize res' = tupArrSize res"
  shows "represents res' T = represents res T"
proof -
  have "value_is res' a c = value_is res a c" for a c by (cases c) (simp_all add: assms(1))
  then have "value_is res' = value_is res" by (intro ext) simp
  then show ?thesis using assms by (simp add: represents_def array_ok_def)
qed

lemma space_inv_fields [simp]:
  "space_inv (res\<lparr>attDescs := d\<rparr>) = space_inv res" "space_inv (res\<lparr>binary_tuples := b\<rparr>) = space_inv res"
  "space_inv (res\<lparr>errMsg := e\<rparr>) = space_inv res" "space_inv (res\<lparr>errFields := f\<rparr>) = space_inv res"
  "space_inv (res\<lparr>errQuery := e\<rparr>) = space_inv res" "space_inv (res\<lparr>resultStatus := st\<rparr>) = space_inv res"
  "space_inv (res\<lparr>cmdStatus := s\<rparr>) = space_inv res" "space_inv (res\<lparr>numParameters := n\<rparr>) = space_inv res"
  "space_inv (res\<lparr>paramDescs := pd\<rparr>) = space_inv res" "space_inv (res\<lparr>numAttributes := n\<rparr>) = space_inv res"
  "space_inv (res\<lparr>result_encoding := i\<rparr>) = space_inv res"
  by (simp_all add: space_inv_def)

lemma represents_desc [simp]:
  "represents (res\<lparr>attDescs := d\<rparr>) T = represents res T" "represents (res\<lparr>binary_tuples := b\<rparr>) T = represents res T"
  "represents (res\<lparr>errMsg := e\<rparr>) T = represents res T" "represents (res\<lparr>errFields := f\<rparr>) T = represents res T"
  "represents (res\<lparr>errQuery := e\<rparr>) T = represents res T" "represents (res\<lparr>resultStatus := st\<rparr>) T = represents res T"
  "represents (res\<lparr>cmdStatus := s\<rparr>) T = represents res T" "represents (res\<lparr>numParameters := n\<rparr>) T = represents res T"
  "represents (res\<lparr>paramDescs := pd\<rparr>) T = represents res T" "represents (res\<lparr>result_encoding := i\<rparr>) T = represents res T"
  by (rule represents_cong; simp)+

text \<open>A name that the result owns, which lasts as long as the result.\<close>

definition own_name :: "PGresult \<Rightarrow> PGresAttDesc \<Rightarrow> byte list \<Rightarrow> bool" where
  "own_name res d s \<longleftrightarrow> 0 \<notin> set s \<and> holds res (att_name d) (s @ [0])"

definition foreign_name :: "PGresAttDesc \<Rightarrow> byte list \<Rightarrow> bool" where
  "foreign_name d s \<longleftrightarrow> 0 \<notin> set s \<and> (\<exists>rest. att_name d = Foreign (s @ 0 # rest)) \<and> length s + 9 < 2 ^ 32"

text \<open>The fields that neither describe columns nor hold rows.\<close>

definition same_messages :: "PGresult \<Rightarrow> PGresult \<Rightarrow> bool" where
  "same_messages res res' \<longleftrightarrow> resultStatus res' = resultStatus res \<and> errMsg res' = errMsg res \<and> errFields res' = errFields res
     \<and> errQuery res' = errQuery res \<and> result_encoding res' = result_encoding res \<and> cmdStatus res' = cmdStatus res \<and> ntups res' = ntups res"

lemma same_messages_refl [simp]: "same_messages res res"
  by (simp add: same_messages_def)

lemma grown_messages: "grown res res' \<Longrightarrow> same_messages res res'"
  using grown_fields [of res res'] grown_more [of res res'] by (simp add: same_messages_def)

lemma set_attrs_result:
  assumes "represents res T" "attDescs res = Some ds" "length ds = n" "j \<le> n"
    "\<forall>i < j. own_name res (ds ! i) (N ! i)" "\<forall>i < n. j \<le> i \<longrightarrow> foreign_name (ds ! i) (N ! i)"
  shows "\<exists>ok res' h'. set_attrs [j..<n] res h = Some (ok, res', h') \<and> represents res' T \<and> numAttributes res' = numAttributes res
    \<and> same_messages res res'
    \<and> (ok \<longrightarrow> (\<exists>ds'. attDescs res' = Some ds' \<and> length ds' = n \<and> (\<forall>i < n. own_name res' (ds' ! i) (N ! i))))
    \<and> (\<forall>k. plenty (n - j + k) h \<longrightarrow> ok \<and> plenty k h')"
  using assms
proof (induction "n - j" arbitrary: j res ds h)
  case 0
  then show ?case by (intro exI [of _ True] exI [of _ res] exI [of _ h]) simp
next
  case (Suc m)
  then have jn: "j < n" "m = n - Suc j" by simp_all
  then have upt: "[j..<n] = j # [Suc j..<n]" by (simp add: upt_conv_Cons)
  have inv: "space_inv res" using Suc.prems(1) by (simp add: represents_def)
  obtain rest where f: "0 \<notin> set (N ! j)" "att_name (ds ! j) = Foreign (N ! j @ 0 # rest)" "length (N ! j) + 9 < 2 ^ 32"
    using Suc.prems(6) jn(1) unfolding foreign_name_def by blast
  obtain p res1 h1 where a: "pqResultStrdup res (N ! j @ 0 # rest) h = Some (p, res1, h1)" "space_inv res1" "grown res res1"
    "p = NULL \<or> holds res1 p (N ! j @ [0])" "\<And>k. plenty (Suc k) h \<Longrightarrow> p \<noteq> NULL \<and> plenty k h1"
    using strdup_result [OF inv f(1,3), of rest h] by blast
  note r1 = represents_grown [OF Suc.prems(1) a(3,2)]
  define res2 where "res2 = res1\<lparr>attDescs := Some (ds[j := (ds ! j)\<lparr>att_name := p\<rparr>])\<rparr>"
  define res3 where "res3 = (if att_format (ds ! j) = 0 then res2\<lparr>binary_tuples := False\<rparr> else res2)"
  have r3: "represents res2 T" "represents res3 T" "numAttributes res2 = numAttributes res" "numAttributes res3 = numAttributes res"
    "attDescs res3 = Some (ds[j := (ds ! j)\<lparr>att_name := p\<rparr>])" "\<And>q v. holds res3 q v = holds res1 q v"
    "same_messages res res2" "same_messages res res3"
    using r1 grown_fields [OF a(3)] grown_messages [OF a(3)] by (simp_all add: res2_def res3_def same_messages_def)
  have e: "set_attrs [j..<n] res h = (if p = NULL then Some (False, res2, h1) else set_attrs [Suc j..<n] res3 h1)"
    using Suc.prems(2,3) jn(1) f(2) a(1) by (simp add: upt res2_def res3_def read_at_def)
  show ?case
  proof (cases "p = NULL")
    case True
    have "\<not> plenty (n - j + k) h" for k
    proof -
      have "n - j + k = Suc (n - Suc j + k)" using jn(1) by simp
      then show ?thesis using a(5) True by metis
    qed
    then show ?thesis using True r3 by (intro exI [of _ False] exI [of _ res2] exI [of _ h1]) (simp add: e)
  next
    case False
    let ?ds = "ds[j := (ds ! j)\<lparr>att_name := p\<rparr>]"
    have own: "\<forall>i < Suc j. own_name res3 (?ds ! i) (N ! i)"
    proof (intro allI impI)
      fix i assume "i < Suc j"
      show "own_name res3 (?ds ! i) (N ! i)"
      proof (cases "i = j")
        case True
        then show ?thesis using a(4) False f(1) jn(1) Suc.prems(3) r3(6) by (simp add: own_name_def)
      next
        case ne: False
        then have "own_name res (ds ! i) (N ! i)" using Suc.prems(5) \<open>i < Suc j\<close> by simp
        then show ?thesis using ne r3(6) grown_holds [OF a(3)] by (simp add: own_name_def)
      qed
    qed
    have fr: "\<forall>i < n. Suc j \<le> i \<longrightarrow> foreign_name (?ds ! i) (N ! i)" using Suc.prems(6) by auto
    obtain ok res' h' where ih: "set_attrs [Suc j..<n] res3 h1 = Some (ok, res', h')" "represents res' T" "numAttributes res' = numAttributes res3"
      "same_messages res3 res'"
      "ok \<longrightarrow> (\<exists>ds'. attDescs res' = Some ds' \<and> length ds' = n \<and> (\<forall>i < n. own_name res' (ds' ! i) (N ! i)))"
      "\<And>k. plenty (n - Suc j + k) h1 \<Longrightarrow> ok \<and> plenty k h'"
      using Suc.hyps(1) [OF jn(2) r3(2,5) _ _ own fr, of h1] Suc.prems(3) jn(1) by auto
    have "plenty (n - j + k) h \<Longrightarrow> ok \<and> plenty k h'" for k
    proof -
      assume pl: "plenty (n - j + k) h"
      have "n - j + k = Suc (n - Suc j + k)" using jn(1) by simp
      then show ?thesis using a(5) [of "n - Suc j + k"] pl ih(6) [of k] by simp
    qed
    moreover have "same_messages res res'" using ih(4) r3(8) by (simp add: same_messages_def)
    ultimately show ?thesis using False ih(1-3,5) r3(4) by (intro exI [of _ ok] exI [of _ res'] exI [of _ h']) (simp add: e)
  qed
qed

section \<open>The order of the copied cells\<close>

definition copy_step :: "cell list list \<Rightarrow> nat \<Rightarrow> cell list list \<Rightarrow> nat \<times> nat \<Rightarrow> cell list list" where
  "copy_step S n D tf = set_cell D n (fst tf) (snd tf) (S ! fst tf ! snd tf)"

lemma fill_row:
  assumes "length row = n" "S ! length D = row" "j \<le> n" "0 < j"
  shows "foldl (copy_step S n) D (map (Pair (length D)) [0..<j]) = D @ [take j row @ replicate (n - j) Null]"
  using assms(3,4)
proof (induction j)
  case (Suc j)
  have u: "(take j row @ replicate (n - j) Null)[j := row ! j] = take (Suc j) row @ replicate (n - Suc j) Null"
  proof -
    have "replicate (n - j) Null = Null # replicate (n - Suc j) Null" using Suc.prems(1) by (simp flip: replicate_Suc add: Suc_diff_Suc)
    then show ?thesis using Suc.prems(1) assms(1) by (simp add: take_Suc_conv_app_nth list_update_append)
  qed
  show ?case
  proof (cases "j = 0")
    case True
    then show ?thesis using u assms(2) by (simp add: copy_step_def set_cell_def Let_def)
  next
    case False
    then have ih: "foldl (copy_step S n) D (map (Pair (length D)) [0..<j]) = D @ [take j row @ replicate (n - j) Null]"
      using Suc by simp
    have "foldl (copy_step S n) D (map (Pair (length D)) [0..<Suc j]) = copy_step S n (D @ [take j row @ replicate (n - j) Null]) (length D, j)"
      by (simp add: ih)
    also have "\<dots> = D @ [take (Suc j) row @ replicate (n - Suc j) Null]"
      using u assms(2) by (simp add: copy_step_def set_cell_def)
    finally show ?thesis .
  qed
qed simp

lemma fill_table:
  assumes "0 < n" "list_all (\<lambda>row. length row = n) S" "m \<le> length S"
  shows "foldl (copy_step S n) [] (List.product [0..<m] [0..<n]) = take m S"
  using assms(3)
proof (induction m)
  case (Suc m)
  then have ih: "foldl (copy_step S n) [] (List.product [0..<m] [0..<n]) = take m S" "length (take m S) = m" by simp_all
  have p: "List.product [0..<Suc m] [0..<n] = List.product [0..<m] [0..<n] @ map (Pair m) [0..<n]" by (simp add: product_concat_map)
  have "length (S ! m) = n" using assms(2) Suc.prems by (simp add: list_all_length)
  from fill_row [OF this, of S "take m S" n] have "foldl (copy_step S n) (take m S) (map (Pair m) [0..<n]) = take m S @ [S ! m]"
    using ih(2) assms(1) \<open>length (S ! m) = n\<close> by simp
  then show ?case using Suc.prems by (simp add: p ih take_Suc_conv_app_nth del: upt_Suc)
qed simp


text \<open>Every cell of the list can be set when its turn comes: its row is there or the next one.\<close>

fun in_order :: "nat \<Rightarrow> (nat \<times> nat) list \<Rightarrow> bool" where
  "in_order m [] = True"
| "in_order m ((t, f) # tfs) = (t \<le> m \<and> in_order (max m (Suc t)) tfs)"

lemma in_order_append: "in_order m xs \<Longrightarrow> in_order (fold (\<lambda>(t, f) m. max m (Suc t)) xs m) ys \<Longrightarrow> in_order m (xs @ ys)"
  by (induction m xs rule: in_order.induct) auto

lemma in_order_row: "t \<le> m \<Longrightarrow> in_order m (map (Pair t) fs)"
  by (induction fs arbitrary: m) auto

lemma fold_row: "fs \<noteq> [] \<Longrightarrow> fold (\<lambda>(t, f) m. max m (Suc t)) (map (Pair t) fs) m = max m (Suc t)"
proof (induction fs arbitrary: m)
  case (Cons f fs)
  then show ?case by (cases "fs = []") simp_all
qed simp

lemma in_order_product:
  assumes "0 < n"
  shows "in_order 0 (List.product [0..<m] [0..<n]) \<and> fold (\<lambda>(t, f) m. max m (Suc t)) (List.product [0..<m] [0..<n]) 0 = m"
proof (induction m)
  case (Suc m)
  have p: "List.product [0..<Suc m] [0..<n] = List.product [0..<m] [0..<n] @ map (Pair m) [0..<n]" by (simp add: product_concat_map)
  show ?case unfolding p using Suc assms in_order_row [of m m] fold_row [of "[0..<n]" m m] by (auto intro: in_order_append simp: fold_append)
qed simp

lemma set_cell_length: "t \<le> length D \<Longrightarrow> length (set_cell D n t f c) = max (length D) (Suc t)"
  by (simp add: set_cell_def Let_def)

text \<open>What is read at a cell of the source is the value of the cell.\<close>

lemma source_cell:
  assumes "represents src S" "t < length S" "f < numAttributes src" "S ! t ! f \<noteq> Broken" "\<forall>v. S ! t ! f = Value v \<longrightarrow> length v < INT_MAX"
  shows "cell_of (read_at src (att_value (tuples src ! t ! f))) (att_len (tuples src ! t ! f)) = S ! t ! f"
    "att_len (tuples src ! t ! f) < int INT_MAX"
    "case read_at src (att_value (tuples src ! t ! f)) of None \<Rightarrow> True | Some v \<Rightarrow> att_len (tuples src ! t ! f) \<le> int (length v)"
proof -
  let ?a = "tuples src ! t ! f"
  have v: "value_is src ?a (S ! t ! f)" by (rule represents_sizes(3) [OF assms(1-3)])
  have "cell_of (read_at src (att_value ?a)) (att_len ?a) = S ! t ! f \<and> att_len ?a < int INT_MAX
    \<and> (case read_at src (att_value ?a) of None \<Rightarrow> True | Some v \<Rightarrow> att_len ?a \<le> int (length v))"
  proof (cases "S ! t ! f")
    case Null
    then show ?thesis using v by (simp add: null_value_def read_at_def cell_of_def NULL_LEN_def INT_MAX_eq)
  next
    case (Value x)
    have l: "att_len ?a = int (length x)" using v Value by simp
    obtain rest where "read_at src (att_value ?a) = Some (x @ 0 # rest)"
      using v Value holds_read [of src "att_value ?a" x] by (auto simp: read_at_def)
    then show ?thesis using l Value assms(5) by (simp add: cell_of_def NULL_LEN_def)
  qed (use assms(4) in simp)
  then show "cell_of (read_at src (att_value ?a)) (att_len ?a) = S ! t ! f" "att_len ?a < int INT_MAX"
    "case read_at src (att_value ?a) of None \<Rightarrow> True | Some v \<Rightarrow> att_len ?a \<le> int (length v)" by simp_all
qed

text \<open>A table that can be copied: every value is there and fits an \<open>int\<close> with its NUL byte.\<close>

definition whole_table :: "cell list list \<Rightarrow> bool" where
  "whole_table S \<longleftrightarrow> (\<forall>row \<in> set S. \<forall>c \<in> set row. c \<noteq> Broken \<and> (\<forall>v. c = Value v \<longrightarrow> length v < INT_MAX))"

lemma copy_values_result:
  assumes src: "represents src S" "whole_table S" "ntups src < 2 ^ 29" "numAttributes src < 2 ^ 28"
    and d: "represents dest D" "numAttributes dest = numAttributes src" "length D \<le> ntups src"
    and l: "\<forall>(t, f) \<in> set tfs. t < ntups src \<and> f < numAttributes src" "in_order (length D) tfs"
  shows "\<exists>ok dest' h'. copy_values src tfs (Some dest) h = Some (ok, Some dest', h')
    \<and> (ok \<longrightarrow> represents dest' (foldl (copy_step S (numAttributes src)) D tfs))
    \<and> numAttributes dest' = numAttributes dest \<and> attDescs dest' = attDescs dest \<and> (\<forall>p bs. holds dest p bs \<longrightarrow> holds dest' p bs)
    \<and> (\<forall>k. plenty (3 * length tfs + k) h \<longrightarrow> ok \<and> plenty k h')"
  using d l
proof (induction tfs arbitrary: dest D h)
  case Nil
  then show ?case by (intro exI [of _ True] exI [of _ dest] exI [of _ h]) simp
next
  case (Cons tf tfs)
  obtain t f where tf: "tf = (t, f)" by (cases tf)
  have lS: "length S = ntups src" by (rule represents_sizes(1) [OF src(1)])
  have t: "t < length S" "f < numAttributes src" "t \<le> length D" "in_order (max (length D) (Suc t)) tfs"
    using Cons.prems(4,5) lS by (simp_all add: tf)
  have lr: "length (S ! t) = numAttributes src" by (rule represents_sizes(2) [OF src(1) t(1)])
  have "S ! t ! f \<in> set (S ! t)" "S ! t \<in> set S" using t(1,2) lr by simp_all
  then have "S ! t ! f \<noteq> Broken" "\<forall>v. S ! t ! f = Value v \<longrightarrow> length v < INT_MAX"
    using src(2) unfolding whole_table_def by blast+
  note sc = source_cell [OF src(1) t(1,2) this]
  have len3: "3 * length (tf # tfs) + k = Suc (Suc (Suc (3 * length tfs + k)))" for k by simp
  let ?a = "tuples src ! t ! f"
  have lD: "length D = ntups dest" by (rule represents_sizes(1) [OF Cons.prems(1)])
  have pre: "t \<le> ntups dest" "f < numAttributes dest" "ntups dest < 2 ^ 29" "numAttributes dest < 2 ^ 28"
    using t lD Cons.prems(2,3) src(3,4) by simp_all
  obtain ok dest1 h1 D1 where s: "PQsetvalue (Some dest) (int t) (int f) (read_at src (att_value ?a)) (att_len ?a) h = Some (ok, Some dest1, h1)"
    "represents dest1 D1" "if ok then D1 = set_cell D (numAttributes dest) t f (S ! t ! f) else D1 = D \<or> D1 = set_cell D (numAttributes dest) t f Broken"
    "numAttributes dest1 = numAttributes dest" "attDescs dest1 = attDescs dest" "\<forall>p bs. holds dest p bs \<longrightarrow> holds dest1 p bs"
    "\<And>k. plenty (Suc (Suc (Suc k))) h \<Longrightarrow> ok \<and> plenty k h1"
    using setvalue_result [OF Cons.prems(1) pre(1,2) sc(2,3) pre(3,4), of h] unfolding sc(1) by blast
  show ?case
  proof (cases ok)
    case False
    have "\<not> plenty (3 * length (tf # tfs) + k) h" for k unfolding len3 using s(7) [of "3 * length tfs + k"] False by blast
    then show ?thesis using False s by (intro exI [of _ False] exI [of _ dest1] exI [of _ h1]) (simp add: tf del: length_Cons)
  next
    case True
    then have D1: "D1 = copy_step S (numAttributes src) D (t, f)" using s(3) Cons.prems(2) by (simp add: copy_step_def)
    have l1: "length D1 = max (length D) (Suc t)" using D1 t(3) by (simp add: copy_step_def set_cell_length)
    have "numAttributes dest1 = numAttributes src" "length D1 \<le> ntups src" "\<forall>(t, f) \<in> set tfs. t < ntups src \<and> f < numAttributes src"
      "in_order (length D1) tfs"
      using s(4) Cons.prems(2-4) l1 t(1,4) lS by simp_all
    from Cons.IH [OF s(2) this, of h1] obtain ok2 dest2 h2 where
      i: "copy_values src tfs (Some dest1) h1 = Some (ok2, Some dest2, h2)"
      "ok2 \<longrightarrow> represents dest2 (foldl (copy_step S (numAttributes src)) D1 tfs)"
      "numAttributes dest2 = numAttributes dest1" "attDescs dest2 = attDescs dest1" "\<forall>p bs. holds dest1 p bs \<longrightarrow> holds dest2 p bs"
      "\<And>k. plenty (3 * length tfs + k) h1 \<Longrightarrow> ok2 \<and> plenty k h2" by blast
    have "plenty (3 * length (tf # tfs) + k) h \<Longrightarrow> ok2 \<and> plenty k h2" for k
      unfolding len3 using s(7) [of "3 * length tfs + k"] i(6) [of k] by blast
    then show ?thesis using True s(1,4-6) i(1-5) D1
      by (intro exI [of _ ok2] exI [of _ dest2] exI [of _ h2]) (simp add: tf del: length_Cons)
  qed
qed


lemma represents_empty: "represents (empty_result st enc) []"
  by (simp add: represents_def empty_result_def space_inv_def array_ok_def)

lemma represents_numAttributes: "represents res [] \<Longrightarrow> represents (res\<lparr>numAttributes := n\<rparr>) []"
proof -
  assume r: "represents res []"
  have "space_inv (res\<lparr>numAttributes := n\<rparr>) = space_inv res" "array_ok (res\<lparr>numAttributes := n\<rparr>) = array_ok res"
    by (simp_all add: space_inv_def array_ok_def)
  moreover have "length (tuples res) = ntups res" "space_inv res" "array_ok res" using r unfolding represents_def by blast+
  moreover have "tuples res = []" using r by (simp add: represents_def)
  ultimately show ?thesis by (auto simp: represents_def)
qed

lemma foreign_desc_name: "name_is src d s \<Longrightarrow> length s + 9 < 2 ^ 32 \<Longrightarrow> foreign_name (foreign_desc src d) s"
  using name_read [of src d s] by (auto simp: foreign_name_def foreign_desc_def name_is_def)

lemma set_result_attrs:
  assumes d: "represents dest []" "numAttributes dest = 0" and n: "0 < n" "n < 2 ^ 26"
    and ds: "length ds = n" "\<forall>i < n. foreign_name (ds ! i) (N ! i)"
  shows "\<exists>ok dest' h'. PQsetResultAttrs (Some dest) (int n) (Some ds) h = Some (ok, Some dest', h')
    \<and> (ok \<longrightarrow> represents dest' [] \<and> numAttributes dest' = n \<and> same_messages dest dest'
        \<and> (\<exists>ds'. attDescs dest' = Some ds' \<and> length ds' = n \<and> (\<forall>i < n. own_name dest' (ds' ! i) (N ! i))))
    \<and> (\<forall>k. plenty (Suc (n + k)) h \<longrightarrow> ok \<and> plenty k h')"
proof -
  have sz: "size_of_int (int n * int sizeof_PGresAttDesc) = n * 28" "0 < n * 28" "n * 28 + 8 < 2 ^ 32"
    using n by (simp_all add: result_sizes size_of_int_id nat_mult_distrib)
  obtain p r1 h1 where a: "result_alloc dest (n * 28) True h = Some (p, r1, h1)" "space_inv r1" "space_kept dest r1"
    "\<And>k. plenty (Suc k) h \<Longrightarrow> p \<noteq> NULL \<and> plenty k h1"
    using result_alloc_ok [OF d(1)[unfolded represents_def, THEN conjunct1] sz(2,3), of True h] unfolding alloc_ok_def by auto
  note g = kept_grown [OF a(3)]
  show ?thesis
  proof (cases "p = NULL")
    case True
    have "PQsetResultAttrs (Some dest) (int n) (Some ds) h = Some (False, Some (r1\<lparr>attDescs := None\<rparr>), h1)"
      using d(2) n(1) a(1) True by (simp add: PQsetResultAttrs_def sz(1))
    moreover have "\<not> plenty (Suc k) h" for k using a(4) [of k] True by blast
    ultimately show ?thesis by blast
  next
    case False
    let ?r = "r1\<lparr>attDescs := Some ds, numAttributes := n, binary_tuples := True\<rparr>"
    have "represents (r1\<lparr>numAttributes := n\<rparr>) []" by (rule represents_numAttributes [OF represents_grown [OF d(1) g a(2)]])
    then have e: "represents ((r1\<lparr>numAttributes := n\<rparr>)\<lparr>attDescs := Some ds\<rparr>\<lparr>binary_tuples := True\<rparr>) []" by (simp only: represents_desc)
    have "?r = (r1\<lparr>numAttributes := n\<rparr>)\<lparr>attDescs := Some ds\<rparr>\<lparr>binary_tuples := True\<rparr>" by (cases r1) simp
    with e have "represents ?r []" by (simp only:)
    then have r: "represents ?r []" "attDescs ?r = Some ds" by (simp_all del: represents_desc)
    obtain ok r2 h2 where s: "set_attrs [0..<n] ?r h1 = Some (ok, r2, h2)" "represents r2 []" "numAttributes r2 = numAttributes ?r" "same_messages ?r r2"
      "ok \<longrightarrow> (\<exists>ds'. attDescs r2 = Some ds' \<and> length ds' = n \<and> (\<forall>i < n. own_name r2 (ds' ! i) (N ! i)))"
      "\<And>k. plenty (n - 0 + k) h1 \<Longrightarrow> ok \<and> plenty k h2"
      using set_attrs_result [OF r ds(1) le0, of N h1] ds(2) by blast
    have "PQsetResultAttrs (Some dest) (int n) (Some ds) h = Some (ok, Some r2, h2)"
      using d(2) n(1) a(1) False ds(1) s(1) by (simp add: PQsetResultAttrs_def sz(1))
    moreover have "plenty (Suc (n + k)) h \<Longrightarrow> ok \<and> plenty k h2" for k using a(4) [of "n + k"] s(6) [of k] by simp
    moreover have "same_messages dest r2" using grown_messages [OF g] s(4) by (simp add: same_messages_def)
    ultimately show ?thesis using s(2,3,5) by (intro exI [of _ ok] exI [of _ r2] exI [of _ h2]) simp
  qed
qed

lemma flag_implies: "x AND (a OR b) = 0 \<Longrightarrow> x AND b = 0" for x a b :: int
proof -
  assume z: "x AND (a OR b) = 0"
  have "(a OR b) AND b = b" by (rule bit_eqI) (auto simp: bit_simps)
  then have "x AND b = (x AND (a OR b)) AND b" by (simp only: and.assoc)
  then show ?thesis by (simp add: z)
qed

text \<open>
  C39: \<open>PQcopyResult\<close> with the flag for tuples returns, for a source with at least one column, either a
  null pointer, which it does only for lack of memory, or a result that represents the same table
  and has the same column names, where names and values are the copy's own.
\<close>

theorem PQcopyResult_copies:
  assumes src: "represents src S" "whole_table S" "ntups src < 2 ^ 29" "0 < numAttributes src" "numAttributes src < 2 ^ 26"
    and names: "attDescs src = Some ds" "length ds = numAttributes src"
      "\<forall>i < numAttributes src. name_is src (ds ! i) (N ! i) \<and> length (N ! i) + 9 < 2 ^ 32"
    and flags: "flags AND PG_COPYRES_TUPLES \<noteq> 0"
  shows "\<exists>r h'. PQcopyResult (Some src) flags h = Some (r, h')
    \<and> (case r of
         None \<Rightarrow> \<not> plenty (2 + numAttributes src + 3 * (ntups src * numAttributes src)) h
       | Some d \<Rightarrow> represents d S \<and> numAttributes d = numAttributes src
           \<and> (\<exists>ds'. attDescs d = Some ds' \<and> length ds' = numAttributes src
               \<and> (\<forall>i < numAttributes src. own_name d (ds' ! i) (N ! i))))"
proof -
  let ?n = "numAttributes src" let ?tfs = "List.product [0..<ntups src] [0..<numAttributes src]"
  have fl: "flags AND (PG_COPYRES_ATTRS OR PG_COPYRES_TUPLES) \<noteq> 0" using flags flag_implies by blast
  let ?L = "2 + ?n + 3 * (ntups src * ?n)"
  have L: "?L = Suc (Suc (?n + (3 * length ?tfs + 0)))" by simp
  show ?thesis
  proof (cases "fst (next_answer h)")
    case False
    then have "PQcopyResult (Some src) flags h = Some (None, snd (next_answer h))"
      by (simp add: PQcopyResult_def PQmakeEmptyPGresult_def split_beta Let_def)
    moreover have "\<not> plenty ?L h" unfolding L using False plenty_next(1) by blast
    ultimately show ?thesis by auto
  next
    case True
    define h1 where "h1 = snd (next_answer h)"
    define d0 where "d0 = (empty_result PGRES_TUPLES_OK 0)\<lparr>result_encoding := result_encoding src, cmdStatus := cmdStatus src\<rparr>"
    have m: "PQmakeEmptyPGresult None PGRES_TUPLES_OK h = Some (Some (empty_result PGRES_TUPLES_OK 0), h1)"
      using True by (simp add: PQmakeEmptyPGresult_def split_beta Let_def h1_def)
    have d0: "represents d0 []" "numAttributes d0 = 0"
      by (simp_all add: d0_def represents_def empty_result_def space_inv_def array_ok_def)
    have fd: "length (map (foreign_desc src) ds) = ?n" "\<forall>i < ?n. foreign_name (map (foreign_desc src) ds ! i) (N ! i)"
      using names(2,3) foreign_desc_name by simp_all
    obtain ok1 d1 h2 where a: "PQsetResultAttrs (Some d0) (int ?n) (Some (map (foreign_desc src) ds)) h1 = Some (ok1, Some d1, h2)"
      "ok1 \<longrightarrow> represents d1 [] \<and> numAttributes d1 = ?n
        \<and> (\<exists>ds'. attDescs d1 = Some ds' \<and> length ds' = ?n \<and> (\<forall>i < ?n. own_name d1 (ds' ! i) (N ! i)))"
      "\<And>k. plenty (Suc (?n + k)) h1 \<Longrightarrow> ok1 \<and> plenty k h2"
      using set_result_attrs [OF d0 src(4,5) fd, of h1] by blast
    note body = PQcopyResult_def [of "Some src" flags h, unfolded option.case m bind.bind_lunit prod.case Let_def d0_def [symmetric] names(1) option.map a(1)]
    have p1: "plenty ?L h \<Longrightarrow> ok1 \<and> plenty (3 * length ?tfs + 0) h2"
      unfolding L using a(3) plenty_next(2) [of _ h] by (auto simp: h1_def)
    show ?thesis
    proof (cases ok1)
      case False
      then have "PQcopyResult (Some src) flags h = Some (None, h2)" using fl by (simp add: body)
      then show ?thesis using p1 False by auto
    next
      case ok1: True
      then have d1: "represents d1 []" "numAttributes d1 = ?n"
        "\<exists>ds'. attDescs d1 = Some ds' \<and> length ds' = ?n \<and> (\<forall>i < ?n. own_name d1 (ds' ! i) (N ! i))" using a(2) by simp_all
      have o: "in_order (length ([] :: cell list list)) ?tfs" using in_order_product [OF src(4), of "ntups src"] by simp
      have tf: "\<forall>(t, f) \<in> set ?tfs. t < ntups src \<and> f < ?n" by auto
      have n28: "?n < 2 ^ 28" using src(5) by simp
      obtain ok2 d2 h3 where c: "copy_values src ?tfs (Some d1) h2 = Some (ok2, Some d2, h3)"
        "ok2 \<longrightarrow> represents d2 (foldl (copy_step S ?n) [] ?tfs)" "numAttributes d2 = numAttributes d1" "attDescs d2 = attDescs d1"
        "\<forall>p bs. holds d1 p bs \<longrightarrow> holds d2 p bs" "\<And>k. plenty (3 * length ?tfs + k) h2 \<Longrightarrow> ok2 \<and> plenty k h3"
        using copy_values_result [OF src(1-3) n28 d1(1,2) _ tf o, of h2] by auto
      show ?thesis
      proof (cases ok2)
        case False
        then have "PQcopyResult (Some src) flags h = Some (None, h3)" using fl flags ok1 c(1) by (simp add: body)
        then show ?thesis using p1 c(6) [of 0] False by auto
      next
        case ok2: True
        have lS: "length S = ntups src" by (rule represents_sizes(1) [OF src(1)])
        have "list_all (\<lambda>row. length row = ?n) S" using represents_sizes(2) [OF src(1)] by (simp add: list_all_length)
        from fill_table [OF src(4) this, of "ntups src"] have "foldl (copy_step S ?n) [] ?tfs = S" using lS by simp
        then have "represents d2 S" using c(2) ok2 by simp
        moreover have "\<exists>ds'. attDescs d2 = Some ds' \<and> length ds' = ?n \<and> (\<forall>i < ?n. own_name d2 (ds' ! i) (N ! i))"
          using d1(3) c(4,5) unfolding own_name_def by auto
        moreover have "PQcopyResult (Some src) flags h = Some (Some d2, h3)" using fl flags ok1 ok2 c(1) by (simp add: body)
        ultimately show ?thesis using c(3) d1(2) by auto
      qed
    qed
  qed
qed


text \<open>\<open>PQclear\<close> gives every block of a result back exactly once.\<close>

lemma PQclear_frees_all:
  "space_inv res \<Longrightarrow> distinct (PQclear (Some res)) \<and> (\<forall>b. Block b \<in> set (PQclear (Some res)) \<longleftrightarrow> b < length (blocks res))"
  unfolding space_inv_def PQclear_def by (elim conjE) (auto simp: distinct_map inj_on_def)

text \<open>
  A result without columns may have tuples, but they are not copied: the loop over the fields of a
  tuple never runs.
\<close>

lemma copy_no_columns: "List.product xs [0..<0] = ([] :: (nat \<times> nat) list)"
  by (induction xs) simp_all

lemma PQcopyResult_drops_empty_tuples:
  assumes "numAttributes src = 0" "attDescs src = None" "plenty 1 h"
  shows "\<exists>d h'. PQcopyResult (Some src) 3 h = Some (Some d, h') \<and> PQntuples (Some d) = 0"
proof -
  have "fst (next_answer h)" using plenty_next(1) [of 0 h] assms(3) by simp
  then show ?thesis using assms(1,2)
    by (simp add: PQcopyResult_def PQmakeEmptyPGresult_def split_beta Let_def PQsetResultAttrs_def empty_result_def PQntuples_def
        copy_no_columns [simplified])
qed

section \<open>Looking up a column\<close>

definition quote_name :: "byte list \<Rightarrow> byte list" where
  "quote_name s = 34 # concat (map (\<lambda>c. if c = 34 then [34, 34] else [c]) s) @ [34, 0]"

lemma fold_quoted: "0 \<notin> set s \<Longrightarrow> fold_name ct True (concat (map (\<lambda>c. if c = 34 then [34, 34] else [c]) s) @ [34, 0]) = Some s"
  by (induction s) auto

lemma quote_name_strlen: "0 \<notin> set s \<Longrightarrow> \<exists>n. strlen (quote_name s) = Some n"
proof -
  assume "0 \<notin> set s"
  then have "0 \<notin> set (34 # concat (map (\<lambda>c. if c = 34 then [34, 34] else [c]) s) @ [34])" by auto
  from strlen_append [OF this, of "[]"] show ?thesis unfolding quote_name_def by auto
qed

definition first_place :: "byte list list \<Rightarrow> byte list \<Rightarrow> nat \<Rightarrow> int \<Rightarrow> bool" where
  "first_place N s i r \<longleftrightarrow> (if s \<in> set N then (\<exists>j < length N. r = int (i + j) \<and> N ! j = s \<and> (\<forall>k < j. N ! k \<noteq> s)) else r = -1)"

lemma find_column_result: "list_all2 (name_is res) ds N \<Longrightarrow> \<exists>r. find_column res s ds i = Some r \<and> first_place N s i r"
proof (induction ds N arbitrary: i rule: list_all2_induct)
  case Nil
  then show ?case by (simp add: first_place_def)
next
  case (Cons d ds n N)
  obtain rest where r: "read_at res (att_name d) = Some (n @ 0 # rest)" using name_read [OF Cons.hyps(1)] by blast
  have "0 \<notin> set n" using Cons.hyps(1) by (simp add: name_is_def)
  note st = strlen_append [OF this, of rest]
  show ?case
  proof (cases "n = s")
    case True
    then show ?thesis using r st by (auto simp: first_place_def intro!: exI [of _ 0])
  next
    case False
    obtain q where q: "find_column res s ds (i + 1) = Some q" "first_place N s (i + 1) q" using Cons.IH by blast
    have "first_place (n # N) s i q"
    proof (cases "s \<in> set N")
      case True
      then obtain j where j: "j < length N" "q = int (i + 1 + j)" "N ! j = s" "\<forall>k < j. N ! k \<noteq> s" using q(2) unfolding first_place_def by auto
      have "\<forall>k < Suc j. (n # N) ! k \<noteq> s" using j(4) False by (auto simp: less_Suc_eq_0_disj)
      then show ?thesis using True j(1-3) unfolding first_place_def by (auto intro!: exI [of _ "Suc j"])
    next
      case sN: False
      then show ?thesis using q(2) False by (simp add: first_place_def)
    qed
    then show ?thesis using r st q(1) False by simp
  qed
qed

text \<open>
  C40: \<open>PQfnumber\<close> of a quoted identifier, with its double quotes doubled, finds the first column with
  exactly that name, and -1 when there is none, whatever bytes the name has and in every locale.
\<close>

theorem PQfnumber_of_quoted_name:
  assumes "attDescs res = Some ds" "length ds = numAttributes res" "list_all2 (name_is res) ds N" "0 \<notin> set s" "plenty 1 h"
  shows "\<exists>i h'. PQfnumber ct (Some res) (Some (quote_name s)) h = Some (i, h')
    \<and> (if s \<in> set N then \<exists>j < length N. i = int j \<and> N ! j = s \<and> (\<forall>k < j. N ! k \<noteq> s) else i = -1)"
proof -
  obtain n where n: "strlen (quote_name s) = Some n" using quote_name_strlen [OF assms(4)] by blast
  obtain i where i: "find_column res s ds 0 = Some i" "first_place N s 0 i" using find_column_result [OF assms(3)] by blast
  have low: "all_lower ct (quote_name s) = Some False" "peek (quote_name s) 0 = Some 34"
    by (simp_all add: quote_name_def)
  have f: "fold_name ct False (quote_name s) = Some s" using fold_quoted [OF assms(4)] by (simp add: quote_name_def)
  have ok: "fst (next_answer h)" using plenty_next(1) [of 0 h] assms(5) by simp
  have "PQfnumber ct (Some res) (Some (quote_name s)) h = Some (i, snd (next_answer h))"
    using assms(1,2) low n f i(1) ok by (simp add: PQfnumber_def split_beta Let_def)
  then show ?thesis using i(2) by (auto simp: first_place_def)
qed

section \<open>Examples\<close>

text \<open>A result with one tuple, the text \<open>ab\<close> and a null, and the column names \<open>id\<close> and \<open>a"b\<close>.\<close>

definition test_result :: PGresult where
  "test_result = (empty_result PGRES_TUPLES_OK 6)\<lparr>
     ntups := 1, numAttributes := 2,
     attDescs := Some [\<lparr>att_name = Foreign [105, 100, 0], tableid = 0, columnid = 0, att_format = 0, typid = 25, typlen = -1, atttypmod = -1\<rparr>,
       \<lparr>att_name = In_block 0 11, tableid = 0, columnid = 0, att_format = 0, typid = 25, typlen = -1, atttypmod = -1\<rparr>],
     tuples := [[\<lparr>att_len = 2, att_value = In_block 0 8\<rparr>, null_value]], tuples_room := 128, tupArrSize := 128,
     blocks := [[0, 0, 0, 0, 0, 0, 0, 0, 97, 98, 0, 97, 34, 98, 0]], chain := [0]\<rparr>"

lemma test_result_simps [simp]: "numAttributes test_result = 2" "ntups test_result = 1"
  by (simp_all add: test_result_def)

lemma test_result_represents: "represents test_result [[Value [97, 98], Null]]"
proof -
  have "space_inv test_result" by (simp add: space_inv_def test_result_def empty_result_def lessThan_Suc)
  moreover have "array_ok test_result" by (simp add: array_ok_def test_result_def empty_result_def)
  moreover have "tuples test_result = [[\<lparr>att_len = 2, att_value = In_block 0 8\<rparr>, null_value]]" by (simp add: test_result_def)
  moreover have "holds test_result (In_block 0 8) [97, 98, 0]" by (simp add: test_result_def empty_result_def used_def)
  ultimately show ?thesis by (simp add: represents_def)
qed

lemma test_result_names: "list_all2 (name_is test_result) (the (attDescs test_result)) [[105, 100], [97, 34, 98]]"
  by (simp add: name_is_def test_result_def empty_result_def used_def)

theorem PQsetvalue_refines_witness:
  "\<exists>res' h' T'. PQsetvalue (Some test_result) 1 0 (Some [120, 121]) 1 \<lparr>answers = [True, True, True], junk = \<lambda>i. 0\<rparr> = Some (True, Some res', h')
    \<and> represents res' T' \<and> T' = [[Value [97, 98], Null], [Value [120], Null]]"
proof -
  let ?h = "\<lparr>answers = [True, True, True], junk = \<lambda>i. 0\<rparr>"
  have p: "plenty 3 ?h" by (simp add: plenty_def numeral_3_eq_3 less_Suc_eq)
  have pre: "1 \<le> ntups test_result" "0 < numAttributes test_result" "1 < int INT_MAX"
    "case Some [120, 121 :: byte] of None \<Rightarrow> True | Some v \<Rightarrow> (1 :: int) \<le> int (length v)"
    "ntups test_result < 2 ^ 29" "numAttributes test_result < 2 ^ 28" by (simp_all add: INT_MAX_eq)
  obtain ok res' h' T' where r: "PQsetvalue (Some test_result) (int 1) (int 0) (Some [120, 121]) 1 ?h = Some (ok, Some res', h')"
    "represents res' T'" "if ok then T' = set_cell [[Value [97, 98], Null]] (numAttributes test_result) 1 0 (cell_of (Some [120, 121]) 1)
       else \<not> plenty 3 ?h \<and> (T' = [[Value [97, 98], Null]] \<or> T' = set_cell [[Value [97, 98], Null]] (numAttributes test_result) 1 0 Broken)"
    using PQsetvalue_refines [OF test_result_represents pre, of ?h] by blast
  have ok: ok using r(3) p by (auto split: if_splits)
  then have "T' = [[Value [97, 98], Null], [Value [120], Null]]" using r(3) by (simp add: set_cell_def cell_of_def NULL_LEN_def numeral_2_eq_2)
  then show ?thesis using r(1,2) ok by auto
qed

theorem PQgetvalue_reads_table_witness:
  "PQgetisnull (Some test_result) 0 0 = Some False \<and> PQgetlength (Some test_result) 0 0 = Some 2
    \<and> (\<exists>p rest. PQgetvalue (Some test_result) 0 0 = Some p \<and> read_at test_result p = Some ([97, 98] @ 0 # rest))"
  using PQgetvalue_reads_table [OF test_result_represents, of 0 0] by simp

theorem PQcopyResult_copies_witness:
  "\<exists>d h'. PQcopyResult (Some test_result) 3 \<lparr>answers = replicate 10 True, junk = \<lambda>i. 0\<rparr> = Some (Some d, h')
    \<and> represents d [[Value [97, 98], Null]]"
proof -
  let ?h = "\<lparr>answers = replicate 10 True, junk = \<lambda>i. 0\<rparr>"
  let ?N = "[[105, 100], [97, 34, 98]] :: byte list list"
  obtain ds where ds: "attDescs test_result = Some ds" "length ds = 2" by (simp add: test_result_def)
  have nm: "list_all2 (name_is test_result) ds ?N" using test_result_names ds(1) by simp
  have names: "\<forall>i < numAttributes test_result. name_is test_result (ds ! i) (?N ! i) \<and> length (?N ! i) + 9 < 2 ^ 32"
  proof (intro allI impI conjI)
    fix i assume i: "i < numAttributes test_result"
    then show "name_is test_result (ds ! i) (?N ! i)" using list_all2_nthD [OF nm, of i] ds(2) by simp
    have "i = 0 \<or> i = 1" using i by (simp add: less_2_cases)
    then show "length (?N ! i) + 9 < 2 ^ 32" by auto
  qed
  have p: "plenty (2 + numAttributes test_result + 3 * (ntups test_result * numAttributes test_result)) ?h" by (simp add: plenty_def)
  have pre: "whole_table [[Value [97, 98], Null]]" "ntups test_result < 2 ^ 29" "0 < numAttributes test_result"
    "numAttributes test_result < 2 ^ 26" "length ds = numAttributes test_result" "3 AND PG_COPYRES_TUPLES \<noteq> 0"
    using ds(2) by (simp_all add: whole_table_def INT_MAX_eq PG_COPYRES_TUPLES_def)
  show ?thesis
    using PQcopyResult_copies [OF test_result_represents pre(1-4) ds(1) pre(5) names pre(6), of ?h] p by (auto split: option.splits)
qed

theorem PQfnumber_of_quoted_name_witness:
  "\<exists>h'. PQfnumber \<lparr>isupper = \<lambda>c. False, tolower = \<lambda>c. c\<rparr> (Some test_result) (Some [34, 97, 34, 34, 98, 34, 0]) \<lparr>answers = [True], junk = \<lambda>i. 0\<rparr>
    = Some (1, h')"
proof -
  obtain ds where ds: "attDescs test_result = Some ds" "length ds = numAttributes test_result" by (simp add: test_result_def)
  have nm: "list_all2 (name_is test_result) ds [[105, 100], [97, 34, 98]]" using test_result_names ds(1) by simp
  have z: "0 \<notin> set [97, 34, 98 :: byte]" and p: "plenty 1 \<lparr>answers = [True], junk = \<lambda>i. 0\<rparr>" by (simp_all add: plenty_def)
  have q: "quote_name [97, 34, 98] = [34, 97, 34, 34, 98, 34, 0]" by (simp add: quote_name_def)
  obtain i h' j where r: "PQfnumber \<lparr>isupper = \<lambda>c. False, tolower = \<lambda>c. c\<rparr> (Some test_result) (Some [34, 97, 34, 34, 98, 34, 0])
      \<lparr>answers = [True], junk = \<lambda>i. 0\<rparr> = Some (i, h')" "j < 2" "i = int j" "[[105, 100], [97, 34, 98]] ! j = [97, 34, 98 :: byte]"
    using PQfnumber_of_quoted_name [OF ds nm z p, of "\<lparr>isupper = \<lambda>c. False, tolower = \<lambda>c. c\<rparr>"] unfolding q by auto
  have "j = 0 \<or> j = 1" using r(2) by (simp add: less_2_cases)
  then show ?thesis using r(1,3,4) by auto
qed

end
