(* ===== verification/Client.thy ===== *)
theory Client
  imports Conn_IO Result Enc_Ids
begin

text \<open>
  The part of \<open>pg_conn\<close> (\<open>libpq-int.h\<close>) that belongs to the query in progress, on top of the connection
  and its session, and the functions of \<open>fe-exec.c\<close> that replace and hand out the result under
  construction: \<open>pqClearAsyncResult\<close>, \<open>pqSaveErrorResult\<close>, \<open>pqPrepareAsyncResult\<close> and
  \<open>pqInternalNotice\<close>.
\<close>

section \<open>The state\<close>

datatype PGAsyncStatusType =
    PGASYNC_IDLE
  | PGASYNC_BUSY
  | PGASYNC_READY
  | PGASYNC_COPY_IN
  | PGASYNC_COPY_OUT
  | PGASYNC_COPY_BOTH

datatype PGQueryClass = PGQUERY_SIMPLE | PGQUERY_EXTENDED | PGQUERY_PREPARE | PGQUERY_DESCRIBE

datatype PGTransactionStatusType =
    PQTRANS_IDLE
  | PQTRANS_ACTIVE
  | PQTRANS_INTRANS
  | PQTRANS_INERROR
  | PQTRANS_UNKNOWN

datatype PGVerbosity = PQERRORS_TERSE | PQERRORS_DEFAULT | PQERRORS_VERBOSE

datatype PGContextVisibility = PQSHOW_CONTEXT_NEVER | PQSHOW_CONTEXT_ERRORS | PQSHOW_CONTEXT_ALWAYS

text \<open>A value of the row that is being read; \<open>dv_value\<close> is an offset into the input buffer.\<close>

record PGdataValue =
  dv_len :: int
  dv_value :: nat

text \<open>A notification; the strings are given without their NUL bytes.\<close>

record PGnotify =
  relname :: "byte list"
  notify_pid :: int
  extra :: "byte list"

text \<open>
  The list from \<open>notifyHead\<close> to \<open>notifyTail\<close> is \<open>notifies\<close>, the list of parameters \<open>pstatus\<close> holds
  names and values. \<open>notices\<close> is the list of the results that the notice receiver was called with;
  what the receiver does with them belongs to the application. The last two fields are the static
  variables of \<open>fe-exec.c\<close>.
\<close>

record client = session +
  asyncStatus :: PGAsyncStatusType
  xactStatus :: PGTransactionStatusType
  queryclass :: PGQueryClass
  last_query :: "byte list option"
  last_sqlstate :: "byte list"
  singleRowMode :: bool
  copy_is_binary :: byte
  copy_already_done :: int
  notifies :: "PGnotify list"
  be_pid :: int
  be_key :: int
  pstatus :: "(byte list \<times> byte list) list"
  verbosity :: PGVerbosity
  show_context :: PGContextVisibility
  rowBuf :: "PGdataValue list"
  rowBufLen :: nat
  result :: "PGresult option"
  next_result :: "PGresult option"
  workBuffer :: PQExpBufferData
  notices :: "PGresult list"
  static_client_encoding :: int
  static_std_strings :: bool

section \<open>Reading from the input\<close>

text \<open>The get functions of \<open>fe-misc.c\<close> on the connection of the client.\<close>

definition get_char :: "client \<Rightarrow> (byte option \<times> client) option" where
  "get_char c = do { (x, k) \<leftarrow> pqGetc (conn c); Some (x, c\<lparr>conn := k\<rparr>) }"

definition get_int :: "nat \<Rightarrow> client \<Rightarrow> (int option \<times> client) option" where
  "get_int bytes c = do { (x, k) \<leftarrow> pqGetInt bytes (conn c); Some (x, c\<lparr>conn := k\<rparr>) }"

definition skip_nchar :: "nat \<Rightarrow> client \<Rightarrow> bool \<times> client" where
  "skip_nchar len c = (let (ok, k) = pqSkipnchar len (conn c) in (ok, c\<lparr>conn := k\<rparr>))"

definition get_string :: "PQExpBufferData \<Rightarrow> client \<Rightarrow> (bool \<times> PQExpBufferData \<times> client) option" where
  "get_string b c = do {
     (ok, b, k, h) \<leftarrow> pqGets (Some b) (conn c) (mem c);
     b \<leftarrow> b;
     Some (ok, b, c\<lparr>conn := k, mem := h\<rparr>) }"

definition get_work :: "client \<Rightarrow> (bool \<times> client) option" where
  "get_work c = do {
     (ok, b, c) \<leftarrow> get_string (workBuffer c) c;
     Some (ok, c\<lparr>workBuffer := b\<rparr>) }"

text \<open>The coercion \<open>(int) ((int16) x)\<close> of a two-byte value.\<close>

definition int16 :: "int \<Rightarrow> int" where
  "int16 x = (x + 2 ^ 15) mod 2 ^ 16 - 2 ^ 15"

text \<open>The text of a C string, without its NUL byte.\<close>

definition c_text :: "byte list \<Rightarrow> byte list option" where
  "c_text s = do { n \<leftarrow> strlen s; Some (take n s) }"

text \<open>The contents of the destination of \<open>strlcpy(dst, src, siz)\<close>, up to its NUL byte.\<close>

definition strlcpy :: "byte list \<Rightarrow> nat \<Rightarrow> byte list option" where
  "strlcpy src siz = do {
     t \<leftarrow> c_text src;
     Some (if siz = 0 then [] else take (siz - 1) t @ [0]) }"

text \<open>
  The conversion \<open>%d\<close> of \<open>sscanf\<close>: white space, a sign, digits. A number that does not fit an \<open>int\<close>,
  which C leaves open, wraps around.
\<close>

definition is_space :: "byte \<Rightarrow> bool" where
  "is_space c \<longleftrightarrow> c = 32 \<or> (9 \<le> c \<and> c \<le> 13)"

definition decimal :: "byte list \<Rightarrow> int" where
  "decimal ds = foldl (\<lambda>v d. v * 10 + (int (unat d) - 48)) 0 ds"

definition scan_int :: "byte list \<Rightarrow> (int \<times> byte list) option" where
  "scan_int s = (
     let s = dropWhile is_space s;
         neg = (s \<noteq> [] \<and> hd s = 45);
         s = (if s \<noteq> [] \<and> (hd s = 45 \<or> hd s = 43) then tl s else s);
         ds = takeWhile is_digit s
     in if ds = [] then None
        else Some (int32 (if neg then - decimal ds else decimal ds), dropWhile is_digit s))"

section \<open>The result under construction\<close>

text \<open>
  A message and the arguments of its format. The formatter stands for \<open>vsnprintf\<close> with any format and
  arguments, so the two together are its argument. The project does not define \<open>ENABLE_NLS\<close>, so
  \<open>libpq_gettext\<close> is the identity.
\<close>

definition fmt_args :: "string \<Rightarrow> byte list list \<Rightarrow> string" where
  "fmt_args fmt args = fmt @ concat (map (\<lambda>a. CHR 0x00 # map (\<lambda>b. char_of (unat b)) a) args)"

definition error_message :: "formatter \<Rightarrow> string \<Rightarrow> client \<Rightarrow> client option" where
  "error_message vsn fmt c = do {
     (k, h) \<leftarrow> print_error vsn fmt (conn c) (mem c);
     Some (c\<lparr>conn := k, mem := h\<rparr>) }"

text \<open>The blocks that \<open>PQclear\<close> gives back are of no use to the client any more.\<close>

definition pqClearAsyncResult :: "client \<Rightarrow> client" where
  "pqClearAsyncResult c = c\<lparr>result := None, next_result := None\<rparr>"

definition make_result :: "ExecStatusType \<Rightarrow> client \<Rightarrow> (PGresult option \<times> client) option" where
  "make_result st c = do {
     (r, h) \<leftarrow> PQmakeEmptyPGresult (Some (conn c)) st (mem c);
     Some (r, c\<lparr>mem := h\<rparr>) }"

definition pqSaveErrorResult :: "client \<Rightarrow> client option" where
  "pqSaveErrorResult c =
    (case result c of
       Some r \<Rightarrow>
         if resultStatus r \<noteq> PGRES_FATAL_ERROR \<or> errMsg r = NULL then do {
           (r, c) \<leftarrow> make_result PGRES_FATAL_ERROR (pqClearAsyncResult c);
           Some (c\<lparr>result := r\<rparr>) }
         else do {
           (r, h) \<leftarrow> pqCatenateResultError r (Some (buffer_data (errorMessage (conn c)))) (mem c);
           Some (c\<lparr>result := Some r, mem := h\<rparr>) }
     | None \<Rightarrow> do {
         (r, c) \<leftarrow> make_result PGRES_FATAL_ERROR (pqClearAsyncResult c);
         Some (c\<lparr>result := r\<rparr>) })"

text \<open>The pair \<open>printfPQExpBuffer(&conn->errorMessage, ...); pqSaveErrorResult(conn);\<close>.\<close>

definition save_error :: "formatter \<Rightarrow> string \<Rightarrow> client \<Rightarrow> client option" where
  "save_error vsn fmt c = do { c \<leftarrow> error_message vsn fmt c; pqSaveErrorResult c }"

definition pqPrepareAsyncResult :: "client \<Rightarrow> (PGresult option \<times> client) option" where
  "pqPrepareAsyncResult c = do {
     (r, c) \<leftarrow>
       (case result c of
          None \<Rightarrow> make_result PGRES_FATAL_ERROR c
        | Some r \<Rightarrow> do {
            (e, h) \<leftarrow> resetPQExpBuffer (Some (errorMessage (conn c))) (mem c);
            m \<leftarrow> PQresultErrorMessage (Some r);
            (e, h) \<leftarrow> appendPQExpBufferStr e m h;
            e \<leftarrow> e;
            Some (Some r, c\<lparr>conn := (conn c)\<lparr>errorMessage := e\<rparr>, mem := h\<rparr>) });
     Some (r, c\<lparr>result := next_result c, next_result := None\<rparr>) }"

section \<open>Notices\<close>

definition PG_DIAG_SEVERITY :: byte where "PG_DIAG_SEVERITY = 83"
definition PG_DIAG_SEVERITY_NONLOCALIZED :: byte where "PG_DIAG_SEVERITY_NONLOCALIZED = 86"
definition PG_DIAG_SQLSTATE :: byte where "PG_DIAG_SQLSTATE = 67"
definition PG_DIAG_MESSAGE_PRIMARY :: byte where "PG_DIAG_MESSAGE_PRIMARY = 77"
definition PG_DIAG_MESSAGE_DETAIL :: byte where "PG_DIAG_MESSAGE_DETAIL = 68"
definition PG_DIAG_MESSAGE_HINT :: byte where "PG_DIAG_MESSAGE_HINT = 72"
definition PG_DIAG_STATEMENT_POSITION :: byte where "PG_DIAG_STATEMENT_POSITION = 80"
definition PG_DIAG_INTERNAL_POSITION :: byte where "PG_DIAG_INTERNAL_POSITION = 112"
definition PG_DIAG_INTERNAL_QUERY :: byte where "PG_DIAG_INTERNAL_QUERY = 113"
definition PG_DIAG_CONTEXT :: byte where "PG_DIAG_CONTEXT = 87"
definition PG_DIAG_SCHEMA_NAME :: byte where "PG_DIAG_SCHEMA_NAME = 115"
definition PG_DIAG_TABLE_NAME :: byte where "PG_DIAG_TABLE_NAME = 116"
definition PG_DIAG_COLUMN_NAME :: byte where "PG_DIAG_COLUMN_NAME = 99"
definition PG_DIAG_DATATYPE_NAME :: byte where "PG_DIAG_DATATYPE_NAME = 100"
definition PG_DIAG_CONSTRAINT_NAME :: byte where "PG_DIAG_CONSTRAINT_NAME = 110"
definition PG_DIAG_SOURCE_FILE :: byte where "PG_DIAG_SOURCE_FILE = 70"
definition PG_DIAG_SOURCE_LINE :: byte where "PG_DIAG_SOURCE_LINE = 76"
definition PG_DIAG_SOURCE_FUNCTION :: byte where "PG_DIAG_SOURCE_FUNCTION = 82"

definition c_literal :: "string \<Rightarrow> byte list" where
  "c_literal s = map of_char s @ [0]"

text \<open>
  The array \<open>msgBuf\<close> is what \<open>vsnprintf\<close> stores in it, behind that indeterminate bytes (zero here), and
  a NUL byte at its end. A connection always has a notice receiver.
\<close>

definition pqInternalNotice :: "formatter \<Rightarrow> string \<Rightarrow> client \<Rightarrow> client option" where
  "pqInternalNotice vsn fmt c = do {
     let r = vsn fmt 1024;
     msgBuf \<leftarrow> (if length (stored r) \<le> 1024 then Some (take 1023 (stored r @ replicate 1024 0) @ [0]) else None);
     (res, h) \<leftarrow> PQmakeEmptyPGresult None PGRES_NONFATAL_ERROR (mem c);
     case res of
       None \<Rightarrow> Some (c\<lparr>mem := h\<rparr>)
     | Some res \<Rightarrow> do {
         (res, h) \<leftarrow> pqSaveMessageField res PG_DIAG_MESSAGE_PRIMARY msgBuf h;
         (res, h) \<leftarrow> pqSaveMessageField res PG_DIAG_SEVERITY (c_literal ''NOTICE'') h;
         (res, h) \<leftarrow> pqSaveMessageField res PG_DIAG_SEVERITY_NONLOCALIZED (c_literal ''NOTICE'') h;
         t \<leftarrow> c_text msgBuf;
         (p, res, h) \<leftarrow> result_alloc res (size_t (length t + 2)) False h;
         if p = NULL then Some (c\<lparr>mem := h\<rparr>)
         else do {
           res \<leftarrow> write_at res p (t @ [10, 0]);
           Some (c\<lparr>mem := h, notices := notices c @ [res\<lparr>errMsg := p\<rparr>]\<rparr>) } } }"

section \<open>Strings\<close>

lemma c_text_append [simp]: "0 \<notin> set t \<Longrightarrow> c_text (t @ 0 # rest) = Some t"
  by (simp add: c_text_def strlen_append)

lemma take_nul: "0 \<in> set s \<Longrightarrow> \<exists>t rest. s = t @ 0 # rest \<and> 0 \<notin> set t"
  using split_list_first [of 0 s] by blast

text \<open>The data of a buffer is a C string, and reads as its text when that has no NUL.\<close>

lemma buffer_data_text:
  assumes "eb_inv b"
  shows "\<exists>t rest. buffer_data b = t @ 0 # rest \<and> 0 \<notin> set t \<and> length t < INT_MAX
    \<and> (\<forall>u. eb_text b = Some u \<and> 0 \<notin> set u \<longrightarrow> t = u)"
proof (cases "eb_data b")
  case None
  then show ?thesis by (intro exI [of _ "[]"]) (simp add: buffer_data_def eb_text_def INT_MAX_eq)
next
  case (Some d)
  then have d: "length d = eb_maxlen b" "eb_len b < eb_maxlen b" "eb_maxlen b \<le> INT_MAX" "d ! eb_len b = 0"
    using assms by (simp_all add: eb_inv_def)
  then have "0 \<in> set d" by (metis nth_mem)
  then obtain t rest where t: "d = t @ 0 # rest" "0 \<notin> set t" using take_nul by blast
  have "t = u" if "eb_text b = Some u" "0 \<notin> set u" for u
  proof -
    have u: "u = take (eb_len b) d" using that(1) Some by (simp add: eb_text_def)
    have "d = take (eb_len b) d @ d ! eb_len b # drop (Suc (eb_len b)) d" by (rule id_take_nth_drop) (use d in simp)
    then have "d = u @ 0 # drop (Suc (eb_len b)) d" unfolding u [symmetric] d(4) .
    then have "c_text d = Some u" using c_text_append [OF that(2)] by metis
    then show "t = u" using t by simp
  qed
  moreover have "length t < INT_MAX" using t(1) d(1,3) by simp
  ultimately show ?thesis using t Some by (intro exI [of _ t] exI [of _ rest]) (simp add: buffer_data_def)
qed

section \<open>Results in progress\<close>

text \<open>A pointer to a string of the result, or null.\<close>

definition text_ptr :: "PGresult \<Rightarrow> ptr \<Rightarrow> bool" where
  "text_ptr r p \<longleftrightarrow> p = NULL \<or> (\<exists>s. 0 \<notin> set s \<and> holds r p (s @ [0]))"

text \<open>The columns have the names \<open>N\<close>, which the result owns.\<close>

definition column_names :: "PGresult \<Rightarrow> byte list list \<Rightarrow> bool" where
  "column_names r N \<longleftrightarrow> length N = numAttributes r
     \<and> (N = [] \<or> (\<exists>ds. attDescs r = Some ds \<and> list_all2 (own_name r) ds N))
     \<and> list_all (\<lambda>s. length s < INT_MAX) N"

text \<open>
  A result that the connection may have: it represents a table, has a descriptor for every column, and
  names for them if it is to take rows, and its messages are strings.
\<close>

definition result_inv :: "PGresult \<Rightarrow> bool" where
  "result_inv r \<longleftrightarrow> (\<exists>T. represents r T) \<and> numAttributes r < 2 ^ 16
     \<and> (numAttributes r > 0 \<longrightarrow> (\<exists>ds. attDescs r = Some ds \<and> length ds = numAttributes r))
     \<and> (resultStatus r = PGRES_TUPLES_OK \<longrightarrow> (\<exists>N. column_names r N))
     \<and> text_ptr r (errMsg r) \<and> list_all (\<lambda>f. text_ptr r (snd f)) (errFields r) \<and> text_ptr r (errQuery r)"

lemma result_invD:
  assumes "result_inv r"
  shows "space_inv r" "numAttributes r < 2 ^ 16" "text_ptr r (errMsg r)" "text_ptr r (errQuery r)"
    "list_all (\<lambda>f. text_ptr r (snd f)) (errFields r)"
  using assms by (auto simp: result_inv_def represents_def)

lemma text_ptr_NULL [simp]: "text_ptr r NULL"
  by (simp add: text_ptr_def)

lemma text_ptr_grown: "grown r r' \<Longrightarrow> text_ptr r p \<Longrightarrow> text_ptr r' p"
  unfolding text_ptr_def using grown_holds by blast

lemma columns_grown: "grown r r' \<Longrightarrow> column_names r N \<Longrightarrow> column_names r' N"
  unfolding column_names_def own_name_def using grown_fields grown_holds
  by (auto elim!: list_all2_mono)

lemma result_inv_grown:
  assumes "result_inv r" "grown r r'" "space_inv r'"
  shows "result_inv r'"
proof -
  obtain T where "represents r T" using assms(1) by (auto simp: result_inv_def)
  then have T: "represents r' T" by (rule represents_grown [OF _ assms(2,3)])
  have "list_all (\<lambda>f. text_ptr r' (snd f)) (errFields r)"
    using result_invD(5) [OF assms(1)] by (rule list.pred_mono_strong) (rule text_ptr_grown [OF assms(2)])
  moreover have "resultStatus r = PGRES_TUPLES_OK \<Longrightarrow> \<exists>N. column_names r' N"
    using assms(1) columns_grown [OF assms(2)] unfolding result_inv_def by blast
  ultimately show ?thesis using assms(1) T grown_fields [OF assms(2)] grown_more [OF assms(2)] text_ptr_grown [OF assms(2)]
    unfolding result_inv_def by auto
qed

lemma own_name_fields [simp]:
  "own_name (r\<lparr>errMsg := p\<rparr>) = own_name r" "own_name (r\<lparr>errFields := fs\<rparr>) = own_name r"
  "own_name (r\<lparr>errQuery := p\<rparr>) = own_name r" "own_name (r\<lparr>resultStatus := st\<rparr>) = own_name r"
  "own_name (r\<lparr>cmdStatus := s\<rparr>) = own_name r" "own_name (r\<lparr>numParameters := n\<rparr>) = own_name r"
  "own_name (r\<lparr>paramDescs := pd\<rparr>) = own_name r" "own_name (r\<lparr>result_encoding := i\<rparr>) = own_name r"
  "own_name (r\<lparr>binary_tuples := b\<rparr>) = own_name r" "own_name (r\<lparr>attDescs := ds\<rparr>) = own_name r"
  "own_name (r\<lparr>numAttributes := n\<rparr>) = own_name r"
  by (intro ext; simp add: own_name_def)+

lemma columns_fields [simp]:
  "column_names (r\<lparr>errMsg := p\<rparr>) N = column_names r N" "column_names (r\<lparr>errFields := fs\<rparr>) N = column_names r N"
  "column_names (r\<lparr>errQuery := p\<rparr>) N = column_names r N" "column_names (r\<lparr>resultStatus := st\<rparr>) N = column_names r N"
  "column_names (r\<lparr>cmdStatus := s\<rparr>) N = column_names r N" "column_names (r\<lparr>numParameters := n\<rparr>) N = column_names r N"
  "column_names (r\<lparr>paramDescs := pd\<rparr>) N = column_names r N" "column_names (r\<lparr>result_encoding := i\<rparr>) N = column_names r N"
  "column_names (r\<lparr>binary_tuples := b\<rparr>) N = column_names r N"
  by (simp_all add: column_names_def)

lemma text_ptr_fields [simp]:
  "text_ptr (r\<lparr>errMsg := e\<rparr>) p = text_ptr r p" "text_ptr (r\<lparr>errFields := fs\<rparr>) p = text_ptr r p"
  "text_ptr (r\<lparr>errQuery := e\<rparr>) p = text_ptr r p" "text_ptr (r\<lparr>resultStatus := st\<rparr>) p = text_ptr r p"
  "text_ptr (r\<lparr>cmdStatus := s\<rparr>) p = text_ptr r p" "text_ptr (r\<lparr>numParameters := n\<rparr>) p = text_ptr r p"
  "text_ptr (r\<lparr>paramDescs := pd\<rparr>) p = text_ptr r p" "text_ptr (r\<lparr>result_encoding := i\<rparr>) p = text_ptr r p"
  "text_ptr (r\<lparr>binary_tuples := b\<rparr>) p = text_ptr r p" "text_ptr (r\<lparr>attDescs := ds\<rparr>) p = text_ptr r p"
  "text_ptr (r\<lparr>numAttributes := n\<rparr>) p = text_ptr r p"
  by (simp_all add: text_ptr_def)

lemma result_inv_fields [simp]:
  "result_inv r \<Longrightarrow> text_ptr r p \<Longrightarrow> result_inv (r\<lparr>errMsg := p\<rparr>)"
  "result_inv r \<Longrightarrow> text_ptr r p \<Longrightarrow> result_inv (r\<lparr>errQuery := p\<rparr>)"
  "result_inv r \<Longrightarrow> text_ptr r p \<Longrightarrow> result_inv (r\<lparr>errFields := (c, p) # errFields r\<rparr>)"
  "result_inv (r\<lparr>cmdStatus := s\<rparr>) = result_inv r" "result_inv (r\<lparr>binary_tuples := b\<rparr>) = result_inv r"
  "result_inv (r\<lparr>numParameters := n\<rparr>) = result_inv r" "result_inv (r\<lparr>paramDescs := pd\<rparr>) = result_inv r"
  "result_inv (r\<lparr>result_encoding := i\<rparr>) = result_inv r"
  "result_inv r \<Longrightarrow> st \<noteq> PGRES_TUPLES_OK \<Longrightarrow> result_inv (r\<lparr>resultStatus := st\<rparr>)"
  by (simp_all add: result_inv_def)

lemma empty_result_fields [simp]:
  "ntups (empty_result st enc) = 0" "numAttributes (empty_result st enc) = 0" "resultStatus (empty_result st enc) = st"
  "result_encoding (empty_result st enc) = enc" "errFields (empty_result st enc) = []" "errMsg (empty_result st enc) = NULL"
  "errQuery (empty_result st enc) = NULL" "attDescs (empty_result st enc) = None"
  by (simp_all add: empty_result_def)

lemma empty_result_ok [simp]:
  "result_inv (empty_result st enc)" "column_names (empty_result st enc) []" "represents (empty_result st enc) []"
proof -
  show r: "represents (empty_result st enc) []" by (rule represents_empty)
  show c: "column_names (empty_result st enc) []" by (simp add: column_names_def)
  have "\<exists>T. represents (empty_result st enc) T" using r by blast
  moreover have "st = PGRES_TUPLES_OK \<longrightarrow> (\<exists>N. column_names (empty_result st enc) N)" using c by blast
  ultimately show "result_inv (empty_result st enc)" unfolding result_inv_def by simp
qed

section \<open>Error results\<close>

lemma strdup_returns:
  assumes "space_inv r" "0 \<notin> set t" "length t < INT_MAX"
  shows "returns (pqResultStrdup r (t @ 0 # rest) h) (\<lambda>(p, r', h'). space_inv r' \<and> grown r r'
    \<and> (p = NULL \<or> holds r' p (t @ [0])) \<and> (\<forall>k. plenty (Suc k) h \<longrightarrow> p \<noteq> NULL \<and> plenty k h'))"
  using strdup_result [OF assms(1,2), of rest h] assms(3) by (auto simp: returns_def INT_MAX_eq)

text \<open>A message that is set from the data of a string buffer.\<close>

lemma set_error_returns:
  assumes r: "space_inv r" and b: "eb_inv b"
  shows "returns (pqSetResultError r (Some (buffer_data b)) h) (\<lambda>(r', h'). \<exists>g p. space_inv g \<and> grown r g
    \<and> r' = g\<lparr>errMsg := p\<rparr> \<and> text_ptr g p \<and> (\<forall>k. plenty (Suc k) h \<longrightarrow> plenty k h'))"
proof -
  obtain t rest where t: "buffer_data b = t @ 0 # rest" "0 \<notin> set t" "length t < INT_MAX" using buffer_data_text [OF b] by blast
  show ?thesis
  proof (cases t)
    case Nil
    then show ?thesis using t r plenty_mono [of "Suc k" h k for k]
      by (auto simp: pqSetResultError_def peek_in_bounds intro!: exI [of _ r] exI [of _ NULL])
  next
    case (Cons a as)
    have pk: "peek (buffer_data b) 0 = Some a" "a \<noteq> 0" using t(1,2) Cons by (simp_all add: peek_in_bounds)
    obtain p g h' where s: "pqResultStrdup r (t @ 0 # rest) h = Some (p, g, h')" "space_inv g" "grown r g"
      "p = NULL \<or> holds g p (t @ [0])" "\<forall>k. plenty (Suc k) h \<longrightarrow> p \<noteq> NULL \<and> plenty k h'"
      using strdup_returns [OF r t(2,3), of rest h] by (auto simp: returns_def)
    have e: "pqSetResultError r (Some (buffer_data b)) h = Some (g\<lparr>errMsg := p\<rparr>, h')"
      using pk s(1) by (simp add: pqSetResultError_def t(1))
    show ?thesis unfolding e returns_Some prod.case
      by (rule exI [of _ g], rule exI [of _ p]) (use s t(2) in \<open>auto simp: text_ptr_def\<close>)
  qed
qed

lemma make_empty_returns:
  assumes "eb_inv (errorMessage k)"
  shows "returns (PQmakeEmptyPGresult (Some k) st h) (\<lambda>(r, h'). (\<forall>x. r = Some x \<longrightarrow> result_inv x \<and> represents x []
      \<and> numAttributes x = 0 \<and> ntups x = 0 \<and> resultStatus x = st \<and> result_encoding x = client_encoding k \<and> errFields x = [])
    \<and> (\<forall>j. plenty (2 + j) h \<longrightarrow> r \<noteq> None \<and> plenty j h'))"
proof -
  have p1: "plenty (2 + j) h \<Longrightarrow> fst (next_answer h) \<and> plenty (Suc j) (snd (next_answer h))" for j
    using plenty_next [of "Suc j" h] by simp
  show ?thesis
  proof (cases "fst (next_answer h)")
    case False
    then show ?thesis using p1 by (auto simp: PQmakeEmptyPGresult_def split_beta Let_def)
  next
    case True
    define h1 where "h1 = snd (next_answer h)"
    let ?e = "empty_result st (client_encoding k)"
    have si: "space_inv ?e" using result_invD(1) empty_result_ok(1) by blast
    show ?thesis
    proof (cases "error_status st")
      case False
      then have e: "PQmakeEmptyPGresult (Some k) st h = Some (Some ?e, h1)"
        using True by (simp add: PQmakeEmptyPGresult_def split_beta Let_def h1_def)
      show ?thesis unfolding e using p1 plenty_mono [of "Suc j" h1 j for j] by (auto simp: h1_def)
    next
      case err: True
      then have st: "st \<noteq> PGRES_TUPLES_OK" by auto
      obtain g p h2 where g: "pqSetResultError ?e (Some (buffer_data (errorMessage k))) h1 = Some (g\<lparr>errMsg := p\<rparr>, h2)"
        "space_inv g" "grown ?e g" "text_ptr g p" "\<forall>k. plenty (Suc k) h1 \<longrightarrow> plenty k h2"
        using set_error_returns [OF si assms, of h1] by (auto simp: returns_def)
      have e: "PQmakeEmptyPGresult (Some k) st h = Some (Some (g\<lparr>errMsg := p\<rparr>), h2)"
        using True err g(1) by (simp add: PQmakeEmptyPGresult_def split_beta Let_def h1_def [symmetric])
      have i: "result_inv (g\<lparr>errMsg := p\<rparr>)" "represents (g\<lparr>errMsg := p\<rparr>) []"
        using result_inv_grown [OF empty_result_ok(1) g(3,2)] represents_grown [OF empty_result_ok(3) g(3,2)] g(4) by simp_all
      show ?thesis unfolding e using i p1 g(5) grown_fields [OF g(3)] grown_more [OF g(3)] by (auto simp: h1_def)
    qed
  qed
qed

lemma catenate_returns:
  assumes r: "result_inv r" and b: "eb_inv b"
  shows "returns (pqCatenateResultError r (Some (buffer_data b)) h) (\<lambda>(r', h'). result_inv r' \<and> (\<exists>g p. grown r g \<and> r' = g\<lparr>errMsg := p\<rparr>))"
proof -
  obtain t rest where t: "buffer_data b = t @ 0 # rest" "0 \<notin> set t" using buffer_data_text [OF b] by blast
  have nul: "0 \<in> set (buffer_data b)" using t by simp
  obtain b1 h1 where b1: "initPQExpBuffer h = Some (b1, h1)" "eb_inv b1" using init_result [of h] by blast
  have "\<exists>b2 h2. (if errMsg r \<noteq> NULL then do { old \<leftarrow> read_at r (errMsg r); appendPQExpBufferStr (Some b1) old h1 }
      else Some (Some b1, h1)) = Some (Some b2, h2) \<and> eb_inv b2"
  proof (cases "errMsg r = NULL")
    case False
    then obtain s where s: "0 \<notin> set s" "holds r (errMsg r) (s @ [0])" using result_invD(3) [OF r] by (auto simp: text_ptr_def)
    obtain w where w: "read_at r (errMsg r) = Some (s @ 0 # w)" using holds_read [OF s(2)] by blast
    show ?thesis using False w str.app_result [OF b1(2), of "s @ 0 # w" h1] by (auto simp: on_buffer_Some)
  qed (use b1 in simp)
  then obtain b2 h2 where b2: "(if errMsg r \<noteq> NULL then do { old \<leftarrow> read_at r (errMsg r); appendPQExpBufferStr (Some b1) old h1 }
      else Some (Some b1, h1)) = Some (Some b2, h2)" "eb_inv b2" by blast
  obtain b3 h3 where b3: "appendPQExpBufferStr (Some b2) (buffer_data b) h2 = Some (Some b3, h3)" "eb_inv b3"
    using str.app_result [OF b2(2) nul, of h2] by (auto simp: on_buffer_Some)
  have e: "pqCatenateResultError r (Some (buffer_data b)) h = pqSetResultError r (Some (buffer_data b3)) h3"
    unfolding pqCatenateResultError_def option.case b1(1) bind.bind_lunit prod.case b2(1) b3(1) ..
  show ?thesis unfolding e
  proof (rule returns_mono [OF set_error_returns [OF result_invD(1) [OF r] b3(2), of h3]], clarify)
    fix h' g p assume g: "space_inv g" "grown r g" "text_ptr g p"
    then show "result_inv (g\<lparr>errMsg := p\<rparr>) \<and> (\<exists>g' p'. grown r g' \<and> g\<lparr>errMsg := p\<rparr> = g'\<lparr>errMsg := p'\<rparr>)"
      using result_inv_grown [OF r g(2,1)] by auto
  qed
qed

section \<open>The invariant of the client\<close>

text \<open>
  The invariant without the cursor: while a message is skipped it may be anywhere. A statement that is
  described gets no rows.
\<close>

definition state_inv :: "client \<Rightarrow> bool" where
  "state_inv c \<longleftrightarrow> eb_inv (errorMessage (conn c)) \<and> eb_inv (workBuffer c) \<and> length (rowBuf c) = rowBufLen c
     \<and> PG_VALID_ENCODING (client_encoding (conn c))
     \<and> (\<forall>r. result c = Some r \<longrightarrow> result_inv r \<and> PG_VALID_ENCODING (result_encoding r)
          \<and> (queryclass c = PGQUERY_DESCRIBE \<longrightarrow> ntups r = 0 \<and> resultStatus r \<noteq> PGRES_TUPLES_OK))
     \<and> (\<forall>q. last_query c = Some q \<longrightarrow> (\<exists>t rest. q = t @ 0 # rest \<and> 0 \<notin> set t \<and> length t < INT_MAX))"

text \<open>The number of rows that have been received.\<close>

definition rows :: "client \<Rightarrow> nat" where
  "rows c = (case result c of None \<Rightarrow> 0 | Some r \<Rightarrow> ntups r)"

lemma rows_simps [simp]: "result c = None \<Longrightarrow> rows c = 0" "result c = Some r \<Longrightarrow> rows c = ntups r"
  by (simp_all add: rows_def)

text \<open>What no message changes: the data that has been received, the output, and the query.\<close>

definition same_buffers :: "PGconn \<Rightarrow> PGconn \<Rightarrow> bool" where
  "same_buffers k k' \<longleftrightarrow> inBuffer k' = inBuffer k \<and> inBufSize k' = inBufSize k \<and> inEnd k' = inEnd k
     \<and> outBuffer k' = outBuffer k \<and> outBufSize k' = outBufSize k \<and> outCount k' = outCount k
     \<and> outMsgStart k' = outMsgStart k \<and> outMsgEnd k' = outMsgEnd k \<and> sock k' = sock k
     \<and> status k' = status k \<and> nonblocking k' = nonblocking k \<and> pversion k' = pversion k"

definition same_data :: "client \<Rightarrow> client \<Rightarrow> bool" where
  "same_data c c' \<longleftrightarrow> same_buffers (conn c) (conn c') \<and> net c' = net c \<and> queryclass c' = queryclass c
     \<and> verbosity c' = verbosity c \<and> show_context c' = show_context c \<and> last_query c' = last_query c
     \<and> singleRowMode c' = singleRowMode c"

lemma same_data_refl [simp]: "same_data c c"
  by (simp add: same_data_def same_buffers_def)

lemma same_data_trans: "same_data a b \<Longrightarrow> same_data b c \<Longrightarrow> same_data a c"
  by (simp add: same_data_def same_buffers_def)

text \<open>The positions in the input.\<close>

definition same_place :: "client \<Rightarrow> client \<Rightarrow> bool" where
  "same_place c c' \<longleftrightarrow> inStart (conn c') = inStart (conn c) \<and> inCursor (conn c') = inCursor (conn c)"

definition further :: "client \<Rightarrow> client \<Rightarrow> bool" where
  "further c c' \<longleftrightarrow> inStart (conn c') = inStart (conn c) \<and> inCursor (conn c) \<le> inCursor (conn c')
     \<and> inCursor (conn c') \<le> inEnd (conn c')"

text \<open>A step that keeps the invariant and gets no rows.\<close>

definition kept :: "client \<Rightarrow> client \<Rightarrow> bool" where
  "kept c c' \<longleftrightarrow> state_inv c' \<and> same_data c c' \<and> rows c' \<le> rows c"

definition reads :: "client \<Rightarrow> client \<Rightarrow> bool" where
  "reads c c' \<longleftrightarrow> kept c c' \<and> further c c' \<and> conn_inv (conn c')"

lemma kept_trans: "kept a b \<Longrightarrow> kept b c \<Longrightarrow> kept a c"
  unfolding kept_def using same_data_trans by auto

lemma reads_trans:
  assumes "reads a b" "reads b c"
  shows "reads a c"
proof -
  have "kept a c" using assms kept_trans unfolding reads_def by blast
  then show ?thesis using assms by (simp add: reads_def further_def)
qed

lemma kept_reads:
  assumes "kept c c'" "same_place c c'" "conn_inv (conn c)"
  shows "reads c c'"
  using assms by (simp add: reads_def further_def kept_def same_place_def same_data_def same_buffers_def state_inv_def conn_inv_def)

lemma kept_refl: "state_inv c \<Longrightarrow> kept c c"
  by (simp add: kept_def)

lemma reads_refl: "state_inv c \<Longrightarrow> conn_inv (conn c) \<Longrightarrow> reads c c"
  by (rule kept_reads) (simp_all add: kept_refl same_place_def)

lemma readsD: "reads c c' \<Longrightarrow> state_inv c'" "reads c c' \<Longrightarrow> conn_inv (conn c')"
  by (simp_all add: reads_def kept_def)

lemma same_place_refl [simp]: "same_place c c"
  by (simp add: same_place_def)

lemma same_place_trans: "same_place a b \<Longrightarrow> same_place b c \<Longrightarrow> same_place a c"
  by (simp add: same_place_def)

section \<open>Messages and the result\<close>

lemma error_message_kept:
  assumes "formatter_ok vsn" "state_inv c"
  shows "returns (error_message vsn fmt c) (\<lambda>c'. kept c c' \<and> same_place c c' \<and> result c' = result c
    \<and> (\<exists>e h. eb_inv e \<and> c' = c\<lparr>conn := (conn c)\<lparr>errorMessage := e\<rparr>, mem := h\<rparr>))"
proof -
  have "eb_inv (errorMessage (conn c))" using assms(2) by (simp add: state_inv_def)
  from print_error_result [OF assms(1) this, of fmt "mem c"] obtain e h where
    e: "print_error vsn fmt (conn c) (mem c) = Some ((conn c)\<lparr>errorMessage := e\<rparr>, h)" "eb_inv e" by blast
  then have eq: "error_message vsn fmt c = Some (c\<lparr>conn := (conn c)\<lparr>errorMessage := e\<rparr>, mem := h\<rparr>)"
    by (simp add: error_message_def)
  show ?thesis unfolding eq using assms(2) e(2)
    by (auto simp: kept_def state_inv_def same_data_def same_buffers_def same_place_def rows_def)
qed

text \<open>An assignment to fields that the invariant does not mention.\<close>

lemma state_inv_fields [simp]:
  "state_inv (c\<lparr>mem := h\<rparr>) = state_inv c" "state_inv (c\<lparr>asyncStatus := a\<rparr>) = state_inv c"
  "state_inv (c\<lparr>xactStatus := x\<rparr>) = state_inv c" "state_inv (c\<lparr>last_sqlstate := s\<rparr>) = state_inv c"
  "state_inv (c\<lparr>copy_is_binary := b\<rparr>) = state_inv c" "state_inv (c\<lparr>copy_already_done := n\<rparr>) = state_inv c"
  "state_inv (c\<lparr>notifies := ns\<rparr>) = state_inv c" "state_inv (c\<lparr>be_pid := i\<rparr>) = state_inv c"
  "state_inv (c\<lparr>be_key := i\<rparr>) = state_inv c" "state_inv (c\<lparr>pstatus := ps\<rparr>) = state_inv c"
  "state_inv (c\<lparr>next_result := nr\<rparr>) = state_inv c" "state_inv (c\<lparr>notices := rs\<rparr>) = state_inv c"
  "state_inv (c\<lparr>static_client_encoding := e\<rparr>) = state_inv c" "state_inv (c\<lparr>static_std_strings := sb\<rparr>) = state_inv c"
  "state_inv (c\<lparr>net := w\<rparr>) = state_inv c"
  by (simp_all add: state_inv_def)

lemma make_result_kept:
  assumes "state_inv c"
  shows "returns (make_result st c) (\<lambda>(r, c'). (\<exists>h. c' = c\<lparr>mem := h\<rparr>)
    \<and> (\<forall>x. r = Some x \<longrightarrow> result_inv x \<and> represents x [] \<and> numAttributes x = 0 \<and> ntups x = 0 \<and> resultStatus x = st
        \<and> result_encoding x = client_encoding (conn c) \<and> errFields x = [])
    \<and> (\<forall>j. plenty (2 + j) (mem c) \<longrightarrow> r \<noteq> None \<and> plenty j (mem c')))"
proof -
  have "eb_inv (errorMessage (conn c))" using assms by (simp add: state_inv_def)
  from make_empty_returns [OF this, of st "mem c"] show ?thesis
    unfolding make_result_def returns_bind by (rule returns_mono) auto
qed

lemma kept_result:
  assumes "state_inv c" "\<And>r'. r = Some r' \<Longrightarrow> result_inv r' \<and> PG_VALID_ENCODING (result_encoding r') \<and> ntups r' = 0
      \<and> (queryclass c = PGQUERY_DESCRIBE \<longrightarrow> resultStatus r' \<noteq> PGRES_TUPLES_OK)"
  shows "kept c (c\<lparr>mem := h, result := r\<rparr>)" "kept c (c\<lparr>mem := h, result := r, next_result := nr\<rparr>)"
proof -
  have i: "state_inv (c\<lparr>mem := h, result := r\<rparr>)" using assms unfolding state_inv_def by simp
  moreover have n: "rows (c\<lparr>mem := h, result := r\<rparr>) = 0" using assms(2) by (cases r) simp_all
  ultimately show "kept c (c\<lparr>mem := h, result := r\<rparr>)" by (simp add: kept_def same_data_def same_buffers_def)
  have "state_inv (c\<lparr>mem := h, result := r, next_result := nr\<rparr>)" using i unfolding state_inv_def by simp
  moreover have "rows (c\<lparr>mem := h, result := r, next_result := nr\<rparr>) = 0" using assms(2) by (cases r) simp_all
  ultimately show "kept c (c\<lparr>mem := h, result := r, next_result := nr\<rparr>)" by (simp add: kept_def same_data_def same_buffers_def)
qed

text \<open>After an error: there is no result but an error.\<close>

definition failed :: "client \<Rightarrow> bool" where
  "failed c \<longleftrightarrow> (\<forall>r. result c = Some r \<longrightarrow> resultStatus r = PGRES_FATAL_ERROR)"

text \<open>Nothing but the result and its memory, and the message of the connection, is changed.\<close>

definition only_result :: "client \<Rightarrow> client \<Rightarrow> bool" where
  "only_result c c' \<longleftrightarrow> (\<exists>e h r nr. c' = c\<lparr>conn := (conn c)\<lparr>errorMessage := e\<rparr>, mem := h, result := r, next_result := nr\<rparr>)"

lemma only_result_place: "only_result c c' \<Longrightarrow> same_place c c'"
  by (auto simp: only_result_def same_place_def)

lemma only_resultI:
  "only_result c c" "only_result c (c\<lparr>conn := (conn c)\<lparr>errorMessage := e\<rparr>, mem := h\<rparr>)"
  "only_result c (c\<lparr>mem := h, result := r\<rparr>)" "only_result c (c\<lparr>mem := h, result := r, next_result := nr\<rparr>)"
proof -
  show "only_result c c" unfolding only_result_def
    by (rule exI [of _ "errorMessage (conn c)"], rule exI [of _ "mem c"], rule exI [of _ "result c"], rule exI [of _ "next_result c"]) simp
  show "only_result c (c\<lparr>conn := (conn c)\<lparr>errorMessage := e\<rparr>, mem := h\<rparr>)" unfolding only_result_def
    by (rule exI [of _ e], rule exI [of _ h], rule exI [of _ "result c"], rule exI [of _ "next_result c"]) (cases c, simp)
  show "only_result c (c\<lparr>mem := h, result := r\<rparr>)" unfolding only_result_def
    by (rule exI [of _ "errorMessage (conn c)"], rule exI [of _ h], rule exI [of _ r], rule exI [of _ "next_result c"]) (cases c, simp)
  show "only_result c (c\<lparr>mem := h, result := r, next_result := nr\<rparr>)" unfolding only_result_def
    by (rule exI [of _ "errorMessage (conn c)"], rule exI [of _ h], rule exI [of _ r], rule exI [of _ nr]) (cases c, simp)
qed

lemma only_result_trans:
  assumes "only_result a b" "only_result b c"
  shows "only_result a c"
proof -
  obtain e h r nr where b: "b = a\<lparr>conn := (conn a)\<lparr>errorMessage := e\<rparr>, mem := h, result := r, next_result := nr\<rparr>"
    using assms(1) unfolding only_result_def by blast
  obtain e' h' r' nr' where "c = b\<lparr>conn := (conn b)\<lparr>errorMessage := e'\<rparr>, mem := h', result := r', next_result := nr'\<rparr>"
    using assms(2) unfolding only_result_def by blast
  then have "c = a\<lparr>conn := (conn a)\<lparr>errorMessage := e'\<rparr>, mem := h', result := r', next_result := nr'\<rparr>" by (simp add: b)
  then show ?thesis unfolding only_result_def by blast
qed

lemma save_error_result_kept:
  assumes "state_inv c"
  shows "returns (pqSaveErrorResult c) (\<lambda>c'. kept c c' \<and> only_result c c' \<and> failed c')"
proof -
  have fresh: "returns (do { (r, c) \<leftarrow> make_result PGRES_FATAL_ERROR (pqClearAsyncResult c); Some (c\<lparr>result := r\<rparr>) })
      (\<lambda>c'. kept c c' \<and> only_result c c' \<and> failed c')"
  proof -
    have s: "state_inv (pqClearAsyncResult c)" using assms by (simp add: pqClearAsyncResult_def state_inv_def)
    show ?thesis
    proof (rule returns_seq [OF make_result_kept [OF s, of PGRES_FATAL_ERROR]], clarify)
      fix r h
      assume x: "\<forall>x. r = Some x \<longrightarrow> result_inv x \<and> represents x [] \<and> numAttributes x = 0 \<and> ntups x = 0
          \<and> resultStatus x = PGRES_FATAL_ERROR \<and> result_encoding x = client_encoding (conn (pqClearAsyncResult c)) \<and> errFields x = []"
      have e: "(pqClearAsyncResult c)\<lparr>mem := h\<rparr>\<lparr>result := r\<rparr> = c\<lparr>mem := h, result := r, next_result := None\<rparr>"
        by (cases c) (simp add: pqClearAsyncResult_def)
      have enc: "client_encoding (conn (pqClearAsyncResult c)) = client_encoding (conn c)" by (simp add: pqClearAsyncResult_def)
      have v: "PG_VALID_ENCODING (client_encoding (conn c))" using assms by (simp add: state_inv_def)
      have "kept c (c\<lparr>mem := h, result := r, next_result := None\<rparr>)"
        by (rule kept_result(2) [OF assms]) (use x enc v in simp)
      moreover have "failed (c\<lparr>mem := h, result := r, next_result := None\<rparr>)" using x by (simp add: failed_def)
      ultimately show "returns (Some ((pqClearAsyncResult c)\<lparr>mem := h\<rparr>\<lparr>result := r\<rparr>)) (\<lambda>c'. kept c c' \<and> only_result c c' \<and> failed c')"
        unfolding e returns_Some using only_resultI(4) by blast
    qed
  qed
  show ?thesis
  proof (cases "result c")
    case None
    then show ?thesis using fresh by (simp add: pqSaveErrorResult_def)
  next
    case (Some r)
    show ?thesis
    proof (cases "resultStatus r \<noteq> PGRES_FATAL_ERROR \<or> errMsg r = NULL")
      case True
      then show ?thesis using fresh Some by (simp add: pqSaveErrorResult_def)
    next
      case False
      have r: "result_inv r" "PG_VALID_ENCODING (result_encoding r)" "queryclass c = PGQUERY_DESCRIBE \<longrightarrow> ntups r = 0 \<and> resultStatus r \<noteq> PGRES_TUPLES_OK"
        "eb_inv (errorMessage (conn c))"
        using assms Some by (simp_all add: state_inv_def)
      have e: "pqSaveErrorResult c = do {
          (r, h) \<leftarrow> pqCatenateResultError r (Some (buffer_data (errorMessage (conn c)))) (mem c);
          Some (c\<lparr>result := Some r, mem := h\<rparr>) }" using Some False by (simp add: pqSaveErrorResult_def)
      show ?thesis unfolding e
      proof (rule returns_seq [OF catenate_returns [OF r(1,4), of "mem c"]], clarify)
        fix h g p assume g: "result_inv (g\<lparr>errMsg := p\<rparr>)" "grown r g"
        have f: "ntups g = ntups r" "resultStatus g = PGRES_FATAL_ERROR" "result_encoding g = result_encoding r"
          using grown_fields [OF g(2)] grown_more [OF g(2)] False by simp_all
        let ?c = "c\<lparr>mem := h, result := Some (g\<lparr>errMsg := p\<rparr>)\<rparr>"
        have "state_inv ?c" using assms g(1) f r(2,3) by (simp add: state_inv_def)
        then have "kept c ?c" using Some f by (simp add: kept_def same_data_def same_buffers_def)
        moreover have "failed ?c" using f by (simp add: failed_def)
        moreover have eq: "c\<lparr>result := Some (g\<lparr>errMsg := p\<rparr>), mem := h\<rparr> = ?c" by (cases c) simp
        ultimately show "returns (Some (c\<lparr>result := Some (g\<lparr>errMsg := p\<rparr>), mem := h\<rparr>)) (\<lambda>c'. kept c c' \<and> only_result c c' \<and> failed c')"
          unfolding eq returns_Some using only_resultI(3) by blast
      qed
    qed
  qed
qed

lemma save_error_kept:
  assumes "formatter_ok vsn" "state_inv c"
  shows "returns (save_error vsn fmt c) (\<lambda>c'. kept c c' \<and> only_result c c' \<and> failed c')"
  unfolding save_error_def
proof (rule returns_seq [OF error_message_kept [OF assms, of fmt]])
  fix x assume x: "kept c x \<and> same_place c x \<and> result x = result c
    \<and> (\<exists>e h. eb_inv e \<and> x = c\<lparr>conn := (conn c)\<lparr>errorMessage := e\<rparr>, mem := h\<rparr>)"
  then have s: "state_inv x" "only_result c x" using only_resultI(2) by (auto simp: kept_def)
  show "returns (pqSaveErrorResult x) (\<lambda>c'. kept c c' \<and> only_result c c' \<and> failed c')"
    by (rule returns_mono [OF save_error_result_kept [OF s(1)]]) (use x s(2) kept_trans only_result_trans in blast)
qed

section \<open>Reading\<close>

definition unread :: "client \<Rightarrow> byte list" where
  "unread c = in_unread (conn c)"

definition adv :: "nat \<Rightarrow> client \<Rightarrow> client" where
  "adv n c = c\<lparr>conn := (conn c)\<lparr>inCursor := inCursor (conn c) + n\<rparr>\<rparr>"

lemma adv_simps [simp]:
  "adv 0 c = c" "adv m (adv n c) = adv (n + m) c" "result (adv n c) = result c" "mem (adv n c) = mem c"
  "workBuffer (adv n c) = workBuffer c" "rowBuf (adv n c) = rowBuf c" "rowBufLen (adv n c) = rowBufLen c"
  "asyncStatus (adv n c) = asyncStatus c" "queryclass (adv n c) = queryclass c" "singleRowMode (adv n c) = singleRowMode c"
  "inStart (conn (adv n c)) = inStart (conn c)" "inBuffer (conn (adv n c)) = inBuffer (conn c)"
  "inCursor (conn (adv n c)) = inCursor (conn c) + n" "inEnd (conn (adv n c)) = inEnd (conn c)"
  "client_encoding (conn (adv n c)) = client_encoding (conn c)" "errorMessage (conn (adv n c)) = errorMessage (conn c)"
  "adv n (c\<lparr>mem := h\<rparr>) = (adv n c)\<lparr>mem := h\<rparr>"
  by (simp_all add: adv_def add.assoc add.commute [of m n])

lemma state_inv_adv [simp]: "state_inv (adv n c) = state_inv c"
  by (simp add: state_inv_def adv_def)

lemma unread_length: "conn_inv (conn c) \<Longrightarrow> length (unread c) = inEnd (conn c) - inCursor (conn c)"
  by (auto simp: unread_def in_unread_def conn_inv_def)

lemma unread_adv:
  assumes "conn_inv (conn c)" "n \<le> length (unread c)"
  shows "conn_inv (conn (adv n c))" "unread (adv n c) = drop n (unread c)"
proof -
  have "inCursor (conn c) \<le> inEnd (conn c)" using assms(1) by (simp add: conn_inv_def)
  then show "conn_inv (conn (adv n c))" using assms unread_length [OF assms(1)] by (simp add: adv_def conn_inv_def)
  show "unread (adv n c) = drop n (unread c)" by (simp add: unread_def adv_def in_unread_def drop_take add.commute)
qed

lemma reads_adv:
  assumes "state_inv c" "conn_inv (conn c)" "n \<le> length (unread c)"
  shows "reads c (adv n c)"
proof -
  have "conn_inv (conn (adv n c))" by (rule unread_adv(1) [OF assms(2,3)])
  moreover have "kept c (adv n c)" using assms(1) by (simp add: kept_def same_data_def same_buffers_def rows_def) (simp add: adv_def)
  moreover have "inCursor (conn (adv n c)) \<le> inEnd (conn (adv n c))" using calculation(1) by (simp add: conn_inv_def)
  ultimately show ?thesis by (simp add: reads_def further_def)
qed

lemma get_char_returns:
  assumes "conn_inv (conn c)"
  shows "get_char c = (case unread c of [] \<Rightarrow> Some (None, c) | x # r \<Rightarrow> Some (Some x, adv 1 c))"
proof (cases "unread c")
  case Nil
  then have "inEnd (conn c) \<le> inCursor (conn c)" using unread_length [OF assms] by simp
  then show ?thesis using Nil by (simp add: get_char_def pqGetc_def)
next
  case (Cons x r)
  then show ?thesis using getc_result [of "conn c" x r] assms by (simp add: get_char_def unread_def adv_def)
qed

text \<open>The value of the next bytes as an integer.\<close>

definition be_int :: "nat \<Rightarrow> byte list \<Rightarrow> int" where
  "be_int bytes s = (if bytes = 2 then int (ntohs (take 2 s)) else int32 (int (ntohl (take 4 s))))"

lemma get_int_returns:
  assumes i: "conn_inv (conn c)" and n: "n = 2 \<or> n = 4"
  shows "get_int n c = (if length (unread c) < n then Some (None, c) else Some (Some (be_int n (unread c)), adv n c))"
proof -
  have l: "length (unread c) = inEnd (conn c) - inCursor (conn c)" by (rule unread_length [OF i])
  have b: "inCursor (conn c) \<le> inEnd (conn c)" "inEnd (conn c) \<le> length (inBuffer (conn c))" using i by (simp_all add: conn_inv_def)
  have t: "take k (unread c) = take k (drop (inCursor (conn c)) (inBuffer (conn c)))" if "k \<le> length (unread c)" for k
    using that l by (simp add: unread_def in_unread_def min_def)
  show ?thesis
  proof (cases "length (unread c) < n")
    case True
    then have "inCursor (conn c) + n > inEnd (conn c)" using l b by linarith
    then show ?thesis using True n by (auto simp: get_int_def pqGetInt_def)
  next
    case False
    then have "inCursor (conn c) + n \<le> inEnd (conn c)" using l b by linarith
    then show ?thesis using False n b t [of n] by (auto simp: get_int_def pqGetInt_def be_int_def adv_def)
  qed
qed

lemma be_int_range: "n = 2 \<Longrightarrow> 2 \<le> length s \<Longrightarrow> 0 \<le> be_int n s \<and> be_int n s < 2 ^ 16"
proof -
  assume n: "n = 2" "2 \<le> length s"
  then obtain a b r where s: "s = a # b # r" using list_ge2 by blast
  have "unat a < 256" "unat b < 256" using unat_byte_less by blast+
  then have "unat a * 256 + unat b < 65536" by linarith
  moreover have "be_int n (a # b # r) = int (unat a * 256 + unat b)" using n(1) by (simp only: be_int_def ntohs_def) simp
  ultimately obtain x where "be_int n s = int x" "x < 65536" unfolding s by blast
  then show ?thesis by simp
qed

lemma int32_range: "- (2 ^ 31) \<le> int32 x \<and> int32 x < 2 ^ 31"
proof -
  have "0 \<le> (x + 2147483648) mod 4294967296" "(x + 2147483648) mod 4294967296 < 4294967296" by simp_all
  then show ?thesis by (simp add: int32_def)
qed

lemma skip_returns:
  assumes "conn_inv (conn c)"
  shows "skip_nchar n c = (if n \<le> length (unread c) then (True, adv n c) else (False, c))"
  using in_avail_eq [OF assms] unread_length [OF assms] by (auto simp: skip_nchar_def pqSkipnchar_def adv_def)

lemma get_string_returns:
  assumes i: "conn_inv (conn c)" and b: "eb_inv b"
  shows "returns (get_string b c) (\<lambda>(ok, b', c'). eb_inv b' \<and> (if ok
      then \<exists>s r h. unread c = s @ 0 # r \<and> 0 \<notin> set s \<and> length s < INT_MAX \<and> c' = (adv (length s + 1) c)\<lparr>mem := h\<rparr>
        \<and> (eb_text b' = None \<or> eb_text b' = Some s) \<and> (\<forall>k. plenty (Suc (Suc k)) (mem c) \<longrightarrow> eb_text b' = Some s \<and> plenty k h)
      else 0 \<notin> set (unread c) \<and> c' = c \<and> b' = b))"
proof (cases "0 \<in> set (unread c)")
  case True
  then obtain s r where s: "unread c = s @ 0 # r" "0 \<notin> set s" using take_nul by blast
  obtain b' h' where g: "pqGets (Some b) (conn c) (mem c) = Some (True, Some b', (conn c)\<lparr>inCursor := inCursor (conn c) + length (s @ [0])\<rparr>, h')"
    "eb_inv b'" "eb_text b' = None \<or> eb_text b' = Some s" "\<forall>k. plenty (Suc (Suc k)) (mem c) \<longrightarrow> eb_text b' = Some s \<and> plenty k h'"
    using gets_result [OF s(1) [unfolded unread_def] i s(2) b, of "mem c"] by blast
  have e: "get_string b c = Some (True, b', (adv (length s + 1) c)\<lparr>mem := h'\<rparr>)"
    using g(1) by (cases c) (simp add: get_string_def adv_def)
  have "length s < INT_MAX"
    using arg_cong [OF s(1), of length] unread_length [OF i] i by (auto simp: conn_inv_def)
  then show ?thesis unfolding e using g(2-4) s by auto
next
  case False
  have b2: "inCursor (conn c) \<le> inEnd (conn c)" "inEnd (conn c) \<le> length (inBuffer (conn c))" using i by (simp_all add: conn_inv_def)
  have "inCursor (conn c) \<le> j \<Longrightarrow> j \<le> inEnd (conn c) \<Longrightarrow> find_nul (inBuffer (conn c)) j (inEnd (conn c)) = Some (inEnd (conn c))" for j
  proof (induction "inEnd (conn c) - j" arbitrary: j)
    case 0
    then show ?case by (subst find_nul.simps) simp
  next
    case (Suc m)
    have lt: "j < inEnd (conn c)" using Suc.hyps(2) by linarith
    have "j - inCursor (conn c) < length (unread c)" using lt Suc.prems(1) unread_length [OF i] by linarith
    then have "unread c ! (j - inCursor (conn c)) \<in> set (unread c)" by (rule nth_mem)
    moreover have "unread c ! (j - inCursor (conn c)) = inBuffer (conn c) ! j"
      using Suc.prems(1) lt b2 by (simp add: unread_def in_unread_def)
    ultimately have "inBuffer (conn c) ! j \<noteq> 0" using False by metis
    moreover have "find_nul (inBuffer (conn c)) (Suc j) (inEnd (conn c)) = Some (inEnd (conn c))"
      by (rule Suc.hyps(1)) (use Suc.hyps(2) Suc.prems lt in auto)
    ultimately show ?case using lt b2 by (subst find_nul.simps) (simp add: peek_in_bounds)
  qed
  then have "find_nul (inBuffer (conn c)) (inCursor (conn c)) (inEnd (conn c)) = Some (inEnd (conn c))" using b2(1) by blast
  then have "get_string b c = Some (False, b, c)" by (simp add: get_string_def pqGets_def pqGets_internal_def)
  then show ?thesis using False b by simp
qed

lemma state_inv_work [simp]: "state_inv c \<Longrightarrow> eb_inv b \<Longrightarrow> state_inv (c\<lparr>workBuffer := b\<rparr>)"
  unfolding state_inv_def by simp

lemma unread_mem [simp]: "unread (c\<lparr>mem := h\<rparr>) = unread c" "unread (c\<lparr>workBuffer := b\<rparr>) = unread c"
  by (simp_all add: unread_def)

lemma buffer_data_broken: "eb_text b = None \<Longrightarrow> buffer_data b = [0]"
  by (simp add: buffer_data_def eb_text_def)

text \<open>Without memory the string that is read is lost, and the empty string takes its place.\<close>

lemma get_work_returns:
  assumes i: "conn_inv (conn c)" and s: "state_inv c"
  shows "returns (get_work c) (\<lambda>(ok, c'). if ok
      then \<exists>s r h b t rest. unread c = s @ 0 # r \<and> 0 \<notin> set s \<and> c' = (adv (length s + 1) c)\<lparr>mem := h, workBuffer := b\<rparr>
        \<and> eb_inv b \<and> buffer_data b = t @ 0 # rest \<and> 0 \<notin> set t \<and> length t < INT_MAX \<and> (t = s \<or> t = [])
        \<and> (\<forall>k. plenty (Suc (Suc k)) (mem c) \<longrightarrow> t = s \<and> plenty k h)
      else 0 \<notin> set (unread c) \<and> c' = c)"
  unfolding get_work_def
proof (rule returns_seq3 [OF get_string_returns [OF i]], goal_cases)
  case 1
  show ?case using s by (simp add: state_inv_def)
next
  case (2 ok b d)
  show ?case
  proof (cases ok)
    case True
    then obtain s r h where d: "unread c = s @ 0 # r" "0 \<notin> set s" "d = (adv (length s + 1) c)\<lparr>mem := h\<rparr>" "eb_inv b"
      "eb_text b = None \<or> eb_text b = Some s" "\<forall>k. plenty (Suc (Suc k)) (mem c) \<longrightarrow> eb_text b = Some s \<and> plenty k h"
      using 2 by auto
    obtain t rest where t: "buffer_data b = t @ 0 # rest" "0 \<notin> set t" "length t < INT_MAX" "eb_text b = Some s \<longrightarrow> t = s"
      using buffer_data_text [OF d(4)] d(2) by auto
    have "t = []" if "eb_text b = None" using buffer_data_broken [OF that] t(1) by (cases t) auto
    then have "t = s \<or> t = []" using d(5) t(4) by auto
    moreover have "t = s \<and> plenty k h" if "plenty (Suc (Suc k)) (mem c)" for k using d(6) that t(4) by blast
    moreover have "d\<lparr>workBuffer := b\<rparr> = (adv (length s + 1) c)\<lparr>mem := h, workBuffer := b\<rparr>" using d(3) by simp
    ultimately have "\<exists>s r h b' t rest. unread c = s @ 0 # r \<and> 0 \<notin> set s \<and> d\<lparr>workBuffer := b\<rparr> = (adv (length s + 1) c)\<lparr>mem := h, workBuffer := b'\<rparr>
        \<and> eb_inv b' \<and> buffer_data b' = t @ 0 # rest \<and> 0 \<notin> set t \<and> length t < INT_MAX \<and> (t = s \<or> t = [])
        \<and> (\<forall>k. plenty (Suc (Suc k)) (mem c) \<longrightarrow> t = s \<and> plenty k h)"
      using d(1,2,4) t(1-3) by (intro exI [of _ s] exI [of _ r] exI [of _ h] exI [of _ b] exI [of _ t] exI [of _ rest]) simp
    then show ?thesis using True by simp
  next
    case False
    then show ?thesis using 2 by auto
  qed
qed

section \<open>Steps that read\<close>

text \<open>A change of other parts of the state.\<close>

lemma reads_quiet:
  assumes "reads c d" "conn d' = conn d" "result d' = result d" "workBuffer d' = workBuffer d" "rowBuf d' = rowBuf d"
    "rowBufLen d' = rowBufLen d" "net d' = net d" "queryclass d' = queryclass d" "verbosity d' = verbosity d"
    "show_context d' = show_context d" "last_query d' = last_query d" "singleRowMode d' = singleRowMode d"
  shows "reads c d'"
proof -
  have "state_inv d'" using assms by (simp add: reads_def kept_def state_inv_def)
  then show ?thesis using assms by (simp add: reads_def kept_def further_def rows_def same_data_def)
qed

lemma get_char_reads: "state_inv c \<Longrightarrow> conn_inv (conn c) \<Longrightarrow> returns (get_char c) (\<lambda>(x, c'). reads c c')"
  using reads_refl [of c] reads_adv [of c 1] by (simp add: get_char_returns split: list.split)

lemma get_int_reads: "state_inv c \<Longrightarrow> conn_inv (conn c) \<Longrightarrow> n = 2 \<or> n = 4 \<Longrightarrow> returns (get_int n c) (\<lambda>(x, c'). reads c c')"
  using reads_refl [of c] reads_adv [of c n] get_int_returns [of c n] by auto

lemma get_work_reads:
  assumes "state_inv c" "conn_inv (conn c)"
  shows "returns (get_work c) (\<lambda>(ok, c'). reads c c')"
proof (rule returns_mono [OF get_work_returns [OF assms(2,1)]], clarsimp split: if_splits, goal_cases)
  case (1 ok c')
  then show ?case
  proof (cases ok)
    case True
    then obtain s r h b where d: "unread c = s @ 0 # r" "c' = (adv (length s + 1) c)\<lparr>mem := h, workBuffer := b\<rparr>" "eb_inv b" using 1 by auto
    have "reads c (adv (length s + 1) c)" using d(1) by (intro reads_adv [OF assms]) simp
    then show ?thesis using d(2,3) by (simp add: reads_def kept_def further_def same_data_def rows_def)
  qed (use 1 reads_refl [OF assms] in simp)
qed

lemma get_string_reads:
  assumes "state_inv c" "conn_inv (conn c)" "eb_inv b"
  shows "returns (get_string b c) (\<lambda>(ok, b', c'). eb_inv b' \<and> reads c c')"
proof (rule returns_mono [OF get_string_returns [OF assms(2,3)]], clarsimp, goal_cases)
  case (1 ok b' c')
  then show ?case
  proof (cases ok)
    case True
    then obtain s r h where d: "unread c = s @ 0 # r" "c' = (adv (length s + 1) c)\<lparr>mem := h\<rparr>" using 1 by auto
    have "reads c (adv (length s + 1) c)" using d(1) by (intro reads_adv [OF assms(1,2)]) simp
    then show ?thesis using d(2) by (simp add: reads_def kept_def further_def same_data_def rows_def)
  qed (use 1 reads_refl [OF assms(1,2)] in simp)
qed

end
