(* ===== verification/Row_Data.thy ===== *)
theory Row_Data
  imports Client
begin

text \<open>
  The messages that describe and carry rows: \<open>getRowDescriptions\<close>, \<open>getParamDescriptions\<close>,
  \<open>getAnotherTuple\<close> and \<open>getCopyStart\<close> of \<open>fe-protocol3.c\<close>, with \<open>pqRowProcessor\<close> of \<open>fe-exec.c\<close>, which
  adds a row to the result. A message that is not well formed is skipped and the result replaced by
  an error.
\<close>

section \<open>Adding a row\<close>

text \<open>The loop over the columns: the values that are stored, or nothing when memory runs out.\<close>

fun fill_values :: "byte list \<Rightarrow> PGdataValue list \<Rightarrow> nat \<Rightarrow> PGresult \<Rightarrow> heap
    \<Rightarrow> (PGresAttValue list option \<times> PGresult \<times> heap) option" where
  "fill_values buf [] i res h = Some (Some [], res, h)"
| "fill_values buf (col # cols) i res h =
    (if dv_len col < 0 then do {
       (vs, res, h) \<leftarrow> fill_values buf cols (i + 1) res h;
       Some (map_option (\<lambda>vs. null_value # vs) vs, res, h) }
     else do {
       ds \<leftarrow> attDescs res;
       d \<leftarrow> (if i < length ds then Some (ds ! i) else None);
       (p, res, h) \<leftarrow> result_alloc res (size_of_int (int32 (dv_len col + 1))) (att_format d \<noteq> 0) h;
       if p = NULL then Some (None, res, h)
       else if dv_value col + nat (dv_len col) > length buf then None
       else do {
         res \<leftarrow> write_at res p (take (nat (dv_len col)) (drop (dv_value col) buf) @ [0]);
         (vs, res, h) \<leftarrow> fill_values buf cols (i + 1) res h;
         Some (map_option (\<lambda>vs. \<lparr>att_len = dv_len col, att_value = p\<rparr> # vs) vs, res, h) } })"

text \<open>The body of \<open>pqRowProcessor\<close> on the result that gets the row.\<close>

definition add_row :: "byte list \<Rightarrow> PGdataValue list \<Rightarrow> PGresult \<Rightarrow> heap \<Rightarrow> (bool \<times> PGresult \<times> heap) option" where
  "add_row buf columns res h = do {
     (p, res, h) \<leftarrow> result_alloc res (size_t (length columns * sizeof_PGresAttValue)) True h;
     if p = NULL then Some (False, res, h)
     else do {
       (tup, res, h) \<leftarrow> fill_values buf columns 0 res h;
       case tup of
         None \<Rightarrow> Some (False, res, h)
       | Some tup \<Rightarrow> pqAddTuple res tup h } }"

definition pqRowProcessor :: "client \<Rightarrow> (bool \<times> client) option" where
  "pqRowProcessor c = do {
     res \<leftarrow> result c;
     columns \<leftarrow> (if numAttributes res \<le> length (rowBuf c) then Some (take (numAttributes res) (rowBuf c)) else None);
     if singleRowMode c then do {
       (res, h) \<leftarrow> PQcopyResult (Some res) PG_COPYRES_ATTRS (mem c);
       case res of
         None \<Rightarrow> Some (False, c\<lparr>mem := h\<rparr>)
       | Some res \<Rightarrow> do {
           (ok, res, h) \<leftarrow> add_row (inBuffer (conn c)) columns res h;
           if ok
           then Some (True, c\<lparr>mem := h, next_result := result c,
             result := Some (res\<lparr>resultStatus := PGRES_SINGLE_TUPLE\<rparr>), asyncStatus := PGASYNC_READY\<rparr>)
           else Some (False, c\<lparr>mem := h\<rparr>) } }
     else do {
       (ok, res, h) \<leftarrow> add_row (inBuffer (conn c)) columns res (mem c);
       Some (ok, c\<lparr>mem := h, result := Some res\<rparr>) } }"

section \<open>Giving up on a message\<close>

text \<open>The labels \<open>advance_and_error\<close> and \<open>set_error_result\<close> of the three functions.\<close>

definition set_error_result :: "formatter \<Rightarrow> string \<Rightarrow> client \<Rightarrow> client option" where
  "set_error_result vsn errmsg c = save_error vsn errmsg (pqClearAsyncResult c)"

definition skip_message :: "nat \<Rightarrow> client \<Rightarrow> client" where
  "skip_message msgLength c = c\<lparr>conn := (conn c)\<lparr>inStart := inStart (conn c) + 5 + msgLength\<rparr>\<rparr>"

definition advance_and_error :: "formatter \<Rightarrow> string \<Rightarrow> nat \<Rightarrow> client \<Rightarrow> client option" where
  "advance_and_error vsn errmsg msgLength c = set_error_result vsn errmsg (skip_message msgLength c)"

definition message_done :: "client \<Rightarrow> client" where
  "message_done c = c\<lparr>conn := (conn c)\<lparr>inStart := inCursor (conn c)\<rparr>\<rparr>"

definition whole_message :: "nat \<Rightarrow> client \<Rightarrow> bool" where
  "whole_message msgLength c \<longleftrightarrow> inCursor (conn c) = inStart (conn c) + 5 + msgLength"

section \<open>Rows\<close>

text \<open>The loop over the fields of a row.\<close>

fun scan_fields :: "nat list \<Rightarrow> client \<Rightarrow> (bool \<times> client) option" where
  "scan_fields [] c = Some (True, c)"
| "scan_fields (i # is) c = do {
     (vlen, c) \<leftarrow> get_int 4 c;
     case vlen of
       None \<Rightarrow> Some (False, c)
     | Some vlen \<Rightarrow>
         if i \<ge> length (rowBuf c) then None
         else do {
           let c = c\<lparr>rowBuf := (rowBuf c)[i := \<lparr>dv_len = vlen, dv_value = inCursor (conn c)\<rparr>]\<rparr>;
           let (ok, c) = (if vlen > 0 then skip_nchar (nat vlen) c else (True, c));
           if \<not> ok then Some (False, c) else scan_fields is c } }"

text \<open>The new entries of the array are written before they are read.\<close>

definition resize_row_buffer :: "nat \<Rightarrow> client \<Rightarrow> bool \<times> client" where
  "resize_row_buffer nfields c =
    (if nfields > rowBufLen c then
       (let (ok, h) = next_answer (mem c) in
        if ok
        then (True, c\<lparr>mem := h, rowBufLen := nfields,
          rowBuf := rowBuf c @ replicate (nfields - length (rowBuf c)) \<lparr>dv_len = 0, dv_value = 0\<rparr>\<rparr>)
        else (False, c\<lparr>mem := h\<rparr>))
     else (True, c))"

definition getAnotherTuple :: "formatter \<Rightarrow> nat \<Rightarrow> client \<Rightarrow> client option" where
  "getAnotherTuple vsn msgLength c = do {
     res \<leftarrow> result c;
     let nfields = numAttributes res;
     (tupnfields, c) \<leftarrow> get_int 2 c;
     case tupnfields of
       None \<Rightarrow> advance_and_error vsn ''insufficient data in \"D\" message'' msgLength c
     | Some n \<Rightarrow>
         if n \<noteq> int nfields then advance_and_error vsn ''unexpected field count in \"D\" message'' msgLength c
         else (let (ok, c) = resize_row_buffer nfields c in
           if \<not> ok then advance_and_error vsn ''out of memory for query result'' msgLength c
           else do {
             (ok, c) \<leftarrow> scan_fields [0..<nfields] c;
             if \<not> ok then advance_and_error vsn ''insufficient data in \"D\" message'' msgLength c
             else if \<not> whole_message msgLength c
               then advance_and_error vsn ''extraneous data in \"D\" message'' msgLength c
             else do {
               (ok, c) \<leftarrow> pqRowProcessor (message_done c);
               if ok then Some c else set_error_result vsn ''out of memory for query result'' c } }) }"

section \<open>Descriptions of rows\<close>

text \<open>Integers read one after the other, up to the first that is not there.\<close>

fun get_ints :: "nat list \<Rightarrow> client \<Rightarrow> (int list option \<times> client) option" where
  "get_ints [] c = Some (Some [], c)"
| "get_ints (b # bs) c = do {
     (x, c) \<leftarrow> get_int b c;
     case x of
       None \<Rightarrow> Some (None, c)
     | Some x \<Rightarrow> do {
         (xs, c) \<leftarrow> get_ints bs c;
         Some (map_option (\<lambda>xs. x # xs) xs, c) } }"

text \<open>A descriptor after \<open>MemSet\<close>.\<close>

definition zero_desc :: PGresAttDesc where
  "zero_desc = \<lparr>att_name = NULL, tableid = 0, columnid = 0, att_format = 0, typid = 0, typlen = 0, atttypmod = 0\<rparr>"

definition oid_of_int :: "int \<Rightarrow> nat" where
  "oid_of_int i = nat (i mod 2 ^ 32)"

text \<open>The conversion of what \<open>pqGetInt\<close> stores to the fields of a descriptor.\<close>

fun desc_of :: "ptr \<Rightarrow> int list \<Rightarrow> PGresAttDesc" where
  "desc_of p [table, column, typ, len, tmod, format] =
    \<lparr>att_name = p, tableid = oid_of_int table, columnid = int16 column, att_format = int16 format,
     typid = oid_of_int typ, typlen = int16 len, atttypmod = tmod\<rparr>"
| "desc_of p _ = zero_desc"

text \<open>A column; an error is the message for it.\<close>

definition read_desc :: "nat \<Rightarrow> PGresult \<Rightarrow> client \<Rightarrow> ((string + PGresult) \<times> client) option" where
  "read_desc i res c = do {
     (ok, c) \<leftarrow> get_work c;
     (xs, c) \<leftarrow> (if ok then get_ints [4, 2, 4, 2, 4, 2] c else Some (None, c));
     case xs of
       None \<Rightarrow> Some (Inl ''insufficient data in \"T\" message'', c)
     | Some xs \<Rightarrow> do {
         (p, res, h) \<leftarrow> pqResultStrdup res (buffer_data (workBuffer c)) (mem c);
         let c = c\<lparr>mem := h\<rparr>;
         if p = NULL then Some (Inl ''out of memory for query result'', c)
         else do {
           ds \<leftarrow> attDescs res;
           res \<leftarrow> (if i < length ds then Some (res\<lparr>attDescs := Some (ds[i := desc_of p xs])\<rparr>) else None);
           Some (Inr (if att_format (desc_of p xs) \<noteq> 1 then res\<lparr>binary_tuples := False\<rparr> else res), c) } } }"

text \<open>The loop over the columns.\<close>

fun read_descs :: "nat list \<Rightarrow> PGresult \<Rightarrow> client \<Rightarrow> ((string + PGresult) \<times> client) option" where
  "read_descs [] res c = Some (Inr res, c)"
| "read_descs (i # is) res c = do {
     (x, c) \<leftarrow> read_desc i res c;
     case x of
       Inl errmsg \<Rightarrow> Some (Inl errmsg, c)
     | Inr res \<Rightarrow> read_descs is res c }"

text \<open>Allocation of the descriptors.\<close>

definition alloc_descs :: "nat \<Rightarrow> PGresult \<Rightarrow> client \<Rightarrow> (bool \<times> PGresult \<times> client) option" where
  "alloc_descs nfields res c =
    (if nfields > 0 then do {
       (p, res, h) \<leftarrow> result_alloc res (size_t (nfields * sizeof_PGresAttDesc)) True (mem c);
       Some (p \<noteq> NULL, res\<lparr>attDescs := (if p = NULL then None else Some (replicate nfields zero_desc))\<rparr>, c\<lparr>mem := h\<rparr>) }
     else Some (True, res, c))"

definition fill_descriptions :: "nat \<Rightarrow> PGresult \<Rightarrow> client \<Rightarrow> ((string + PGresult) \<times> client) option" where
  "fill_descriptions msgLength res c = do {
     (n, c) \<leftarrow> get_int 2 c;
     case n of
       None \<Rightarrow> Some (Inl ''insufficient data in \"T\" message'', c)
     | Some n \<Rightarrow> do {
         let nfields = nat n;
         (ok, res, c) \<leftarrow> alloc_descs nfields (res\<lparr>numAttributes := nfields\<rparr>) c;
         if \<not> ok then Some (Inl ''out of memory for query result'', c)
         else do {
           (r, c) \<leftarrow> read_descs [0..<nfields] (res\<lparr>binary_tuples := nfields > 0\<rparr>) c;
           case r of
             Inl m \<Rightarrow> Some (Inl m, c)
           | Inr res \<Rightarrow>
               if \<not> whole_message msgLength c then Some (Inl ''extraneous data in \"T\" message'', c)
               else Some (Inr res, c) } } }"

text \<open>
  In a Describe the result may be the one that exists already. Filling it in changes it in place, but
  after an error it is cleared with the rest, so the old value never shows again.
\<close>

definition getRowDescriptions :: "formatter \<Rightarrow> nat \<Rightarrow> client \<Rightarrow> client option" where
  "getRowDescriptions vsn msgLength c = do {
     (res, c) \<leftarrow>
       (if queryclass c = PGQUERY_DESCRIBE then
          (if result c \<noteq> None then Some (result c, c) else make_result PGRES_COMMAND_OK c)
        else make_result PGRES_TUPLES_OK c);
     case res of
       None \<Rightarrow> advance_and_error vsn ''out of memory for query result'' msgLength c
     | Some res \<Rightarrow> do {
         (r, c) \<leftarrow> fill_descriptions msgLength res c;
         case r of
           Inl errmsg \<Rightarrow> advance_and_error vsn errmsg msgLength c
         | Inr res \<Rightarrow> do {
             let c = message_done (c\<lparr>result := Some res\<rparr>);
             Some (if queryclass c = PGQUERY_DESCRIBE then c\<lparr>asyncStatus := PGASYNC_READY\<rparr> else c) } } }"

section \<open>Descriptions of parameters\<close>

text \<open>The result is \<open>False\<close> for \<open>EOF\<close>, when the message is not there as a whole.\<close>

definition getParamDescriptions :: "formatter \<Rightarrow> nat \<Rightarrow> client \<Rightarrow> (bool \<times> client) option" where
  "getParamDescriptions vsn msgLength c = do {
     (res, c) \<leftarrow> make_result PGRES_COMMAND_OK c;
     case res of
       None \<Rightarrow> map_option (Pair True) (advance_and_error vsn ''out of memory'' msgLength c)
     | Some res \<Rightarrow> do {
         (n, c) \<leftarrow> get_int 2 c;
         case n of
           None \<Rightarrow> Some (False, c)
         | Some n \<Rightarrow> do {
             let nparams = nat n;
             (p, res, h) \<leftarrow> (if nparams > 0 then result_alloc res (size_t (nparams * sizeof_PGresParamDesc)) True (mem c)
               else Some (Null_field, res, mem c));
             let c = c\<lparr>mem := h\<rparr>;
             if p = NULL then map_option (Pair True) (advance_and_error vsn ''out of memory'' msgLength c)
             else do {
               (xs, c) \<leftarrow> get_ints (replicate nparams 4) c;
               case xs of
                 None \<Rightarrow> Some (False, c)
               | Some xs \<Rightarrow>
                   if \<not> whole_message msgLength c
                   then map_option (Pair True) (advance_and_error vsn ''extraneous data in \"t\" message'' msgLength c)
                   else Some (True, message_done (c\<lparr>result := Some (res\<lparr>numParameters := nparams,
                     paramDescs := (if nparams > 0 then Some (map oid_of_int xs) else None)\<rparr>)\<rparr>)) } } } }"

section \<open>The start of a copy\<close>

definition getCopyStart :: "ExecStatusType \<Rightarrow> client \<Rightarrow> (bool \<times> client) option" where
  "getCopyStart copytype c = do {
     (res, c) \<leftarrow> make_result copytype c;
     case res of
       None \<Rightarrow> Some (False, c)
     | Some res \<Rightarrow> do {
         (b, c) \<leftarrow> get_char c;
         case b of
           None \<Rightarrow> Some (False, c)
         | Some b \<Rightarrow> do {
             let c = c\<lparr>copy_is_binary := b\<rparr>;
             (n, c) \<leftarrow> get_int 2 c;
             case n of
               None \<Rightarrow> Some (False, c)
             | Some n \<Rightarrow> do {
                 let nfields = nat n;
                 (ok, res, c) \<leftarrow> alloc_descs nfields (res\<lparr>binary_tuples := b \<noteq> 0, numAttributes := nfields\<rparr>) c;
                 if \<not> ok then Some (False, c)
                 else do {
                   (xs, c) \<leftarrow> get_ints (replicate nfields 2) c;
                   case xs of
                     None \<Rightarrow> Some (False, c)
                   | Some xs \<Rightarrow> Some (True, c\<lparr>result := Some
                       (if nfields > 0 then res\<lparr>attDescs := Some (map (\<lambda>x. zero_desc\<lparr>att_format := int16 x\<rparr>) xs)\<rparr>
                        else res)\<rparr>) } } } } }"

section \<open>Rows, correctness\<close>

text \<open>The cell that a value of the row buffer stands for.\<close>

definition cell_at :: "byte list \<Rightarrow> PGdataValue \<Rightarrow> cell" where
  "cell_at buf col = (if dv_len col < 0 then Null else Value (take (nat (dv_len col)) (drop (dv_value col) buf)))"

definition value_ok :: "byte list \<Rightarrow> PGdataValue \<Rightarrow> bool" where
  "value_ok buf col \<longleftrightarrow> dv_len col < int INT_MAX \<and> (0 \<le> dv_len col \<longrightarrow> dv_value col + nat (dv_len col) \<le> length buf)"

lemma fill_values_returns:
  assumes "space_inv r" "list_all (value_ok buf) cols" "attDescs r = Some ds \<or> cols = []" "i + length cols \<le> length ds"
  shows "returns (fill_values buf cols i r h) (\<lambda>(vs, r', h'). space_inv r' \<and> grown r r'
    \<and> (\<forall>v. vs = Some v \<longrightarrow> length v = length cols \<and> list_all2 (value_is r') v (map (cell_at buf) cols))
    \<and> (\<forall>k. plenty (length cols + k) h \<longrightarrow> vs \<noteq> None \<and> plenty k h'))"
  using assms
proof (induction cols arbitrary: i r h)
  case Nil
  then show ?case by simp
next
  case (Cons col cols)
  have col: "value_ok buf col" "list_all (value_ok buf) cols" "attDescs r = Some ds" "i < length ds" using Cons.prems by simp_all
  have rest: "i + 1 + length cols \<le> length ds" using Cons.prems(4) by simp
  show ?case
  proof (cases "dv_len col < 0")
    case True
    have c: "cell_at buf col = Null" using True by (simp add: cell_at_def)
    have e: "fill_values buf (col # cols) i r h = do {
        (vs, r, h) \<leftarrow> fill_values buf cols (i + 1) r h; Some (map_option (\<lambda>vs. null_value # vs) vs, r, h) }" using True by simp
    show ?thesis unfolding e
    proof (rule returns_seq [OF Cons.IH [OF Cons.prems(1) col(2) _ rest]], goal_cases)
      case 1
      show ?case using col(3) by simp
    next
      case (2 x)
      obtain vs r' h' where x: "x = (vs, r', h')" by (cases x)
      have pm: "plenty (length cols + k) h" if "plenty (length (col # cols) + k) h" for k using plenty_mono [OF that] by simp
      show ?case using 2 pm c by (auto simp: x)
    qed
  next
    case False
    define v where "v = take (nat (dv_len col)) (drop (dv_value col) buf)"
    have b: "dv_value col + nat (dv_len col) \<le> length buf" "dv_len col < int INT_MAX" using col(1) False by (simp_all add: value_ok_def)
    have lv: "length v = nat (dv_len col)" using b(1) by (simp add: v_def)
    have c: "cell_at buf col = Value v" using False by (simp add: cell_at_def v_def)
    have sz: "size_of_int (int32 (dv_len col + 1)) = length (v @ [0])"
      using b(2) False lv by (simp add: int32_id size_of_int_id INT_MAX_eq nat_add_distrib)
    have small: "v @ [0] \<noteq> []" "length (v @ [0]) + 8 < 2 ^ 32" using b(2) lv by (simp_all add: INT_MAX_eq)
    obtain p r1 h1 where a: "result_alloc r (length (v @ [0])) (att_format (ds ! i) \<noteq> 0) h = Some (p, r1, h1)"
      "p = NULL \<and> space_inv r1 \<and> grown r r1
       \<or> p \<noteq> NULL \<and> (\<exists>r2. write_at r1 p (v @ [0]) = Some r2 \<and> space_inv r2 \<and> grown r r2 \<and> holds r2 p (v @ [0]))"
      "\<forall>k. plenty (Suc k) h \<longrightarrow> p \<noteq> NULL \<and> plenty k h1"
      using alloc_write [OF Cons.prems(1) small, of "att_format (ds ! i) \<noteq> 0" h] by blast
    show ?thesis
    proof (cases "p = NULL")
      case True
      have e: "fill_values buf (col # cols) i r h = Some (None, r1, h1)" using False col(3,4) a(1) True by (simp add: sz)
      have "\<not> plenty (length (col # cols) + k) h" for k using a(3) True by auto
      then show ?thesis unfolding e using a(2) True by simp
    next
      case pn: False
      then obtain r2 where w: "write_at r1 p (v @ [0]) = Some r2" "space_inv r2" "grown r r2" "holds r2 p (v @ [0])" using a(2) by blast
      have e: "fill_values buf (col # cols) i r h = do {
          (vs, r, h) \<leftarrow> fill_values buf cols (i + 1) r2 h1; Some (map_option (\<lambda>vs. \<lparr>att_len = dv_len col, att_value = p\<rparr> # vs) vs, r, h) }"
        using False col(3,4) a(1) pn b(1) w(1) by (simp add: sz v_def [symmetric])
      have d2: "attDescs r2 = Some ds" using grown_fields(3) [OF w(3)] col(3) by simp
      show ?thesis unfolding e
      proof (rule returns_seq [OF Cons.IH [OF w(2) col(2) _ rest]], goal_cases)
        case 1
        show ?case using d2 by simp
      next
        case (2 x)
        obtain vs r' h' where x: "x = (vs, r', h')" by (cases x)
        have g: "grown r r'" using 2 w(3) grown_trans by (simp add: x)
        have v1: "value_is r' \<lparr>att_len = dv_len col, att_value = p\<rparr> (Value v)"
          using 2 w(4) grown_holds [of r2 r' p "v @ [0]"] False lv by (simp add: x)
        have pl: "plenty (length cols + k) h1" if "plenty (length (col # cols) + k) h" for k using a(3) that by simp
        show ?case using 2 g v1 c pl by (auto simp: x)
      qed
    qed
  qed
qed

lemma alloc_returns:
  assumes "space_inv r" "n + 8 < 2 ^ 32"
  shows "returns (result_alloc r n bin h) (\<lambda>(p, r', h'). space_inv r' \<and> grown r r'
    \<and> (\<forall>k. plenty (Suc k) h \<longrightarrow> p \<noteq> NULL \<and> plenty k h'))"
proof (cases "n = 0")
  case True
  then show ?thesis using assms(1) plenty_mono [of "Suc k" h k for k] by (simp add: result_alloc_def)
next
  case False
  then obtain R where R: "result_alloc r n bin h = Some R" "alloc_ok r n bin h R"
    using result_alloc_ok [OF assms(1) _ assms(2), of bin h] by auto
  obtain p r' h' where p: "R = (p, r', h')" by (cases R)
  show ?thesis using R kept_grown by (simp add: p alloc_ok_def)
qed

text \<open>What adding a row may change: the tuples, and the space.\<close>

definition row_added :: "PGresult \<Rightarrow> PGresult \<Rightarrow> bool" where
  "row_added r r' \<longleftrightarrow> (\<exists>g. grown r g \<and> only_tuples g r') \<and> ntups r' \<le> ntups r + 1"

lemma row_added_fields:
  assumes "row_added r r'"
  shows "numAttributes r' = numAttributes r" "attDescs r' = attDescs r" "resultStatus r' = resultStatus r"
    "errMsg r' = errMsg r" "errFields r' = errFields r" "errQuery r' = errQuery r" "cmdStatus r' = cmdStatus r"
    "result_encoding r' = result_encoding r" "ntups r' \<le> ntups r + 1" "holds r p bs \<Longrightarrow> holds r' p bs"
proof -
  obtain g where g: "grown r g" "only_tuples g r'" "ntups r' \<le> ntups r + 1" using assms unfolding row_added_def by blast
  note gf = grown_fields [OF g(1)] grown_more [OF g(1)]
  show "numAttributes r' = numAttributes r" "attDescs r' = attDescs r" "resultStatus r' = resultStatus r"
    "errMsg r' = errMsg r" "errFields r' = errFields r" "errQuery r' = errQuery r" "cmdStatus r' = cmdStatus r"
    "result_encoding r' = result_encoding r" "ntups r' \<le> ntups r + 1"
    using only_tuples_fields(1-8) [OF g(2)] gf g(3) by simp_all
  show "holds r p bs \<Longrightarrow> holds r' p bs" using only_tuples_fields(11) [OF g(2)] grown_holds [OF g(1)] by simp
qed

lemma row_added_inv:
  assumes "result_inv r" "row_added r r'" "represents r' T"
  shows "result_inv r'" "column_names r N \<Longrightarrow> column_names r' N"
proof -
  note f = row_added_fields [OF assms(2)]
  have tp: "text_ptr r p \<Longrightarrow> text_ptr r' p" for p using f(10) unfolding text_ptr_def by blast
  show cn: "column_names r N \<Longrightarrow> column_names r' N" for N
    using f(1,2,10) unfolding column_names_def own_name_def by (auto elim!: list_all2_mono)
  have "list_all (\<lambda>x. text_ptr r' (snd x)) (errFields r)"
    using result_invD(5) [OF assms(1)] tp by (auto elim!: list.pred_mono_strong)
  moreover have "resultStatus r = PGRES_TUPLES_OK \<longrightarrow> (\<exists>N. column_names r' N)"
    using assms(1) cn unfolding result_inv_def by blast
  ultimately show "result_inv r'" using assms(1,3) f tp unfolding result_inv_def by auto
qed

lemma add_row_returns:
  assumes r: "represents r T" "ntups r < 2 ^ 29" "numAttributes r < 2 ^ 16"
    and d: "0 < numAttributes r \<longrightarrow> (\<exists>ds. attDescs r = Some ds \<and> length ds = numAttributes r)"
    and cols: "length cols = numAttributes r" "list_all (value_ok buf) cols"
  shows "returns (add_row buf cols r h) (\<lambda>(ok, r', h'). row_added r r'
    \<and> represents r' (if ok then T @ [map (cell_at buf) cols] else T)
    \<and> (\<forall>k. plenty (length cols + 2 + k) h \<longrightarrow> ok \<and> plenty k h'))"
proof -
  have sz: "size_t (length cols * sizeof_PGresAttValue) = length cols * sizeof_PGresAttValue" "length cols * sizeof_PGresAttValue + 8 < 2 ^ 32"
    using cols(1) r(3) by (simp_all add: result_sizes size_t_id)
  have inv: "space_inv r" using r(1) by (simp add: represents_def)
  have refl: "only_tuples x x" for x
    unfolding only_tuples_def by (rule exI [of _ "tuples x"], rule exI [of _ "ntups x"], rule exI [of _ "tupArrSize x"], rule exI [of _ "tuples_room x"]) simp
  have ra: "row_added r g" if "grown r g" for g using that refl grown_fields(1) [OF that] unfolding row_added_def by auto
  show ?thesis unfolding add_row_def sz(1)
  proof (rule returns_seq [OF alloc_returns [OF inv sz(2), of True h]], clarify)
    fix p r1 h1 assume a: "space_inv r1" "grown r r1" "\<forall>k. plenty (Suc k) h \<longrightarrow> p \<noteq> NULL \<and> plenty k h1"
    note r1 = represents_grown [OF r(1) a(2,1)] and f1 = grown_fields [OF a(2)]
    show "returns (if p = NULL then Some (False, r1, h1)
      else do {
        (tup, res, h) \<leftarrow> fill_values buf cols 0 r1 h1;
        case tup of None \<Rightarrow> Some (False, res, h) | Some tup \<Rightarrow> pqAddTuple res tup h })
      (\<lambda>(ok, r', h'). row_added r r' \<and> represents r' (if ok then T @ [map (cell_at buf) cols] else T)
        \<and> (\<forall>k. plenty (length cols + 2 + k) h \<longrightarrow> ok \<and> plenty k h'))"
    proof (cases "p = NULL")
      case True
      then have "\<not> plenty (length cols + 2 + k) h" for k using a(3) by auto
      then show ?thesis using True r1 ra [OF a(2)] by simp
    next
      case False
      define ds where "ds = (case attDescs r1 of None \<Rightarrow> [] | Some ds \<Rightarrow> ds)"
      have ds: "attDescs r1 = Some ds \<or> cols = []" "0 + length cols \<le> length ds"
        using d cols(1) f1(3) by (cases "cols = []"; fastforce simp: ds_def)+
      have "returns (do {
          (tup, res, h) \<leftarrow> fill_values buf cols 0 r1 h1;
          case tup of None \<Rightarrow> Some (False, res, h) | Some tup \<Rightarrow> pqAddTuple res tup h })
        (\<lambda>(ok, r', h'). row_added r r' \<and> represents r' (if ok then T @ [map (cell_at buf) cols] else T)
          \<and> (\<forall>k. plenty (length cols + 2 + k) h \<longrightarrow> ok \<and> plenty k h'))"
      proof (rule returns_seq [OF fill_values_returns [OF a(1) cols(2) ds, of h1]], clarify)
        fix vs r2 h2 assume b: "space_inv r2" "grown r1 r2"
          "\<forall>v. vs = Some v \<longrightarrow> length v = length cols \<and> list_all2 (value_is r2) v (map (cell_at buf) cols)"
          "\<forall>k. plenty (length cols + k) h1 \<longrightarrow> vs \<noteq> None \<and> plenty k h2"
        note g2 = grown_trans [OF a(2) b(2)]
        note r2 = represents_grown [OF r(1) g2 b(1)] and f2 = grown_fields [OF g2]
        have pl: "plenty (Suc k) h2 \<and> vs \<noteq> None" if "plenty (length cols + 2 + k) h" for k
        proof -
          have "plenty (Suc (length cols + Suc k)) h" using that by simp
          then show ?thesis using a(3) b(4) by blast
        qed
        show "returns (case vs of None \<Rightarrow> Some (False, r2, h2) | Some tup \<Rightarrow> pqAddTuple r2 tup h2)
          (\<lambda>(ok, r', h'). row_added r r' \<and> represents r' (if ok then T @ [map (cell_at buf) cols] else T)
            \<and> (\<forall>k. plenty (length cols + 2 + k) h \<longrightarrow> ok \<and> plenty k h'))"
        proof (cases vs)
          case None
          then show ?thesis using r2 ra [OF g2] pl by auto
        next
          case (Some v)
          have v: "length v = numAttributes r2" "list_all2 (value_is r2) v (map (cell_at buf) cols)" "ntups r2 < 2 ^ 29"
            using b(3) Some cols(1) f2 r(2) by simp_all
          obtain ok r3 h3 where c: "pqAddTuple r2 v h2 = Some (ok, r3, h3)"
            "represents r3 (if ok then T @ [map (cell_at buf) cols] else T)" "only_tuples r2 r3" "ntups r3 \<le> ntups r2 + 1"
            "\<forall>k. plenty (Suc k) h2 \<longrightarrow> ok \<and> plenty k h3"
            using add_tuple_result [OF r2 v(3,1,2), of h2] by blast
          have "row_added r r3" using g2 c(3,4) f2 unfolding row_added_def by auto
          moreover have "ok \<and> plenty k h3" if "plenty (length cols + 2 + k) h" for k
            using pl [OF that] c(5) [rule_format, of k] by simp
          ultimately show ?thesis using c(2) unfolding Some option.case c(1) returns_Some prod.case by blast
        qed
      qed
      then show ?thesis using False by simp
    qed
  qed
qed

section \<open>The row processor\<close>

text \<open>A copy of the columns alone, for the rows in single-row mode.\<close>

lemma copy_attrs_returns:
  assumes r: "numAttributes r < 2 ^ 16" "column_names r N"
  shows "returns (PQcopyResult (Some r) PG_COPYRES_ATTRS h) (\<lambda>(d, h').
    (\<forall>x. d = Some x \<longrightarrow> result_inv x \<and> represents x [] \<and> numAttributes x = numAttributes r \<and> column_names x N
      \<and> resultStatus x = PGRES_TUPLES_OK \<and> result_encoding x = result_encoding r)
    \<and> (\<forall>k. plenty (numAttributes r + 2 + k) h \<longrightarrow> d \<noteq> None \<and> plenty k h'))"
proof -
  let ?n = "numAttributes r"
  have fl: "PG_COPYRES_ATTRS AND (PG_COPYRES_ATTRS OR PG_COPYRES_TUPLES) \<noteq> 0" "PG_COPYRES_ATTRS AND PG_COPYRES_TUPLES = 0"
    by (simp_all add: PG_COPYRES_ATTRS_def PG_COPYRES_TUPLES_def)
  have p1: "fst (next_answer h) \<and> plenty (Suc (?n + k)) (snd (next_answer h))" if "plenty (?n + 2 + k) h" for k
    using plenty_next [of "Suc (?n + k)" h] that by simp
  define h1 where "h1 = snd (next_answer h)"
  define d0 where "d0 = (empty_result PGRES_TUPLES_OK 0)\<lparr>result_encoding := result_encoding r, cmdStatus := cmdStatus r\<rparr>"
  have d0: "represents d0 []" "numAttributes d0 = 0" "result_inv d0" "column_names d0 []" "resultStatus d0 = PGRES_TUPLES_OK"
    "result_encoding d0 = result_encoding r" "errMsg d0 = NULL" "errFields d0 = []" "errQuery d0 = NULL"
    by (simp_all add: d0_def)
  show ?thesis
  proof (cases "fst (next_answer h)")
    case False
    then have e: "PQcopyResult (Some r) PG_COPYRES_ATTRS h = Some (None, h1)"
      by (simp add: PQcopyResult_def PQmakeEmptyPGresult_def split_beta Let_def h1_def)
    show ?thesis unfolding e using p1 False by auto
  next
    case True
    have m: "PQmakeEmptyPGresult None PGRES_TUPLES_OK h = Some (Some (empty_result PGRES_TUPLES_OK 0), h1)"
      using True by (simp add: PQmakeEmptyPGresult_def split_beta Let_def h1_def)
    have e: "PQcopyResult (Some r) PG_COPYRES_ATTRS h = do {
        (ok, dest, h) \<leftarrow> PQsetResultAttrs (Some d0) (int ?n) (map_option (map (foreign_desc r)) (attDescs r)) h1;
        if \<not> ok then Some (None, h) else Some (dest, h) }"
      unfolding PQcopyResult_def option.case m bind.bind_lunit prod.case Let_def d0_def [symmetric] fl
        simp_thms if_True if_False bind.bind_lunit prod.case by (simp add: fl(1))
    show ?thesis
    proof (cases "?n = 0")
      case n0: True
      then have "N = []" using r(2) by (simp add: column_names_def)
      have "PQsetResultAttrs (Some d0) (int ?n) ds h1 = Some (True, Some d0, h1)" for ds
        using n0 d0(2) by (cases ds) (simp_all add: PQsetResultAttrs_def)
      then have e1: "PQcopyResult (Some r) PG_COPYRES_ATTRS h = Some (Some d0, h1)" unfolding e by simp
      show ?thesis unfolding e1 using d0 n0 \<open>N = []\<close> p1 plenty_mono [of "Suc k" h1 k for k] by (auto simp: h1_def)
    next
      case n1: False
      then obtain ds where ds: "attDescs r = Some ds" "list_all2 (own_name r) ds N" "length N = ?n" "list_all (\<lambda>s. length s < INT_MAX) N"
        using r(2) by (auto simp: column_names_def)
      then have ld: "length ds = ?n" using list_all2_lengthD by fastforce
      have fd: "length (map (foreign_desc r) ds) = ?n" "\<forall>i < ?n. foreign_name (map (foreign_desc r) ds ! i) (N ! i)"
      proof -
        show "length (map (foreign_desc r) ds) = ?n" using ld by simp
        have "name_is r (ds ! i) (N ! i) \<and> length (N ! i) + 9 < 2 ^ 32" if "i < ?n" for i
        proof -
          have "own_name r (ds ! i) (N ! i)" using list_all2_nthD [OF ds(2)] that ld by simp
          moreover have "length (N ! i) < INT_MAX" using ds(3,4) that by (simp add: list_all_length)
          ultimately show ?thesis by (simp add: own_name_def name_is_def INT_MAX_eq)
        qed
        then show "\<forall>i < ?n. foreign_name (map (foreign_desc r) ds ! i) (N ! i)" using foreign_desc_name ld by simp
      qed
      have n26: "0 < ?n" "?n < 2 ^ 26" using n1 r(1) by simp_all
      obtain ok1 d1 h2 where a: "PQsetResultAttrs (Some d0) (int ?n) (Some (map (foreign_desc r) ds)) h1 = Some (ok1, Some d1, h2)"
        "ok1 \<longrightarrow> represents d1 [] \<and> numAttributes d1 = ?n \<and> same_messages d0 d1
          \<and> (\<exists>ds'. attDescs d1 = Some ds' \<and> length ds' = ?n \<and> (\<forall>i < ?n. own_name d1 (ds' ! i) (N ! i)))"
        "\<And>k. plenty (Suc (?n + k)) h1 \<Longrightarrow> ok1 \<and> plenty k h2"
        using set_result_attrs [OF d0(1,2) n26 fd, of h1] by blast
      have e2: "PQcopyResult (Some r) PG_COPYRES_ATTRS h = Some (if ok1 then Some d1 else None, h2)"
        unfolding e ds(1) option.map a(1) by simp
      have pl: "ok1 \<and> plenty k h2" if "plenty (?n + 2 + k) h" for k using a(3) [of k] p1 [OF that] by (simp add: h1_def)
      have x: "result_inv d1 \<and> represents d1 [] \<and> numAttributes d1 = ?n \<and> column_names d1 N
        \<and> resultStatus d1 = PGRES_TUPLES_OK \<and> result_encoding d1 = result_encoding r" if ok: ok1
      proof -
        obtain ds' where d: "attDescs d1 = Some ds'" "length ds' = ?n" "\<forall>i < ?n. own_name d1 (ds' ! i) (N ! i)"
          and d1: "represents d1 []" "numAttributes d1 = ?n" "same_messages d0 d1" using a(2) ok by blast
        have "column_names d1 N" using d d1(2) ds(3,4) by (simp add: column_names_def list_all2_conv_all_nth)
        moreover have "\<exists>T. represents d1 T" "\<exists>N. column_names d1 N" using d1(1) calculation by blast+
        ultimately show ?thesis using d1 d(1,2) d0 r(1) by (simp add: result_inv_def same_messages_def)
      qed
      show ?thesis unfolding e2 returns_Some prod.case using x pl by (cases ok1) auto
    qed
  qed
qed

text \<open>What a row does: it is added to the result, or in single-row mode is the only row of a new one.\<close>

definition row_done :: "client \<Rightarrow> cell list list \<Rightarrow> byte list list \<Rightarrow> cell list \<Rightarrow> client \<Rightarrow> bool" where
  "row_done c T N row c' \<longleftrightarrow> (\<exists>r'. result c' = Some r' \<and> column_names r' N \<and>
     (if singleRowMode c
      then represents r' [row] \<and> resultStatus r' = PGRES_SINGLE_TUPLE \<and> next_result c' = result c \<and> asyncStatus c' = PGASYNC_READY
      else represents r' (T @ [row]) \<and> resultStatus r' = PGRES_TUPLES_OK \<and> next_result c' = next_result c
        \<and> asyncStatus c' = asyncStatus c))"

text \<open>A step like \<open>kept\<close> that may get one row.\<close>

definition kept1 :: "client \<Rightarrow> client \<Rightarrow> bool" where
  "kept1 c c' \<longleftrightarrow> state_inv c' \<and> same_data c c' \<and> rows c' \<le> rows c + 1"

lemma kept_kept1: "kept c c' \<Longrightarrow> kept1 c c'"
  by (simp add: kept_def kept1_def)

lemma row_processor_returns:
  assumes s: "state_inv c" and r: "result c = Some r" "represents r T" "resultStatus r = PGRES_TUPLES_OK" "ntups r < 2 ^ 29"
    "column_names r N"
    and buf: "numAttributes r \<le> length (rowBuf c)" "list_all (value_ok (inBuffer (conn c))) (take (numAttributes r) (rowBuf c))"
  shows "returns (pqRowProcessor c) (\<lambda>(ok, c'). kept1 c c' \<and> conn c' = conn c
    \<and> (if ok then row_done c T N (map (cell_at (inBuffer (conn c))) (take (numAttributes r) (rowBuf c))) c'
      else kept c c' \<and> asyncStatus c' = asyncStatus c)
    \<and> (\<forall>k. plenty (2 * numAttributes r + 4 + k) (mem c) \<longrightarrow> ok \<and> plenty k (mem c')))"
proof -
  let ?b = "inBuffer (conn c)" and ?cols = "take (numAttributes r) (rowBuf c)"
  let ?row = "map (cell_at ?b) ?cols"
  have ri: "result_inv r" "PG_VALID_ENCODING (result_encoding r)" "queryclass c \<noteq> PGQUERY_DESCRIBE" using s r(1,3) by (auto simp: state_inv_def)
  have n: "numAttributes r < 2 ^ 16" "0 < numAttributes r \<longrightarrow> (\<exists>ds. attDescs r = Some ds \<and> length ds = numAttributes r)"
    using ri(1) by (simp_all add: result_inv_def)
  have lc: "length ?cols = numAttributes r" using buf(1) by simp
  have sd: "same_data c (c\<lparr>mem := h, next_result := nr, result := x, asyncStatus := a\<rparr>)" for h nr x a
    by (simp add: same_data_def same_buffers_def)
  have si: "state_inv (c\<lparr>mem := h, next_result := nr, result := Some x, asyncStatus := a\<rparr>)"
    if "result_inv x" "PG_VALID_ENCODING (result_encoding x)" for h nr x a
    using s that ri(3) by (simp add: state_inv_def)
  have pm: "plenty (length ?cols + 2 + k) h'" if "plenty (numAttributes r + 2 + k) h'" for k h' using that lc by simp
  show ?thesis
  proof (cases "singleRowMode c")
    case False
    have e: "pqRowProcessor c = do { (ok, res, h) \<leftarrow> add_row ?b ?cols r (mem c); Some (ok, c\<lparr>mem := h, result := Some res\<rparr>) }"
      using False r(1) buf(1) by (simp add: pqRowProcessor_def)
    show ?thesis unfolding e
    proof (rule returns_seq3 [OF add_row_returns [OF r(2,4) n lc buf(2), of "mem c"]], elim conjE)
      fix ok r' h assume a: "row_added r r'" "represents r' (if ok then T @ [?row] else T)"
        "\<forall>k. plenty (length ?cols + 2 + k) (mem c) \<longrightarrow> ok \<and> plenty k h"
      let ?c = "c\<lparr>mem := h, result := Some r'\<rparr>"
      note f = row_added_fields [OF a(1)] and i = row_added_inv [OF ri(1) a(1,2)]
      have "state_inv ?c" using s i(1) f(8) ri(2,3) by (simp add: state_inv_def)
      moreover have "same_data c ?c" by (simp add: same_data_def same_buffers_def)
      moreover have "rows ?c \<le> rows c + 1" using f(9) r(1) by simp
      ultimately have "kept1 c ?c" unfolding kept1_def by blast
      moreover have "asyncStatus ?c = asyncStatus c" by simp
      moreover have "kept c ?c" if "\<not> ok"
        using that \<open>state_inv ?c\<close> \<open>same_data c ?c\<close> represents_sizes(1) [OF r(2)] represents_sizes(1) [OF a(2)] r(1) by (simp add: kept_def)
      moreover have "row_done c T N ?row ?c" if ok
        using that False a(2) i(2) [OF r(5)] f(3) r(3) by (simp add: row_done_def)
      moreover have "ok \<and> plenty k (mem ?c)" if "plenty (2 * numAttributes r + 4 + k) (mem c)" for k
      proof -
        have "plenty (length ?cols + 2 + k) (mem c)" by (rule plenty_mono [OF that]) (use lc in simp)
        then show ?thesis using a(3) [rule_format, of k] by simp
      qed
      moreover have "conn ?c = conn c" by simp
      ultimately show "returns (Some (ok, ?c)) (\<lambda>(ok, c'). kept1 c c' \<and> conn c' = conn c \<and> (if ok then row_done c T N ?row c' else kept c c' \<and> asyncStatus c' = asyncStatus c)
        \<and> (\<forall>k. plenty (2 * numAttributes r + 4 + k) (mem c) \<longrightarrow> ok \<and> plenty k (mem c')))"
        unfolding returns_Some prod.case by auto
    qed
  next
    case True
    let ?next = "\<lambda>x h. do {
      (ok, res, h) \<leftarrow> add_row ?b ?cols x h;
      if ok then Some (True, c\<lparr>mem := h, next_result := result c,
        result := Some (res\<lparr>resultStatus := PGRES_SINGLE_TUPLE\<rparr>), asyncStatus := PGASYNC_READY\<rparr>)
      else Some (False, c\<lparr>mem := h\<rparr>) }"
    have e: "pqRowProcessor c = do {
        (d, h) \<leftarrow> PQcopyResult (Some r) PG_COPYRES_ATTRS (mem c);
        case d of None \<Rightarrow> Some (False, c\<lparr>mem := h\<rparr>) | Some x \<Rightarrow> ?next x h }"
      using True r(1) buf(1) by (simp add: pqRowProcessor_def)
    have k0: "kept c (c\<lparr>mem := h\<rparr>)" "kept1 c (c\<lparr>mem := h\<rparr>)" for h
      using s r(1) by (simp_all add: kept_def kept1_def same_data_def same_buffers_def)
    show ?thesis unfolding e
    proof (rule returns_seq2 [OF copy_attrs_returns [OF n(1) r(5), of "mem c"]], elim conjE)
      fix d h1 assume d: "\<forall>x. d = Some x \<longrightarrow> result_inv x \<and> represents x [] \<and> numAttributes x = numAttributes r \<and> column_names x N
          \<and> resultStatus x = PGRES_TUPLES_OK \<and> result_encoding x = result_encoding r"
        "\<forall>k. plenty (numAttributes r + 2 + k) (mem c) \<longrightarrow> d \<noteq> None \<and> plenty k h1"
      have p1: "d \<noteq> None \<and> plenty (length ?cols + 2 + k) h1" if "plenty (2 * numAttributes r + 4 + k) (mem c)" for k
      proof -
        have "plenty (numAttributes r + 2 + (length ?cols + 2 + k)) (mem c)" by (rule plenty_mono [OF that]) (use lc in simp)
        then show ?thesis using d(2) by blast
      qed
      show "returns (case d of None \<Rightarrow> Some (False, c\<lparr>mem := h1\<rparr>) | Some x \<Rightarrow> ?next x h1)
        (\<lambda>(ok, c'). kept1 c c' \<and> conn c' = conn c \<and> (if ok then row_done c T N ?row c' else kept c c' \<and> asyncStatus c' = asyncStatus c)
          \<and> (\<forall>k. plenty (2 * numAttributes r + 4 + k) (mem c) \<longrightarrow> ok \<and> plenty k (mem c')))"
      proof (cases d)
        case None
        then show ?thesis using k0 p1 by auto
      next
        case (Some x)
        then have x: "result_inv x" "represents x []" "numAttributes x = numAttributes r" "column_names x N" "resultStatus x = PGRES_TUPLES_OK"
          "result_encoding x = result_encoding r" using d(1) by simp_all
        have xn: "numAttributes x < 2 ^ 16" "0 < numAttributes x \<longrightarrow> (\<exists>ds. attDescs x = Some ds \<and> length ds = numAttributes x)"
          "ntups x < 2 ^ 29" "length ?cols = numAttributes x"
          using x(1,3) represents_sizes(1) [OF x(2)] lc by (simp_all add: result_inv_def)
        have "returns (?next x h1) (\<lambda>(ok, c'). kept1 c c' \<and> conn c' = conn c \<and> (if ok then row_done c T N ?row c' else kept c c' \<and> asyncStatus c' = asyncStatus c)
          \<and> (\<forall>k. plenty (2 * numAttributes r + 4 + k) (mem c) \<longrightarrow> ok \<and> plenty k (mem c')))"
        proof (rule returns_seq3 [OF add_row_returns [OF x(2) xn(3,1,2,4) buf(2), of h1]], elim conjE)
          fix ok r' h assume a: "row_added x r'" "represents r' (if ok then [] @ [?row] else [])"
            "\<forall>k. plenty (length ?cols + 2 + k) h1 \<longrightarrow> ok \<and> plenty k h"
          note f = row_added_fields [OF a(1)] and i = row_added_inv [OF x(1) a(1,2)]
          have pl: "ok \<and> plenty k h" if "plenty (2 * numAttributes r + 4 + k) (mem c)" for k
            using p1 [OF that] a(3) [rule_format, of k] by simp
          show "returns (if ok then Some (True, c\<lparr>mem := h, next_result := result c,
                result := Some (r'\<lparr>resultStatus := PGRES_SINGLE_TUPLE\<rparr>), asyncStatus := PGASYNC_READY\<rparr>)
              else Some (False, c\<lparr>mem := h\<rparr>))
            (\<lambda>(ok, c'). kept1 c c' \<and> conn c' = conn c \<and> (if ok then row_done c T N ?row c' else kept c c' \<and> asyncStatus c' = asyncStatus c)
              \<and> (\<forall>k. plenty (2 * numAttributes r + 4 + k) (mem c) \<longrightarrow> ok \<and> plenty k (mem c')))"
          proof (cases ok)
            case False
            then show ?thesis using k0 pl by auto
          next
            case ok: True
            let ?r = "r'\<lparr>resultStatus := PGRES_SINGLE_TUPLE\<rparr>"
            let ?c = "c\<lparr>mem := h, next_result := result c, result := Some ?r, asyncStatus := PGASYNC_READY\<rparr>"
            have "result_inv ?r" "PG_VALID_ENCODING (result_encoding ?r)" using i(1) f(8) x(6) ri(2) by simp_all
            then have "state_inv ?c" by (rule si)
            moreover have "rows ?c \<le> rows c + 1" using f(9) represents_sizes(1) [OF x(2)] by simp
            ultimately have "kept1 c ?c" unfolding kept1_def using sd by blast
            moreover have "row_done c T N ?row ?c" using True ok a(2) i(2) [OF x(4)] by (simp add: row_done_def)
            ultimately show ?thesis using ok pl by simp
          qed
        qed
        then show ?thesis using Some by simp
      qed
    qed
  qed
qed

end
