(* ===== verification/Row_Message.thy ===== *)
theory Row_Message
  imports Row_Data
begin

text \<open>
  What the two messages of a table, the description of its rows and a row, do to the result: the parts of
  \<open>fe-protocol3.c\<close> in \<open>Row_Data\<close> against a decoding of the message as a list of bytes.
\<close>

section \<open>The contents of a row\<close>

text \<open>The format of \<open>DataRow\<close>: every value is preceded by its length, which is negative for null.\<close>

fun decode_cells :: "nat \<Rightarrow> byte list \<Rightarrow> (cell list \<times> byte list) option" where
  "decode_cells 0 s = Some ([], s)"
| "decode_cells (Suc n) s = (
     let v = be_int 4 s; l = nat v; s' = drop 4 s in
     if length s < 4 \<or> length s' < l then None
     else map_option (\<lambda>(row, r). ((if v < 0 then Null else Value (take l s')) # row, r)) (decode_cells n (drop l s')))"

definition all_of :: "(byte list \<Rightarrow> ('a \<times> byte list) option) \<Rightarrow> byte list \<Rightarrow> 'a option" where
  "all_of d s = (case d s of Some (x, []) \<Rightarrow> Some x | _ \<Rightarrow> None)"

definition decode_row :: "nat \<Rightarrow> byte list \<Rightarrow> cell list option" where
  "decode_row n s = (if length s < 2 \<or> be_int 2 s \<noteq> int n then None else all_of (decode_cells n) (drop 2 s))"

text \<open>
  The code bounds its reads by the end of the input and compares the place it gets to with the end of the
  message. A decoder that takes a part of the input by what that part says finds the same as on the
  message alone.
\<close>

locale decoder =
  fixes d :: "byte list \<Rightarrow> ('a \<times> byte list) option"
  assumes shorter: "d s = Some (x, r) \<Longrightarrow> length r \<le> length s"
    and extend: "d s = Some (x, r) \<Longrightarrow> d (s @ t) = Some (x, r @ t)"
    and cut: "d (s @ t) = Some (x, r) \<Longrightarrow> length t \<le> length r \<Longrightarrow> \<exists>r'. d s = Some (x, r') \<and> r = r' @ t"
begin

lemma all_of_take:
  assumes "L \<le> length u"
  shows "all_of d (take L u) = (case d u of None \<Rightarrow> None | Some (x, r) \<Rightarrow> if length u - length r = L then Some x else None)"
proof (cases "d u")
  case None
  then have "d (take L u) = None" using extend [of "take L u" _ _ "drop L u"] by (cases "d (take L u)") auto
  then show ?thesis using None by (simp add: all_of_def)
next
  case (Some p)
  then obtain x r where p: "d u = Some (x, r)" by (cases p) auto
  have lr: "length r \<le> length u" by (rule shorter [OF p])
  show ?thesis
  proof (cases "length (drop L u) \<le> length r")
    case True
    then obtain r' where r': "d (take L u) = Some (x, r')" "r = r' @ drop L u" using cut [of "take L u" "drop L u" x r] p by auto
    then have "length r' \<le> L" "length u - length r = L - length r'" using shorter [OF r'(1)] assms by simp_all
    then have "length u - length r = L \<longleftrightarrow> length r' = 0" by linarith
    then have "length u - length r = L \<longleftrightarrow> r' = []" by simp
    then show ?thesis using r' p by (cases r') (auto simp: all_of_def)
  next
    case False
    have "d (take L u) = None"
    proof (cases "d (take L u)")
      case (Some q)
      then obtain w r' where "d (take L u) = Some (w, r')" by (cases q) auto
      then have "d u = Some (w, r' @ drop L u)" using extend by (metis append_take_drop_id)
      then show ?thesis using False p by simp
    qed simp
    then show ?thesis using p False lr assms by (simp add: all_of_def)
  qed
qed

end

lemma adv_row_buf [simp]:
  "adv n (c\<lparr>rowBuf := rb\<rparr>) = (adv n c)\<lparr>rowBuf := rb\<rparr>" "unread (c\<lparr>rowBuf := rb\<rparr>) = unread c"
  "next_result (adv n c) = next_result c"
  "adv n (c\<lparr>rowBufLen := l\<rparr>) = (adv n c)\<lparr>rowBufLen := l\<rparr>" "unread (c\<lparr>rowBufLen := l\<rparr>) = unread c"
  by (simp_all add: adv_def unread_def)

lemma cell_at_unread:
  assumes "conn_inv (conn c)" "nat v \<le> length (unread c)"
  shows "cell_at (inBuffer (conn c)) \<lparr>dv_len = v, dv_value = inCursor (conn c)\<rparr> = (if v < 0 then Null else Value (take (nat v) (unread c)))"
proof -
  have "take (nat v) (unread c) = take (nat v) (drop (inCursor (conn c)) (inBuffer (conn c)))"
    using assms(2) unread_length [OF assms(1)] by (simp add: unread_def in_unread_def min_def)
  then show ?thesis by (simp add: cell_at_def)
qed

lemma scan_fields_returns:
  assumes "conn_inv (conn c)" "i \<le> n" "n \<le> length (rowBuf c)"
  shows "\<exists>ok m rb. scan_fields [i..<n] c = Some (ok, (adv m c)\<lparr>rowBuf := rb\<rparr>) \<and> m \<le> length (unread c)
    \<and> length rb = length (rowBuf c) \<and> take i rb = take i (rowBuf c)
    \<and> (case decode_cells (n - i) (unread c) of None \<Rightarrow> \<not> ok
       | Some (row, rest) \<Rightarrow> ok \<and> rest = drop m (unread c) \<and> list_all (value_ok (inBuffer (conn c))) (take (n - i) (drop i rb))
           \<and> map (cell_at (inBuffer (conn c))) (take (n - i) (drop i rb)) = row)"
  using assms
proof (induction "n - i" arbitrary: i c)
  case 0
  then have "scan_fields [i..<n] c = Some (True, (adv 0 c)\<lparr>rowBuf := rowBuf c\<rparr>)" by simp
  then show ?case using 0 by (intro exI [of _ True] exI [of _ 0] exI [of _ "rowBuf c"]) simp
next
  case (Suc k)
  then have up: "[i..<n] = i # [Suc i..<n]" "n - i = Suc (n - Suc i)" "Suc i \<le> n" "k = n - Suc i" by (auto simp: upt_rec)
  note i = Suc.prems(1)
  show ?case
  proof (cases "length (unread c) < 4")
    case True
    then have "scan_fields [i..<n] c = Some (False, (adv 0 c)\<lparr>rowBuf := rowBuf c\<rparr>)"
      unfolding up(1) by (simp add: get_int_returns [OF i])
    then show ?thesis using True up(2) by (intro exI [of _ False] exI [of _ 0] exI [of _ "rowBuf c"]) simp
  next
    case False
    let ?v = "be_int 4 (unread c)" and ?c = "adv 4 c"
    let ?col = "\<lparr>dv_len = ?v, dv_value = inCursor (conn ?c)\<rparr>" and ?l = "nat ?v"
    let ?rb = "(rowBuf c)[i := ?col]"
    have c4: "conn_inv (conn ?c)" "unread ?c = drop 4 (unread c)" using unread_adv [OF i, of 4] False by simp_all
    have sk: "(if ?v > 0 then skip_nchar ?l (?c\<lparr>rowBuf := ?rb\<rparr>) else (True, ?c\<lparr>rowBuf := ?rb\<rparr>))
        = (if ?l \<le> length (unread ?c) then (True, (adv ?l ?c)\<lparr>rowBuf := ?rb\<rparr>) else (False, ?c\<lparr>rowBuf := ?rb\<rparr>))"
    proof (cases "?v > 0")
      case True
      then show ?thesis using skip_returns [of "?c\<lparr>rowBuf := ?rb\<rparr>" ?l] c4(1) by (simp del: adv_simps(2))
    next
      case False
      then have "?l = 0" by simp
      then show ?thesis using False by simp
    qed
    have e: "scan_fields [i..<n] c = (let (ok, d) = (if ?l \<le> length (unread ?c) then (True, (adv ?l ?c)\<lparr>rowBuf := ?rb\<rparr>) else (False, ?c\<lparr>rowBuf := ?rb\<rparr>)) in
        if \<not> ok then Some (False, d) else scan_fields [Suc i..<n] d)"
      unfolding sk [symmetric] up(1) using False Suc.prems(3) up(3)
      by (simp add: get_int_returns [OF i] Let_def del: adv_simps(2))
    show ?thesis
    proof (cases "?l \<le> length (unread ?c)")
      case no: False
      then have "scan_fields [i..<n] c = Some (False, (adv 4 c)\<lparr>rowBuf := ?rb\<rparr>)" unfolding e by simp
      moreover have "decode_cells (n - i) (unread c) = None" using no up(2) c4(2) False by (simp add: Let_def)
      ultimately show ?thesis using False by (intro exI [of _ False] exI [of _ 4] exI [of _ ?rb]) simp
    next
      case True
      let ?d = "adv ?l ?c"
      have d: "conn_inv (conn ?d)" "unread ?d = drop ?l (drop 4 (unread c))" using unread_adv [OF c4(1) True] c4(2) by simp_all
      have e2: "scan_fields [i..<n] c = scan_fields [Suc i..<n] (?d\<lparr>rowBuf := ?rb\<rparr>)" unfolding e using True by simp
      have pre: "conn_inv (conn (?d\<lparr>rowBuf := ?rb\<rparr>))" "n \<le> length (rowBuf (?d\<lparr>rowBuf := ?rb\<rparr>))"
        using d(1) Suc.prems(3) by simp_all
      have un: "unread (?d\<lparr>rowBuf := ?rb\<rparr>) = unread ?d" "inBuffer (conn (?d\<lparr>rowBuf := ?rb\<rparr>)) = inBuffer (conn c)"
        "length (rowBuf (?d\<lparr>rowBuf := ?rb\<rparr>)) = length (rowBuf c)" "rowBuf (?d\<lparr>rowBuf := ?rb\<rparr>) = ?rb" by simp_all
      obtain ok m rb where IH: "scan_fields [Suc i..<n] (?d\<lparr>rowBuf := ?rb\<rparr>) = Some (ok, (adv m (?d\<lparr>rowBuf := ?rb\<rparr>))\<lparr>rowBuf := rb\<rparr>)"
        "m \<le> length (unread ?d)" "length rb = length (rowBuf c)" "take (Suc i) rb = take (Suc i) ?rb"
        and dec: "case decode_cells (n - Suc i) (unread ?d) of None \<Rightarrow> \<not> ok
          | Some (row, rest) \<Rightarrow> ok \<and> rest = drop m (unread ?d) \<and> list_all (value_ok (inBuffer (conn c))) (take (n - Suc i) (drop (Suc i) rb))
             \<and> map (cell_at (inBuffer (conn c))) (take (n - Suc i) (drop (Suc i) rb)) = row"
        using Suc.hyps(1) [OF up(4) pre(1) up(3) pre(2), unfolded un length_list_update] by blast
      have il: "i < length (rowBuf c)" using up(3) Suc.prems(3) by simp
      have "rb ! i = ?rb ! i" using arg_cong [OF IH(4), of "\<lambda>x. x ! i"] by simp
      then have col: "rb ! i = ?col" using il by simp
      have ti: "take i rb = take i (rowBuf c)" using arg_cong [OF IH(4), of "take i"] by (simp add: min_def)
      have dr: "take (n - i) (drop i rb) = ?col # take k (drop (Suc i) rb)"
        using il IH(3) col up(2,4) by (simp add: Cons_nth_drop_Suc [symmetric])
      have len: "length (unread ?c) \<le> INT_MAX - 4" "inCursor (conn ?c) + ?l \<le> length (inBuffer (conn c))"
        using unread_length [OF c4(1)] i c4(1) True by (auto simp: conn_inv_def)
      have ok: "value_ok (inBuffer (conn c)) ?col"
        using len True by (simp add: value_ok_def INT_MAX_eq)
      have cell: "cell_at (inBuffer (conn c)) ?col = (if ?v < 0 then Null else Value (take ?l (drop 4 (unread c))))"
        using cell_at_unread [OF c4(1) True] c4(2) by simp
      have step: "decode_cells (n - i) (unread c)
          = map_option (\<lambda>(row, r). (cell_at (inBuffer (conn c)) ?col # row, r)) (decode_cells k (unread ?d))"
        unfolding up(2) decode_cells.simps cell using True False c4(2) d(2) up(4) by (simp add: Let_def)
      have eq: "scan_fields [i..<n] c = Some (ok, (adv (4 + ?l + m) c)\<lparr>rowBuf := rb\<rparr>)"
        unfolding e2 IH(1) by simp
      have m: "4 + ?l + m \<le> length (unread c)" "drop (4 + ?l + m) (unread c) = drop m (unread ?d)"
        using IH(2) d(2) True c4(2) False by (simp_all add: add.commute add.left_commute)
      have "case decode_cells (n - i) (unread c) of None \<Rightarrow> \<not> ok
          | Some (row, rest) \<Rightarrow> ok \<and> rest = drop (4 + ?l + m) (unread c) \<and> list_all (value_ok (inBuffer (conn c))) (take (n - i) (drop i rb))
             \<and> map (cell_at (inBuffer (conn c))) (take (n - i) (drop i rb)) = row"
        unfolding step dr m(2) up(4) using dec \<open>value_ok (inBuffer (conn c)) ?col\<close> by (cases "decode_cells (n - Suc i) (unread ?d)") (auto simp del: adv_simps(2))
      then show ?thesis using eq m(1) IH(3) ti by blast
    qed
  qed
qed

text \<open>What follows a row does not matter for its decoding.\<close>

lemma be_int_append: "n \<le> 4 \<Longrightarrow> n = 2 \<or> n = 4 \<Longrightarrow> n \<le> length s \<Longrightarrow> be_int n (s @ t) = be_int n s"
  by (auto simp: be_int_def)

lemma decode_cells_length: "decode_cells n s = Some (row, r) \<Longrightarrow> length r \<le> length s \<and> length row = n"
  by (induction n s arbitrary: row r rule: decode_cells.induct) (fastforce simp: Let_def split: if_splits)+

lemma decode_cells_append: "decode_cells n s = Some (row, r) \<Longrightarrow> decode_cells n (s @ t) = Some (row, r @ t)"
proof (induction n s arbitrary: row r rule: decode_cells.induct)
  case (2 n s)
  let ?v = "be_int 4 s"
  have s: "4 \<le> length s" "nat ?v \<le> length (drop 4 s)" using 2(2) by (auto simp: Let_def split: if_splits)
  then obtain row' where r: "decode_cells n (drop (nat ?v) (drop 4 s)) = Some (row', r)"
    "row = (if ?v < 0 then Null else Value (take (nat ?v) (drop 4 s))) # row'"
    using 2(2) by (auto simp: Let_def)
  then have "decode_cells n (drop (nat ?v) (drop 4 s) @ t) = Some (row', r @ t)" using 2(1) s by simp
  moreover have "be_int 4 (s @ t) = ?v" using s by (simp add: be_int_append)
  moreover have "\<not> length s + length t - 4 < nat ?v" using s by simp
  ultimately show ?case using s r by (simp add: Let_def)
qed simp

lemma decode_cells_cut:
  "decode_cells n (s @ t) = Some (row, r) \<Longrightarrow> length t \<le> length r \<Longrightarrow> \<exists>r'. decode_cells n s = Some (row, r') \<and> r = r' @ t"
proof (induction n arbitrary: s row)
  case (Suc n)
  let ?s = "s @ t"
  let ?v = "be_int 4 ?s"
  have s: "4 \<le> length ?s" "nat ?v \<le> length (drop 4 ?s)" using Suc(2) by (auto simp: Let_def split: if_splits)
  then obtain row' where r: "decode_cells n (drop (nat ?v) (drop 4 ?s)) = Some (row', r)"
    "row = (if ?v < 0 then Null else Value (take (nat ?v) (drop 4 ?s))) # row'"
    using Suc(2) by (auto simp: Let_def)
  have "length t \<le> length (drop (nat ?v) (drop 4 ?s))" using decode_cells_length [OF r(1)] Suc(3) by linarith
  then have l: "4 + nat ?v \<le> length s" using s unfolding length_drop length_append by linarith
  then have e: "be_int 4 s = ?v" using be_int_append [of 4 s t] by simp
  have "decode_cells n (drop (nat ?v) (drop 4 s) @ t) = Some (row', r)" using r(1) l by simp
  then obtain r' where "decode_cells n (drop (nat ?v) (drop 4 s)) = Some (row', r')" "r = r' @ t" using Suc by blast
  moreover have "\<not> length s - 4 < nat ?v" using l by simp
  ultimately show ?case using l r(2) e by (simp add: Let_def)
qed simp

interpretation cells: decoder "decode_cells n"
  by unfold_locales (use decode_cells_length decode_cells_append decode_cells_cut in blast)+

lemma decode_row_scan:
  assumes "L \<le> length u" "2 \<le> length u"
  shows "decode_row n (take L u) = (if be_int 2 u \<noteq> int n then None
    else case decode_cells n (drop 2 u) of None \<Rightarrow> None | Some (row, rest) \<Rightarrow> if length u - length rest = L then Some row else None)"
proof (cases "2 \<le> L")
  case False
  then have "length u - length rest \<noteq> L" if "decode_cells n (drop 2 u) = Some (row, rest)" for row rest
    using cells.shorter [OF that] assms by simp
  then show ?thesis using False assms by (auto simp: decode_row_def split: option.split)
next
  case True
  have "be_int 2 (take L u) = be_int 2 u" using True assms by (simp add: be_int_def min_def)
  moreover have "all_of (decode_cells n) (drop 2 (take L u)) = (case decode_cells n (drop 2 u) of None \<Rightarrow> None
      | Some (row, rest) \<Rightarrow> if length u - length rest = L then Some row else None)"
    using cells.all_of_take [of "L - 2" "drop 2 u" n] cells.shorter [of n "drop 2 u"] True assms
    by (auto simp: drop_take split: option.split)
  ultimately show ?thesis using True assms by (simp add: decode_row_def)
qed

section \<open>A message that is given up\<close>

definition gave_up :: "client \<Rightarrow> client \<Rightarrow> bool" where
  "gave_up c c' \<longleftrightarrow> kept c c' \<and> failed c' \<and> asyncStatus c' = asyncStatus c"

lemma set_error_result_returns:
  assumes "formatter_ok vsn" "state_inv c"
  shows "returns (set_error_result vsn m c) (\<lambda>c'. gave_up c c' \<and> inStart (conn c') = inStart (conn c))"
proof -
  have "kept c (pqClearAsyncResult c)"
    using kept_result(2) [OF assms(2), where r = None and h = "mem c" and nr = None] by (simp add: pqClearAsyncResult_def)
  then have k: "kept c (pqClearAsyncResult c)" "state_inv (pqClearAsyncResult c)" by (simp_all add: kept_def)
  have same: "inStart (conn (pqClearAsyncResult c)) = inStart (conn c)" "asyncStatus (pqClearAsyncResult c) = asyncStatus c"
    by (simp_all add: pqClearAsyncResult_def)
  show ?thesis unfolding set_error_result_def
    by (rule returns_mono [OF save_error_kept [OF assms(1) k(2)]])
      (use k(1) same kept_trans in \<open>auto simp: gave_up_def only_result_def\<close>)
qed

lemma gave_up_kept: "kept c d \<Longrightarrow> asyncStatus d = asyncStatus c \<Longrightarrow> gave_up d c' \<Longrightarrow> gave_up c c'"
  unfolding gave_up_def using kept_trans by metis

lemma advance_and_error_returns:
  assumes "formatter_ok vsn" "kept c d" "asyncStatus d = asyncStatus c" "inStart (conn d) = inStart (conn c)"
  shows "returns (advance_and_error vsn m L d) (\<lambda>c'. gave_up c c' \<and> inStart (conn c') = inStart (conn c) + 5 + L)"
proof -
  have k: "kept d (skip_message L d)" "state_inv (skip_message L d)"
    using assms(2) by (auto simp: kept_def same_data_def same_buffers_def skip_message_def rows_def state_inv_def)
  have "kept c (skip_message L d)" by (rule kept_trans [OF assms(2) k(1)])
  moreover have "asyncStatus (skip_message L d) = asyncStatus c" using assms(3) by (simp add: skip_message_def)
  moreover have "inStart (conn (skip_message L d)) = inStart (conn c) + 5 + L" using assms(4) by (simp add: skip_message_def)
  ultimately show ?thesis unfolding advance_and_error_def
    by (intro returns_mono [OF set_error_result_returns [OF assms(1) k(2)]]) (auto intro: gave_up_kept)
qed

section \<open>A row\<close>

lemma resize_row_buffer_returns:
  assumes "state_inv c"
  shows "\<exists>ok h l rb. resize_row_buffer n c = (ok, c\<lparr>mem := h, rowBufLen := l, rowBuf := rb\<rparr>) \<and> length rb = l
    \<and> (ok \<longrightarrow> n \<le> length rb) \<and> (\<forall>k. plenty (Suc k) (mem c) \<longrightarrow> ok \<and> plenty k h)"
proof (cases "n > rowBufLen c")
  case False
  then have "resize_row_buffer n c = (True, c\<lparr>mem := mem c, rowBufLen := rowBufLen c, rowBuf := rowBuf c\<rparr>)"
    by (simp add: resize_row_buffer_def)
  moreover have "plenty k (mem c)" if "plenty (Suc k) (mem c)" for k by (rule plenty_mono [OF that]) simp
  moreover have "length (rowBuf c) = rowBufLen c" using assms by (simp add: state_inv_def)
  ultimately show ?thesis using False
    by (intro exI [of _ True] exI [of _ "mem c"] exI [of _ "rowBufLen c"] exI [of _ "rowBuf c"]) simp
next
  case True
  obtain ok h where a: "next_answer (mem c) = (ok, h)" by fastforce
  have p: "ok \<and> plenty k h" if "plenty (Suc k) (mem c)" for k using plenty_next [OF that] a by simp
  have l: "length (rowBuf c) = rowBufLen c" using assms by (simp add: state_inv_def)
  show ?thesis
  proof (cases ok)
    case ok: True
    let ?rb = "rowBuf c @ replicate (n - length (rowBuf c)) \<lparr>dv_len = 0, dv_value = 0\<rparr>"
    have "resize_row_buffer n c = (True, c\<lparr>mem := h, rowBufLen := n, rowBuf := ?rb\<rparr>)"
      using a True ok by (simp add: resize_row_buffer_def)
    moreover have "length ?rb = n" using True l by simp
    ultimately show ?thesis using p ok by (intro exI [of _ True] exI [of _ h] exI [of _ n] exI [of _ ?rb]) simp
  next
    case no: False
    have "resize_row_buffer n c = (False, c\<lparr>mem := h, rowBufLen := rowBufLen c, rowBuf := rowBuf c\<rparr>)"
      using a True no by (simp add: resize_row_buffer_def)
    moreover have "\<not> plenty (Suc k) (mem c)" for k using p no by blast
    ultimately show ?thesis using no l by (intro exI [of _ False] exI [of _ h] exI [of _ "rowBufLen c"] exI [of _ "rowBuf c"]) simp
  qed
qed

lemma row_done_fields:
  "singleRowMode d = singleRowMode c \<Longrightarrow> result d = result c \<Longrightarrow> next_result d = next_result c \<Longrightarrow> asyncStatus d = asyncStatus c
    \<Longrightarrow> row_done d T N row c' = row_done c T N row c'"
  by (simp add: row_done_def)

text \<open>The outcome of a message with a row: the row has been added, or the result is an error.\<close>

definition row_read :: "nat \<Rightarrow> client \<Rightarrow> cell list list \<Rightarrow> byte list list \<Rightarrow> nat \<Rightarrow> client \<Rightarrow> bool" where
  "row_read L c T N n c' \<longleftrightarrow> inStart (conn c') = inStart (conn c) + 5 + L
     \<and> ((\<exists>row. decode_row n (take L (unread c)) = Some row \<and> kept1 c c' \<and> row_done c T N row c') \<or> gave_up c c')
     \<and> (\<forall>k row. plenty (2 * n + 5 + k) (mem c) \<longrightarrow> decode_row n (take L (unread c)) = Some row
          \<longrightarrow> kept1 c c' \<and> row_done c T N row c' \<and> plenty k (mem c'))"

lemma row_not_read:
  assumes "formatter_ok vsn" "kept c d" "asyncStatus d = asyncStatus c" "inStart (conn d) = inStart (conn c)"
    "\<And>k. plenty (2 * n + 5 + k) (mem c) \<Longrightarrow> decode_row n (take L (unread c)) = None"
  shows "returns (advance_and_error vsn m L d) (row_read L c T N n)"
proof -
  have "row_read L c T N n c'" if "gave_up c c'" "inStart (conn c') = inStart (conn c) + 5 + L" for c'
    using that assms(5) unfolding row_read_def by fastforce
  then show ?thesis using returns_mono [OF advance_and_error_returns [OF assms(1-4), of m L]] by blast
qed

lemma add_scanned_row:
  assumes v: "formatter_ok vsn" and d: "kept c d" "state_inv d" "result d = result c" "singleRowMode d = singleRowMode c"
      "next_result d = next_result c" "asyncStatus d = asyncStatus c" "inStart (conn d) = inStart (conn c) + 5 + L"
    and r: "result c = Some r" "represents r T" "resultStatus r = PGRES_TUPLES_OK" "ntups r < 2 ^ 29" "column_names r N"
    and buf: "numAttributes r \<le> length (rowBuf d)" "list_all (value_ok (inBuffer (conn d))) (take (numAttributes r) (rowBuf d))"
    and row: "map (cell_at (inBuffer (conn d))) (take (numAttributes r) (rowBuf d)) = row"
      "decode_row (numAttributes r) (take L (unread c)) = Some row"
    and p: "\<And>k. plenty (2 * numAttributes r + 5 + k) (mem c) \<Longrightarrow> plenty (2 * numAttributes r + 4 + k) (mem d)"
  shows "returns (do { (ok, d) \<leftarrow> pqRowProcessor d; if ok then Some d else set_error_result vsn m d })
    (row_read L c T N (numAttributes r))"
proof -
  have r': "result d = Some r" using d(3) r(1) by simp
  note A = row_processor_returns [OF d(2) r' r(2-5) buf, unfolded row(1)]
  show ?thesis
  proof (rule returns_seq2 [OF A], elim conjE)
    fix ok c' assume a: "kept1 d c'" "conn c' = conn d" "if ok then row_done d T N row c' else kept d c' \<and> asyncStatus c' = asyncStatus d"
      "\<forall>k. plenty (2 * numAttributes r + 4 + k) (mem d) \<longrightarrow> ok \<and> plenty k (mem c')"
    have pk: "ok \<and> plenty k (mem c')" if "plenty (2 * numAttributes r + 5 + k) (mem c)" for k using a(4) p [OF that] by blast
    have k1: "kept1 c c'" using d(1) a(1) same_data_trans r(1) r' by (auto simp: kept_def kept1_def)
    have at: "inStart (conn c') = inStart (conn c) + 5 + L" using a(2) d(7) by simp
    show "returns (if ok then Some c' else set_error_result vsn m c') (row_read L c T N (numAttributes r))"
    proof (cases ok)
      case True
      then have "row_done c T N row c'" using a(3) row_done_fields [OF d(4,3,5,6)] by simp
      then show ?thesis using True k1 at row(2) pk by (simp add: row_read_def)
    next
      case False
      then have np: "\<not> plenty (2 * numAttributes r + 5 + k) (mem c)" for k using pk by blast
      have k: "kept c c'" "asyncStatus c' = asyncStatus c" using a(3) False kept_trans [OF d(1)] d(6) by simp_all
      then have s: "state_inv c'" by (simp add: kept_def)
      have "row_read L c T N (numAttributes r) x" if "gave_up c' x \<and> inStart (conn x) = inStart (conn c')" for x
        using gave_up_kept [OF k] that at np unfolding row_read_def by simp
      then show ?thesis using False returns_mono [OF set_error_result_returns [OF v s, of m]] by simp
    qed
  qed
qed

lemma getAnotherTuple_returns:
  assumes v: "formatter_ok vsn" and c: "state_inv c" "conn_inv (conn c)" "inCursor (conn c) = inStart (conn c) + 5" "L \<le> length (unread c)"
    and r: "result c = Some r" "represents r T" "resultStatus r = PGRES_TUPLES_OK" "ntups r < 2 ^ 29" "column_names r N"
  shows "returns (getAnotherTuple vsn L c) (row_read L c T N (numAttributes r))"
proof -
  let ?n = "numAttributes r"
  have gu: "returns (advance_and_error vsn m L d) (row_read L c T N ?n)"
    if "kept c d" "asyncStatus d = asyncStatus c" "inStart (conn d) = inStart (conn c)"
      "\<And>k. plenty (2 * ?n + 5 + k) (mem c) \<Longrightarrow> decode_row ?n (take L (unread c)) = None" for m d
    by (rule row_not_read [OF v that])
  show ?thesis
  proof (cases "length (unread c) < 2")
    case True
    then have "length (take L (unread c)) < 2" by simp
    then have "decode_row ?n (take L (unread c)) = None" unfolding decode_row_def by (simp only: simp_thms if_True)
    then show ?thesis using gu [OF kept_refl [OF c(1)]] True r(1) by (simp add: getAnotherTuple_def get_int_returns [OF c(2)])
  next
    case False
    let ?d = "adv 2 c"
    have len2: "2 \<le> length (unread c)" using False by simp
    note dec = decode_row_scan [OF c(4) len2, of ?n]
    have d: "reads c ?d" by (rule reads_adv [OF c(1,2) len2])
    then have d1: "kept c ?d" "conn_inv (conn ?d)" "state_inv ?d" by (simp_all add: reads_def kept_def)
    have u: "unread ?d = drop 2 (unread c)" by (rule unread_adv(2) [OF c(2) len2])
    have e1: "getAnotherTuple vsn L c = (if be_int 2 (unread c) \<noteq> int ?n then advance_and_error vsn ''unexpected field count in \"D\" message'' L ?d
         else (let (ok, c) = resize_row_buffer ?n ?d in
           if \<not> ok then advance_and_error vsn ''out of memory for query result'' L c
           else do {
             (ok, c) \<leftarrow> scan_fields [0..<?n] c;
             if \<not> ok then advance_and_error vsn ''insufficient data in \"D\" message'' L c
             else if \<not> whole_message L c then advance_and_error vsn ''extraneous data in \"D\" message'' L c
             else do {
               (ok, c) \<leftarrow> pqRowProcessor (message_done c);
               if ok then Some c else set_error_result vsn ''out of memory for query result'' c } }))"
      using False r(1) by (simp add: getAnotherTuple_def get_int_returns [OF c(2)] Let_def)
    show ?thesis
    proof (cases "be_int 2 (unread c) = int ?n")
      case ne: False
      then show ?thesis unfolding e1 using gu [OF d1(1)] dec by simp
    next
      case n: True
      obtain ok h l rb where rz: "resize_row_buffer ?n ?d = (ok, ?d\<lparr>mem := h, rowBufLen := l, rowBuf := rb\<rparr>)" "length rb = l"
        "ok \<longrightarrow> ?n \<le> length rb" "\<forall>k. plenty (Suc k) (mem c) \<longrightarrow> ok \<and> plenty k h"
        using resize_row_buffer_returns [OF d1(3), of ?n] by auto
      let ?e = "?d\<lparr>mem := h, rowBufLen := l, rowBuf := rb\<rparr>"
      have ke: "kept c (?e\<lparr>rowBuf := rb'\<rparr>)" if "length rb' = l" for rb'
        using d1(1,3) that by (simp add: kept_def same_data_def same_buffers_def rows_def state_inv_def)
      show ?thesis
      proof (cases ok)
        case no: False
        then have np: "\<not> plenty (Suc k) (mem c)" for k using rz(4) by blast
        have "\<not> plenty (2 * ?n + 5 + k) (mem c)" for k using np [of "2 * ?n + 4 + k"] by (simp add: add.commute add.left_commute)
        then show ?thesis unfolding e1 using no n rz(1) gu [of ?e] ke [OF rz(2)] by simp
      next
        case True
        have ce: "conn_inv (conn ?e)" "unread ?e = drop 2 (unread c)" "?n \<le> length (rowBuf ?e)" "0 \<le> ?n" using d1(2) u rz(3) True by simp_all
        have ef: "inBuffer (conn ?e) = inBuffer (conn c)" "rowBuf ?e = rb" "?n - 0 = ?n" "drop 0 xs = xs" for xs :: "PGdataValue list" by simp_all
        obtain ok2 m rb2 where sc: "scan_fields [0..<?n] ?e = Some (ok2, (adv m ?e)\<lparr>rowBuf := rb2\<rparr>)" "m \<le> length (drop 2 (unread c))"
          "length rb2 = length rb"
          "case decode_cells ?n (drop 2 (unread c)) of None \<Rightarrow> \<not> ok2
           | Some (row, rest) \<Rightarrow> ok2 \<and> rest = drop m (drop 2 (unread c)) \<and> list_all (value_ok (inBuffer (conn c))) (take ?n rb2)
               \<and> map (cell_at (inBuffer (conn c))) (take ?n rb2) = row"
          using scan_fields_returns [OF ce(1) ce(4) ce(3), unfolded ce(2) ef] by blast
        let ?f = "(adv m ?e)\<lparr>rowBuf := rb2\<rparr>"
        have kf: "kept c ?f" using ke [of rb2] sc(3) rz(2)
          by (simp add: kept_def same_data_def same_buffers_def rows_def state_inv_def) (simp add: adv_def)
        have e2: "getAnotherTuple vsn L c = (if \<not> ok2 then advance_and_error vsn ''insufficient data in \"D\" message'' L ?f
             else if \<not> whole_message L ?f then advance_and_error vsn ''extraneous data in \"D\" message'' L ?f
             else do {
               (ok, c) \<leftarrow> pqRowProcessor (message_done ?f);
               if ok then Some c else set_error_result vsn ''out of memory for query result'' c })"
          unfolding e1 rz(1) using n True by (simp add: sc(1))
        have wm: "whole_message L ?f \<longleftrightarrow> 2 + m = L" using c(3) by (auto simp: whole_message_def)
        show ?thesis
        proof (cases "decode_cells ?n (drop 2 (unread c))")
          case None
          then show ?thesis unfolding e2 using sc(4) gu [OF kf] dec by simp
        next
          case (Some p)
          then obtain row rest where dc: "decode_cells ?n (drop 2 (unread c)) = Some (row, rest)" by (cases p) auto
          have f: "ok2" "list_all (value_ok (inBuffer (conn c))) (take ?n rb2)" "map (cell_at (inBuffer (conn c))) (take ?n rb2) = row"
            "length (unread c) - length rest = 2 + m" using sc(4) sc(2) dc len2 by auto
          show ?thesis
          proof (cases "2 + m = L")
            case no: False
            then show ?thesis unfolding e2 using wm f(1,4) gu [OF kf] dec dc by simp
          next
            case m: True
            let ?g = "message_done ?f"
            have row: "decode_row ?n (take L (unread c)) = Some row" using dec n dc f(4) m by simp
            have g: "kept c ?g" "state_inv ?g" using kf by (simp_all add: message_done_def kept_def same_data_def same_buffers_def rows_def state_inv_def)
            have gf: "result ?g = result c" "singleRowMode ?g = singleRowMode c" "next_result ?g = next_result c" "asyncStatus ?g = asyncStatus c"
              "inStart (conn ?g) = inStart (conn c) + 5 + L" "inBuffer (conn ?g) = inBuffer (conn c)" "rowBuf ?g = rb2" "mem ?g = h"
              using c(3) m by (simp_all add: message_done_def)
            have pl: "plenty (2 * ?n + 4 + k) (mem ?g)" if "plenty (2 * ?n + 5 + k) (mem c)" for k
              using that rz(4) [rule_format, of "2 * ?n + 4 + k"] unfolding gf(8) by (simp add: add.commute add.left_commute)
            have "?n \<le> length (rowBuf ?g)" using gf(7) sc(3) ce(3) by simp
            then show ?thesis unfolding e2 using wm m f(1)
              add_scanned_row [OF v g gf(1,2,3,4,5) r, where m = "''out of memory for query result''" and row = row] row f(2,3) gf(6,7) pl by simp
          qed
        qed
      qed
    qed
  qed
qed

section \<open>Rows as the server sends them\<close>

fun encode_cell :: "cell \<Rightarrow> byte list" where
  "encode_cell Null = htonl (2 ^ 32 - 1)"
| "encode_cell (Value v) = htonl (length v) @ v"
| "encode_cell Broken = []"

definition encode_row :: "cell list \<Rightarrow> byte list" where
  "encode_row row = htons (length row) @ concat (map encode_cell row)"

fun cell_fits :: "cell \<Rightarrow> bool" where
  "cell_fits Null = True"
| "cell_fits (Value v) = (length v < 2 ^ 31)"
| "cell_fits Broken = False"

lemma be_int_htons [simp]: "n < 2 ^ 16 \<Longrightarrow> be_int 2 (htons n @ s) = int n"
  by (simp add: be_int_def ntohs_htons)

lemma be_int_htonl: "n < 2 ^ 32 \<Longrightarrow> be_int 4 (htonl n @ s) = int32 (int n)"
  by (simp add: be_int_def ntohl_htonl)

lemma decode_cell: "cell_fits x \<Longrightarrow> decode_cells (Suc n) (encode_cell x @ s) = map_option (\<lambda>(row, r). (x # row, r)) (decode_cells n s)"
  by (cases x) (simp_all add: be_int_htonl int32_def Let_def)

lemma decode_encode_cells: "list_all cell_fits row \<Longrightarrow> decode_cells (length row) (concat (map encode_cell row) @ s) = Some (row, s)"
proof (induction row)
  case (Cons x row)
  then show ?case using decode_cell [of x "length row" "concat (map encode_cell row) @ s"] by (simp del: decode_cells.simps)
qed simp

lemma decode_encode_row:
  assumes "length row < 2 ^ 16" "list_all cell_fits row"
  shows "decode_row (length row) (encode_row row) = Some row"
  using decode_encode_cells [OF assms(2), of "[]"] assms(1) by (simp add: decode_row_def encode_row_def all_of_def)

section \<open>Lists of integers\<close>

fun be_ints :: "nat list \<Rightarrow> byte list \<Rightarrow> int list" where
  "be_ints [] s = []"
| "be_ints (b # bs) s = be_int b s # be_ints bs (drop b s)"

lemma get_ints_returns:
  assumes "conn_inv (conn c)" "set bs \<subseteq> {2, 4}"
  shows "if sum_list bs \<le> length (unread c) then get_ints bs c = Some (Some (be_ints bs (unread c)), adv (sum_list bs) c)
    else \<exists>m \<le> length (unread c). get_ints bs c = Some (None, adv m c)"
  using assms
proof (induction bs arbitrary: c)
  case (Cons b bs)
  then have b: "b = 2 \<or> b = 4" "set bs \<subseteq> {2, 4}" by auto
  show ?case
  proof (cases "length (unread c) < b")
    case True
    then show ?thesis using get_int_returns [OF Cons.prems(1) b(1)] by (auto intro!: exI [of _ 0])
  next
    case False
    have i: "conn_inv (conn (adv b c))" "unread (adv b c) = drop b (unread c)" using unread_adv [OF Cons.prems(1), of b] False by simp_all
    note g = get_int_returns [OF Cons.prems(1) b(1)]
    show ?thesis
    proof (cases "sum_list bs \<le> length (unread (adv b c))")
      case True
      then have "get_ints bs (adv b c) = Some (Some (be_ints bs (drop b (unread c))), adv (b + sum_list bs) c)"
        using Cons.IH [OF i(1) b(2)] i(2) by simp
      moreover have "b + sum_list bs \<le> length (unread c)" using True False i(2) by simp
      ultimately show ?thesis using False g by simp
    next
      case no: False
      then obtain m where m: "m \<le> length (unread (adv b c))" "get_ints bs (adv b c) = Some (None, adv (b + m) c)"
        using Cons.IH [OF i(1) b(2)] by auto
      have n: "\<not> b + sum_list bs \<le> length (unread c)" using no False i(2) by simp
      have "b + m \<le> length (unread c)" using m(1) i(2) False by simp
      then show ?thesis using m(2) False g n by auto
    qed
  qed
qed simp

section \<open>Names of columns\<close>

text \<open>A column of \<open>RowDescription\<close>: its name and 18 bytes with what is known of it.\<close>

definition column_name :: "byte list \<Rightarrow> (byte list \<times> byte list) option" where
  "column_name s = (
     let t = takeWhile (\<lambda>b. b \<noteq> 0) s; r = drop (length t + 1) s in
     if 0 \<notin> set s \<or> length r < 18 then None else Some (t, drop 18 r))"

fun decode_names :: "nat \<Rightarrow> byte list \<Rightarrow> (byte list list \<times> byte list) option" where
  "decode_names 0 s = Some ([], s)"
| "decode_names (Suc n) s = do {
     (t, s) \<leftarrow> column_name s;
     (ns, s) \<leftarrow> decode_names n s;
     Some (t # ns, s) }"

definition decode_description :: "byte list \<Rightarrow> byte list list option" where
  "decode_description s = (if length s < 2 then None else all_of (decode_names (nat (be_int 2 s))) (drop 2 s))"

lemma column_name_append: "0 \<notin> set t \<Longrightarrow> column_name (t @ 0 # r) = (if length r < 18 then None else Some (t, drop 18 r))"
proof -
  assume t: "0 \<notin> set t"
  have "takeWhile (\<lambda>b. b \<noteq> 0) (t @ 0 # r) = t @ takeWhile (\<lambda>b. b \<noteq> 0) (0 # r)" by (rule takeWhile_append2) (use t in auto)
  then show ?thesis by (simp add: column_name_def Let_def)
qed

lemma decode_names_step:
  assumes "decode_names (Suc n) s = Some (ns, r)"
  obtains t u ns' where "s = t @ 0 # u" "0 \<notin> set t" "18 \<le> length u" "ns = t # ns'" "decode_names n (drop 18 u) = Some (ns', r)"
proof -
  have "0 \<in> set s" using assms by (auto simp: column_name_def Let_def split: if_splits)
  then obtain t u where s: "s = t @ 0 # u" "0 \<notin> set t" using take_nul by blast
  have l: "18 \<le> length u"
    using assms unfolding s(1) decode_names.simps column_name_append [OF s(2)] by (auto split: if_splits)
  then have "decode_names n (drop 18 u) \<bind> (\<lambda>(ns, s). Some (t # ns, s)) = Some (ns, r)"
    using assms unfolding s(1) decode_names.simps column_name_append [OF s(2)] by simp
  then show ?thesis using that [OF s l] by (auto simp: bind_eq_Some_conv)
qed

lemma decode_names_length: "decode_names n s = Some (x, r) \<Longrightarrow> length r \<le> length s \<and> length x = n"
proof (induction n arbitrary: s x)
  case (Suc n)
  obtain t u ns' where s: "s = t @ 0 # u" "x = t # ns'" "decode_names n (drop 18 u) = Some (ns', r)"
    by (rule decode_names_step [OF Suc.prems]) blast
  show ?case using Suc.IH [OF s(3)] s(1,2) by auto
qed simp

interpretation names: decoder "decode_names n"
proof unfold_locales
  show "length r \<le> length s" if "decode_names n s = Some (x, r)" for s x r using decode_names_length [OF that] by simp
  show "decode_names n (s @ w) = Some (x, r @ w)" if "decode_names n s = Some (x, r)" for s x r w
    using that
  proof (induction n arbitrary: s x)
    case (Suc n)
    obtain t u ns' where s: "s = t @ 0 # u" "0 \<notin> set t" "18 \<le> length u" "x = t # ns'" "decode_names n (drop 18 u) = Some (ns', r)"
      by (rule decode_names_step [OF Suc.prems])
    have "decode_names n (drop 18 (u @ w)) = Some (ns', r @ w)" using Suc.IH [OF s(5)] s(3) by simp
    then show ?case using s column_name_append [OF s(2), of "u @ w"] by simp
  qed simp
  show "\<exists>r'. decode_names n s = Some (x, r') \<and> r = r' @ w" if "decode_names n (s @ w) = Some (x, r)" "length w \<le> length r" for s x r w
    using that
  proof (induction n arbitrary: s x)
    case (Suc n)
    obtain t u ns' where s: "s @ w = t @ 0 # u" "0 \<notin> set t" "18 \<le> length u" "x = t # ns'" "decode_names n (drop 18 u) = Some (ns', r)"
      by (rule decode_names_step [OF Suc.prems(1)])
    have "length r \<le> length u - 18" using decode_names_length [OF s(5)] by simp
    then have l: "length t + 19 + length w \<le> length (s @ w)" using s(1,3) Suc.prems(2) by simp
    define u' where "u' = take (length s - length t - 1) u"
    have "s = take (length s) (t @ 0 # u)" using s(1) by (metis append_eq_conv_conj)
    then have su: "s = t @ 0 # u'" using l by (simp add: u'_def take_Cons' split: if_splits)
    then have "u = u' @ w" using s(1) by simp
    moreover have "18 \<le> length u'" using l su by simp
    ultimately have "decode_names n (drop 18 u' @ w) = Some (ns', r)" "18 \<le> length u'" using s(5) by simp_all
    then show ?case using Suc.IH [of "drop 18 u'" ns'] Suc.prems(2) column_name_append [OF s(2), of u'] su s(4) by auto
  qed simp
qed

text \<open>A description as the server sends it: every name with what is known of the column.\<close>

definition encode_description :: "(byte list \<times> byte list) list \<Rightarrow> byte list" where
  "encode_description cs = htons (length cs) @ concat (map (\<lambda>(s, info). s @ 0 # info) cs)"

lemma decode_encode_names:
  "list_all (\<lambda>(s, info). 0 \<notin> set s \<and> length info = 18) cs
    \<Longrightarrow> decode_names (length cs) (concat (map (\<lambda>(s, info). s @ 0 # info) cs) @ r) = Some (map fst cs, r)"
  by (induction cs) (auto simp: column_name_append)

lemma decode_encode_description:
  assumes "length cs < 2 ^ 16" "list_all (\<lambda>(s, info). 0 \<notin> set s \<and> length info = 18) cs"
  shows "decode_description (encode_description cs) = Some (map fst cs)"
  using decode_encode_names [OF assms(2), of "[]"] assms(1) by (simp add: decode_description_def encode_description_def all_of_def)

text \<open>What filling in the descriptors changes: them, and the space of the result.\<close>

definition desc_changed :: "PGresult \<Rightarrow> PGresult \<Rightarrow> bool" where
  "desc_changed r r' \<longleftrightarrow> (\<exists>g ds b. grown r g \<and> r' = g\<lparr>attDescs := ds, binary_tuples := b\<rparr>)"

lemma desc_changed_set: "desc_changed r r' \<Longrightarrow> desc_changed r (r'\<lparr>attDescs := ds\<rparr>)" "desc_changed r r' \<Longrightarrow> desc_changed r (r'\<lparr>binary_tuples := b\<rparr>)"
proof -
  assume "desc_changed r r'"
  then obtain g d c where g: "grown r g" "r' = g\<lparr>attDescs := d, binary_tuples := c\<rparr>" unfolding desc_changed_def by blast
  have "r'\<lparr>attDescs := ds\<rparr> = g\<lparr>attDescs := ds, binary_tuples := c\<rparr>" "r'\<lparr>binary_tuples := b\<rparr> = g\<lparr>attDescs := d, binary_tuples := b\<rparr>"
    using g(2) by simp_all
  then show "desc_changed r (r'\<lparr>attDescs := ds\<rparr>)" "desc_changed r (r'\<lparr>binary_tuples := b\<rparr>)" using g(1) unfolding desc_changed_def by blast+
qed

lemma desc_changed_grown: "grown r r' \<Longrightarrow> desc_changed r r'"
  unfolding desc_changed_def
  by (rule exI [of _ r'], rule exI [of _ "attDescs r'"], rule exI [of _ "binary_tuples r'"]) simp

lemma grown_desc: 
  assumes "grown (r\<lparr>attDescs := ds, binary_tuples := b\<rparr>) r'"
  shows "\<exists>g. grown r g \<and> r' = g\<lparr>attDescs := ds, binary_tuples := b\<rparr>"
proof -
  obtain bl ch co sl where r': "r' = r\<lparr>attDescs := ds, binary_tuples := b, blocks := bl, chain := ch, curOffset := co, spaceLeft := sl\<rparr>"
    and h: "\<forall>p bs. holds (r\<lparr>attDescs := ds, binary_tuples := b\<rparr>) p bs \<longrightarrow> holds r' p bs"
    using assms unfolding grown_def by blast
  let ?g = "r\<lparr>blocks := bl, chain := ch, curOffset := co, spaceLeft := sl\<rparr>"
  have e: "r' = ?g\<lparr>attDescs := ds, binary_tuples := b\<rparr>" using r' by simp
  have "holds r p bs \<longrightarrow> holds ?g p bs" for p bs using h [rule_format, of p bs] unfolding e holds_fields by blast
  then have "grown r ?g" unfolding grown_def by blast
  then show ?thesis using e by blast
qed

lemma desc_changed_trans:
  assumes "desc_changed a b" "grown b c"
  shows "desc_changed a c"
proof -
  obtain g ds bt where b: "grown a g" "b = g\<lparr>attDescs := ds, binary_tuples := bt\<rparr>" using assms(1) unfolding desc_changed_def by blast
  obtain g' where "grown g g'" "c = g'\<lparr>attDescs := ds, binary_tuples := bt\<rparr>" using grown_desc assms(2) unfolding b(2) by blast
  then show ?thesis using grown_trans [OF b(1)] unfolding desc_changed_def by blast
qed

lemma desc_changed_trans2: "desc_changed a b \<Longrightarrow> desc_changed b c \<Longrightarrow> desc_changed a c"
proof -
  assume ab: "desc_changed a b" and "desc_changed b c"
  then obtain g ds bt where "grown b g" and c: "c = g\<lparr>attDescs := ds, binary_tuples := bt\<rparr>" unfolding desc_changed_def by blast
  then have "desc_changed a g" using desc_changed_trans [OF ab] by blast
  then show ?thesis unfolding c by (intro desc_changed_set)
qed

lemma desc_changed_fields:
  assumes "desc_changed r r'"
  shows "ntups r' = ntups r" "numAttributes r' = numAttributes r" "resultStatus r' = resultStatus r" "errMsg r' = errMsg r"
    "errFields r' = errFields r" "errQuery r' = errQuery r" "result_encoding r' = result_encoding r" "holds r p bs \<Longrightarrow> holds r' p bs"
    "own_name r d s \<Longrightarrow> own_name r' d s" "space_inv r' \<Longrightarrow> represents r T \<Longrightarrow> represents r' T"
proof -
  obtain g ds b where g: "grown r g" "r' = g\<lparr>attDescs := ds, binary_tuples := b\<rparr>" using assms unfolding desc_changed_def by blast
  show "ntups r' = ntups r" "numAttributes r' = numAttributes r" "resultStatus r' = resultStatus r" "errMsg r' = errMsg r"
    "errFields r' = errFields r" "errQuery r' = errQuery r" "result_encoding r' = result_encoding r"
    using grown_fields [OF g(1)] grown_more [OF g(1)] unfolding g(2) by simp_all
  show h: "holds r p bs \<Longrightarrow> holds r' p bs" for p bs using grown_holds [OF g(1)] unfolding g(2) by simp
  show "own_name r d s \<Longrightarrow> own_name r' d s" using h unfolding own_name_def by blast
  show "space_inv r' \<Longrightarrow> represents r T \<Longrightarrow> represents r' T" using represents_grown [OF _ g(1)] unfolding g(2) by simp
qed

definition names_read :: "byte list list \<Rightarrow> byte list list \<Rightarrow> bool" where
  "names_read names names' \<longleftrightarrow> list_all2 (\<lambda>s s'. s' = s \<or> s' = []) names names'"


lemma read_desc_returns:
  assumes c: "state_inv c" "conn_inv (conn c)" and res: "space_inv res" "attDescs res = Some ds" "i < length ds"
  shows "\<exists>x m h b. read_desc i res c = Some (x, (adv m c)\<lparr>mem := h, workBuffer := b\<rparr>) \<and> m \<le> length (unread c) \<and> eb_inv b
    \<and> (case x of Inl _ \<Rightarrow> \<forall>k. plenty (3 + k) (mem c) \<longrightarrow> column_name (unread c) = None
       | Inr res' \<Rightarrow> desc_changed res res' \<and> space_inv res' \<and> (\<exists>s s' d. column_name (unread c) = Some (s, drop m (unread c))
           \<and> (s' = s \<or> s' = []) \<and> attDescs res' = Some (ds[i := d]) \<and> own_name res' d s' \<and> length s' < INT_MAX
           \<and> (\<forall>k. plenty (3 + k) (mem c) \<longrightarrow> s' = s \<and> plenty k h)))"
proof -
  obtain ok c1 where g: "get_work c = Some (ok, c1)" and
    w: "if ok then \<exists>s r h b t rest. unread c = s @ 0 # r \<and> 0 \<notin> set s \<and> c1 = (adv (length s + 1) c)\<lparr>mem := h, workBuffer := b\<rparr>
        \<and> eb_inv b \<and> buffer_data b = t @ 0 # rest \<and> 0 \<notin> set t \<and> length t < INT_MAX \<and> (t = s \<or> t = [])
        \<and> (\<forall>k. plenty (Suc (Suc k)) (mem c) \<longrightarrow> t = s \<and> plenty k h)
      else 0 \<notin> set (unread c) \<and> c1 = c"
    using get_work_returns [OF c(2,1)] by (auto simp: returns_def)
  show ?thesis
  proof (cases ok)
    case False
    then have "read_desc i res c = Some (Inl ''insufficient data in \"T\" message'', (adv 0 c)\<lparr>mem := mem c, workBuffer := workBuffer c\<rparr>)"
      "column_name (unread c) = None" using w by (simp_all add: read_desc_def g column_name_def)
    then show ?thesis using c(1)
      by (intro exI [of _ "Inl ''insufficient data in \"T\" message''"] exI [of _ 0] exI [of _ "mem c"] exI [of _ "workBuffer c"]) (simp add: state_inv_def)
  next
    case True
    then obtain s r h b t rest where d: "unread c = s @ 0 # r" "0 \<notin> set s" "c1 = (adv (length s + 1) c)\<lparr>mem := h, workBuffer := b\<rparr>"
      "eb_inv b" "buffer_data b = t @ 0 # rest" "0 \<notin> set t" "length t < INT_MAX" "t = s \<or> t = []"
      and pw: "\<forall>k. plenty (Suc (Suc k)) (mem c) \<longrightarrow> t = s \<and> plenty k h" using w by (simp only: if_True simp_thms) blast
    have c1: "conn_inv (conn c1)" "unread c1 = r"
      using unread_adv [OF c(2), of "length s + 1"] d(1,3) by (simp_all add: unread_def)
    have av: "adv m c1 = (adv (length s + 1 + m) c)\<lparr>mem := h, workBuffer := b\<rparr>" for m unfolding d(3) by (simp add: adv_def)
    note cn = column_name_append [OF d(2), of r, folded d(1)]
    note gi = get_ints_returns [OF c1(1), of "[4, 2, 4, 2, 4, 2]", unfolded c1(2)]
    show ?thesis
    proof (cases "18 \<le> length r")
      case False
      then obtain m where m: "m \<le> length r" "get_ints [4, 2, 4, 2, 4, 2] c1 = Some (None, adv m c1)" using gi by auto
      then have "read_desc i res c = Some (Inl ''insufficient data in \"T\" message'', (adv (length s + 1 + m) c)\<lparr>mem := h, workBuffer := b\<rparr>)"
        using True by (simp add: read_desc_def g av del: get_ints.simps)
      moreover have "length s + 1 + m \<le> length (unread c)" using m(1) d(1) by simp
      ultimately show ?thesis using False cn d(4)
        by (intro exI [of _ "Inl ''insufficient data in \"T\" message''"] exI [of _ "length s + 1 + m"] exI [of _ h] exI [of _ b]) simp
    next
      case l: True
      let ?xs = "be_ints [4, 2, 4, 2, 4, 2] r" and ?m = "length s + 1 + 18"
      let ?c2 = "(adv ?m c)\<lparr>mem := h, workBuffer := b\<rparr>"
      have gi2: "get_ints [4, 2, 4, 2, 4, 2] c1 = Some (Some ?xs, ?c2)" using gi l av [of 18] by simp
      obtain p r1 h1 where sd: "pqResultStrdup res (t @ 0 # rest) h = Some (p, r1, h1)" "space_inv r1" "grown res r1"
        "p = NULL \<or> holds r1 p (t @ [0])" "\<And>k. plenty (Suc k) h \<Longrightarrow> p \<noteq> NULL \<and> plenty k h1"
        using strdup_returns [OF res(1) d(6,7), of rest h] by (auto simp: returns_def)
      have pl: "p \<noteq> NULL \<and> t = s \<and> plenty k h1" if "plenty (3 + k) (mem c)" for k
        using pw [rule_format, of "Suc k"] sd(5) [of k] that by (simp add: numeral_3_eq_3)
      have m: "?m \<le> length (unread c)" "drop ?m (unread c) = drop 18 r" using l d(1) by simp_all
      show ?thesis
      proof (cases "p = NULL")
        case None: True
        have "read_desc i res c = Some (Inl ''out of memory for query result'', (adv ?m c)\<lparr>mem := h1, workBuffer := b\<rparr>)"
          using True gi2 sd(1) None d(5) by (simp add: read_desc_def g del: get_ints.simps)
        then show ?thesis using m(1) d(4) pl None
          by (intro exI [of _ "Inl ''out of memory for query result''"] exI [of _ ?m] exI [of _ h1] exI [of _ b]) auto
      next
        case p: False
        let ?d = "desc_of p ?xs" and ?bt = "binary_tuples r1"
        define res' where "res' = (let r2 = r1\<lparr>attDescs := Some (ds[i := ?d])\<rparr> in if att_format ?d \<noteq> 1 then r2\<lparr>binary_tuples := False\<rparr> else r2)"
        have e: "read_desc i res c = Some (Inr res', (adv ?m c)\<lparr>mem := h1, workBuffer := b\<rparr>)"
          using True gi2 sd(1) p d(5) grown_fields(3) [OF sd(3)] res(2,3) by (simp add: read_desc_def g res'_def Let_def del: get_ints.simps be_ints.simps desc_of.simps)
        have r': "space_inv res'" "attDescs res' = Some (ds[i := ?d])" "\<And>q bs. holds res' q bs = holds r1 q bs"
          using sd(2) by (simp_all add: res'_def Let_def)
        have dc: "desc_changed res res'" using desc_changed_set [OF desc_changed_grown [OF sd(3)]] by (simp add: res'_def Let_def) (metis desc_changed_set desc_changed_grown sd(3))
        have "att_name ?d = p" by simp
        then have "own_name res' ?d t" using sd(4) p d(6) r'(3) by (simp add: own_name_def)
        then have "\<exists>u u' d. column_name (unread c) = Some (u, drop ?m (unread c)) \<and> (u' = u \<or> u' = []) \<and> attDescs res' = Some (ds[i := d])
            \<and> own_name res' d u' \<and> length u' < INT_MAX \<and> (\<forall>k. plenty (3 + k) (mem c) \<longrightarrow> u' = u \<and> plenty k h1)"
          using cn l m(2) d(7,8) r'(2) pl by (intro exI [of _ s] exI [of _ t] exI [of _ ?d]) auto
        then show ?thesis using e m(1) d(4) dc r'(1)
          by (intro exI [of _ "Inr res'"] exI [of _ ?m] exI [of _ h1] exI [of _ b]) simp
      qed
    qed
  qed
qed

lemma read_descs_returns:
  assumes "state_inv c" "conn_inv (conn c)" "space_inv res" "attDescs res = Some ds" "length ds = n" "i \<le> n" "length N = i"
    "\<forall>j < i. own_name res (ds ! j) (N ! j)"
  shows "\<exists>x m h b. read_descs [i..<n] res c = Some (x, (adv m c)\<lparr>mem := h, workBuffer := b\<rparr>) \<and> m \<le> length (unread c) \<and> eb_inv b
    \<and> (case x of Inl _ \<Rightarrow> \<forall>k. plenty (3 * (n - i) + k) (mem c) \<longrightarrow> decode_names (n - i) (unread c) = None
       | Inr res' \<Rightarrow> desc_changed res res' \<and> space_inv res' \<and> (\<exists>names names' ds'. decode_names (n - i) (unread c) = Some (names, drop m (unread c))
           \<and> names_read names names' \<and> attDescs res' = Some ds' \<and> list_all2 (own_name res') ds' (N @ names')
           \<and> list_all (\<lambda>s. length s < INT_MAX) names' \<and> (\<forall>k. plenty (3 * (n - i) + k) (mem c) \<longrightarrow> names' = names \<and> plenty k h)))"
  using assms
proof (induction "n - i" arbitrary: i c res ds N)
  case 0
  then have i: "[i..<n] = []" "n - i = 0" "i = n" by simp_all
  have "list_all2 (own_name res) ds (N @ [])" using 0(6,8,9) i(3) by (simp add: list_all2_conv_all_nth)
  moreover have "desc_changed res res" by (simp add: desc_changed_grown)
  moreover have "read_descs [i..<n] res c = Some (Inr res, (adv 0 c)\<lparr>mem := mem c, workBuffer := workBuffer c\<rparr>)" unfolding i(1) by simp
  moreover have "eb_inv (workBuffer c)" using 0(2) by (simp add: state_inv_def)
  ultimately show ?case using 0(4,5) i(2)
    by (intro exI [of _ "Inr res"] exI [of _ 0] exI [of _ "mem c"] exI [of _ "workBuffer c"]) (simp add: names_read_def)
next
  case (Suc n')
  then have up: "[i..<n] = i # [Suc i..<n]" "n - i = Suc (n - Suc i)" "Suc i \<le> n" "n' = n - Suc i" "i < length ds" by (auto simp: upt_rec)
  obtain x m h b where d: "read_desc i res c = Some (x, (adv m c)\<lparr>mem := h, workBuffer := b\<rparr>)" "m \<le> length (unread c)" "eb_inv b"
    "case x of Inl _ \<Rightarrow> \<forall>k. plenty (3 + k) (mem c) \<longrightarrow> column_name (unread c) = None
       | Inr res' \<Rightarrow> desc_changed res res' \<and> space_inv res' \<and> (\<exists>s s' d. column_name (unread c) = Some (s, drop m (unread c))
           \<and> (s' = s \<or> s' = []) \<and> attDescs res' = Some (ds[i := d]) \<and> own_name res' d s' \<and> length s' < INT_MAX
           \<and> (\<forall>k. plenty (3 + k) (mem c) \<longrightarrow> s' = s \<and> plenty k h))"
    using read_desc_returns [OF Suc.prems(1-4) up(5)] by blast
  let ?c = "(adv m c)\<lparr>mem := h, workBuffer := b\<rparr>"
  have c: "conn_inv (conn ?c)" "unread ?c = drop m (unread c)" "state_inv ?c"
    using unread_adv [OF Suc.prems(2) d(2)] Suc.prems(1) d(3) by (simp_all add: unread_def)
  show ?case
  proof (cases x)
    case (Inl e)
    have cn: "\<forall>k. plenty (3 + k) (mem c) \<longrightarrow> column_name (unread c) = None" using d(4) Inl by (simp only: sum.case)
    have "decode_names (n - i) (unread c) = None" if "plenty (3 * (n - i) + k) (mem c)" for k
    proof -
      have "plenty (3 + (3 * (n - Suc i) + k)) (mem c)" using that up(2) by (simp add: add.assoc)
      then have "column_name (unread c) = None" using cn by blast
      then show ?thesis unfolding up(2) by simp
    qed
    moreover have "read_descs [i..<n] res c = Some (Inl e, ?c)" unfolding up(1) using d(1) Inl by simp
    ultimately show ?thesis using d(2,3) by (intro exI [of _ "Inl e"] exI [of _ m] exI [of _ h] exI [of _ b]) simp
  next
    case (Inr r1)
    then obtain s s' dd where r: "desc_changed res r1" "space_inv r1" "column_name (unread c) = Some (s, drop m (unread c))"
      "s' = s \<or> s' = []" "attDescs r1 = Some (ds[i := dd])" "own_name r1 dd s'" "length s' < INT_MAX"
      "\<forall>k. plenty (3 + k) (mem c) \<longrightarrow> s' = s \<and> plenty k h" using d(4) by (simp only: sum.case) blast
    have own: "\<forall>j < Suc i. own_name r1 (ds[i := dd] ! j) ((N @ [s']) ! j)"
      using r(6) up(5) Suc.prems(7,8) desc_changed_fields(9) [OF r(1)] by (auto simp: nth_append less_Suc_eq)
    have dn: "decode_names (n - i) (unread c) = do { (ns, w) \<leftarrow> decode_names (n - Suc i) (drop m (unread c)); Some (s # ns, w) }"
      unfolding up(2) using r(3) by simp
    have e: "read_descs [i..<n] res c = read_descs [Suc i..<n] r1 ?c" unfolding up(1) using d(1) Inr by simp
    have l: "length (ds[i := dd]) = n" "length (N @ [s']) = Suc i" using Suc.prems(5,7) by simp_all
    obtain x2 m2 h2 b2 where IH: "read_descs [Suc i..<n] r1 ?c = Some (x2, (adv m2 ?c)\<lparr>mem := h2, workBuffer := b2\<rparr>)"
      "m2 \<le> length (drop m (unread c))" "eb_inv b2"
      "case x2 of Inl _ \<Rightarrow> \<forall>k. plenty (3 * (n - Suc i) + k) (mem ?c) \<longrightarrow> decode_names (n - Suc i) (drop m (unread c)) = None
       | Inr res' \<Rightarrow> desc_changed r1 res' \<and> space_inv res' \<and> (\<exists>names names' ds'. decode_names (n - Suc i) (drop m (unread c)) = Some (names, drop m2 (drop m (unread c)))
           \<and> names_read names names' \<and> attDescs res' = Some ds' \<and> list_all2 (own_name res') ds' ((N @ [s']) @ names')
           \<and> list_all (\<lambda>s. length s < INT_MAX) names' \<and> (\<forall>k. plenty (3 * (n - Suc i) + k) (mem ?c) \<longrightarrow> names' = names \<and> plenty k h2))"
      using Suc.hyps(1) [OF up(4) c(3,1) r(2,5) l(1) up(3) l(2) own, unfolded c(2)] by blast
    have eq: "read_descs [i..<n] res c = Some (x2, (adv (m + m2) c)\<lparr>mem := h2, workBuffer := b2\<rparr>)"
      unfolding e IH(1) by (simp add: adv_def)
    have mm: "m + m2 \<le> length (unread c)" "drop m2 (drop m (unread c)) = drop (m + m2) (unread c)" using IH(2) d(2) by (simp_all add: add.commute)
    have pl: "s' = s \<and> plenty (3 * (n - Suc i) + k) h" if "plenty (3 * (n - i) + k) (mem c)" for k
      using r(8) [rule_format, of "3 * (n - Suc i) + k"] that up(2) by (simp add: add.assoc)
    show ?thesis
    proof (cases x2)
      case (Inl e2)
      then have in2: "\<forall>k. plenty (3 * (n - Suc i) + k) (mem ?c) \<longrightarrow> decode_names (n - Suc i) (drop m (unread c)) = None"
        using IH(4) by (simp only: sum.case)
      have "decode_names (n - i) (unread c) = None" if "plenty (3 * (n - i) + k) (mem c)" for k
        using in2 [rule_format, of k] pl [OF that] dn by simp
      then show ?thesis using eq Inl mm(1) IH(3) by (intro exI [of _ x2] exI [of _ "m + m2"] exI [of _ h2] exI [of _ b2]) simp
    next
      case (Inr r2)
      then obtain names names' ds' where f: "desc_changed r1 r2" "space_inv r2" "decode_names (n - Suc i) (drop m (unread c)) = Some (names, drop m2 (drop m (unread c)))"
        "names_read names names'" "attDescs r2 = Some ds'" "list_all2 (own_name r2) ds' ((N @ [s']) @ names')"
        "list_all (\<lambda>s. length s < INT_MAX) names'" "\<forall>k. plenty (3 * (n - Suc i) + k) h \<longrightarrow> names' = names \<and> plenty k h2"
        using IH(4) by (simp only: sum.case client.simps) auto
      have "decode_names (n - i) (unread c) = Some (s # names, drop (m + m2) (unread c))" unfolding dn f(3) mm(2) by simp
      moreover have "names_read (s # names) (s' # names')" using f(4) r(4) by (simp add: names_read_def)
      moreover have "list_all2 (own_name r2) ds' (N @ s' # names')" using f(6) by simp
      moreover have "list_all (\<lambda>s. length s < INT_MAX) (s' # names')" using f(7) r(7) by simp
      moreover have "\<forall>k. plenty (3 * (n - i) + k) (mem c) \<longrightarrow> s' # names' = s # names \<and> plenty k h2" using pl f(8) by blast
      ultimately have "\<exists>names names' ds'. decode_names (n - i) (unread c) = Some (names, drop (m + m2) (unread c)) \<and> names_read names names'
          \<and> attDescs r2 = Some ds' \<and> list_all2 (own_name r2) ds' (N @ names') \<and> list_all (\<lambda>s. length s < INT_MAX) names'
          \<and> (\<forall>k. plenty (3 * (n - i) + k) (mem c) \<longrightarrow> names' = names \<and> plenty k h2)" using f(5) by blast
      moreover have "desc_changed res r2" using r(1) f(1) by (rule desc_changed_trans2)
      ultimately show ?thesis using eq Inr mm(1) IH(3) f(2)
        by (intro exI [of _ x2] exI [of _ "m + m2"] exI [of _ h2] exI [of _ b2]) (simp only: sum.case simp_thms)
    qed
  qed
qed

section \<open>The description of the rows\<close>

lemma alloc_descs_returns:
  assumes "space_inv res" "n < 2 ^ 16"
  shows "\<exists>ok res' h. alloc_descs n res c = Some (ok, res', c\<lparr>mem := h\<rparr>) \<and> desc_changed res res' \<and> space_inv res'
    \<and> (ok \<and> n > 0 \<longrightarrow> attDescs res' = Some (replicate n zero_desc)) \<and> (n = 0 \<longrightarrow> ok) \<and> (\<forall>k. plenty (Suc k) (mem c) \<longrightarrow> ok \<and> plenty k h)"
proof (cases "n > 0")
  case False
  then have "alloc_descs n res c = Some (True, res, c\<lparr>mem := mem c\<rparr>)" by (simp add: alloc_descs_def)
  moreover have "plenty k (mem c)" if "plenty (Suc k) (mem c)" for k by (rule plenty_mono [OF that]) simp
  ultimately show ?thesis using False assms(1) desc_changed_grown [OF grown_refl]
    by (intro exI [of _ True] exI [of _ res] exI [of _ "mem c"]) simp
next
  case True
  have sz: "size_t (n * sizeof_PGresAttDesc) = n * sizeof_PGresAttDesc" "n * sizeof_PGresAttDesc + 8 < 2 ^ 32"
    using assms(2) by (simp_all add: result_sizes size_t_id)
  obtain p r h where a: "result_alloc res (n * sizeof_PGresAttDesc) True (mem c) = Some (p, r, h)" "space_inv r" "grown res r"
    "\<And>k. plenty (Suc k) (mem c) \<Longrightarrow> p \<noteq> NULL \<and> plenty k h"
    using alloc_returns [OF assms(1) sz(2), of True "mem c"] by (auto simp: returns_def)
  let ?r = "r\<lparr>attDescs := (if p = NULL then None else Some (replicate n zero_desc))\<rparr>"
  have "alloc_descs n res c = Some (p \<noteq> NULL, ?r, c\<lparr>mem := h\<rparr>)" using True sz(1) a(1) by (simp add: alloc_descs_def)
  moreover have "desc_changed res ?r" by (rule desc_changed_set [OF desc_changed_grown [OF a(3)]])
  moreover have "space_inv ?r" using a(2) by simp
  ultimately show ?thesis using True a(4) by (intro exI [of _ "p \<noteq> NULL"] exI [of _ ?r] exI [of _ h]) simp
qed

text \<open>A result whose descriptors have been filled in.\<close>

lemma described_result:
  assumes r: "result_inv r" "represents r []" and n: "n < 2 ^ 16" and d: "desc_changed (r\<lparr>numAttributes := n\<rparr>) r'" "space_inv r'"
    and names: "length N = n" "n > 0 \<longrightarrow> (\<exists>ds. attDescs r' = Some ds \<and> list_all2 (own_name r') ds N)" "list_all (\<lambda>s. length s < INT_MAX) N"
  shows "result_inv r'" "represents r' []" "column_names r' N" "resultStatus r' = resultStatus r" "result_encoding r' = result_encoding r"
    "numAttributes r' = n"
proof -
  note f = desc_changed_fields [OF d(1), simplified]
  show "resultStatus r' = resultStatus r" "result_encoding r' = result_encoding r" "numAttributes r' = n" using f(2,3,7) by simp_all
  show rep: "represents r' []" using f(10) [OF d(2)] represents_numAttributes [OF r(2)] by simp
  have "N = [] \<or> (\<exists>ds. attDescs r' = Some ds \<and> list_all2 (own_name r') ds N)" using names(1,2) by auto
  then show cn: "column_names r' N" using names f(2) by (simp add: column_names_def)
  have tp: "text_ptr r p \<Longrightarrow> text_ptr r' p" for p using f(8) unfolding text_ptr_def by auto
  have "list_all (\<lambda>x. text_ptr r' (snd x)) (errFields r)" using result_invD(5) [OF r(1)] tp by (auto elim!: list.pred_mono_strong)
  moreover have "text_ptr r' (errMsg r)" "text_ptr r' (errQuery r)" using result_invD(3,4) [OF r(1)] tp by blast+
  moreover have "\<exists>ds. attDescs r' = Some ds \<and> length ds = n" if "n > 0"
    using names(1,2) that by (auto dest: list_all2_lengthD)
  ultimately show "result_inv r'" using rep cn n f(2,4-6) unfolding result_inv_def by auto
qed

lemma fill_descriptions_returns:
  assumes c: "state_inv c" "conn_inv (conn c)" "inCursor (conn c) = inStart (conn c) + 5" "L \<le> length (unread c)"
    and r: "result_inv r" "represents r []"
  shows "\<exists>x m h b. fill_descriptions L r c = Some (x, (adv m c)\<lparr>mem := h, workBuffer := b\<rparr>) \<and> m \<le> length (unread c) \<and> eb_inv b
    \<and> (case x of Inl _ \<Rightarrow> \<forall>names. decode_description (take L (unread c)) = Some names \<longrightarrow> (\<forall>k. \<not> plenty (3 * length names + 1 + k) (mem c))
       | Inr r' \<Rightarrow> m = L \<and> (\<exists>names names'. decode_description (take L (unread c)) = Some names \<and> names_read names names'
          \<and> result_inv r' \<and> represents r' [] \<and> column_names r' names' \<and> resultStatus r' = resultStatus r \<and> result_encoding r' = result_encoding r
          \<and> (\<forall>k. plenty (3 * length names + 1 + k) (mem c) \<longrightarrow> names' = names \<and> plenty k h)))"
    (is "\<exists>x m h b. ?P x m h b")
proof (cases "length (unread c) < 2")
  case True
  then have "length (take L (unread c)) < 2" by simp
  then have "decode_description (take L (unread c)) = None" unfolding decode_description_def by (simp only: simp_thms if_True)
  moreover have "fill_descriptions L r c = Some (Inl ''insufficient data in \"T\" message'', (adv 0 c)\<lparr>mem := mem c, workBuffer := workBuffer c\<rparr>)"
    using True by (simp add: fill_descriptions_def get_int_returns [OF c(2)])
  moreover have "eb_inv (workBuffer c)" using c(1) by (simp add: state_inv_def)
  ultimately have "?P (Inl ''insufficient data in \"T\" message'') 0 (mem c) (workBuffer c)" by simp
  then show ?thesis by blast
next
  case False
  then have len2: "2 \<le> length (unread c)" by simp
  let ?n = "nat (be_int 2 (unread c))" and ?u = "drop 2 (unread c)"
  have n: "?n < 2 ^ 16" using be_int_range [OF refl len2] by (simp add: nat_less_iff)
  have d: "conn_inv (conn (adv 2 c))" "unread (adv 2 c) = ?u" "state_inv (adv 2 c)" using unread_adv [OF c(2) len2] c(1) by simp_all
  have dec: "decode_description (take L (unread c)) = (case decode_names ?n ?u of None \<Rightarrow> None
      | Some (names, rest) \<Rightarrow> if length (unread c) - length rest = L then Some names else None)"
  proof (cases "2 \<le> L")
    case False
    have "length (unread c) - length rest \<noteq> L" if "decode_names ?n ?u = Some (names, rest)" for names rest
      using decode_names_length [OF that] len2 False by auto
    then show ?thesis using False by (auto simp: decode_description_def split: option.split)
  next
    case True
    have "be_int 2 (take L (unread c)) = be_int 2 (unread c)" using True c(4) by (simp add: be_int_def min_def)
    moreover have "all_of (decode_names ?n) (drop 2 (take L (unread c))) = (case decode_names ?n ?u of None \<Rightarrow> None
        | Some (names, rest) \<Rightarrow> if length (unread c) - length rest = L then Some names else None)"
      using names.all_of_take [of "L - 2" ?u ?n] names.shorter [of ?n ?u] True c(4) by (auto simp: drop_take split: option.split)
    ultimately show ?thesis using True c(4) by (simp add: decode_description_def)
  qed
  let ?r0 = "r\<lparr>numAttributes := ?n\<rparr>"
  have s0: "space_inv ?r0" using r(2) by (simp add: represents_def)
  obtain ok r1 h1 where a: "alloc_descs ?n ?r0 (adv 2 c) = Some (ok, r1, (adv 2 c)\<lparr>mem := h1\<rparr>)" "desc_changed ?r0 r1" "space_inv r1"
    "ok \<and> ?n > 0 \<longrightarrow> attDescs r1 = Some (replicate ?n zero_desc)" "?n = 0 \<longrightarrow> ok" "\<forall>k. plenty (Suc k) (mem c) \<longrightarrow> ok \<and> plenty k h1"
    using alloc_descs_returns [OF s0 n, of "adv 2 c"] by auto
  let ?d = "(adv 2 c)\<lparr>mem := h1\<rparr>" and ?r2 = "r1\<lparr>binary_tuples := ?n > 0\<rparr>"
  have e: "fill_descriptions L r c = (if \<not> ok then Some (Inl ''out of memory for query result'', ?d)
      else do { (x, c) \<leftarrow> read_descs [0..<?n] ?r2 ?d; case x of Inl m \<Rightarrow> Some (Inl m, c)
        | Inr res \<Rightarrow> if \<not> whole_message L c then Some (Inl ''extraneous data in \"T\" message'', c) else Some (Inr res, c) })"
    using False a(1) by (simp add: fill_descriptions_def get_int_returns [OF c(2)])
  show ?thesis
  proof (cases ok)
    case no: False
    then have "\<not> plenty (Suc k) (mem c)" for k using a(6) by blast
    then have "?P (Inl ''out of memory for query result'') 2 h1 (workBuffer c)" unfolding e using no len2 c(1) by (simp add: state_inv_def)
    then show ?thesis by blast
  next
    case ok: True
    have rd: "\<exists>x m h b. read_descs [0..<?n] ?r2 ?d = Some (x, (adv m ?d)\<lparr>mem := h, workBuffer := b\<rparr>) \<and> m \<le> length ?u \<and> eb_inv b
      \<and> (case x of Inl _ \<Rightarrow> \<forall>k. plenty (3 * ?n + k) h1 \<longrightarrow> decode_names ?n ?u = None
         | Inr r' \<Rightarrow> desc_changed ?r2 r' \<and> space_inv r' \<and> (\<exists>names names'. decode_names ?n ?u = Some (names, drop m ?u) \<and> names_read names names'
             \<and> (?n > 0 \<longrightarrow> (\<exists>ds. attDescs r' = Some ds \<and> list_all2 (own_name r') ds names'))
             \<and> list_all (\<lambda>s. length s < INT_MAX) names' \<and> (\<forall>k. plenty (3 * ?n + k) h1 \<longrightarrow> names' = names \<and> plenty k h)))"
    proof (cases "?n = 0")
      case True
      then have "read_descs [0..<?n] ?r2 ?d = Some (Inr ?r2, (adv 0 ?d)\<lparr>mem := h1, workBuffer := workBuffer c\<rparr>)" by simp
      moreover have "desc_changed ?r2 ?r2" by (simp add: desc_changed_grown)
      ultimately show ?thesis using True c(1) a(3)
        by (intro exI [of _ "Inr ?r2"] exI [of _ 0] exI [of _ h1] exI [of _ "workBuffer c"]) (simp add: state_inv_def names_read_def)
    next
      case pos: False
      then have at: "attDescs ?r2 = Some (replicate ?n zero_desc)" using a(4) ok by simp
      have pre: "state_inv ?d" "conn_inv (conn ?d)" "space_inv ?r2" "length (replicate ?n zero_desc) = ?n" "0 \<le> ?n" "length [] = 0"
        "\<forall>j < 0. own_name ?r2 (replicate ?n zero_desc ! j) ([] ! j)" "unread ?d = ?u" "mem ?d = h1" "?n - 0 = ?n" using d a(3) by simp_all
      obtain x m h b where q: "read_descs [0..<?n] ?r2 ?d = Some (x, (adv m ?d)\<lparr>mem := h, workBuffer := b\<rparr>)" "m \<le> length ?u" "eb_inv b"
        "case x of Inl _ \<Rightarrow> \<forall>k. plenty (3 * ?n + k) h1 \<longrightarrow> decode_names ?n ?u = None
         | Inr r' \<Rightarrow> desc_changed ?r2 r' \<and> space_inv r' \<and> (\<exists>names names' ds'. decode_names ?n ?u = Some (names, drop m ?u) \<and> names_read names names'
             \<and> attDescs r' = Some ds' \<and> list_all2 (own_name r') ds' names'
             \<and> list_all (\<lambda>s. length s < INT_MAX) names' \<and> (\<forall>k. plenty (3 * ?n + k) h1 \<longrightarrow> names' = names \<and> plenty k h))"
        using read_descs_returns [OF pre(1-3) at pre(4-7), unfolded pre(8-10) append_Nil] by blast
      have "case x of Inl _ \<Rightarrow> \<forall>k. plenty (3 * ?n + k) h1 \<longrightarrow> decode_names ?n ?u = None
         | Inr r' \<Rightarrow> desc_changed ?r2 r' \<and> space_inv r' \<and> (\<exists>names names'. decode_names ?n ?u = Some (names, drop m ?u) \<and> names_read names names'
             \<and> (?n > 0 \<longrightarrow> (\<exists>ds. attDescs r' = Some ds \<and> list_all2 (own_name r') ds names'))
             \<and> list_all (\<lambda>s. length s < INT_MAX) names' \<and> (\<forall>k. plenty (3 * ?n + k) h1 \<longrightarrow> names' = names \<and> plenty k h))"
        using q(4) by (cases x; simp only: sum.case; blast)
      then show ?thesis using q(1-3) by blast
    qed
    then obtain x m h b where x: "read_descs [0..<?n] ?r2 ?d = Some (x, (adv m ?d)\<lparr>mem := h, workBuffer := b\<rparr>)" "m \<le> length ?u" "eb_inv b"
      "case x of Inl _ \<Rightarrow> \<forall>k. plenty (3 * ?n + k) h1 \<longrightarrow> decode_names ?n ?u = None
         | Inr r' \<Rightarrow> desc_changed ?r2 r' \<and> space_inv r' \<and> (\<exists>names names'. decode_names ?n ?u = Some (names, drop m ?u) \<and> names_read names names'
             \<and> (?n > 0 \<longrightarrow> (\<exists>ds. attDescs r' = Some ds \<and> list_all2 (own_name r') ds names'))
             \<and> list_all (\<lambda>s. length s < INT_MAX) names' \<and> (\<forall>k. plenty (3 * ?n + k) h1 \<longrightarrow> names' = names \<and> plenty k h))" by blast
    let ?e = "(adv (2 + m) c)\<lparr>mem := h, workBuffer := b\<rparr>"
    have xe: "read_descs [0..<?n] ?r2 ?d = Some (x, ?e)" using x(1) by (simp add: adv_def)
    have ml: "2 + m \<le> length (unread c)" using x(2) len2 by simp
    have pl: "plenty (3 * ?n + k) h1" if "plenty (3 * ?n + 1 + k) (mem c)" for k using a(6) [rule_format, of "3 * ?n + k"] that by simp
    show ?thesis
    proof (cases x)
      case (Inl msg)
      then have nd: "\<forall>k. plenty (3 * ?n + k) h1 \<longrightarrow> decode_names ?n ?u = None" using x(4) by (simp only: sum.case)
      have "\<not> plenty (3 * length names + 1 + k) (mem c)" if "decode_description (take L (unread c)) = Some names" for names k
      proof
        assume "plenty (3 * length names + 1 + k) (mem c)"
        moreover have "\<exists>rest. decode_names ?n ?u = Some (names, rest)" using that unfolding dec by (auto split: option.splits if_splits)
        then obtain rest where dn: "decode_names ?n ?u = Some (names, rest)" by blast
        ultimately show False using nd pl decode_names_length [OF dn] by auto
      qed
      then have "?P x (2 + m) h b" unfolding e using ok xe Inl ml x(3) by simp
      then show ?thesis by blast
    next
      case (Inr r')
      note q = x(4) [unfolded Inr sum.case]
      obtain names names' where f: "desc_changed ?r2 r'" "space_inv r'" "decode_names ?n ?u = Some (names, drop m ?u)" "names_read names names'"
        "?n > 0 \<longrightarrow> (\<exists>ds. attDescs r' = Some ds \<and> list_all2 (own_name r') ds names')" "list_all (\<lambda>s. length s < INT_MAX) names'"
        "\<forall>k. plenty (3 * ?n + k) h1 \<longrightarrow> names' = names \<and> plenty k h" using q by (elim exE conjE) (rule that)
      have ln: "length names = ?n" using decode_names_length [OF f(3)] by simp
      have wm: "whole_message L ?e \<longleftrightarrow> 2 + m = L" using c(3) by (auto simp: whole_message_def)
      have de: "decode_description (take L (unread c)) = (if 2 + m = L then Some names else None)" unfolding dec f(3) using ml by simp
      show ?thesis
      proof (cases "2 + m = L")
        case False
        then have "?P (Inl ''extraneous data in \"T\" message'') (2 + m) h b" unfolding e using ok xe Inr ml x(3) wm de by simp
        then show ?thesis by blast
      next
        case True
        have "length names' = ?n" using f(4) ln by (auto simp: names_read_def dest: list_all2_lengthD)
        moreover have "desc_changed ?r0 r'" by (rule desc_changed_trans2 [OF desc_changed_set(2) [OF a(2)] f(1)])
        ultimately have "result_inv r' \<and> represents r' [] \<and> column_names r' names' \<and> resultStatus r' = resultStatus r \<and> result_encoding r' = result_encoding r"
          using described_result [OF r n _ f(2) _ f(5,6)] by blast
        moreover have "\<forall>k. plenty (3 * length names + 1 + k) (mem c) \<longrightarrow> names' = names \<and> plenty k h" using pl f(7) ln by auto
        moreover have "decode_description (take L (unread c)) = Some names" using de True by simp
        moreover have "fill_descriptions L r c = Some (Inr r', (adv L c)\<lparr>mem := h, workBuffer := b\<rparr>)"
          unfolding e using ok xe Inr wm True by simp
        moreover have "L \<le> length (unread c)" using ml True by simp
        ultimately have "?P (Inr r') L h b" unfolding sum.case using f(4) x(3) by blast
        then show ?thesis by blast
      qed
    qed
  qed
qed

text \<open>The outcome of a description: a result without rows that has the names, or an error.\<close>

definition description_done :: "client \<Rightarrow> byte list list \<Rightarrow> client \<Rightarrow> bool" where
  "description_done c names c' \<longleftrightarrow> kept c c' \<and> next_result c' = next_result c
     \<and> (\<exists>r. result c' = Some r \<and> represents r [] \<and> column_names r names
          \<and> (queryclass c \<noteq> PGQUERY_DESCRIBE \<longrightarrow> resultStatus r = PGRES_TUPLES_OK))
     \<and> asyncStatus c' = (if queryclass c = PGQUERY_DESCRIBE then PGASYNC_READY else asyncStatus c)"

definition description_read :: "nat \<Rightarrow> client \<Rightarrow> client \<Rightarrow> bool" where
  "description_read L c c' \<longleftrightarrow> inStart (conn c') = inStart (conn c) + 5 + L
     \<and> ((\<exists>names names'. decode_description (take L (unread c)) = Some names \<and> names_read names names' \<and> description_done c names' c') \<or> gave_up c c')
     \<and> (\<forall>k names. decode_description (take L (unread c)) = Some names \<longrightarrow> plenty (3 * length names + 3 + k) (mem c)
          \<longrightarrow> description_done c names c' \<and> plenty k (mem c'))"

lemma description_not_read:
  assumes "formatter_ok vsn" "kept c d" "asyncStatus d = asyncStatus c" "inStart (conn d) = inStart (conn c)"
    "\<And>k names. decode_description (take L (unread c)) = Some names \<Longrightarrow> \<not> plenty (3 * length names + 3 + k) (mem c)"
  shows "returns (advance_and_error vsn m L d) (description_read L c)"
proof -
  have "description_read L c c'" if "gave_up c c' \<and> inStart (conn c') = inStart (conn c) + 5 + L" for c'
    using that assms(5) unfolding description_read_def by blast
  then show ?thesis using returns_mono [OF advance_and_error_returns [OF assms(1-4), of m L]] by blast
qed

lemma getRowDescriptions_returns:
  assumes v: "formatter_ok vsn" and c: "state_inv c" "conn_inv (conn c)" "inCursor (conn c) = inStart (conn c) + 5" "L \<le> length (unread c)"
    and r: "result c = None \<or> queryclass c = PGQUERY_DESCRIBE"
  shows "returns (getRowDescriptions vsn L c) (description_read L c)"
proof -
  let ?d = "queryclass c = PGQUERY_DESCRIBE"
  define first where "first = (if ?d then (if result c \<noteq> None then Some (result c, c) else make_result PGRES_COMMAND_OK c) else make_result PGRES_TUPLES_OK c)"
  have first: "\<exists>res h. first = Some (res, c\<lparr>mem := h\<rparr>) \<and> (\<forall>x. res = Some x \<longrightarrow> result_inv x \<and> represents x [] \<and> PG_VALID_ENCODING (result_encoding x)
      \<and> (if ?d then resultStatus x \<noteq> PGRES_TUPLES_OK else resultStatus x = PGRES_TUPLES_OK)) \<and> (\<forall>k. plenty (2 + k) (mem c) \<longrightarrow> res \<noteq> None \<and> plenty k h)"
  proof (cases "?d \<and> result c \<noteq> None")
    case True
    then obtain x where x: "result c = Some x" by blast
    then have i: "result_inv x" "PG_VALID_ENCODING (result_encoding x)" "ntups x = 0" "resultStatus x \<noteq> PGRES_TUPLES_OK"
      using c(1) True by (simp_all add: state_inv_def)
    obtain T where T: "represents x T" using i(1) by (auto simp: result_inv_def)
    then have "T = []" using represents_sizes(1) [OF T] i(3) by simp
    moreover have "first = Some (Some x, c\<lparr>mem := mem c\<rparr>)" using True x by (simp add: first_def)
    moreover have "plenty k (mem c)" if "plenty (2 + k) (mem c)" for k by (rule plenty_mono [OF that]) simp
    ultimately show ?thesis using True i T by (intro exI [of _ "Some x"] exI [of _ "mem c"]) simp
  next
    case False
    define st where "st = (if ?d then PGRES_COMMAND_OK else PGRES_TUPLES_OK)"
    have e: "first = make_result st c" using False by (auto simp: first_def st_def)
    obtain res h where m: "make_result st c = Some (res, c\<lparr>mem := h\<rparr>)" "\<forall>x. res = Some x \<longrightarrow> result_inv x \<and> represents x [] \<and> resultStatus x = st
      \<and> result_encoding x = client_encoding (conn c)" "\<forall>k. plenty (2 + k) (mem c) \<longrightarrow> res \<noteq> None \<and> plenty k h"
      using make_result_kept [OF c(1), of st] by (auto simp: returns_def)
    have "PG_VALID_ENCODING (client_encoding (conn c))" using c(1) by (simp add: state_inv_def)
    then show ?thesis using m e by (intro exI [of _ res] exI [of _ h]) (simp add: st_def)
  qed
  then obtain res h where f: "first = Some (res, c\<lparr>mem := h\<rparr>)" "\<forall>x. res = Some x \<longrightarrow> result_inv x \<and> represents x [] \<and> PG_VALID_ENCODING (result_encoding x)
      \<and> (if ?d then resultStatus x \<noteq> PGRES_TUPLES_OK else resultStatus x = PGRES_TUPLES_OK)" "\<forall>k. plenty (2 + k) (mem c) \<longrightarrow> res \<noteq> None \<and> plenty k h" by blast
  let ?c = "c\<lparr>mem := h\<rparr>"
  have kc: "kept c ?c" using c(1) by (simp add: kept_def same_data_def same_buffers_def rows_def)
  have pl: "plenty (3 * length ns + 1 + k) h" "res \<noteq> None" if "plenty (3 * length ns + 3 + k) (mem c)" for ns :: "byte list list" and k
  proof -
    have "plenty (2 + (3 * length ns + 1 + k)) (mem c)" by (rule plenty_mono [OF that]) simp
    then show "plenty (3 * length ns + 1 + k) h" "res \<noteq> None" using f(3) by blast+
  qed
  have e: "getRowDescriptions vsn L c = (case res of None \<Rightarrow> advance_and_error vsn ''out of memory for query result'' L ?c
     | Some res \<Rightarrow> do { (r, c) \<leftarrow> fill_descriptions L res ?c; case r of Inl errmsg \<Rightarrow> advance_and_error vsn errmsg L c
         | Inr res \<Rightarrow> do { let c = message_done (c\<lparr>result := Some res\<rparr>);
             Some (if queryclass c = PGQUERY_DESCRIBE then c\<lparr>asyncStatus := PGASYNC_READY\<rparr> else c) } })"
    using f(1) unfolding getRowDescriptions_def first_def [symmetric] by simp
  show ?thesis
  proof (cases res)
    case None
    have "\<not> plenty (3 * length ns + 3 + k) (mem c)" for ns :: "byte list list" and k using pl(2) None by blast
    then show ?thesis unfolding e None option.case using kc by (intro description_not_read [OF v]) simp_all
  next
    case (Some x)
    then have x: "result_inv x" "represents x []" "PG_VALID_ENCODING (result_encoding x)"
      "if ?d then resultStatus x \<noteq> PGRES_TUPLES_OK else resultStatus x = PGRES_TUPLES_OK" using f(2) by simp_all
    have c2: "state_inv ?c" "conn_inv (conn ?c)" "inCursor (conn ?c) = inStart (conn ?c) + 5" "L \<le> length (unread ?c)" using c by simp_all
    have cm: "unread ?c = unread c" "mem ?c = h" by simp_all
    obtain y m h' b where y: "fill_descriptions L x ?c = Some (y, (adv m ?c)\<lparr>mem := h', workBuffer := b\<rparr>)" "m \<le> length (unread c)" "eb_inv b"
      "case y of Inl _ \<Rightarrow> \<forall>names. decode_description (take L (unread c)) = Some names \<longrightarrow> (\<forall>k. \<not> plenty (3 * length names + 1 + k) h)
       | Inr r' \<Rightarrow> m = L \<and> (\<exists>names names'. decode_description (take L (unread c)) = Some names \<and> names_read names names'
          \<and> result_inv r' \<and> represents r' [] \<and> column_names r' names' \<and> resultStatus r' = resultStatus x \<and> result_encoding r' = result_encoding x
          \<and> (\<forall>k. plenty (3 * length names + 1 + k) h \<longrightarrow> names' = names \<and> plenty k h'))"
      using fill_descriptions_returns [OF c2 x(1,2), unfolded cm] by blast
    let ?e = "(adv m c)\<lparr>mem := h', workBuffer := b\<rparr>"
    have ye: "fill_descriptions L x ?c = Some (y, ?e)" using y(1) by (simp add: adv_def)
    have ke: "kept c ?e" using c(1) y(3) by (simp add: kept_def same_data_def same_buffers_def rows_def) (simp add: adv_def)
    show ?thesis
    proof (cases y)
      case (Inl msg)
      note q = y(4) [unfolded Inl sum.case]
      have "\<not> plenty (3 * length ns + 3 + k) (mem c)" if "decode_description (take L (unread c)) = Some ns" for ns k
        using q that pl(1) by blast
      then show ?thesis unfolding e Some option.case ye bind.bind_lunit prod.case Inl sum.case using ke by (intro description_not_read [OF v]) simp_all
    next
      case (Inr r')
      note q = y(4) [unfolded Inr sum.case]
      obtain names names' where n: "m = L" "decode_description (take L (unread c)) = Some names" "names_read names names'"
        "result_inv r'" "represents r' []" "column_names r' names'" "resultStatus r' = resultStatus x" "result_encoding r' = result_encoding x"
        "\<forall>k. plenty (3 * length names + 1 + k) h \<longrightarrow> names' = names \<and> plenty k h'" using q by (elim exE conjE) (rule that)
      let ?g = "message_done (?e\<lparr>result := Some r'\<rparr>)"
      let ?z = "if ?d then ?g\<lparr>asyncStatus := PGASYNC_READY\<rparr> else ?g"
      have nt: "ntups r' = 0" using represents_sizes(1) [OF n(5)] by simp
      have sd: "same_data c ?g" "rows ?g = 0" "mem ?g = h'" using nt by (simp_all add: same_data_def same_buffers_def message_done_def rows_def adv_def)
      have "state_inv ?e" using ke by (simp add: kept_def)
      then have "state_inv ?g" using n(4,7,8) x(3,4) nt unfolding state_inv_def message_done_def by simp
      then have kz: "kept c ?z" using sd by (simp add: kept_def same_data_def rows_def)
      have zf: "next_result ?z = next_result c" "result ?z = Some r'" "asyncStatus ?z = (if ?d then PGASYNC_READY else asyncStatus c)"
        "mem ?z = h'" "inStart (conn ?z) = inStart (conn c) + 5 + L" using c(3) n(1) by (simp_all add: message_done_def)
      have st: "?d \<or> resultStatus r' = PGRES_TUPLES_OK" using x(4) n(7) by (cases ?d) simp_all
      have dd: "description_done c names' ?z" unfolding description_done_def zf(1,2,3) using kz n(5,6) st by blast
      have "description_read L c ?z" unfolding description_read_def zf(4,5)
      proof (intro conjI allI impI disjI1)
        show "inStart (conn c) + 5 + L = inStart (conn c) + 5 + L" by simp
        show "\<exists>names names'. decode_description (take L (unread c)) = Some names \<and> names_read names names' \<and> description_done c names' ?z"
          using n(2,3) dd by blast
        fix k ns assume ns: "decode_description (take L (unread c)) = Some ns" "plenty (3 * length ns + 3 + k) (mem c)"
        then have nn: "ns = names" using n(2) by simp
        then have "names' = names \<and> plenty k h'" using n(9) pl(1) ns(2) by blast
        then show "description_done c ns ?z" "plenty k h'" using dd nn by simp_all
      qed
      moreover have "getRowDescriptions vsn L c = Some ?z" unfolding e using Some ye Inr by (simp add: message_done_def)
      ultimately show ?thesis by simp
    qed
  qed
qed

section \<open>Properties\<close>



section \<open>Examples\<close>

text \<open>A client that has read the type and the length of a message with the given body.\<close>

definition test_client :: "byte list \<Rightarrow> PGresult option \<Rightarrow> client" where
  "test_client body r = \<lparr>
     conn = test_conn\<lparr>inBuffer := [0, 0, 0, 0, 0] @ body, inBufSize := 5 + length body, inCursor := 5, inEnd := 5 + length body\<rparr>,
     net = net test_session, mem = \<lparr>answers = replicate 16 True, junk = \<lambda>i. 0\<rparr>,
     asyncStatus = PGASYNC_BUSY, xactStatus = PQTRANS_ACTIVE, queryclass = PGQUERY_SIMPLE, last_query = None, last_sqlstate = [],
     singleRowMode = False, copy_is_binary = 0, copy_already_done = 0, notifies = [], be_pid = 0, be_key = 0, pstatus = [],
     verbosity = PQERRORS_DEFAULT, show_context = PQSHOW_CONTEXT_ERRORS, rowBuf = [], rowBufLen = 0, result = r, next_result = None,
     workBuffer = two_bytes, notices = [], static_client_encoding = 6, static_std_strings = True\<rparr>"

lemma test_client_simps [simp]:
  "conn_inv (conn (test_client body r)) \<longleftrightarrow> 5 + length body \<le> INT_MAX" "unread (test_client body r) = body"
  "inCursor (conn (test_client body r)) = 5" "inStart (conn (test_client body r)) = 0" "result (test_client body r) = r"
  "queryclass (test_client body r) = PGQUERY_SIMPLE" "singleRowMode (test_client body r) = False"
  "answers (mem (test_client body r)) = replicate 16 True"
  by (auto simp: test_client_def test_conn_def conn_inv_def two_bytes INT_MAX_eq unread_def in_unread_def)

lemma test_client_inv: "(\<And>x. r = Some x \<Longrightarrow> result_inv x \<and> PG_VALID_ENCODING (result_encoding x)) \<Longrightarrow> state_inv (test_client body r)"
  by (simp add: state_inv_def test_client_def two_bytes PG_VALID_ENCODING_def PG_LAST_ENCODING_eq)

text \<open>A result without rows and with the columns \<open>a\<close> and \<open>b\<close>.\<close>

definition two_columns :: PGresult where
  "two_columns = (empty_result PGRES_TUPLES_OK 6)\<lparr>numAttributes := 2,
     attDescs := Some [zero_desc\<lparr>att_name := In_block 0 8\<rparr>, zero_desc\<lparr>att_name := In_block 0 10\<rparr>],
     blocks := [[0, 0, 0, 0, 0, 0, 0, 0, 97, 0, 98, 0]], chain := [0]\<rparr>"

lemma two_columns_ok:
  "represents two_columns []" "column_names two_columns [[97], [98]]" "result_inv two_columns" "resultStatus two_columns = PGRES_TUPLES_OK"
  "ntups two_columns = 0" "numAttributes two_columns = 2" "PG_VALID_ENCODING (result_encoding two_columns)"
proof -
  show "resultStatus two_columns = PGRES_TUPLES_OK" "ntups two_columns = 0" "numAttributes two_columns = 2"
    "PG_VALID_ENCODING (result_encoding two_columns)"
    by (simp_all add: two_columns_def PG_VALID_ENCODING_def PG_LAST_ENCODING_eq)
  show r: "represents two_columns []"
    by (simp add: represents_def space_inv_def array_ok_def two_columns_def empty_result_def lessThan_Suc)
  show n: "column_names two_columns [[97], [98]]"
    by (simp add: column_names_def own_name_def two_columns_def empty_result_def used_def zero_desc_def INT_MAX_eq)
  show "result_inv two_columns"
    unfolding result_inv_def using r n by (auto simp: two_columns_def)
qed

lemma cell_row_fits: "length [Value [120], Null] < 2 ^ 16" "list_all cell_fits [Value [120], Null]"
  by simp_all



end
