(* ===== verification/Param_Status.thy ===== *)
theory Param_Status
  imports Client Enc_Names
begin

text \<open>
  The parameters that the server reports: \<open>pqSaveParameterStatus\<close> of \<open>fe-exec.c\<close>, \<open>PQparameterStatus\<close> and
  \<open>PQserverVersion\<close> of \<open>fe-connect.c\<close>, and \<open>getParameterStatus\<close> of \<open>fe-protocol3.c\<close>; with the two other
  short messages of that file, \<open>getNotify\<close> and \<open>getReadyForQuery\<close>.
\<close>

section \<open>Version numbers\<close>

text \<open>The numbers that \<open>sscanf(value, "%d.%d.%d", ...)\<close> converts; there are \<open>n\<close> left.\<close>

fun scan_version :: "nat \<Rightarrow> byte list \<Rightarrow> int list" where
  "scan_version 0 s = []"
| "scan_version (Suc n) s =
    (case scan_int s of
       None \<Rightarrow> []
     | Some (v, r) \<Rightarrow> v # (if r \<noteq> [] \<and> hd r = 46 then scan_version n (tl r) else []))"

fun version_number :: "int list \<Rightarrow> int" where
  "version_number [vmaj, vmin, vrev] = int32 ((100 * vmaj + vmin) * 100 + vrev)"
| "version_number [vmaj, vmin] =
    (if vmaj \<ge> 10 then int32 (100 * 100 * vmaj + vmin) else int32 ((100 * vmaj + vmin) * 100))"
| "version_number [vmaj] = int32 (100 * 100 * vmaj)"
| "version_number _ = 0"

section \<open>Parameters\<close>

text \<open>The search loop of \<open>pqSaveParameterStatus\<close>, which unlinks the first entry of the name.\<close>

fun forget_param :: "byte list \<Rightarrow> (byte list \<times> byte list) list \<Rightarrow> (byte list \<times> byte list) list" where
  "forget_param nm [] = []"
| "forget_param nm ((n, v) # ps) = (if n = nm then ps else (n, v) # forget_param nm ps)"

definition is_text :: "byte list \<Rightarrow> string \<Rightarrow> bool" where
  "is_text s t \<longleftrightarrow> s = map of_char t"

definition string_of :: "byte list \<Rightarrow> string" where
  "string_of s = map (\<lambda>b. char_of (unat b)) s"

text \<open>The name and the value are C strings.\<close>

definition pqSaveParameterStatus :: "(char \<Rightarrow> bool) \<Rightarrow> byte list \<Rightarrow> byte list \<Rightarrow> client \<Rightarrow> client option" where
  "pqSaveParameterStatus isalnum name value c = do {
     nm \<leftarrow> c_text name;
     v \<leftarrow> c_text value;
     let ps = forget_param nm (pstatus c);
     let (ok, h) = next_answer (mem c);
     let c = c\<lparr>mem := h, pstatus := (if ok then (nm, v) # ps else ps)\<rparr>;
     if is_text nm ''client_encoding'' then do {
       let enc = pg_char_to_encoding isalnum (Some (string_of v));
       let enc = (if enc < 0 then pg_enc_id PG_SQL_ASCII else enc);
       Some (c\<lparr>conn := (conn c)\<lparr>client_encoding := enc\<rparr>, static_client_encoding := enc\<rparr>) }
     else if is_text nm ''standard_conforming_strings'' then
       Some (c\<lparr>conn := (conn c)\<lparr>std_strings := is_text v ''on''\<rparr>, static_std_strings := is_text v ''on''\<rparr>)
     else if is_text nm ''server_version'' then
       Some (c\<lparr>conn := (conn c)\<lparr>sversion := version_number (scan_version 3 v)\<rparr>\<rparr>)
     else Some c }"

definition PQparameterStatus :: "client option \<Rightarrow> byte list option \<Rightarrow> byte list option option" where
  "PQparameterStatus c paramName =
    (case c of
       None \<Rightarrow> Some None
     | Some c \<Rightarrow> (case paramName of
         None \<Rightarrow> Some None
       | Some p \<Rightarrow> do { nm \<leftarrow> c_text p; Some (map_of (pstatus c) nm) }))"

definition PQserverVersion :: "client option \<Rightarrow> int" where
  "PQserverVersion c = (case c of None \<Rightarrow> 0
     | Some c \<Rightarrow> if status (conn c) = CONNECTION_BAD then 0 else sversion (conn c))"

text \<open>The result is \<open>False\<close> for \<open>EOF\<close>.\<close>

definition getParameterStatus :: "(char \<Rightarrow> bool) \<Rightarrow> client \<Rightarrow> (bool \<times> client) option" where
  "getParameterStatus isalnum c = do {
     (ok, c) \<leftarrow> get_work c;
     if \<not> ok then Some (False, c)
     else do {
       (valueBuf, h) \<leftarrow> initPQExpBuffer (mem c);
       (ok, valueBuf, c) \<leftarrow> get_string valueBuf (c\<lparr>mem := h\<rparr>);
       if \<not> ok then Some (False, c)
       else do {
         c \<leftarrow> pqSaveParameterStatus isalnum (buffer_data (workBuffer c)) (buffer_data valueBuf) c;
         Some (True, c) } } }"

section \<open>Notifications\<close>

definition getNotify :: "client \<Rightarrow> (bool \<times> client) option" where
  "getNotify c = do {
     (pid, c) \<leftarrow> get_int 4 c;
     case pid of
       None \<Rightarrow> Some (False, c)
     | Some pid \<Rightarrow> do {
         (ok, c) \<leftarrow> get_work c;
         if \<not> ok then Some (False, c)
         else do {
           svname \<leftarrow> c_text (buffer_data (workBuffer c));
           let (ok, h) = next_answer (mem c);
           let c = c\<lparr>mem := h\<rparr>;
           if \<not> ok then Some (False, c)
           else do {
             (ok, c) \<leftarrow> get_work c;
             if \<not> ok then Some (False, c)
             else do {
               ex \<leftarrow> c_text (buffer_data (workBuffer c));
               let (ok, h) = next_answer (mem c);
               let c = c\<lparr>mem := h\<rparr>;
               Some (True, if ok
                 then c\<lparr>notifies := notifies c @ [\<lparr>relname = svname, notify_pid = pid, extra = ex\<rparr>]\<rparr>
                 else c) } } } } }"

section \<open>The end of a query\<close>

fun xact_status :: "byte \<Rightarrow> PGTransactionStatusType" where
  "xact_status b = (if b = 73 then PQTRANS_IDLE else if b = 84 then PQTRANS_INTRANS
     else if b = 69 then PQTRANS_INERROR else PQTRANS_UNKNOWN)"

definition getReadyForQuery :: "client \<Rightarrow> (bool \<times> client) option" where
  "getReadyForQuery c = do {
     (x, c) \<leftarrow> get_char c;
     case x of
       None \<Rightarrow> Some (False, c)
     | Some x \<Rightarrow> Some (True, c\<lparr>xactStatus := xact_status x\<rparr>) }"

section \<open>Correctness of the parameters\<close>

lemma pg_char_to_encoding_range: "PG_VALID_ENCODING (pg_char_to_encoding isalnum n) \<or> pg_char_to_encoding isalnum n < 0"
  using pg_enc_id_valid by (auto simp: pg_char_to_encoding_def length_pg_encname_tbl search_eq_lookup split: option.split)

text \<open>The names of the parameters that are known, each once.\<close>

definition params_inv :: "client \<Rightarrow> bool" where
  "params_inv c \<longleftrightarrow> distinct (map fst (pstatus c))"

lemma forget_param_set: "set (map fst (forget_param nm ps)) \<subseteq> set (map fst ps)"
  by (induction nm ps rule: forget_param.induct) auto

lemma forget_param_distinct:
  "distinct (map fst ps) \<Longrightarrow> distinct (map fst (forget_param nm ps)) \<and> nm \<notin> set (map fst (forget_param nm ps))"
proof (induction nm ps rule: forget_param.induct)
  case (2 nm n v ps)
  have "n \<notin> set (map fst (forget_param nm ps))" using forget_param_set [of nm ps] 2(2) by auto
  then show ?case using 2 by auto
qed simp

lemma forget_param_lookup: "distinct (map fst ps) \<Longrightarrow> map_of (forget_param nm ps) = (map_of ps)(nm := None)"
proof (induction nm ps rule: forget_param.induct)
  case (2 nm n v ps)
  show ?case
  proof (cases "n = nm")
    case True
    then have "map_of ps nm = None" using 2(2) by (simp add: map_of_eq_None_iff)
    then show ?thesis using True by auto
  qed (use 2 in auto)
qed auto

text \<open>What a parameter changes.\<close>

lemma save_parameter_result:
  assumes "c_text name = Some nm" "c_text value = Some v"
  shows "\<exists>c'. pqSaveParameterStatus isalnum name value c = Some c'
    \<and> pstatus c' = (if fst (next_answer (mem c)) then [(nm, v)] else []) @ forget_param nm (pstatus c)
    \<and> (state_inv c \<longrightarrow> kept c c') \<and> same_place c c' \<and> asyncStatus c' = asyncStatus c
    \<and> (is_text nm ''client_encoding'' \<longrightarrow> PG_VALID_ENCODING (client_encoding (conn c')))"
proof -
  obtain ok h where a: "next_answer (mem c) = (ok, h)" by fastforce
  define ps where "ps = (if ok then [(nm, v)] else []) @ forget_param nm (pstatus c)"
  have psi: "(if ok then (nm, v) # forget_param nm (pstatus c) else forget_param nm (pstatus c)) = ps" by (simp add: ps_def)
  define enc where "enc = (let e = pg_char_to_encoding isalnum (Some (string_of v)) in if e < 0 then pg_enc_id PG_SQL_ASCII else e)"
  have ve: "PG_VALID_ENCODING enc"
    using pg_char_to_encoding_range [of isalnum "Some (string_of v)"] pg_enc_id_valid by (auto simp: enc_def Let_def)
  define b where "b = is_text v ''on''"
  define sv where "sv = version_number (scan_version 3 v)"
  let ?d = "c\<lparr>mem := h, pstatus := ps\<rparr>"
  define c' where "c' = (if is_text nm ''client_encoding'' then ?d\<lparr>conn := (conn ?d)\<lparr>client_encoding := enc\<rparr>, static_client_encoding := enc\<rparr>
      else if is_text nm ''standard_conforming_strings'' then ?d\<lparr>conn := (conn ?d)\<lparr>std_strings := b\<rparr>, static_std_strings := b\<rparr>
      else if is_text nm ''server_version'' then ?d\<lparr>conn := (conn ?d)\<lparr>sversion := sv\<rparr>\<rparr> else ?d)"
  have "pqSaveParameterStatus isalnum name value c = Some c'"
    unfolding pqSaveParameterStatus_def assms bind.bind_lunit a Let_def prod.case psi enc_def [unfolded Let_def, symmetric] b_def [symmetric]
      sv_def [symmetric] c'_def by (simp only: if_distrib [of Some])
  moreover have "pstatus c' = (if fst (next_answer (mem c)) then [(nm, v)] else []) @ forget_param nm (pstatus c)"
    by (simp add: c'_def ps_def a)
  moreover have "kept c c'" if "state_inv c"
  proof -
    have "state_inv ?d" using that by simp
    then have "state_inv c'" using ve unfolding c'_def state_inv_def by simp
    moreover have "same_data c c'" "rows c' = rows c" unfolding c'_def by (simp_all add: same_data_def same_buffers_def rows_def)
    ultimately show ?thesis by (simp add: kept_def)
  qed
  moreover have "same_place c c'" "asyncStatus c' = asyncStatus c" unfolding c'_def by (simp_all add: same_place_def)
  moreover have "is_text nm ''client_encoding'' \<longrightarrow> PG_VALID_ENCODING (client_encoding (conn c'))" unfolding c'_def using ve by simp
  ultimately show ?thesis by blast
qed

lemma pstatus_lookup: "0 \<notin> set p \<Longrightarrow> PQparameterStatus (Some c) (Some (p @ 0 # r)) = Some (map_of (pstatus c) p)"
  by (simp add: PQparameterStatus_def)

text \<open>
  After \<open>pqSaveParameterStatus\<close>, \<open>PQparameterStatus\<close> finds the new value under the name, or nothing if
  there was no memory for it, and under every other name what it found before; every name is still
  there at most once. This holds for any two C strings that the server sends.
\<close>

theorem pqSaveParameterStatus_lookup:
  assumes "params_inv c" "0 \<notin> set nm" "0 \<notin> set v" "0 \<notin> set p"
  shows "\<exists>c'. pqSaveParameterStatus isalnum (nm @ 0 # r) (v @ 0 # r') c = Some c' \<and> params_inv c'
    \<and> PQparameterStatus (Some c') (Some (p @ [0])) = (if p = nm then Some (if fst (next_answer (mem c)) then Some v else None)
         else PQparameterStatus (Some c) (Some (p @ [0])))"
proof -
  obtain c' where c': "pqSaveParameterStatus isalnum (nm @ 0 # r) (v @ 0 # r') c = Some c'"
    "pstatus c' = (if fst (next_answer (mem c)) then [(nm, v)] else []) @ forget_param nm (pstatus c)"
    using save_parameter_result [OF c_text_append [OF assms(2), of r] c_text_append [OF assms(3), of r'], of isalnum c] by blast
  have d: "distinct (map fst (pstatus c))" using assms(1) by (simp add: params_inv_def)
  have "map_of (pstatus c') p = (if p = nm then (if fst (next_answer (mem c)) then Some v else None) else map_of (pstatus c) p)"
    unfolding c'(2) using forget_param_lookup [OF d, of nm] by simp
  moreover have "params_inv c'" using forget_param_distinct [OF d, of nm] by (simp add: params_inv_def c'(2))
  ultimately show ?thesis using c'(1) by (simp add: pstatus_lookup [OF assms(4)])
qed

end
