(* ===== verification/Error_Position.thy ===== *)
theory Error_Position
  imports Exp_Buffer Wchar_Verify
begin

text \<open>
  \<open>reportErrorPosition\<close> of \<open>fe-protocol3.c\<close>: the line of a query at which an error is located, cut to
  the width of a screen, with a marker under the place. The location counts characters, and the
  width of characters is that of the encoding.
\<close>

section \<open>Scanning the query\<close>

definition DISPLAY_SIZE :: int where "DISPLAY_SIZE = 60"
definition MIN_RIGHT_CUT :: int where "MIN_RIGHT_CUT = 10"

text \<open>
  The variables of the scan. \<open>wquery\<close> is the copy of the query with its NUL byte; \<open>qidx\<close> and \<open>scridx\<close>
  are the entries of the two arrays that have been filled in, which have room for as many entries as
  the copy has bytes. \<open>iend\<close> is nothing for -1.
\<close>

record position_scan =
  wquery :: "byte list"
  qidx :: "nat list"
  scridx :: "nat list"
  cno :: nat
  qoffset :: nat
  scroffset :: nat
  loc_line :: nat
  ibeg :: nat
  iend :: "nat option"

definition start_scan :: "byte list \<Rightarrow> position_scan" where
  "start_scan q = \<lparr>wquery = q, qidx = [], scridx = [], cno = 0, qoffset = 0, scroffset = 0, loc_line = 1,
     ibeg = 0, iend = None\<rparr>"

definition note_offsets :: "position_scan \<Rightarrow> position_scan option" where
  "note_offsets s =
    (if cno s < length (wquery s)
     then Some (s\<lparr>qidx := qidx s @ [qoffset s], scridx := scridx s @ [scroffset s]\<rparr>)
     else None)"

text \<open>The step to the next character.\<close>

definition next_char :: "int \<Rightarrow> bool \<Rightarrow> position_scan \<Rightarrow> position_scan option" where
  "next_char encoding multibyte s =
    (if multibyte then do {
       w \<leftarrow> pg_encoding_dsplen encoding (drop (qoffset s) (wquery s));
       l \<leftarrow> pg_encoding_mblen encoding (drop (qoffset s) (wquery s));
       Some (s\<lparr>scroffset := scroffset s + nat (if w \<le> 0 then 1 else w), qoffset := qoffset s + l, cno := cno s + 1\<rparr>) }
     else Some (s\<lparr>scroffset := scroffset s + 1, qoffset := qoffset s + 1, cno := cno s + 1\<rparr>))"

text \<open>The end of a line in front of the location.\<close>

definition next_line :: "byte \<Rightarrow> position_scan \<Rightarrow> position_scan option" where
  "next_line ch s = do {
     counts \<leftarrow> (if ch = 13 \<or> cno s = 0 then Some True
       else do { i \<leftarrow> peek (qidx s) (cno s - 1); p \<leftarrow> peek (wquery s) i; Some (p \<noteq> 13) });
     Some (s\<lparr>loc_line := (if counts then loc_line s + 1 else loc_line s), ibeg := cno s + 1\<rparr>) }"

partial_function (option) scan_query :: "int \<Rightarrow> bool \<Rightarrow> nat \<Rightarrow> position_scan \<Rightarrow> position_scan option" where
  "scan_query encoding multibyte loc s = do {
     ch \<leftarrow> peek (wquery s) (qoffset s);
     if ch = 0 then Some s
     else do {
       s \<leftarrow> note_offsets s;
       if (ch = 13 \<or> ch = 10) \<and> \<not> cno s < loc then Some (s\<lparr>iend := Some (cno s)\<rparr>)
       else do {
         s \<leftarrow> (if ch = 9 then map_option (\<lambda>w. s\<lparr>wquery := w\<rparr>) (poke (wquery s) (qoffset s) 32)
           else if ch = 13 \<or> ch = 10 then next_line ch s
           else Some s);
         s \<leftarrow> next_char encoding multibyte s;
         scan_query encoding multibyte loc s } } }"

text \<open>Without an end of line behind the location, the extract ends with the query.\<close>

definition fix_end :: "position_scan \<Rightarrow> (nat \<times> position_scan) option" where
  "fix_end s =
    (case iend s of
       Some e \<Rightarrow> Some (e, s)
     | None \<Rightarrow> do { s' \<leftarrow> note_offsets s; Some (cno s, s') })"

section \<open>Cutting the line\<close>

text \<open>Moving the end to the left while the extract is too wide.\<close>

fun cut_right :: "nat list \<Rightarrow> nat \<Rightarrow> nat \<Rightarrow> nat option" where
  "cut_right scr b e = do {
     se \<leftarrow> peek scr e;
     sb \<leftarrow> peek scr b;
     if int se - int sb > DISPLAY_SIZE
     then (case e of 0 \<Rightarrow> None | Suc e' \<Rightarrow> cut_right scr b e')
     else Some e }"

text \<open>Moving the end to the left as long as it is more than the cut away from the location.\<close>

fun cut_to_loc :: "nat list \<Rightarrow> nat \<Rightarrow> nat \<Rightarrow> nat option" where
  "cut_to_loc scr loc e = do {
     sl \<leftarrow> peek scr loc;
     se \<leftarrow> peek scr e;
     if int sl + MIN_RIGHT_CUT < int se
     then (case e of 0 \<Rightarrow> None | Suc e' \<Rightarrow> cut_to_loc scr loc e')
     else Some e }"

text \<open>Moving the beginning to the right while the extract is too wide.\<close>

function cut_left :: "nat list \<Rightarrow> nat \<Rightarrow> nat \<Rightarrow> nat option" where
  "cut_left scr b e =
    (if b < length scr then do {
       se \<leftarrow> peek scr e;
       sb \<leftarrow> peek scr b;
       if int se - int sb > DISPLAY_SIZE then cut_left scr (b + 1) e else Some b }
     else None)"
  by pat_completeness auto
termination by (relation "measure (\<lambda>(scr, b, e). length scr - b)") auto

declare cut_right.simps [simp del] cut_to_loc.simps [simp del] cut_left.simps [simp del]

text \<open>The extract: its beginning and end, and whether each of the two has been cut.\<close>

definition cut_line :: "nat list \<Rightarrow> nat \<Rightarrow> nat \<Rightarrow> nat \<Rightarrow> (nat \<times> nat \<times> bool \<times> bool) option" where
  "cut_line scr loc b e = do {
     se \<leftarrow> peek scr e;
     sb \<leftarrow> peek scr b;
     if int se - int sb > DISPLAY_SIZE then do {
       sl \<leftarrow> peek scr loc;
       if int sb + DISPLAY_SIZE \<ge> int sl + MIN_RIGHT_CUT then do {
         e' \<leftarrow> cut_right scr b e;
         Some (b, e', False, True) }
       else do {
         e' \<leftarrow> cut_to_loc scr loc e;
         b' \<leftarrow> cut_left scr b e';
         Some (b', e', b' \<noteq> b, e' \<noteq> e) } }
     else Some (b, e, False, False) }"

section \<open>Writing the report\<close>

text \<open>The width of the text that the message has from \<open>i\<close> on.\<close>

partial_function (option) prefix_width :: "int \<Rightarrow> byte list \<Rightarrow> nat \<Rightarrow> nat \<Rightarrow> nat \<Rightarrow> nat option" where
  "prefix_width encoding d len i width =
    (if i < len then do {
       w \<leftarrow> pg_encoding_dsplen encoding (drop i d);
       l \<leftarrow> pg_encoding_mblen encoding (drop i d);
       prefix_width encoding d len (i + l) (width + nat (if w \<le> 0 then 1 else w)) }
     else Some width)"

definition append_text :: "string \<Rightarrow> PQExpBuffer \<Rightarrow> heap \<Rightarrow> (PQExpBuffer \<times> heap) option" where
  "append_text t msg h = appendPQExpBufferStr msg (map of_char t @ [0]) h"

fun append_spaces :: "nat \<Rightarrow> PQExpBuffer \<Rightarrow> heap \<Rightarrow> (PQExpBuffer \<times> heap) option" where
  "append_spaces 0 msg h = Some (msg, h)"
| "append_spaces (Suc n) msg h = do { (msg, h) \<leftarrow> appendPQExpBufferChar msg 32 h; append_spaces n msg h }"

text \<open>The formatter of \<open>LINE %d:\<close> is given the line number.\<close>

definition write_report :: "(nat \<Rightarrow> nat \<Rightarrow> vsn_result) \<Rightarrow> int \<Rightarrow> nat \<Rightarrow> nat \<Rightarrow> position_scan \<Rightarrow> PQExpBuffer \<Rightarrow> heap
    \<Rightarrow> (PQExpBuffer \<times> heap) option" where
  "write_report line_fmt encoding loc e s msg h = do {
     (b, e, beg_trunc, end_trunc) \<leftarrow> cut_line (scridx s) loc (ibeg s) e;
     qe \<leftarrow> peek (qidx s) e;
     wq \<leftarrow> poke (wquery s) qe 0;
     m \<leftarrow> msg;
     let i = eb_len m;
     (msg, h) \<leftarrow> appendPQExpBuffer (line_fmt (loc_line s)) (Some m) h;
     (msg, h) \<leftarrow> (if beg_trunc then append_text ''...'' msg h else Some (msg, h));
     m \<leftarrow> msg;
     width \<leftarrow> prefix_width encoding (case eb_data m of None \<Rightarrow> [0] | Some d \<Rightarrow> d) (eb_len m) i 0;
     qb \<leftarrow> peek (qidx s) b;
     (msg, h) \<leftarrow> appendPQExpBufferStr (Some m) (drop qb wq) h;
     (msg, h) \<leftarrow> (if end_trunc then append_text ''...'' msg h else Some (msg, h));
     (msg, h) \<leftarrow> appendPQExpBufferChar msg 10 h;
     sl \<leftarrow> peek (scridx s) loc;
     sb \<leftarrow> peek (scridx s) b;
     (msg, h) \<leftarrow> append_spaces (nat (int width + int sl - int sb)) msg h;
     (msg, h) \<leftarrow> appendPQExpBufferChar msg 94 h;
     appendPQExpBufferChar msg 10 h }"

text \<open>The three requests for memory are \<open>strdup\<close> and the two arrays.\<close>

definition reportErrorPosition :: "(nat \<Rightarrow> nat \<Rightarrow> vsn_result) \<Rightarrow> PQExpBuffer \<Rightarrow> byte list \<Rightarrow> int \<Rightarrow> int \<Rightarrow> heap
    \<Rightarrow> (PQExpBuffer \<times> heap) option" where
  "reportErrorPosition line_fmt msg query loc encoding h =
    (if loc - 1 < 0 then Some (msg, h)
     else do {
       let loc = nat (loc - 1);
       n \<leftarrow> strlen query;
       let (ok1, h) = next_answer h;
       if \<not> ok1 then Some (msg, h)
       else (let (ok2, h) = next_answer h in
         if \<not> ok2 then Some (msg, h)
         else (let (ok3, h) = next_answer h in
           if \<not> ok3 then Some (msg, h)
           else do {
             maxlen \<leftarrow> pg_encoding_max_length encoding;
             s \<leftarrow> scan_query encoding (maxlen \<noteq> 1) loc (start_scan (take (n + 1) query));
             (e, s) \<leftarrow> fix_end s;
             if loc \<le> cno s then write_report line_fmt encoding loc e s msg h
             else Some (msg, h) })) })"

section \<open>A query that ends inside of a character\<close>

text \<open>
  The scan trusts \<open>pg_encoding_mblen\<close>: at the lead byte of a character that is cut off by the end of the
  query it steps over the NUL byte, and reads behind the copy.
\<close>

lemma scan_query_overreads:
  "scan_query (pg_enc_id PG_UTF8) True 1 (start_scan [0x61, 0xE2, 0]) = None"
  by (simp add: scan_query.simps start_scan_def note_offsets_def next_char_def pg_encoding_mblen_def pg_encoding_dsplen_def
      PG_VALID_ENCODING_def PG_LAST_ENCODING_eq pg_wchar_table_def wchar_tbl_def pg_enc_id_def pg_enc_order_def pg_utf_mblen_def
      pg_utf_dsplen_def)

end
