(* ===== verification/Error_Report.thy ===== *)
theory Error_Report
  imports Client Error_Position
begin

text \<open>
  Error and notice messages of the server: \<open>pqGetErrorNotice3\<close> and \<open>pqBuildErrorMessage3\<close> of
  \<open>fe-protocol3.c\<close>. The fields of a message are kept in a result, from which the text of the message
  is put together.
\<close>

section \<open>The text of a message\<close>

definition append_fmt :: "formatter \<Rightarrow> string \<Rightarrow> byte list list \<Rightarrow> PQExpBuffer \<Rightarrow> heap \<Rightarrow> (PQExpBuffer \<times> heap) option" where
  "append_fmt vsn fmt args msg h = appendPQExpBuffer (vsn (fmt_args fmt args)) msg h"

text \<open>The text at a pointer of a result; nothing for the null pointer.\<close>

definition text_at :: "PGresult \<Rightarrow> ptr \<Rightarrow> byte list option option" where
  "text_at res p = (if p = NULL then Some None else do { s \<leftarrow> read_at res p; t \<leftarrow> c_text s; Some (Some t) })"

definition field_text :: "PGresult \<Rightarrow> byte \<Rightarrow> byte list option option" where
  "field_text res code = text_at res (PQresultErrorField (Some res) code)"

text \<open>The steps \<open>val = PQresultErrorField(res, code); if (val) appendPQExpBuffer(msg, fmt, val);\<close>.\<close>

definition append_field :: "formatter \<Rightarrow> PGresult \<Rightarrow> string \<Rightarrow> byte \<Rightarrow> PQExpBuffer \<Rightarrow> heap \<Rightarrow> (PQExpBuffer \<times> heap) option" where
  "append_field vsn res fmt code msg h = do {
     v \<leftarrow> field_text res code;
     case v of
       None \<Rightarrow> Some (msg, h)
     | Some t \<Rightarrow> append_fmt vsn fmt [t] msg h }"

fun append_fields :: "formatter \<Rightarrow> PGresult \<Rightarrow> (string \<times> byte) list \<Rightarrow> PQExpBuffer \<Rightarrow> heap \<Rightarrow> (PQExpBuffer \<times> heap) option" where
  "append_fields vsn res [] msg h = Some (msg, h)"
| "append_fields vsn res ((fmt, code) # fs) msg h = do {
     (msg, h) \<leftarrow> append_field vsn res fmt code msg h;
     append_fields vsn res fs msg h }"

text \<open>\<open>atoi\<close>, with the conversion of \<open>%d\<close>.\<close>

definition atoi :: "byte list \<Rightarrow> int" where
  "atoi s = (case scan_int s of None \<Rightarrow> 0 | Some (v, r) \<Rightarrow> v)"

text \<open>
  The position of the error. The result has the query and the place in it, if a display of the place is
  wanted; else the position has been appended as a number.
\<close>

definition append_position :: "formatter \<Rightarrow> PGresult \<Rightarrow> PGVerbosity \<Rightarrow> PQExpBuffer \<Rightarrow> heap
    \<Rightarrow> ((byte list \<times> int) option \<times> PQExpBuffer \<times> heap) option" where
  "append_position vsn res verb msg h = do {
     v \<leftarrow> field_text res PG_DIAG_STATEMENT_POSITION;
     case v of
       Some t \<Rightarrow>
         if verb \<noteq> PQERRORS_TERSE \<and> errQuery res \<noteq> NULL then do {
           q \<leftarrow> read_at res (errQuery res);
           Some (Some (q, atoi t), msg, h) }
         else do {
           (msg, h) \<leftarrow> append_fmt vsn '' at character %s'' [t] msg h;
           Some (None, msg, h) }
     | None \<Rightarrow> do {
         v \<leftarrow> field_text res PG_DIAG_INTERNAL_POSITION;
         case v of
           None \<Rightarrow> Some (None, msg, h)
         | Some t \<Rightarrow>
             if verb \<noteq> PQERRORS_TERSE \<and> PQresultErrorField (Some res) PG_DIAG_INTERNAL_QUERY \<noteq> NULL then do {
               q \<leftarrow> read_at res (PQresultErrorField (Some res) PG_DIAG_INTERNAL_QUERY);
               Some (Some (q, atoi t), msg, h) }
             else do {
               (msg, h) \<leftarrow> append_fmt vsn '' at character %s'' [t] msg h;
               Some (None, msg, h) } } }"

definition line_format :: "formatter \<Rightarrow> nat \<Rightarrow> nat \<Rightarrow> vsn_result" where
  "line_format vsn n = vsn (fmt_args ''LINE %d: '' [htonl n])"

definition append_display :: "formatter \<Rightarrow> PGresult \<Rightarrow> (byte list \<times> int) option \<Rightarrow> PQExpBuffer \<Rightarrow> heap
    \<Rightarrow> (PQExpBuffer \<times> heap) option" where
  "append_display vsn res disp msg h =
    (case disp of
       Some (querytext, querypos) \<Rightarrow>
         if querypos > 0 then reportErrorPosition (line_format vsn) msg querytext querypos (result_encoding res) h
         else Some (msg, h)
     | None \<Rightarrow> Some (msg, h))"

text \<open>Where the error was raised in the server.\<close>

definition append_location :: "formatter \<Rightarrow> PGresult \<Rightarrow> PQExpBuffer \<Rightarrow> heap \<Rightarrow> (PQExpBuffer \<times> heap) option" where
  "append_location vsn res msg h = do {
     valf \<leftarrow> field_text res PG_DIAG_SOURCE_FILE;
     vall \<leftarrow> field_text res PG_DIAG_SOURCE_LINE;
     val \<leftarrow> field_text res PG_DIAG_SOURCE_FUNCTION;
     if val \<noteq> None \<or> valf \<noteq> None \<or> vall \<noteq> None then do {
       (msg, h) \<leftarrow> appendPQExpBufferStr msg (c_literal ''LOCATION:  '') h;
       (msg, h) \<leftarrow> (case val of None \<Rightarrow> Some (msg, h) | Some t \<Rightarrow> append_fmt vsn ''%s, '' [t] msg h);
       (msg, h) \<leftarrow> (case (valf, vall) of
          (Some f, Some l) \<Rightarrow> append_fmt vsn ''%s:%s'' [f, l] msg h
        | _ \<Rightarrow> Some (msg, h));
       appendPQExpBufferChar msg 10 h }
     else Some (msg, h) }"

definition shows_context :: "PGContextVisibility \<Rightarrow> PGresult \<Rightarrow> bool" where
  "shows_context show res \<longleftrightarrow> show = PQSHOW_CONTEXT_ALWAYS
     \<or> (show = PQSHOW_CONTEXT_ERRORS \<and> resultStatus res = PGRES_FATAL_ERROR)"

text \<open>The fields behind the first line, in the order of the code.\<close>

definition detail_fields :: "(string \<times> byte) list" where
  "detail_fields =
    [(''DETAIL:  %s\<newline>'', PG_DIAG_MESSAGE_DETAIL), (''HINT:  %s\<newline>'', PG_DIAG_MESSAGE_HINT),
     (''QUERY:  %s\<newline>'', PG_DIAG_INTERNAL_QUERY)]"

definition name_fields :: "(string \<times> byte) list" where
  "name_fields =
    [(''SCHEMA NAME:  %s\<newline>'', PG_DIAG_SCHEMA_NAME), (''TABLE NAME:  %s\<newline>'', PG_DIAG_TABLE_NAME),
     (''COLUMN NAME:  %s\<newline>'', PG_DIAG_COLUMN_NAME), (''DATATYPE NAME:  %s\<newline>'', PG_DIAG_DATATYPE_NAME),
     (''CONSTRAINT NAME:  %s\<newline>'', PG_DIAG_CONSTRAINT_NAME)]"

definition pqBuildErrorMessage3 :: "formatter \<Rightarrow> PQExpBuffer \<Rightarrow> PGresult option \<Rightarrow> PGVerbosity \<Rightarrow> PGContextVisibility
    \<Rightarrow> heap \<Rightarrow> (PQExpBuffer \<times> heap) option" where
  "pqBuildErrorMessage3 vsn msg res verb show h =
    (case res of
       None \<Rightarrow> append_fmt vsn ''out of memory\<newline>'' [] msg h
     | Some res \<Rightarrow>
         if errFields res = [] then do {
           t \<leftarrow> text_at res (errMsg res);
           if t \<noteq> None \<and> t \<noteq> Some []
           then do { m \<leftarrow> read_at res (errMsg res); appendPQExpBufferStr msg m h }
           else append_fmt vsn ''no error message available\<newline>'' [] msg h }
         else do {
           (msg, h) \<leftarrow> append_field vsn res ''%s:  '' PG_DIAG_SEVERITY msg h;
           (msg, h) \<leftarrow> (if verb = PQERRORS_VERBOSE then append_field vsn res ''%s: '' PG_DIAG_SQLSTATE msg h
             else Some (msg, h));
           v \<leftarrow> field_text res PG_DIAG_MESSAGE_PRIMARY;
           (msg, h) \<leftarrow> (case v of None \<Rightarrow> Some (msg, h) | Some t \<Rightarrow> appendPQExpBufferStr msg (t @ [0]) h);
           (disp, msg, h) \<leftarrow> append_position vsn res verb msg h;
           (msg, h) \<leftarrow> appendPQExpBufferChar msg 10 h;
           (msg, h) \<leftarrow> (if verb \<noteq> PQERRORS_TERSE then do {
               (msg, h) \<leftarrow> append_display vsn res disp msg h;
               (msg, h) \<leftarrow> append_fields vsn res detail_fields msg h;
               if shows_context show res then append_field vsn res ''CONTEXT:  %s\<newline>'' PG_DIAG_CONTEXT msg h
               else Some (msg, h) }
             else Some (msg, h));
           if verb = PQERRORS_VERBOSE then do {
             (msg, h) \<leftarrow> append_fields vsn res name_fields msg h;
             append_location vsn res msg h }
           else Some (msg, h) })"

section \<open>Reading a message\<close>

text \<open>
  The loop over the fields. \<open>res\<close> is nothing when there was no memory for it; the first component of
  the result is \<open>False\<close> when the data ends before the terminator.
\<close>

definition save_field :: "byte \<Rightarrow> PQExpBufferData \<Rightarrow> PGresult option \<Rightarrow> client \<Rightarrow> (PGresult option \<times> client) option" where
  "save_field code workBuf res c = do {
     (res, h) \<leftarrow> (case res of
        None \<Rightarrow> Some (None, mem c)
      | Some r \<Rightarrow> do { (r, h) \<leftarrow> pqSaveMessageField r code (buffer_data workBuf) (mem c); Some (Some r, h) });
     let c = c\<lparr>mem := h\<rparr>;
     if code = PG_DIAG_SQLSTATE then do {
       s \<leftarrow> strlcpy (buffer_data workBuf) 6;
       Some (res, c\<lparr>last_sqlstate := s\<rparr>) }
     else Some (res, c) }"

partial_function (option) read_fields :: "PQExpBufferData \<Rightarrow> PGresult option \<Rightarrow> bool \<Rightarrow> client
    \<Rightarrow> (bool \<times> PQExpBufferData \<times> PGresult option \<times> bool \<times> client) option" where
  "read_fields workBuf res have_position c = do {
     (code, c) \<leftarrow> get_char c;
     case code of
       None \<Rightarrow> Some (False, workBuf, res, have_position, c)
     | Some code \<Rightarrow>
         if code = 0 then Some (True, workBuf, res, have_position, c)
         else do {
           (ok, workBuf, c) \<leftarrow> get_string workBuf c;
           if \<not> ok then Some (False, workBuf, res, have_position, c)
           else do {
             (res, c) \<leftarrow> save_field code workBuf res c;
             read_fields workBuf res (have_position \<or> code = PG_DIAG_STATEMENT_POSITION) c } } }"

text \<open>The text of the query is kept if a display of the position may need it.\<close>

definition keep_query :: "bool \<Rightarrow> PGresult option \<Rightarrow> client \<Rightarrow> (PGresult option \<times> client) option" where
  "keep_query have_position res c =
    (case (last_query c, res) of
       (Some q, Some r) \<Rightarrow>
         if have_position then do {
           (p, r, h) \<leftarrow> pqResultStrdup r q (mem c);
           Some (Some (r\<lparr>errQuery := p\<rparr>), c\<lparr>mem := h\<rparr>) }
         else Some (res, c)
     | _ \<Rightarrow> Some (res, c))"

text \<open>An error becomes the result, and its text is added to the messages of the connection.\<close>

definition save_error_result :: "formatter \<Rightarrow> PQExpBufferData \<Rightarrow> PGresult option \<Rightarrow> client \<Rightarrow> client option" where
  "save_error_result vsn workBuf res c = do {
     (res, c) \<leftarrow> (case res of
        None \<Rightarrow> Some (None, c)
      | Some r \<Rightarrow> do {
          (p, r, h) \<leftarrow> pqResultStrdup r (buffer_data workBuf) (mem c);
          Some (Some (r\<lparr>errMsg := p\<rparr>), c\<lparr>mem := h\<rparr>) });
     let c = (pqClearAsyncResult c)\<lparr>result := res\<rparr>;
     if PQExpBufferDataBroken workBuf then error_message vsn ''out of memory'' c
     else do {
       (e, h) \<leftarrow> appendPQExpBufferStr (Some (errorMessage (conn c))) (buffer_data workBuf) (mem c);
       e \<leftarrow> e;
       Some (c\<lparr>conn := (conn c)\<lparr>errorMessage := e\<rparr>, mem := h\<rparr>) } }"

definition emit_notice :: "PQExpBufferData \<Rightarrow> PGresult option \<Rightarrow> client \<Rightarrow> client" where
  "emit_notice workBuf res c =
    (case res of
       None \<Rightarrow> c
     | Some r \<Rightarrow> c\<lparr>notices := notices c @ [r\<lparr>errMsg := Foreign (buffer_data workBuf)\<rparr>]\<rparr>)"

text \<open>The result is \<open>False\<close> for \<open>EOF\<close>.\<close>

definition pqGetErrorNotice3 :: "formatter \<Rightarrow> bool \<Rightarrow> client \<Rightarrow> (bool \<times> client) option" where
  "pqGetErrorNotice3 vsn isError c = do {
     (workBuf, h) \<leftarrow> initPQExpBuffer (mem c);
     (res, c) \<leftarrow> make_result PGRES_EMPTY_QUERY (c\<lparr>mem := h\<rparr>);
     let res = map_option (\<lambda>r. r\<lparr>resultStatus := (if isError then PGRES_FATAL_ERROR else PGRES_NONFATAL_ERROR)\<rparr>) res;
     (ok, workBuf, res, have_position, c) \<leftarrow> read_fields workBuf res False c;
     if \<not> ok then Some (False, c)
     else do {
       (res, c) \<leftarrow> keep_query have_position res c;
       (msg, h) \<leftarrow> resetPQExpBuffer (Some workBuf) (mem c);
       (msg, h) \<leftarrow> pqBuildErrorMessage3 vsn msg res (verbosity c) (show_context c) h;
       workBuf \<leftarrow> msg;
       let c = c\<lparr>mem := h\<rparr>;
       if isError then map_option (Pair True) (save_error_result vsn workBuf res c)
       else Some (True, emit_notice workBuf res c) } }"

end
