(* ===== verification/Protocol3.thy ===== *)
theory Protocol3
  imports Row_Message Param_Status Error_Report
begin

text \<open>
  \<open>pqParseInput3\<close> of \<open>fe-protocol3.c\<close>: the loop that takes complete messages of the server out of the
  input buffer and changes the state of the query accordingly, and \<open>handleSyncLoss\<close>.
\<close>

section \<open>Loss of synchronization\<close>

definition session_of :: "client \<Rightarrow> session" where
  "session_of c = \<lparr>conn = conn c, net = net c, mem = mem c\<rparr>"

definition set_session :: "client \<Rightarrow> session \<Rightarrow> client" where
  "set_session c s = c\<lparr>conn := conn s, net := net s, mem := mem s\<rparr>"

definition handleSyncLoss :: "formatter \<Rightarrow> byte \<Rightarrow> int \<Rightarrow> client \<Rightarrow> client option" where
  "handleSyncLoss vsn mtype msgLength c = do {
     c \<leftarrow> save_error vsn (fmt_args ''lost synchronization with server: got message type \"%c\", length %d\<newline>''
       [[mtype], htonl (nat (msgLength mod 2 ^ 32))]) c;
     let c = c\<lparr>asyncStatus := PGASYNC_READY\<rparr>;
     let c = set_session c (pqDropConnection True (session_of c));
     Some (c\<lparr>conn := (conn c)\<lparr>status := CONNECTION_BAD\<rparr>\<rparr>) }"

section \<open>One message\<close>

text \<open>
  How the treatment of a message ends: the function returns, the message has been read and its length
  is to be checked, or the loop continues because \<open>inStart\<close> has been moved already.
\<close>

datatype parse_action = Stop | Consumed | Continue

definition VALID_LONG_MESSAGE_TYPE :: "byte \<Rightarrow> bool" where
  "VALID_LONG_MESSAGE_TYPE mtype \<longleftrightarrow> (let t = char_of (unat mtype) :: char in
     t = CHR ''T'' \<or> t = CHR ''D'' \<or> t = CHR ''d'' \<or> t = CHR ''V'' \<or> t = CHR ''E'' \<or> t = CHR ''N'' \<or> t = CHR ''A'')"

definition skip_body :: "nat \<Rightarrow> client \<Rightarrow> client" where
  "skip_body n c = c\<lparr>conn := (conn c)\<lparr>inCursor := inCursor (conn c) + n\<rparr>\<rparr>"

text \<open>The steps \<open>if (func(conn)) return;\<close> and the assignment of a state behind them.\<close>

definition if_read :: "(bool \<times> client) option \<Rightarrow> (client \<Rightarrow> client) \<Rightarrow> (parse_action \<times> client) option" where
  "if_read r f = map_option (\<lambda>(ok, c). if ok then (Consumed, f c) else (Stop, c)) r"

definition set_async :: "PGAsyncStatusType \<Rightarrow> client \<Rightarrow> client" where
  "set_async a c = c\<lparr>asyncStatus := a\<rparr>"

text \<open>A result for the query, if there is none yet.\<close>

definition ensure_result :: "formatter \<Rightarrow> ExecStatusType \<Rightarrow> client \<Rightarrow> client option" where
  "ensure_result vsn st c =
    (if result c \<noteq> None then Some c
     else do {
       (r, c) \<leftarrow> make_result st c;
       if r = None then save_error vsn ''out of memory'' (c\<lparr>result := None\<rparr>)
       else Some (c\<lparr>result := r\<rparr>) })"

definition CMDSTATUS_LEN :: nat where "CMDSTATUS_LEN = 64"

definition command_complete :: "formatter \<Rightarrow> client \<Rightarrow> (parse_action \<times> client) option" where
  "command_complete vsn c = do {
     (ok, c) \<leftarrow> get_work c;
     if \<not> ok then Some (Stop, c)
     else do {
       c \<leftarrow> ensure_result vsn PGRES_COMMAND_OK c;
       c \<leftarrow> (case result c of
          None \<Rightarrow> Some c
        | Some r \<Rightarrow> do {
            s \<leftarrow> strlcpy (buffer_data (workBuffer c)) CMDSTATUS_LEN;
            Some (c\<lparr>result := Some (r\<lparr>cmdStatus := s\<rparr>)\<rparr>) });
       Some (Consumed, set_async PGASYNC_READY c) } }"

definition backend_key :: "client \<Rightarrow> (parse_action \<times> client) option" where
  "backend_key c = do {
     (p, c) \<leftarrow> get_int 4 c;
     case p of
       None \<Rightarrow> Some (Stop, c)
     | Some p \<Rightarrow> do {
         let c = c\<lparr>be_pid := p\<rparr>;
         (k, c) \<leftarrow> get_int 4 c;
         case k of
           None \<Rightarrow> Some (Stop, c)
         | Some k \<Rightarrow> Some (Consumed, c\<lparr>be_key := k\<rparr>) } }"

definition has_status :: "client \<Rightarrow> ExecStatusType \<Rightarrow> bool" where
  "has_status c st \<longleftrightarrow> (case result c of None \<Rightarrow> False | Some r \<Rightarrow> resultStatus r = st)"

definition row_description :: "formatter \<Rightarrow> nat \<Rightarrow> client \<Rightarrow> (parse_action \<times> client) option" where
  "row_description vsn msgLength c =
    (if has_status c PGRES_FATAL_ERROR then Some (Consumed, skip_body msgLength c)
     else if result c = None \<or> queryclass c = PGQUERY_DESCRIBE
       then map_option (Pair Continue) (getRowDescriptions vsn msgLength c)
     else Some (Stop, set_async PGASYNC_READY c))"

definition data_row :: "formatter \<Rightarrow> nat \<Rightarrow> client \<Rightarrow> (parse_action \<times> client) option" where
  "data_row vsn msgLength c =
    (if has_status c PGRES_TUPLES_OK then map_option (Pair Continue) (getAnotherTuple vsn msgLength c)
     else if has_status c PGRES_FATAL_ERROR then Some (Consumed, skip_body msgLength c)
     else do {
       c \<leftarrow> save_error vsn ''server sent data (\"D\" message) without prior row description (\"T\" message)\<newline>'' c;
       Some (Consumed, skip_body msgLength c) })"

definition copy_start :: "ExecStatusType \<Rightarrow> (client \<Rightarrow> client) \<Rightarrow> client \<Rightarrow> (parse_action \<times> client) option" where
  "copy_start st f c = if_read (getCopyStart st c) f"

text \<open>The \<open>switch\<close> of the state BUSY.\<close>

definition busy_message :: "(char \<Rightarrow> bool) \<Rightarrow> formatter \<Rightarrow> byte \<Rightarrow> nat \<Rightarrow> client \<Rightarrow> (parse_action \<times> client) option" where
  "busy_message isalnum vsn mtype msgLength c = (
     let t = char_of (unat mtype) :: char in
     if t = CHR ''C'' then command_complete vsn c
     else if t = CHR ''E'' then if_read (pqGetErrorNotice3 vsn True c) (set_async PGASYNC_READY)
     else if t = CHR ''Z'' then if_read (getReadyForQuery c) (set_async PGASYNC_IDLE)
     else if t = CHR ''I'' then
       map_option (\<lambda>c. (Consumed, set_async PGASYNC_READY c)) (ensure_result vsn PGRES_EMPTY_QUERY c)
     else if t = CHR ''1'' then
       (if queryclass c = PGQUERY_PREPARE
        then map_option (\<lambda>c. (Consumed, set_async PGASYNC_READY c)) (ensure_result vsn PGRES_COMMAND_OK c)
        else Some (Consumed, c))
     else if t = CHR ''2'' \<or> t = CHR ''3'' then Some (Consumed, c)
     else if t = CHR ''S'' then if_read (getParameterStatus isalnum c) (\<lambda>c. c)
     else if t = CHR ''K'' then backend_key c
     else if t = CHR ''T'' then row_description vsn msgLength c
     else if t = CHR ''n'' then
       (if queryclass c = PGQUERY_DESCRIBE
        then map_option (\<lambda>c. (Consumed, set_async PGASYNC_READY c)) (ensure_result vsn PGRES_COMMAND_OK c)
        else Some (Consumed, c))
     else if t = CHR ''t'' then
       map_option (\<lambda>(ok, c). (if ok then Continue else Stop, c)) (getParamDescriptions vsn msgLength c)
     else if t = CHR ''D'' then data_row vsn msgLength c
     else if t = CHR ''G'' then copy_start PGRES_COPY_IN (set_async PGASYNC_COPY_IN) c
     else if t = CHR ''H'' then copy_start PGRES_COPY_OUT (\<lambda>c. set_async PGASYNC_COPY_OUT (c\<lparr>copy_already_done := 0\<rparr>)) c
     else if t = CHR ''W'' then copy_start PGRES_COPY_BOTH (\<lambda>c. set_async PGASYNC_COPY_BOTH (c\<lparr>copy_already_done := 0\<rparr>)) c
     else if t = CHR ''d'' then Some (Consumed, skip_body msgLength c)
     else if t = CHR ''c'' then Some (Consumed, c)
     else do {
       c \<leftarrow> save_error vsn (fmt_args
         ''unexpected response from server; first received character was \"%c\"\<newline>'' [[mtype]]) c;
       Some (Consumed, skip_body msgLength (set_async PGASYNC_READY c)) })"

text \<open>A message in the state IDLE.\<close>

definition idle_message :: "(char \<Rightarrow> bool) \<Rightarrow> formatter \<Rightarrow> byte \<Rightarrow> nat \<Rightarrow> client \<Rightarrow> (parse_action \<times> client) option" where
  "idle_message isalnum vsn mtype msgLength c = (
     let t = char_of (unat mtype) :: char in
     if t = CHR ''E'' then if_read (pqGetErrorNotice3 vsn False c) (\<lambda>c. c)
     else if t = CHR ''S'' then if_read (getParameterStatus isalnum c) (\<lambda>c. c)
     else do {
       c \<leftarrow> pqInternalNotice vsn (fmt_args ''message type 0x%02x arrived from server while idle'' [[mtype]]) c;
       Some (Consumed, skip_body msgLength c) })"

definition parse_body :: "(char \<Rightarrow> bool) \<Rightarrow> formatter \<Rightarrow> byte \<Rightarrow> nat \<Rightarrow> client \<Rightarrow> (parse_action \<times> client) option" where
  "parse_body isalnum vsn mtype msgLength c = (
     let t = char_of (unat mtype) :: char in
     if t = CHR ''A'' then if_read (getNotify c) (\<lambda>c. c)
     else if t = CHR ''N'' then if_read (pqGetErrorNotice3 vsn False c) (\<lambda>c. c)
     else if asyncStatus c \<noteq> PGASYNC_BUSY then
       (if asyncStatus c \<noteq> PGASYNC_IDLE then Some (Stop, c) else idle_message isalnum vsn mtype msgLength c)
     else busy_message isalnum vsn mtype msgLength c)"

section \<open>The loop\<close>

text \<open>The check behind a message that has been consumed.\<close>

definition check_consumed :: "formatter \<Rightarrow> byte \<Rightarrow> nat \<Rightarrow> client \<Rightarrow> client option" where
  "check_consumed vsn mtype msgLength c =
    (if whole_message msgLength c then Some (message_done c)
     else do {
       c \<leftarrow> save_error vsn (fmt_args ''message contents do not agree with length in message type \"%c\"\<newline>'' [[mtype]]) c;
       Some (skip_message msgLength (set_async PGASYNC_READY c)) })"

text \<open>One round of the loop; the result says whether there is another.\<close>

definition parse_message :: "(char \<Rightarrow> bool) \<Rightarrow> formatter \<Rightarrow> client \<Rightarrow> (bool \<times> client) option" where
  "parse_message isalnum vsn c = do {
     let c = c\<lparr>conn := (conn c)\<lparr>inCursor := inStart (conn c)\<rparr>\<rparr>;
     (mtype, c) \<leftarrow> get_char c;
     case mtype of
       None \<Rightarrow> Some (False, c)
     | Some mtype \<Rightarrow> do {
         (len, c) \<leftarrow> get_int 4 c;
         case len of
           None \<Rightarrow> Some (False, c)
         | Some len \<Rightarrow>
             if len < 4 \<or> (len > 30000 \<and> \<not> VALID_LONG_MESSAGE_TYPE mtype)
             then map_option (Pair False) (handleSyncLoss vsn mtype len c)
             else (let msgLength = nat (len - 4) in
               if inEnd (conn c) - inCursor (conn c) < msgLength then do {
                 (ok, k, h) \<leftarrow> pqCheckInBufferSpace vsn (size_t (inCursor (conn c) + msgLength)) (conn c) (mem c);
                 let c = c\<lparr>conn := k, mem := h\<rparr>;
                 if ok then Some (False, c) else map_option (Pair False) (handleSyncLoss vsn mtype (int msgLength) c) }
               else do {
                 (act, c) \<leftarrow> parse_body isalnum vsn mtype msgLength c;
                 case act of
                   Stop \<Rightarrow> Some (False, c)
                 | Continue \<Rightarrow> Some (True, c)
                 | Consumed \<Rightarrow> map_option (Pair True) (check_consumed vsn mtype msgLength c) }) } }"

partial_function (option) pqParseInput3 :: "(char \<Rightarrow> bool) \<Rightarrow> formatter \<Rightarrow> client \<Rightarrow> client option" where
  "pqParseInput3 isalnum vsn c = do {
     (more, c) \<leftarrow> parse_message isalnum vsn c;
     if more then pqParseInput3 isalnum vsn c else Some c }"

end
