(* ===== verification/Parser.thy ===== *)
theory Parser
  imports Protocol3
begin

text \<open>
  What the parser of messages does: the loop of \<open>pqParseInput3\<close> on the input as a sequence of messages.
\<close>

section \<open>A round of the loop\<close>

definition rewind :: "client \<Rightarrow> client" where
  "rewind c = c\<lparr>conn := (conn c)\<lparr>inCursor := inStart (conn c)\<rparr>\<rparr>"

lemma rewind_simps [simp]:
  "result (rewind c) = result c" "mem (rewind c) = mem c" "asyncStatus (rewind c) = asyncStatus c" "queryclass (rewind c) = queryclass c"
  "singleRowMode (rewind c) = singleRowMode c" "next_result (rewind c) = next_result c" "inStart (conn (rewind c)) = inStart (conn c)"
  "inCursor (conn (rewind c)) = inStart (conn c)" "inEnd (conn (rewind c)) = inEnd (conn c)" "verbosity (rewind c) = verbosity c"
  "inBuffer (conn (rewind c)) = inBuffer (conn c)"
  by (simp_all add: rewind_def)

lemma state_inv_rewind [simp]: "state_inv (rewind c) = state_inv c"
  by (simp add: state_inv_def rewind_def)

lemma unread_rewind: "unread (rewind c) = in_data (conn c)"
  by (simp add: unread_def in_unread_def in_data_def)

text \<open>The state between two messages.\<close>

definition ready :: "client \<Rightarrow> bool" where
  "ready c \<longleftrightarrow> state_inv c \<and> conn_inv (conn (rewind c))"

text \<open>The state behind the type and the length of a message.\<close>

definition at_body :: "client \<Rightarrow> client" where
  "at_body c = adv 5 (rewind c)"

lemma at_body_simps [simp]:
  "result (at_body c) = result c" "mem (at_body c) = mem c" "asyncStatus (at_body c) = asyncStatus c" "queryclass (at_body c) = queryclass c"
  "singleRowMode (at_body c) = singleRowMode c" "next_result (at_body c) = next_result c" "inStart (conn (at_body c)) = inStart (conn c)"
  "inCursor (conn (at_body c)) = inStart (conn c) + 5" "state_inv (at_body c) = state_inv c" "inEnd (conn (at_body c)) = inEnd (conn c)"
  by (simp_all add: at_body_def)

lemma same_data_at_body: "same_data c (at_body c)" "rows (at_body c) = rows c" "verbosity (at_body c) = verbosity c"
  by (simp_all add: at_body_def rewind_def adv_def same_data_def same_buffers_def rows_def)

definition bad_length :: "byte \<Rightarrow> int \<Rightarrow> bool" where
  "bad_length mtype len \<longleftrightarrow> len < 4 \<or> (len > 30000 \<and> \<not> VALID_LONG_MESSAGE_TYPE mtype)"

definition treat_message :: "(char \<Rightarrow> bool) \<Rightarrow> formatter \<Rightarrow> byte \<Rightarrow> nat \<Rightarrow> client \<Rightarrow> (bool \<times> client) option" where
  "treat_message isalnum vsn mtype L c = do {
     (act, c) \<leftarrow> parse_body isalnum vsn mtype L c;
     case act of
       Stop \<Rightarrow> Some (False, c)
     | Continue \<Rightarrow> Some (True, c)
     | Consumed \<Rightarrow> map_option (Pair True) (check_consumed vsn mtype L c) }"

definition await_message :: "formatter \<Rightarrow> byte \<Rightarrow> nat \<Rightarrow> client \<Rightarrow> (bool \<times> client) option" where
  "await_message vsn mtype L c = do {
     (ok, k, h) \<leftarrow> pqCheckInBufferSpace vsn (size_t (inCursor (conn c) + L)) (conn c) (mem c);
     let c = c\<lparr>conn := k, mem := h\<rparr>;
     if ok then Some (False, c) else map_option (Pair False) (handleSyncLoss vsn mtype (int L) c) }"

lemma parse_message_cases:
  assumes "ready c"
  shows "parse_message isalnum vsn c = (case in_data (conn c) of
      [] \<Rightarrow> Some (False, rewind c)
    | t # s \<Rightarrow> if length s < 4 then Some (False, adv 1 (rewind c))
        else if bad_length t (be_int 4 s) then map_option (Pair False) (handleSyncLoss vsn t (be_int 4 s) (at_body c))
        else if length s - 4 < nat (be_int 4 s - 4) then await_message vsn t (nat (be_int 4 s - 4)) (at_body c)
        else treat_message isalnum vsn t (nat (be_int 4 s - 4)) (at_body c))"
proof -
  have i: "conn_inv (conn (rewind c))" using assms by (simp add: ready_def)
  have e: "parse_message isalnum vsn c = do {
     (mtype, c) \<leftarrow> get_char (rewind c);
     case mtype of
       None \<Rightarrow> Some (False, c)
     | Some mtype \<Rightarrow> do {
         (len, c) \<leftarrow> get_int 4 c;
         case len of
           None \<Rightarrow> Some (False, c)
         | Some len \<Rightarrow> if bad_length mtype len then map_option (Pair False) (handleSyncLoss vsn mtype len c)
             else if inEnd (conn c) - inCursor (conn c) < nat (len - 4) then await_message vsn mtype (nat (len - 4)) c
             else treat_message isalnum vsn mtype (nat (len - 4)) c } }"
    unfolding parse_message_def rewind_def [symmetric] bad_length_def await_message_def treat_message_def Let_def by (rule refl)
  show ?thesis
  proof (cases "in_data (conn c)")
    case Nil
    then show ?thesis unfolding e get_char_returns [OF i] unread_rewind by simp
  next
    case (Cons t s)
    have u: "unread (rewind c) = t # s" using Cons by (simp add: unread_rewind)
    have i1: "conn_inv (conn (adv 1 (rewind c)))" "unread (adv 1 (rewind c)) = s" using unread_adv [OF i, of 1] u by simp_all
    have g: "get_int 4 (adv 1 (rewind c)) = (if length s < 4 then Some (None, adv 1 (rewind c)) else Some (Some (be_int 4 s), at_body c))"
      unfolding at_body_def using get_int_returns [OF i1(1), of 4] i1(2) by simp
    have l: "inEnd (conn (at_body c)) - inCursor (conn (at_body c)) = length s - 4"
      using unread_length [OF i] u by simp
    show ?thesis unfolding e get_char_returns [OF i] u using Cons g l by simp
  qed
qed

lemma same_buffers_in_data:
  assumes "same_buffers (conn c) (conn c')" "inStart (conn c') = inStart (conn c) + n"
  shows "in_data (conn c') = drop n (in_data (conn c))"
  using assms by (simp add: same_buffers_def in_data_def drop_take add.commute)

lemma ready_kept1:
  assumes "ready c" "kept1 c c'" "inStart (conn c') = inStart (conn c) + n" "n \<le> length (in_data (conn c))"
  shows "ready c'" "in_data (conn c') = drop n (in_data (conn c))"
proof -
  have k: "state_inv c'" "same_buffers (conn c) (conn c')" using assms(2) by (simp_all add: kept1_def same_data_def)
  have i: "conn_inv (conn (rewind c))" using assms(1) by (simp add: ready_def)
  have "length (in_data (conn c)) = inEnd (conn c) - inStart (conn c)" using unread_length [OF i] by (simp add: unread_rewind)
  moreover have "inStart (conn c) \<le> inEnd (conn c)" using i by (simp add: conn_inv_def)
  ultimately have "inStart (conn c') \<le> inEnd (conn c)" using assms(3,4) by linarith
  moreover have "eb_inv (errorMessage (conn c'))" using k(1) by (simp add: state_inv_def)
  ultimately have "conn_inv (conn (rewind c'))" using i k(2) by (simp add: conn_inv_def rewind_def same_buffers_def)
  then show "ready c'" using k(1) by (simp add: ready_def)
  show "in_data (conn c') = drop n (in_data (conn c))" by (rule same_buffers_in_data [OF k(2) assms(3)])
qed

section \<open>Messages\<close>

text \<open>A message as the server sends it.\<close>

definition frame :: "char \<Rightarrow> byte list \<Rightarrow> byte list" where
  "frame t body = of_char t # htonl (length body + 4) @ body"

lemma frame_length [simp]: "length (frame t body) = length body + 5"
  by (simp add: frame_def)

lemma parse_frame:
  assumes "ready c" "in_data (conn c) = frame t body @ rest" "length body \<le> 29996 \<or> VALID_LONG_MESSAGE_TYPE (of_char t)"
  shows "parse_message isalnum vsn c = treat_message isalnum vsn (of_char t) (length body) (at_body c)"
    "conn_inv (conn (at_body c))" "unread (at_body c) = body @ rest"
proof -
  have i: "conn_inv (conn (rewind c))" using assms(1) by (simp add: ready_def)
  have u: "unread (rewind c) = frame t body @ rest" by (simp add: unread_rewind assms(2))
  show "conn_inv (conn (at_body c))" "unread (at_body c) = body @ rest"
    unfolding at_body_def using unread_adv [OF i, of 5] u by (simp_all add: frame_def)
  have "inEnd (conn (rewind c)) \<le> INT_MAX" using i by (simp add: conn_inv_def)
  then have "length body + 5 \<le> INT_MAX" using unread_length [OF i] u by simp
  then have b: "be_int 4 (htonl (length body + 4) @ body @ rest) = int (length body + 4)"
    by (simp add: be_int_htonl INT_MAX_eq int32_id)
  have nb: "\<not> bad_length (of_char t) (int (length body + 4))" using assms(3) by (auto simp: bad_length_def)
  show "parse_message isalnum vsn c = treat_message isalnum vsn (of_char t) (length body) (at_body c)"
    unfolding parse_message_cases [OF assms(1)] assms(2) frame_def using b nb by simp
qed

lemma char_of_byte [simp]: "char_of (unat (of_char t :: byte)) = t"
proof -
  have "(of_char t :: byte) = of_nat (of_char t)" by (rule of_nat_of_char [symmetric])
  moreover have "of_char t < (256 :: nat)" by simp
  ultimately have "unat (of_char t :: byte) = of_char t" by (simp add: unat_of_nat_byte)
  then show ?thesis by simp
qed

lemma long_types: "t = CHR ''T'' \<or> t = CHR ''D'' \<Longrightarrow> n \<le> 29996 \<or> VALID_LONG_MESSAGE_TYPE (of_char t)"
  unfolding VALID_LONG_MESSAGE_TYPE_def char_of_byte Let_def by blast

text \<open>A query whose rows are coming in: the result represents the rows so far.\<close>

definition collecting :: "byte list list \<Rightarrow> cell list list \<Rightarrow> client \<Rightarrow> bool" where
  "collecting N T c \<longleftrightarrow> ready c \<and> asyncStatus c = PGASYNC_BUSY \<and> \<not> singleRowMode c \<and> queryclass c \<noteq> PGQUERY_DESCRIBE
     \<and> (\<exists>r. result c = Some r \<and> represents r T \<and> column_names r N \<and> resultStatus r = PGRES_TUPLES_OK)"

definition waiting :: "client \<Rightarrow> bool" where
  "waiting c \<longleftrightarrow> ready c \<and> asyncStatus c = PGASYNC_BUSY \<and> \<not> singleRowMode c \<and> queryclass c \<noteq> PGQUERY_DESCRIBE \<and> result c = None"

lemma description_step:
  assumes c: "waiting c" "formatter_ok vsn" "in_data (conn c) = frame CHR ''T'' body @ rest"
    and d: "decode_description body = Some N" and p: "plenty (3 * length N + 3 + k) (mem c)"
  shows "\<exists>c'. parse_message isalnum vsn c = Some (True, c') \<and> collecting N [] c' \<and> in_data (conn c') = rest \<and> plenty k (mem c')"
proof -
  have w: "ready c" "asyncStatus c = PGASYNC_BUSY" "\<not> singleRowMode c" "queryclass c \<noteq> PGQUERY_DESCRIBE" "result c = None"
    using c(1) by (simp_all add: waiting_def)
  note f = parse_frame [OF w(1) c(3) long_types, OF disjI1 [OF refl]]
  let ?d = "at_body c"
  have s: "state_inv ?d" using w(1) by (simp add: ready_def)
  obtain c' where c': "getRowDescriptions vsn (length body) ?d = Some c'" "description_read (length body) ?d c'"
    using getRowDescriptions_returns [OF c(2) s f(2), of "length body"] f(3) w(5) by (auto simp: returns_def)
  have dd: "description_done ?d N c'" "plenty k (mem c')" and st: "inStart (conn c') = inStart (conn c) + 5 + length body"
    using c'(2) d p f(3) unfolding description_read_def by simp_all
  have m: "parse_message isalnum vsn c = Some (True, c')"
    unfolding f(1) treat_message_def parse_body_def busy_message_def row_description_def has_status_def Let_def char_of_byte using w c'(1) by simp
  have "kept ?d c'" using dd(1) by (simp add: description_done_def)
  then have "kept1 c c'" using kept_kept1 same_data_at_body [of c] same_data_trans by (fastforce simp: kept1_def)
  moreover have st': "inStart (conn c') = inStart (conn c) + length (frame CHR ''T'' body)" using st by simp
  moreover have "length (frame CHR ''T'' body) \<le> length (in_data (conn c))" using c(3) by simp
  ultimately have r: "ready c'" "in_data (conn c') = rest" using ready_kept1 [OF w(1)] c(3) by auto
  have sd: "queryclass c' = queryclass c" "singleRowMode c' = singleRowMode c" using \<open>kept1 c c'\<close> by (simp_all add: kept1_def same_data_def)
  have "collecting N [] c'" using dd(1) w r(1) sd by (auto simp: collecting_def description_done_def)
  then show ?thesis using m r(2) dd(2) by blast
qed

lemma row_step:
  assumes c: "collecting N T c" "formatter_ok vsn" "in_data (conn c) = frame CHR ''D'' (encode_row row) @ rest"
    and row: "length row = length N" "list_all cell_fits row" "length T < 2 ^ 29" and p: "plenty (2 * length N + 5 + k) (mem c)"
  shows "\<exists>c'. parse_message isalnum vsn c = Some (True, c') \<and> collecting N (T @ [row]) c' \<and> in_data (conn c') = rest \<and> plenty k (mem c')"
proof -
  obtain r where w: "ready c" "asyncStatus c = PGASYNC_BUSY" "\<not> singleRowMode c" "queryclass c \<noteq> PGQUERY_DESCRIBE"
    and r: "result c = Some r" "represents r T" "column_names r N" "resultStatus r = PGRES_TUPLES_OK"
    using c(1) by (auto simp: collecting_def)
  let ?body = "encode_row row"
  note f = parse_frame [OF w(1) c(3) long_types, OF disjI2 [OF refl]]
  let ?d = "at_body c"
  have s: "state_inv ?d" using w(1) by (simp add: ready_def)
  have ri: "result_inv r" using w(1) r(1) by (simp add: ready_def state_inv_def)
  have n: "numAttributes r = length N" "ntups r < 2 ^ 29" "length row < 2 ^ 16"
    using r(3) row(1,3) represents_sizes(1) [OF r(2)] ri by (simp_all add: column_names_def result_inv_def)
  have d: "decode_row (length N) ?body = Some row" using decode_encode_row [OF n(3) row(2)] row(1) by simp
  obtain c' where c': "getAnotherTuple vsn (length ?body) ?d = Some c'" "row_read (length ?body) ?d T N (length N) c'"
    using getAnotherTuple_returns [OF c(2) s f(2), of "length ?body" r T N] f(3) r n(1,2) by (auto simp: returns_def)
  have dd: "kept1 ?d c'" "row_done ?d T N row c'" "plenty k (mem c')" and st: "inStart (conn c') = inStart (conn c) + 5 + length ?body"
    using c'(2) d p f(3) unfolding row_read_def by simp_all
  have m: "parse_message isalnum vsn c = Some (True, c')"
    unfolding f(1) treat_message_def parse_body_def busy_message_def data_row_def has_status_def Let_def char_of_byte using w r c'(1) by simp
  have k1: "kept1 c c'" using dd(1) same_data_at_body [of c] same_data_trans by (fastforce simp: kept1_def)
  moreover have st': "inStart (conn c') = inStart (conn c) + length (frame CHR ''D'' ?body)" using st by simp
  moreover have "length (frame CHR ''D'' ?body) \<le> length (in_data (conn c))" using c(3) by simp
  ultimately have rd: "ready c'" "in_data (conn c') = rest" using ready_kept1 [OF w(1)] c(3) by auto
  have sd: "queryclass c' = queryclass c" "singleRowMode c' = singleRowMode c" using k1 by (simp_all add: kept1_def same_data_def)
  have "collecting N (T @ [row]) c'" using dd(2) w rd(1) sd by (auto simp: collecting_def row_done_def)
  then show ?thesis using m rd(2) dd(3) by blast
qed

lemma state_inv_result:
  "state_inv c \<Longrightarrow> result_inv x \<Longrightarrow> PG_VALID_ENCODING (result_encoding x) \<Longrightarrow> queryclass c \<noteq> PGQUERY_DESCRIBE
    \<Longrightarrow> state_inv (c\<lparr>result := Some x\<rparr>)"
  unfolding state_inv_def by simp

lemma state_inv_done [simp]: "state_inv (message_done c) = state_inv c"
  unfolding state_inv_def message_done_def by simp

lemma complete_step:
  assumes c: "collecting N T c" "in_data (conn c) = frame CHR ''C'' (tag @ [0]) @ rest"
    and tag: "0 \<notin> set tag" "length tag < 29996" and p: "plenty (2 + k) (mem c)"
  shows "\<exists>c' r. parse_message isalnum vsn c = Some (True, c') \<and> ready c' \<and> asyncStatus c' = PGASYNC_READY \<and> result c' = Some r
    \<and> represents r T \<and> column_names r N \<and> resultStatus r = PGRES_TUPLES_OK \<and> cmdStatus r = take 63 tag @ [0]
    \<and> in_data (conn c') = rest \<and> plenty k (mem c')"
proof -
  obtain r where w: "ready c" "asyncStatus c = PGASYNC_BUSY" "queryclass c \<noteq> PGQUERY_DESCRIBE"
    and r: "result c = Some r" "represents r T" "column_names r N" "resultStatus r = PGRES_TUPLES_OK"
    using c(1) by (auto simp: collecting_def)
  have lt: "length (tag @ [0]) \<le> 29996 \<or> VALID_LONG_MESSAGE_TYPE (of_char CHR ''C'')" using tag(2) by simp
  note f = parse_frame [OF w(1) c(2) lt]
  let ?d = "at_body c"
  have s: "state_inv ?d" using w(1) by (simp add: ready_def)
  obtain ok c1 where g: "get_work ?d = Some (ok, c1)" and
    wk: "if ok then \<exists>s r h b t rest. unread ?d = s @ 0 # r \<and> 0 \<notin> set s \<and> c1 = (adv (length s + 1) ?d)\<lparr>mem := h, workBuffer := b\<rparr>
        \<and> eb_inv b \<and> buffer_data b = t @ 0 # rest \<and> 0 \<notin> set t \<and> length t < INT_MAX \<and> (t = s \<or> t = [])
        \<and> (\<forall>k. plenty (Suc (Suc k)) (mem ?d) \<longrightarrow> t = s \<and> plenty k h)
      else 0 \<notin> set (unread ?d) \<and> c1 = ?d"
    using get_work_returns [OF f(2) s] by (auto simp: returns_def)
  have u: "unread ?d = tag @ 0 # rest" using f(3) by simp
  have ok: ok using wk u by (cases ok) simp_all
  then obtain s' r' h b t rest' where d: "unread ?d = s' @ 0 # r'" "0 \<notin> set s'" "c1 = (adv (length s' + 1) ?d)\<lparr>mem := h, workBuffer := b\<rparr>"
    "eb_inv b" "buffer_data b = t @ 0 # rest'" "0 \<notin> set t"
    and pk: "\<forall>k. plenty (Suc (Suc k)) (mem ?d) \<longrightarrow> t = s' \<and> plenty k h" using wk by (simp only: if_True simp_thms) blast
  have st: "s' = tag" using u d(1) c_text_append [OF tag(1), of rest] c_text_append [OF d(2), of r'] by simp
  have tk: "t = tag" "plenty k h" using pk p st by simp_all
  let ?r = "r\<lparr>cmdStatus := take 63 tag @ [0]\<rparr>"
  let ?c2 = "(adv (length tag + 1) ?d)\<lparr>mem := h, workBuffer := b, result := Some ?r, asyncStatus := PGASYNC_READY\<rparr>"
  have cc: "command_complete vsn ?d = Some (Consumed, ?c2)"
    using ok r(1) d(3,5,6) tk(1) st by (simp add: command_complete_def g ensure_result_def strlcpy_def CMDSTATUS_LEN_def set_async_def)
  let ?c3 = "message_done ?c2"
  have wm: "whole_message (length (tag @ [0])) ?c2" by (simp add: whole_message_def)
  have m: "parse_message isalnum vsn c = Some (True, ?c3)"
    unfolding f(1) treat_message_def parse_body_def busy_message_def Let_def char_of_byte using w cc wm by (simp add: check_consumed_def)
  have ri: "result_inv r" "PG_VALID_ENCODING (result_encoding r)" using w(1) r(1) by (simp_all add: ready_def state_inv_def)
  have "state_inv ((adv (length tag + 1) ?d)\<lparr>mem := h, workBuffer := b\<rparr>)" using s d(4) by simp
  then have "state_inv ((adv (length tag + 1) ?d)\<lparr>mem := h, workBuffer := b, result := Some ?r\<rparr>)"
    by (rule state_inv_result) (use ri w(3) in simp_all)
  then have si: "state_inv ?c3" by simp
  have "kept1 c ?c3" using si r(1) by (simp add: kept1_def same_data_def same_buffers_def message_done_def at_body_def adv_def rewind_def)
  moreover have "inStart (conn ?c3) = inStart (conn c) + length (frame CHR ''C'' (tag @ [0]))" by (simp add: message_done_def)
  moreover have "length (frame CHR ''C'' (tag @ [0])) \<le> length (in_data (conn c))" using c(2) by simp
  ultimately have "ready ?c3" "in_data (conn ?c3) = rest" using ready_kept1 [OF w(1)] c(2) by auto
  moreover have "asyncStatus ?c3 = PGASYNC_READY" "result ?c3 = Some ?r" "mem ?c3 = h" by (simp_all add: message_done_def)
  ultimately show ?thesis using m r tk(2) by (intro exI [of _ ?c3] exI [of _ ?r]) simp
qed

text \<open>When the result is ready, the parser leaves the end of the query alone.\<close>

lemma stop_step:
  assumes "ready c" "asyncStatus c = PGASYNC_READY" "in_data (conn c) = [] \<or> (\<exists>body r. in_data (conn c) = frame CHR ''Z'' body @ r \<and> length body \<le> 29996)"
  shows "\<exists>c'. parse_message isalnum vsn c = Some (False, c') \<and> result c' = result c \<and> asyncStatus c' = asyncStatus c \<and> in_data (conn c') = in_data (conn c)"
  using assms(3)
proof
  assume "in_data (conn c) = []"
  then have "parse_message isalnum vsn c = Some (False, rewind c)" unfolding parse_message_cases [OF assms(1)] by simp
  then show ?thesis by (simp add: rewind_def in_data_def)
next
  assume "\<exists>body r. in_data (conn c) = frame CHR ''Z'' body @ r \<and> length body \<le> 29996"
  then obtain body r where z: "in_data (conn c) = frame CHR ''Z'' body @ r" "length body \<le> 29996" by blast
  have "parse_message isalnum vsn c = Some (False, at_body c)"
    unfolding parse_frame(1) [OF assms(1) z(1) disjI1 [OF z(2)]] treat_message_def parse_body_def Let_def char_of_byte using assms(2) by simp
  then show ?thesis by (simp add: at_body_def adv_def rewind_def in_data_def)
qed

lemma parse_round: "parse_message isalnum vsn c = Some (True, c') \<Longrightarrow> pqParseInput3 isalnum vsn c = pqParseInput3 isalnum vsn c'"
  by (subst pqParseInput3.simps) simp

lemma parse_last: "parse_message isalnum vsn c = Some (False, c') \<Longrightarrow> pqParseInput3 isalnum vsn c = Some c'"
  by (subst pqParseInput3.simps) simp

lemma rows_steps:
  assumes "collecting N T c" "formatter_ok vsn" "in_data (conn c) = concat (map (\<lambda>row. frame CHR ''D'' (encode_row row)) R) @ rest"
    and "list_all (\<lambda>row. length row = length N \<and> list_all cell_fits row) R" "length T + length R \<le> 2 ^ 29"
    and "plenty (length R * (2 * length N + 5) + k) (mem c)"
  shows "\<exists>c'. pqParseInput3 isalnum vsn c = pqParseInput3 isalnum vsn c' \<and> collecting N (T @ R) c' \<and> in_data (conn c') = rest \<and> plenty k (mem c')"
  using assms
proof (induction R arbitrary: T c)
  case Nil
  then show ?case by auto
next
  case (Cons row R)
  have row: "length row = length N" "list_all cell_fits row" "length T < 2 ^ 29" using Cons.prems by simp_all
  have i: "in_data (conn c) = frame CHR ''D'' (encode_row row) @ concat (map (\<lambda>row. frame CHR ''D'' (encode_row row)) R) @ rest"
    using Cons.prems(3) by simp
  have p: "plenty (2 * length N + 5 + (length R * (2 * length N + 5) + k)) (mem c)" using Cons.prems(6) by (simp add: algebra_simps)
  obtain c1 where c1: "parse_message isalnum vsn c = Some (True, c1)" "collecting N (T @ [row]) c1"
    "in_data (conn c1) = concat (map (\<lambda>row. frame CHR ''D'' (encode_row row)) R) @ rest" "plenty (length R * (2 * length N + 5) + k) (mem c1)"
    using row_step [OF Cons.prems(1,2) i row p] by blast
  obtain c' where "pqParseInput3 isalnum vsn c1 = pqParseInput3 isalnum vsn c'" "collecting N ((T @ [row]) @ R) c'" "in_data (conn c') = rest" "plenty k (mem c')"
    using Cons.IH [OF c1(2) Cons.prems(2) c1(3) _ _ c1(4)] Cons.prems(4,5) by auto
  then show ?case using parse_round [OF c1(1)] by auto
qed

section \<open>Properties\<close>

text \<open>
  C1: From the bytes of the server to the table. When the input holds a \<open>RowDescription\<close>, any number of
  \<open>DataRow\<close> messages and a \<open>CommandComplete\<close>, in the encoding of the protocol, then \<open>pqParseInput3\<close> returns
  and the result represents exactly these rows in this order, under the names of the columns, with
  the command tag cut to 63 bytes; the result is ready, and a following \<open>ReadyForQuery\<close> is left in the
  input.
\<close>

theorem pqParseInput3_reads_table:
  assumes "waiting c" "formatter_ok vsn"
    and "in_data (conn c) = frame CHR ''T'' (encode_description cols) @ concat (map (\<lambda>row. frame CHR ''D'' (encode_row row)) R)
      @ frame CHR ''C'' (tag @ [0]) @ rest"
    and "rest = [] \<or> (\<exists>body r. rest = frame CHR ''Z'' body @ r \<and> length body \<le> 29996)"
    and "length cols < 2 ^ 16" "list_all (\<lambda>(s, info). 0 \<notin> set s \<and> length info = 18) cols"
    and "list_all (\<lambda>row. length row = length cols \<and> list_all cell_fits row) R" "length R \<le> 2 ^ 29"
    and "0 \<notin> set tag" "length tag < 29996"
    and "plenty (3 * length cols + 3 + (length R * (2 * length cols + 5) + 2)) (mem c)"
  shows "\<exists>c' r. pqParseInput3 isalnum vsn c = Some c' \<and> asyncStatus c' = PGASYNC_READY \<and> in_data (conn c') = rest
    \<and> result c' = Some r \<and> represents r R \<and> column_names r (map fst cols) \<and> resultStatus r = PGRES_TUPLES_OK
    \<and> cmdStatus r = take 63 tag @ [0]"
proof -
  let ?N = "map fst cols"
  have d: "decode_description (encode_description cols) = Some ?N" by (rule decode_encode_description [OF assms(5,6)])
  obtain c1 where c1: "parse_message isalnum vsn c = Some (True, c1)" "collecting ?N [] c1"
    "in_data (conn c1) = concat (map (\<lambda>row. frame CHR ''D'' (encode_row row)) R) @ frame CHR ''C'' (tag @ [0]) @ rest"
    "plenty (length R * (2 * length cols + 5) + 2) (mem c1)"
    using description_step [OF assms(1-3) d, of "length R * (2 * length cols + 5) + 2"] assms(11) by auto
  obtain c2 where c2: "pqParseInput3 isalnum vsn c1 = pqParseInput3 isalnum vsn c2" "collecting ?N R c2"
    "in_data (conn c2) = frame CHR ''C'' (tag @ [0]) @ rest" "plenty (2 + 0) (mem c2)"
    using rows_steps [OF c1(2) assms(2) c1(3), of 2] assms(7,8) c1(4) by auto
  obtain c3 r where c3: "parse_message isalnum vsn c2 = Some (True, c3)" "ready c3" "asyncStatus c3 = PGASYNC_READY" "result c3 = Some r"
    "represents r R" "column_names r ?N" "resultStatus r = PGRES_TUPLES_OK" "cmdStatus r = take 63 tag @ [0]" "in_data (conn c3) = rest"
    using complete_step [OF c2(2,3) assms(9,10) c2(4)] by blast
  obtain c' where c': "parse_message isalnum vsn c3 = Some (False, c')" "result c' = result c3" "asyncStatus c' = asyncStatus c3"
    "in_data (conn c') = in_data (conn c3)" using stop_step [OF c3(2,3)] assms(4) c3(9) by blast
  have "pqParseInput3 isalnum vsn c = Some c'"
    using parse_round [OF c1(1)] c2(1) parse_round [OF c3(1)] parse_last [OF c'(1)] by metis
  then show ?thesis using c' c3 by auto
qed

definition input_client :: "byte list \<Rightarrow> client" where
  "input_client s = (test_client [] None)\<lparr>conn := test_conn\<lparr>inBuffer := s, inBufSize := length s, inEnd := length s\<rparr>\<rparr>"

lemma input_client_ok: "length s \<le> INT_MAX \<Longrightarrow> waiting (input_client s)" "in_data (conn (input_client s)) = s"
proof -
  assume l: "length s \<le> INT_MAX"
  have "state_inv (input_client s)"
    by (simp add: state_inv_def input_client_def test_client_def two_bytes PG_VALID_ENCODING_def PG_LAST_ENCODING_eq)
  moreover have "conn_inv (conn (rewind (input_client s)))"
    using l by (simp add: input_client_def conn_inv_def rewind_def test_conn_def two_bytes INT_MAX_eq)
  ultimately show "waiting (input_client s)" by (simp add: waiting_def ready_def) (simp add: input_client_def test_client_def)
next
  show "in_data (conn (input_client s)) = s" by (simp add: input_client_def in_data_def test_conn_def)
qed

theorem pqParseInput3_reads_table_witness:
  "\<exists>c' r. pqParseInput3 (\<lambda>c. True) plain_formatter (input_client (frame CHR ''T'' (encode_description [([97], replicate 18 0)])
      @ frame CHR ''D'' (encode_row [Value [120, 121]]) @ frame CHR ''C'' ([83, 69, 76] @ [0]) @ frame CHR ''Z'' [73])) = Some c'
    \<and> asyncStatus c' = PGASYNC_READY \<and> result c' = Some r \<and> represents r [[Value [120, 121]]] \<and> column_names r [[97]]
    \<and> cmdStatus r = [83, 69, 76, 0]"
proof -
  let ?cols = "[([97], replicate 18 0)] :: (byte list \<times> byte list) list" and ?R = "[[Value [120, 121]]]"
  let ?s = "frame CHR ''T'' (encode_description ?cols) @ concat (map (\<lambda>row. frame CHR ''D'' (encode_row row)) ?R)
      @ frame CHR ''C'' ([83, 69, 76] @ [0]) @ frame CHR ''Z'' [73]"
  have "length ?s \<le> INT_MAX" by (simp add: encode_description_def encode_row_def INT_MAX_eq)
  note w = input_client_ok(1) [OF this] input_client_ok(2) [of ?s]
  have p: "plenty (3 * length ?cols + 3 + (length ?R * (2 * length ?cols + 5) + 2)) (mem (input_client ?s))"
    by (simp add: plenty_def input_client_def)
  have z: "frame CHR ''Z'' [73] = [] \<or> (\<exists>body r. frame CHR ''Z'' [73] = frame CHR ''Z'' body @ r \<and> length body \<le> 29996)"
    by (intro disjI2 exI [of _ "[73]"] exI [of _ "[]"]) simp
  show ?thesis
    using pqParseInput3_reads_table [OF w(1) plain_formatter_ok w(2) z _ _ _ _ _ _ p, of "\<lambda>c. True"] by auto
qed

end
