(* ===== verification/Spec2Isabelle.thy ===== *)
theory Spec2Isabelle
  imports Charinc Bytea Parser
begin

text \<open>
  A verification of the C client library that dbhandler links to talk to PostgreSQL: libpq of
  PostgreSQL 9.6, vendored under \<^verbatim>\<open>src/libpg/src\<close>, with the multibyte support it contains.
  dbhandler (\<^verbatim>\<open>libpostgres/database_postgres.cpp\<close>) connects, runs and prepares statements, and reads
  results with \<open>PQgetvalue\<close>; everything it sends and receives goes through the parts modelled here.

  \<^bold>\<open>The parts and how they interact.\<close> Text that an application passes in or gets back is in one of
  42 encodings (\<^verbatim>\<open>mb/pg_wchar.h\<close>, \<^verbatim>\<open>encnames.c\<close>, \<^verbatim>\<open>wchar.c\<close>). Text is escaped before it becomes part of
  a statement (\<^verbatim>\<open>fe-exec.c\<close>), messages are put together and taken apart in the buffers of the
  connection (\<^verbatim>\<open>fe-misc.c\<close>), bytes move between these buffers and the socket (\<^verbatim>\<open>fe-misc.c\<close>,
  \<^verbatim>\<open>fe-secure.c\<close>), and the messages of the server are parsed (\<^verbatim>\<open>fe-protocol3.c\<close>) and stored in a
  result object (\<^verbatim>\<open>fe-exec.c\<close>). All of them report errors through extensible string buffers (\<^verbatim>\<open>pqexpbuffer.c\<close>).

  \<^bold>\<open>Theories.\<close>
  \<^item> \<open>Prelude\<close>: bytes as \<open>8 word\<close>, reads and writes in bounds (\<open>peek\<close>, \<open>poke\<close>, \<open>blit\<close>, where \<open>None\<close> is
    undefined behaviour of C), facts about bytes.
  \<^item> \<open>Enc_Ids\<close>, \<open>Enc_Names\<close>: the enum \<open>pg_enc\<close> and its range macros; the tables of \<^verbatim>\<open>encnames.c\<close> with
    \<open>clean_encoding_name\<close> and the binary search of \<open>pg_char_to_encoding\<close>.
  \<^item> \<open>Mb_Length\<close>, \<open>Utf8\<close>, \<open>Utf8_Width\<close>, \<open>Mb_Verify\<close>, \<open>Mb_Encoding\<close>: per encoding of \<^verbatim>\<open>wchar.c\<close> the
    functions for length, display width and verification; \<open>Mb_Encoding\<close> states as the locale
    \<open>mb_encoding\<close> what a verifier promises and interprets it for every entry of the table.
  \<^item> \<open>Wchar_Conv\<close>, \<open>Wchar_Codec\<close>: conversions to and from \<open>pg_wchar\<close>, as codecs with round trips.
  \<^item> \<open>Wchar_Table\<close>, \<open>Wchar_Verify\<close>, \<open>Charinc\<close>: \<open>pg_wchar_table\<close> and its dispatchers, the verification
    of whole strings with its error reports, and the character incrementers.
  \<^item> \<open>C_Heap\<close>, \<open>Exp_Buffer\<close>: the C allocator as a list of yes and no answers, and all of
    \<^verbatim>\<open>pqexpbuffer.c\<close>. A buffer is a record of data, length and size, and \<open>eb_text\<close> is the text it
    stands for.
  \<^item> \<open>PG_Conn\<close>: the fields of \<open>pg_conn\<close> (\<^verbatim>\<open>libpq-int.h\<close>) that are used, and error messages.
  \<^item> \<open>Escape_String\<close>, \<open>Escape_Quote\<close>, \<open>Bytea\<close>: \<open>PQescapeStringConn\<close>, \<open>PQescapeLiteral\<close>,
    \<open>PQescapeIdentifier\<close>, \<open>PQescapeByteaConn\<close> and \<open>PQunescapeBytea\<close> of \<^verbatim>\<open>fe-exec.c\<close>.
  \<^item> \<open>Conn_Buffer\<close>: the first half of \<^verbatim>\<open>fe-misc.c\<close>, buffer space, the get and put functions, and the
    framing of messages.
  \<^item> \<open>Conn_IO\<close>: the second half, \<open>pqReadData\<close>, \<open>pqSendSome\<close>, \<open>pqFlush\<close> and the waiting functions, with
    the raw reads and writes of \<^verbatim>\<open>fe-secure.c\<close>, \<open>pqDropConnection\<close> and \<open>pqPacketSend\<close> of
    \<^verbatim>\<open>fe-connect.c\<close> and \<open>PQconsumeInput\<close>.
  \<^item> \<open>Result_Space\<close>, \<open>Result\<close>: the object \<open>PGresult\<close>, its block allocator \<open>pqResultAlloc\<close>, and the
    functions that make, fill, copy, free and read it.
  \<^item> \<open>Client\<close>: the fields of \<open>pg_conn\<close> for the query in progress, and the functions of \<^verbatim>\<open>fe-exec.c\<close> that
    replace its result or hand it out.
  \<^item> \<open>Row_Data\<close>, \<open>Param_Status\<close>, \<open>Error_Position\<close>, \<open>Error_Report\<close>, \<open>Protocol3\<close>: the message parser of
    \<^verbatim>\<open>fe-protocol3.c\<close>, the handlers for descriptions and rows, for parameters and short messages, for
    errors and notices, and the loop \<open>pqParseInput3\<close> that calls them.
  \<^item> \<open>Row_Message\<close>, \<open>Parser\<close>: what these do. \<open>Row_Message\<close> compares the handlers with decoders of the
    messages, \<open>Parser\<close> follows the loop over a sequence of messages.

  \<^bold>\<open>How C is modelled.\<close> A function of C is a function that takes and returns the state it works on;
  reads and writes out of bounds, null dereferences and loops that do not end have the result
  \<open>None\<close> of the outer option, so that every theorem of the form \<open>\<exists>r. f x = Some r\<close> states that the
  code returns and stays inside its memory. C errors (\<open>NULL\<close>, \<open>EOF\<close>, -1) are ordinary results. Sizes
  have 32 bits, as in the Win32 configuration, and wrap around; an \<open>int\<close> wraps around with \<open>int32\<close>
  where the code counts on it. Loops that need an argument to end are \<open>partial_function (option)\<close>;
  no fuel is used.

  \<^bold>\<open>Parameters.\<close> Code outside of the sources is a parameter: the answers of \<open>malloc\<close> and the contents
  of fresh memory (\<open>heap\<close>), \<open>vsnprintf\<close> with the contract of C99 or of older libraries
  (\<open>vsn_formats\<close>), the answers of \<open>recv\<close>, \<open>send\<close>, \<open>select\<close> and \<open>time\<close> (\<open>net\<close>), and the character
  classes of the locale (\<open>ctype\<close>). \<open>plenty k h\<close> says that the next \<open>k\<close> allocations succeed;
  \<open>fair_net\<close> that the calls are not interrupted and sending is not refused for ever.

  \<^bold>\<open>What the lemmas show.\<close> Verification accepts exactly the well-formed text of each encoding, and
  conversions lose nothing. String buffers refine operations on texts. Escaped text and binary data
  read back as what was escaped, and no input makes the escaping functions leave their buffers.
  Messages are framed exactly, and read back field by field; buffers keep their data when they grow.
  Sending and receiving lose, repeat and reorder nothing on any network, and end on every fair one.
  Objects in a result never overlap, and a result refines a table of cells under \<open>PQsetvalue\<close>,
  \<open>PQcopyResult\<close> and the access functions. Whatever bytes a \<open>RowDescription\<close> or \<open>DataRow\<close> message has,
  its handler ends behind it, and either stores what the bytes decode to or makes the result an error;
  \<open>pqParseInput3\<close> turns the messages of a query into the table they encode. A parameter reads back as
  what was reported last. Of the other handlers the definitions are given, without theorems. Some theorems exhibit behaviour that the sources do not
  intend; they are the findings of the manifest.

  \<^bold>\<open>Not modelled.\<close> Authentication, SSL, large objects, printing and events of libpq, the parsing of
  connection strings and the state machine of connecting, sending queries, \<open>PQgetResult\<close> and \<open>PQfn\<close>, the
  transfer of \<open>COPY\<close> data and the older protocol 2; the trace output to \<open>Pfdebug\<close>, notice receivers and
  event procedures, which are output or call the application; the server and the programs of PostgreSQL, which are vendored but not built; and the C++ code of dbhandler.
\<close>

end
